(* ===== verification/Prelude.thy ===== *)
theory Prelude
  imports Main "HOL-Library.Word"
begin

unbundle bit_operations_syntax

text \<open>
  The vocabulary shared by every component: bytes and machine words, the C limits the code
  compares with, the outcome of a C operation (a value, an error pushed on the error queue, or a
  read outside the caller's buffer), big-endian values of byte strings, and the collections of
  rewrite rules (\<open>byte_simps\<close>, \<open>outcome_splits\<close>) the component proofs draw on.
\<close>

named_theorems byte_simps "masks and shifts of single bytes as arithmetic on their values"

section \<open>Types and limits\<close>

type_synonym u8 = "8 word"
type_synonym u32 = "32 word"
type_synonym u64 = "64 word"
type_synonym bytes = "u8 list"

abbreviation (input) INT_MAX :: int where "INT_MAX \<equiv> 2147483647"
abbreviation (input) INT_MIN :: int where "INT_MIN \<equiv> - 2147483648"
abbreviation (input) LONG_MAX :: int where "LONG_MAX \<equiv> 9223372036854775807"
abbreviation (input) LONG_MIN :: int where "LONG_MIN \<equiv> - 9223372036854775808"

section \<open>Outcomes of C operations\<close>

text \<open>
  \<open>UB\<close> is undefined behaviour: a read or write outside a buffer, or a signed overflow; \<open>Fail e\<close> is an
  error return with the reason pushed on the error queue; \<open>Ok\<close> is a normal return.
\<close>

datatype ('e, 'a) outcome = UB | Fail 'e | Ok 'a

fun is_ok :: "('e, 'a) outcome \<Rightarrow> bool" where
  "is_ok (Ok _) = True"
| "is_ok _ = False"

lemma is_ok_iff: "is_ok r \<longleftrightarrow> (\<exists>a. r = Ok a)"
  by (cases r) auto

fun bind_outcome :: "('e, 'a) outcome \<Rightarrow> ('a \<Rightarrow> ('e, 'b) outcome) \<Rightarrow> ('e, 'b) outcome" where
  "bind_outcome UB f = UB"
| "bind_outcome (Fail e) f = Fail e"
| "bind_outcome (Ok a) f = f a"

lemma bind_outcome_Ok_iff:
  "bind_outcome m f = Ok b \<longleftrightarrow> (\<exists>a. m = Ok a \<and> f a = Ok b)"
  by (cases m) auto

lemma bind_outcome_UB_iff:
  "bind_outcome m f = UB \<longleftrightarrow> m = UB \<or> (\<exists>a. m = Ok a \<and> f a = UB)"
  by (cases m) auto

lemma bind_outcome_cong [fundef_cong]:
  "m = m' \<Longrightarrow> (\<And>a. m' = Ok a \<Longrightarrow> f a = f' a) \<Longrightarrow> bind_outcome m f = bind_outcome m' f'"
  by (cases m') auto

lemma bind_outcome_split:
  "P (bind_outcome m f) \<longleftrightarrow>
     (m = UB \<longrightarrow> P UB) \<and> (\<forall>e. m = Fail e \<longrightarrow> P (Fail e)) \<and> (\<forall>a. m = Ok a \<longrightarrow> P (f a))"
  by (cases m) auto

lemmas outcome_splits = outcome.splits bind_outcome_split

section \<open>Bytes as numbers\<close>

lemma unat_u8_bound: "unat (b::u8) < 256"
  by (rule order_less_le_trans [OF unsigned_less]) simp

lemma uint_u8_bounds: "0 \<le> uint (b::u8)" "uint b < 256"
  by (simp, rule order_less_le_trans [OF unsigned_less]) simp

lemma int_unat_u8: "int (unat (b::u8)) = uint b"
  by (rule uint_nat [symmetric])

lemma le_unat_u8: "k \<le> unat (b::u8) \<longleftrightarrow> int k \<le> uint b"
  using int_unat_u8 [of b] by linarith

text \<open>A fact about one byte is checked on its 256 values: \<open>by (induct b rule: u8_check) code_simp\<close>.\<close>

lemma u8_check: "list_all P (map word_of_int [0..255]) \<Longrightarrow> P (b::u8)"
proof -
  assume "list_all P (map word_of_int [0..255])"
  then have "\<forall>x\<in>{0..255}. P (word_of_int x)"
    by (simp add: list_all_iff)
  moreover have "uint b \<in> {0..255}"
    using uint_u8_bounds [of b] by simp
  ultimately have "P (word_of_int (uint b))" by blast
  then show ?thesis by simp
qed

lemma byte_low7 [byte_simps]: "uint ((b::u8) AND 0x7f) = uint b mod 128"
  by (induct b rule: u8_check) code_simp

lemma byte_bit7 [byte_simps]: "(b::u8) AND 0x80 = 0 \<longleftrightarrow> uint b < 128"
  by (induct b rule: u8_check) code_simp

lemma or_disjoint_int: "0 \<le> (x::int) \<Longrightarrow> x < 2 ^ n \<Longrightarrow> push_bit n a OR x = a * 2 ^ n + x"
proof -
  assume x: "0 \<le> x" "x < 2 ^ n"
  have "push_bit n a AND x = 0"
    using x by (auto intro!: bit_eqI simp: bit_simps) (metis bit_take_bit_iff take_bit_int_eq_self_iff not_le)
  then have "push_bit n a + x = push_bit n a OR x" by (rule disjunctive_add_eq_or)
  then show ?thesis by (simp add: push_bit_eq_mult)
qed

lemma int_div_less_iff: "0 < (q::int) \<Longrightarrow> m div q < n \<longleftrightarrow> m < n * q"
proof
  assume q: "0 < q" and "m div q < n"
  then have "(m div q + 1) * q \<le> n * q" by (intro mult_right_mono) auto
  then have "m div q * q + q \<le> n * q" by (simp add: distrib_right)
  moreover have "m < m div q * q + q"
    using div_mult_mod_eq [of m q] pos_mod_bound [OF q, of m] by linarith
  ultimately show "m < n * q" by linarith
next
  assume q: "0 < q" and m: "m < n * q"
  show "m div q < n"
  proof (rule ccontr)
    assume "\<not> m div q < n"
    then have "n * q \<le> m div q * q" using q by (intro mult_right_mono) auto
    also have "\<dots> \<le> m" using div_mult_mod_eq [of m q] pos_mod_sign [OF q, of m] by linarith
    finally show False using m by simp
  qed
qed

lemma uint_ucast_u8_u64 [simp]: "uint (ucast (b::u8) :: u64) = uint b"
  by (simp add: unsigned_ucast_eq take_bit_int_eq_self_iff) (use uint_u8_bounds[of b] in auto)
lemma push8_or_u64: "uint ret * 256 + uint (b::u8) < 2^64 \<Longrightarrow> uint (push_bit 8 ret OR ucast b :: u64) = uint ret * 256 + uint b"
proof -
  assume s: "uint ret * 256 + uint b < 2^64"
  have "uint ret * 256 < 2^64" using s uint_u8_bounds(1)[of b] by linarith
  then have "uint (push_bit 8 ret) = push_bit 8 (uint ret)"
    unfolding unsigned_push_bit_eq
    by (simp add: take_bit_int_eq_self_iff push_bit_eq_mult)
  then have "uint (push_bit 8 ret OR ucast b :: u64) = push_bit 8 (uint ret) OR uint b"
    unfolding unsigned_or_eq by simp
  then show ?thesis using or_disjoint_int[of "uint b" 8 "uint ret"] uint_u8_bounds[of b]
    by simp
qed

section \<open>Big-endian values\<close>

definition be_val :: "bytes \<Rightarrow> nat" where
  "be_val bs = foldl (\<lambda>acc b. acc * 256 + unat b) 0 bs"

lemma foldl_be: "foldl (\<lambda>acc b. acc * 256 + unat (b::u8)) n bs = n * 256 ^ length bs + be_val bs"
proof (induction bs arbitrary: n)
  case Nil
  then show ?case by (simp add: be_val_def)
next
  case (Cons b bs)
  from Cons [of "n * 256 + unat b"] Cons [of "unat b"] show ?case
    by (simp add: be_val_def algebra_simps)
qed

lemma be_val_Nil [simp]: "be_val [] = 0"
  by (simp add: be_val_def)

lemma be_val_Cons [simp]: "be_val (b # bs) = unat b * 256 ^ length bs + be_val bs"
  using foldl_be [of "unat b" bs] by (simp add: be_val_def)

lemma be_val_append: "be_val (xs @ ys) = be_val xs * 256 ^ length ys + be_val ys"
  by (induction xs) (auto simp: algebra_simps power_add)

lemma be_val_bound: "be_val bs < 256 ^ length bs"
proof (induction bs)
  case (Cons b bs)
  have "unat b * 256 ^ length bs + be_val bs < (unat b + 1) * 256 ^ length bs"
    using Cons by simp
  also have "\<dots> \<le> 256 * 256 ^ length bs"
    using unat_u8_bound [of b] by (intro mult_right_mono) auto
  finally show ?case by simp
qed simp

lemma be_val_replicate_0 [simp]: "be_val (replicate n 0) = 0"
  by (induction n) auto

lemma be_val_inj:
  "length xs = length ys \<Longrightarrow> be_val xs = be_val ys \<longleftrightarrow> xs = ys"
proof (induction xs ys rule: list_induct2)
  case (Cons x xs y ys)
  have eq: "unat x = unat y \<and> be_val xs = be_val ys"
    if "unat x * 256 ^ length xs + be_val xs = unat y * 256 ^ length xs + be_val ys"
  proof -
    let ?n = "256 ^ length xs :: nat"
    have b: "be_val xs < ?n" "be_val ys < ?n"
      using be_val_bound [of xs] be_val_bound [of ys] Cons.hyps by simp_all
    have "(unat x * ?n + be_val xs) div ?n = (unat y * ?n + be_val ys) div ?n"
      "(unat x * ?n + be_val xs) mod ?n = (unat y * ?n + be_val ys) mod ?n"
      using that by simp_all
    with b show ?thesis by simp
  qed
  show ?case using eq Cons by (auto simp: unsigned_word_eqI)
qed simp

end
