(* ===== verification/Asn1_Consts.thy ===== *)
theory Asn1_Consts
  imports Prelude
begin

text \<open>
  The constants and error reasons the ASN.1 sources name but do not define: they come from the
  public headers \<open>openssl_grpc/asn1.h\<close> and \<open>asn1_mac.h\<close>, which the repository does not contain. The
  tag numbers, classes and the identifier octet's layout are those of X.680 (8.4) and X.690
  (8.1.2), which the headers follow; \<open>V_ASN1_NEG\<close>, \<open>V_ASN1_MAX_UNIVERSAL\<close> and the flag bits are the
  documented values of the public interface. Nothing else of those headers is assumed.
\<close>

section \<open>Identifier octets and tag numbers\<close>

abbreviation (input) V_ASN1_UNIVERSAL :: int where "V_ASN1_UNIVERSAL \<equiv> 0x00"
abbreviation (input) V_ASN1_APPLICATION :: int where "V_ASN1_APPLICATION \<equiv> 0x40"
abbreviation (input) V_ASN1_CONTEXT_SPECIFIC :: int where "V_ASN1_CONTEXT_SPECIFIC \<equiv> 0x80"
abbreviation (input) V_ASN1_PRIVATE :: int where "V_ASN1_PRIVATE \<equiv> 0xc0"
abbreviation (input) V_ASN1_CONSTRUCTED :: int where "V_ASN1_CONSTRUCTED \<equiv> 0x20"
abbreviation (input) V_ASN1_PRIMITIVE_TAG :: int where "V_ASN1_PRIMITIVE_TAG \<equiv> 0x1f"
abbreviation (input) V_ASN1_MAX_UNIVERSAL :: int where "V_ASN1_MAX_UNIVERSAL \<equiv> 0xff"

abbreviation (input) V_ASN1_BOOLEAN :: int where "V_ASN1_BOOLEAN \<equiv> 1"
abbreviation (input) V_ASN1_INTEGER :: int where "V_ASN1_INTEGER \<equiv> 2"
abbreviation (input) V_ASN1_BIT_STRING :: int where "V_ASN1_BIT_STRING \<equiv> 3"
abbreviation (input) V_ASN1_OCTET_STRING :: int where "V_ASN1_OCTET_STRING \<equiv> 4"
abbreviation (input) V_ASN1_NULL :: int where "V_ASN1_NULL \<equiv> 5"
abbreviation (input) V_ASN1_OBJECT :: int where "V_ASN1_OBJECT \<equiv> 6"
abbreviation (input) V_ASN1_ENUMERATED :: int where "V_ASN1_ENUMERATED \<equiv> 10"
abbreviation (input) V_ASN1_UTF8STRING :: int where "V_ASN1_UTF8STRING \<equiv> 12"
abbreviation (input) V_ASN1_SEQUENCE :: int where "V_ASN1_SEQUENCE \<equiv> 16"
abbreviation (input) V_ASN1_SET :: int where "V_ASN1_SET \<equiv> 17"
abbreviation (input) V_ASN1_PRINTABLESTRING :: int where "V_ASN1_PRINTABLESTRING \<equiv> 19"
abbreviation (input) V_ASN1_T61STRING :: int where "V_ASN1_T61STRING \<equiv> 20"
abbreviation (input) V_ASN1_IA5STRING :: int where "V_ASN1_IA5STRING \<equiv> 22"
abbreviation (input) V_ASN1_UTCTIME :: int where "V_ASN1_UTCTIME \<equiv> 23"
abbreviation (input) V_ASN1_GENERALIZEDTIME :: int where "V_ASN1_GENERALIZEDTIME \<equiv> 24"
abbreviation (input) V_ASN1_UNIVERSALSTRING :: int where "V_ASN1_UNIVERSALSTRING \<equiv> 28"
abbreviation (input) V_ASN1_BMPSTRING :: int where "V_ASN1_BMPSTRING \<equiv> 30"

abbreviation (input) V_ASN1_NUMERICSTRING :: int where "V_ASN1_NUMERICSTRING \<equiv> 18"
abbreviation (input) V_ASN1_VIDEOTEXSTRING :: int where "V_ASN1_VIDEOTEXSTRING \<equiv> 21"

text \<open>Types that are not a tag: a value of another class kept with its header, and ANY.\<close>

abbreviation (input) V_ASN1_OTHER :: int where "V_ASN1_OTHER \<equiv> - 3"
abbreviation (input) V_ASN1_ANY :: int where "V_ASN1_ANY \<equiv> - 4"

text \<open>The bit of a string type in a mask of types.\<close>

abbreviation (input) B_ASN1_NUMERICSTRING :: int where "B_ASN1_NUMERICSTRING \<equiv> 0x0001"
abbreviation (input) B_ASN1_PRINTABLESTRING :: int where "B_ASN1_PRINTABLESTRING \<equiv> 0x0002"
abbreviation (input) B_ASN1_T61STRING :: int where "B_ASN1_T61STRING \<equiv> 0x0004"
abbreviation (input) B_ASN1_VIDEOTEXSTRING :: int where "B_ASN1_VIDEOTEXSTRING \<equiv> 0x0008"
abbreviation (input) B_ASN1_IA5STRING :: int where "B_ASN1_IA5STRING \<equiv> 0x0010"
abbreviation (input) B_ASN1_GRAPHICSTRING :: int where "B_ASN1_GRAPHICSTRING \<equiv> 0x0020"
abbreviation (input) B_ASN1_ISO64STRING :: int where "B_ASN1_ISO64STRING \<equiv> 0x0040"
abbreviation (input) B_ASN1_GENERALSTRING :: int where "B_ASN1_GENERALSTRING \<equiv> 0x0080"
abbreviation (input) B_ASN1_UNIVERSALSTRING :: int where "B_ASN1_UNIVERSALSTRING \<equiv> 0x0100"
abbreviation (input) B_ASN1_OCTET_STRING :: int where "B_ASN1_OCTET_STRING \<equiv> 0x0200"
abbreviation (input) B_ASN1_BIT_STRING :: int where "B_ASN1_BIT_STRING \<equiv> 0x0400"
abbreviation (input) B_ASN1_BMPSTRING :: int where "B_ASN1_BMPSTRING \<equiv> 0x0800"
abbreviation (input) B_ASN1_UNKNOWN :: int where "B_ASN1_UNKNOWN \<equiv> 0x1000"
abbreviation (input) B_ASN1_UTF8STRING :: int where "B_ASN1_UTF8STRING \<equiv> 0x2000"
abbreviation (input) B_ASN1_UTCTIME :: int where "B_ASN1_UTCTIME \<equiv> 0x4000"
abbreviation (input) B_ASN1_GENERALIZEDTIME :: int where "B_ASN1_GENERALIZEDTIME \<equiv> 0x8000"
abbreviation (input) B_ASN1_SEQUENCE :: int where "B_ASN1_SEQUENCE \<equiv> 0x10000"

text \<open>The sign of an INTEGER or ENUMERATED is a bit of its type field.\<close>

abbreviation (input) V_ASN1_NEG :: int where "V_ASN1_NEG \<equiv> 0x100"
abbreviation (input) V_ASN1_NEG_INTEGER :: int where "V_ASN1_NEG_INTEGER \<equiv> 0x102"
abbreviation (input) V_ASN1_NEG_ENUMERATED :: int where "V_ASN1_NEG_ENUMERATED \<equiv> 0x10a"

abbreviation (input) ASN1_STRING_FLAG_BITS_LEFT :: int where "ASN1_STRING_FLAG_BITS_LEFT \<equiv> 0x08"

section \<open>Error reasons\<close>

datatype asn1_reason =
    HEADER_TOO_LONG | TOO_LONG | BAD_OBJECT_HEADER | TYPE_NOT_PRIMITIVE | EXPECTING_A_BOOLEAN
  | BOOLEAN_IS_WRONG_LENGTH | EXPECTING_AN_OBJECT | INVALID_OBJECT_ENCODING | ILLEGAL_OBJECT
  | STRING_TOO_SHORT | STRING_TOO_LONG | INVALID_BIT_STRING_BITS_LEFT | INVALID_BIT_STRING_PADDING
  | ILLEGAL_TIME_VALUE | ERROR_GETTING_TIME | ILLEGAL_CHARACTERS | UNKNOWN_FORMAT
  | INVALID_BMPSTRING | INVALID_UNIVERSALSTRING | INVALID_UTF8STRING | BN_LIB
  | NESTED_ASN1_ERROR | MALLOC_FAILURE | INTERNAL_ERROR | PASSED_NULL_PARAMETER
  | SHOULD_NOT_HAVE_BEEN_CALLED | BAD_TEMPLATE | MISSING_VALUE | NO_MATCHING_CHOICE_TYPE | WRONG_TYPE
  | UNSUPPORTED_ANY_DEFINED_BY_TYPE | AUX_ERROR | NESTED_TOO_DEEP | ILLEGAL_OPTIONS_ON_ITEM_TEMPLATE
  | MSTRING_NOT_UNIVERSAL | MSTRING_WRONG_TAG | SEQUENCE_NOT_CONSTRUCTED | UNEXPECTED_EOC
  | SEQUENCE_LENGTH_MISMATCH | FIELD_MISSING | EXPLICIT_TAG_NOT_CONSTRUCTED | EXPLICIT_LENGTH_MISMATCH
  | ILLEGAL_TAGGED_ANY | ILLEGAL_OPTIONAL_ANY | TYPE_NOT_CONSTRUCTED | NULL_IS_WRONG_LENGTH
  | BMPSTRING_IS_WRONG_LENGTH | UNIVERSALSTRING_IS_WRONG_LENGTH | WRONG_TAG | ENCODE_ERROR | DECODE_ERROR
  | NO_REASON

type_synonym 'a asn1_result = "(asn1_reason, 'a) outcome"

section \<open>Masks on C integers\<close>

lemma and_127 [byte_simps]: "(x::int) AND 127 = x mod 128"
  using take_bit_eq_mask [of 7 x] by (simp add: take_bit_eq_mod mask_eq_exp_minus_1)

lemma and_31 [byte_simps]: "(x::int) AND 31 = x mod 32"
  using take_bit_eq_mask [of 5 x] by (simp add: take_bit_eq_mod mask_eq_exp_minus_1)

lemma and_255 [byte_simps]: "(x::int) AND 255 = x mod 256"
  using take_bit_eq_mask [of 8 x] by (simp add: take_bit_eq_mod mask_eq_exp_minus_1)

lemma uint_bit7 [byte_simps]: "uint (b::u8) AND 128 = 0 \<longleftrightarrow> uint b < 128"
  by (induct b rule: u8_check) code_simp

lemma uint_bit5 [byte_simps]: "uint (b::u8) AND 32 = (if uint b div 32 mod 2 = 1 then 32 else 0)"
  by (induct b rule: u8_check) code_simp

lemma uint_class [byte_simps]: "uint (b::u8) AND 192 = uint b div 64 * 64"
  by (induct b rule: u8_check) code_simp

lemma uint_of_int_u8 [byte_simps]: "uint (of_int x :: u8) = x mod 256"
  by (simp add: uint_word_of_int)

end
