(* ===== verification/Asn1_String.thy ===== *)
theory Asn1_String
  imports Asn1_Consts
begin

text \<open>
  \<open>ASN1_STRING\<close> and its life cycle (\<open>asn1_lib.c\<close>, \<open>a_octet.c\<close>): allocation, setting, copying,
  duplicating, taking ownership of a buffer, and the accessors. A data pointer is \<open>None\<close> for NULL or
  the bytes of its buffer, which may be longer than the string's length field says. The allocator
  is a parameter: \<open>m i n\<close> is the answer to the operation's \<open>i\<close>-th allocation, of \<open>n\<close> bytes: \<open>None\<close> when
  it fails, otherwise the new buffer with whatever it holds. \<open>alloc_ok\<close> is what the code relies on.
\<close>

section \<open>Memory\<close>

type_synonym allocator = "nat \<Rightarrow> nat \<Rightarrow> bytes option"

definition alloc_ok :: "allocator \<Rightarrow> bool" where
  "alloc_ok m \<longleftrightarrow> (\<forall>i n bs. m i n = Some bs \<longrightarrow> length bs = n)"

lemma alloc_okD: "alloc_ok m \<Longrightarrow> m i n = Some bs \<Longrightarrow> length bs = n"
  by (simp add: alloc_ok_def)

definition zero_alloc :: allocator where
  "zero_alloc i n = Some (replicate n 0)"

lemma alloc_ok_zero_alloc [simp]: "alloc_ok zero_alloc"
  by (simp add: alloc_ok_def zero_alloc_def)

definition later :: "nat \<Rightarrow> allocator \<Rightarrow> allocator" where
  "later k m = (\<lambda>i n. m (i + k) n)"

lemma alloc_ok_later [simp]: "alloc_ok m \<Longrightarrow> alloc_ok (later k m)"
  by (simp add: alloc_ok_def later_def)

text \<open>\<open>realloc\<close> keeps the old bytes that fit; \<open>memcpy\<close> into a buffer; \<open>strlen\<close>.\<close>

definition c_realloc :: "allocator \<Rightarrow> nat \<Rightarrow> bytes \<Rightarrow> nat \<Rightarrow> bytes option" where
  "c_realloc m i c n = map_option (\<lambda>fresh. take n c @ drop (length c) fresh) (m i n)"

lemma length_c_realloc: "alloc_ok m \<Longrightarrow> c_realloc m i c n = Some b \<Longrightarrow> length b = n"
  by (auto simp: c_realloc_def dest: alloc_okD)

definition memcpy_at :: "bytes \<Rightarrow> nat \<Rightarrow> bytes \<Rightarrow> bytes option" where
  "memcpy_at buf off bs =
     (if off + length bs \<le> length buf then Some (take off buf @ bs @ drop (off + length bs) buf) else None)"

fun c_strlen :: "bytes \<Rightarrow> int option" where
  "c_strlen [] = None"
| "c_strlen (c # p) = (if c = 0 then Some 0 else map_option (\<lambda>n. n + 1) (c_strlen p))"

lemma c_strlen_bounds: "c_strlen p = Some n \<Longrightarrow> 0 \<le> n \<and> n < int (length p)"
proof (induction p arbitrary: n)
  case (Cons c p)
  then show ?case by (cases "c_strlen p") (fastforce split: if_splits)+
qed simp

section \<open>The string type\<close>

record asn1_string =
  str_length :: int
  str_type :: int
  str_data :: "bytes option"
  str_flags :: int

definition buffer :: "asn1_string \<Rightarrow> bytes" where
  "buffer s = (case str_data s of None \<Rightarrow> [] | Some b \<Rightarrow> b)"

text \<open>The octets the string holds, and well-formedness: the length field stays in the buffer.\<close>

definition content :: "asn1_string \<Rightarrow> bytes" where
  "content s = take (nat (str_length s)) (buffer s)"

definition wf_string :: "asn1_string \<Rightarrow> bool" where
  "wf_string s \<longleftrightarrow> 0 \<le> str_length s \<and> str_length s \<le> int (length (buffer s))"

lemma length_content: "wf_string s \<Longrightarrow> int (length (content s)) = str_length s"
  by (auto simp: wf_string_def content_def min_def)

section \<open>Operations\<close>

definition ASN1_STRING_type_new :: "allocator \<Rightarrow> int \<Rightarrow> asn1_string asn1_result" where
  "ASN1_STRING_type_new m type =
     (case m 0 0 of
        None \<Rightarrow> Fail MALLOC_FAILURE
      | Some _ \<Rightarrow> Ok \<lparr>str_length = 0, str_type = type, str_data = None, str_flags = 0\<rparr>)"

definition ASN1_STRING_new :: "allocator \<Rightarrow> asn1_string asn1_result" where
  "ASN1_STRING_new m = ASN1_STRING_type_new m V_ASN1_OCTET_STRING"

text \<open>A failed \<open>ASN1_STRING_set\<close> restores the old data pointer: the string is unchanged.\<close>

definition ASN1_STRING_set :: "allocator \<Rightarrow> asn1_string \<Rightarrow> bytes option \<Rightarrow> int \<Rightarrow> asn1_string asn1_result" where
  "ASN1_STRING_set m str data len =
     bind_outcome
       (if len < 0 then
          (case data of None \<Rightarrow> Fail NO_REASON
           | Some d \<Rightarrow> (case c_strlen d of None \<Rightarrow> UB | Some n \<Rightarrow> Ok n))
        else Ok len)
       (\<lambda>len. bind_outcome
          (if str_length str \<le> len \<or> str_data str = None then
             if len + 1 > INT_MAX then UB
             else case (case str_data str of None \<Rightarrow> m 0 (nat (len + 1))
                        | Some c \<Rightarrow> c_realloc m 0 c (nat (len + 1))) of
                    None \<Rightarrow> Fail MALLOC_FAILURE | Some b \<Rightarrow> Ok b
           else Ok (buffer str))
          (\<lambda>buf. case data of
             None \<Rightarrow> Ok (str\<lparr>str_data := Some buf, str_length := len\<rparr>)
           | Some d \<Rightarrow>
               if nat len > length d then UB
               else case memcpy_at buf 0 (take (nat len) d @ [0]) of
                      None \<Rightarrow> UB
                    | Some buf' \<Rightarrow> Ok (str\<lparr>str_data := Some buf', str_length := len\<rparr>)))"

definition ASN1_STRING_copy :: "allocator \<Rightarrow> asn1_string \<Rightarrow> asn1_string option \<Rightarrow> asn1_string asn1_result" where
  "ASN1_STRING_copy m dst str =
     (case str of None \<Rightarrow> Fail NO_REASON
      | Some s \<Rightarrow> bind_outcome (ASN1_STRING_set m dst (str_data s) (str_length s))
          (\<lambda>dst. Ok (dst\<lparr>str_type := str_type s, str_flags := str_flags s\<rparr>)))"

definition ASN1_STRING_dup :: "allocator \<Rightarrow> asn1_string option \<Rightarrow> asn1_string asn1_result" where
  "ASN1_STRING_dup m str =
     (case str of None \<Rightarrow> Fail NO_REASON
      | Some s \<Rightarrow> bind_outcome (ASN1_STRING_new m) (\<lambda>ret. ASN1_STRING_copy (later 1 m) ret (Some s)))"

definition ASN1_STRING_set0 :: "asn1_string \<Rightarrow> bytes option \<Rightarrow> int \<Rightarrow> asn1_string" where
  "ASN1_STRING_set0 str data len = str\<lparr>str_data := data, str_length := len\<rparr>"

definition ASN1_STRING_length :: "asn1_string \<Rightarrow> int" where
  "ASN1_STRING_length str = str_length str"

definition ASN1_STRING_type :: "asn1_string \<Rightarrow> int" where
  "ASN1_STRING_type str = str_type str"

definition ASN1_STRING_data :: "asn1_string \<Rightarrow> bytes option" where
  "ASN1_STRING_data str = str_data str"

definition ASN1_STRING_get0_data :: "asn1_string \<Rightarrow> bytes option" where
  "ASN1_STRING_get0_data str = str_data str"

definition ASN1_OCTET_STRING_dup :: "allocator \<Rightarrow> asn1_string option \<Rightarrow> asn1_string asn1_result" where
  "ASN1_OCTET_STRING_dup m x = ASN1_STRING_dup m x"

definition ASN1_OCTET_STRING_set :: "allocator \<Rightarrow> asn1_string \<Rightarrow> bytes option \<Rightarrow> int \<Rightarrow> asn1_string asn1_result" where
  "ASN1_OCTET_STRING_set m x d len = ASN1_STRING_set m x d len"

section \<open>What the operations do\<close>

lemma ASN1_STRING_set_Some:
  assumes m: "alloc_ok m" and wf: "wf_string str" and len: "0 \<le> len" "len < INT_MAX" "len \<le> int (length d)"
  shows "ASN1_STRING_set m str (Some d) len = Fail MALLOC_FAILURE \<or>
    (\<exists>s. ASN1_STRING_set m str (Some d) len = Ok s \<and> wf_string s \<and> content s = take (nat len) d \<and>
       str_length s = len \<and> str_type s = str_type str \<and> str_flags s = str_flags str \<and>
       length (buffer s) > nat len \<and> buffer s ! nat len = 0)"
proof -
  define step where "step = (if str_length str \<le> len \<or> str_data str = None then
        case (case str_data str of None \<Rightarrow> m 0 (nat (len + 1))
              | Some c \<Rightarrow> c_realloc m 0 c (nat (len + 1))) of
          None \<Rightarrow> Fail MALLOC_FAILURE | Some b \<Rightarrow> Ok b
      else Ok (buffer str) :: bytes asn1_result)"
  have set: "ASN1_STRING_set m str (Some d) len = bind_outcome step
      (\<lambda>buf. case memcpy_at buf 0 (take (nat len) d @ [0]) of None \<Rightarrow> UB
         | Some buf' \<Rightarrow> Ok (str\<lparr>str_data := Some buf', str_length := len\<rparr>))"
    using len by (auto simp: ASN1_STRING_set_def step_def)
  have stp: "step = Fail MALLOC_FAILURE \<or> (\<exists>b. step = Ok b \<and> nat (len + 1) \<le> length b)"
    using wf len alloc_okD [OF m] length_c_realloc [OF m]
    by (auto simp: step_def wf_string_def split: option.splits)
  show ?thesis
  proof (cases "step = Fail MALLOC_FAILURE")
    case False
    with stp obtain b where b: "step = Ok b" "nat (len + 1) \<le> length b" by blast
    have n: "nat (len + 1) = Suc (nat len)" using len by simp
    have l: "length (take (nat len) d @ [0]) = nat (len + 1)" using len n by simp
    define buf where "buf = (take (nat len) d @ [0]) @ drop (nat (len + 1)) b"
    have "memcpy_at b 0 (take (nat len) d @ [0]) = Some buf"
      using b l n by (simp add: memcpy_at_def buf_def)
    moreover have "take (nat len) buf = take (nat len) d" "buf ! nat len = 0" "nat len < length buf"
      using len by (auto simp: buf_def nth_append min_def)
    ultimately show ?thesis
      using set b len by (auto simp: content_def buffer_def wf_string_def)
  qed (simp add: set)
qed

lemma ASN1_STRING_set_empty:
  assumes "alloc_ok m" "wf_string str" "str_length str = 0"
  shows "ASN1_STRING_set m str None 0 = Fail MALLOC_FAILURE \<or>
    (\<exists>s. ASN1_STRING_set m str None 0 = Ok s \<and> wf_string s \<and> content s = [] \<and> str_length s = 0 \<and>
       str_type s = str_type str \<and> str_flags s = str_flags str)"
  using assms by (auto simp: ASN1_STRING_set_def content_def wf_string_def split: option.splits)

lemma new_string_wf [simp]:
  "wf_string \<lparr>str_length = 0, str_type = t, str_data = None, str_flags = 0\<rparr>"
  by (simp add: wf_string_def)

lemma ASN1_STRING_dup_Some:
  assumes m: "alloc_ok m" and wf: "wf_string str" and len: "str_length str < INT_MAX"
  shows "ASN1_STRING_dup m (Some str) = Fail MALLOC_FAILURE \<or>
    (\<exists>s. ASN1_STRING_dup m (Some str) = Ok s \<and> wf_string s \<and> content s = content str \<and>
       str_length s = str_length str \<and> str_type s = str_type str \<and> str_flags s = str_flags str)"
proof (cases "m 0 0")
  case (Some b)
  let ?new = "\<lparr>str_length = 0, str_type = V_ASN1_OCTET_STRING, str_data = None, str_flags = 0\<rparr>"
  have dup: "ASN1_STRING_dup m (Some str) = bind_outcome
      (ASN1_STRING_set (later 1 m) ?new (str_data str) (str_length str))
      (\<lambda>dst. Ok (dst\<lparr>str_type := str_type str, str_flags := str_flags str\<rparr>))"
    using Some by (simp add: ASN1_STRING_dup_def ASN1_STRING_new_def ASN1_STRING_type_new_def
        ASN1_STRING_copy_def)
  show ?thesis
  proof (cases "str_data str")
    case None
    then have "str_length str = 0" using wf by (auto simp: wf_string_def buffer_def)
    with None dup ASN1_STRING_set_empty [of "later 1 m" ?new] m show ?thesis
      by (auto simp: content_def wf_string_def buffer_def)
  next
    case (Some d)
    have "str_length str \<le> int (length d)" using wf Some by (simp add: wf_string_def buffer_def)
    with ASN1_STRING_set_Some [of "later 1 m" ?new "str_length str" d] Some dup m wf len show ?thesis
      by (auto simp: content_def wf_string_def buffer_def)
  qed
qed (simp add: ASN1_STRING_dup_def ASN1_STRING_new_def ASN1_STRING_type_new_def)

end
