(* ===== verification/Asn1_BitString.thy ===== *)
theory Asn1_BitString
  imports Asn1_String
begin

text \<open>
  BIT STRING (\<open>a_bitstr.c\<close>): the number of octets and padding bits, DER content encoding and
  decoding, and the operations on single bits. Flags are the C \<open>long\<close>; with
  \<open>ASN1_STRING_FLAG_BITS_LEFT\<close> its low three bits are the number of padding bits, without it trailing
  zero bits are not part of the value. Operations that change the string before they fail return the
  changed string beside their result.
\<close>

section \<open>Length and padding\<close>

text \<open>\<open>while (len > 0 && data[len - 1] == 0) len--\<close>\<close>

fun trim_zeros :: "bytes \<Rightarrow> nat \<Rightarrow> nat" where
  "trim_zeros d 0 = 0"
| "trim_zeros d (Suc n) = (if d ! n = 0 then trim_zeros d n else Suc n)"

text \<open>\<open>for (; padding_bits < 7; padding_bits++) if (last & (1 << padding_bits)) break\<close>\<close>

function padding_loop :: "u8 \<Rightarrow> nat \<Rightarrow> nat" where
  "padding_loop l n =
     (if n < 7 then if uint l AND push_bit n 1 \<noteq> 0 then n else padding_loop l (Suc n) else n)"
  by pat_completeness auto
termination by (relation "measure (\<lambda>(l, n). 7 - n)") auto

declare padding_loop.simps [simp del]

definition asn1_bit_string_length :: "asn1_string \<Rightarrow> (int \<times> int) asn1_result" where
  "asn1_bit_string_length str =
     (let len = str_length str in
      if str_flags str AND ASN1_STRING_FLAG_BITS_LEFT \<noteq> 0 then
        Ok (len, if len = 0 then 0 else str_flags str AND 7)
      else if 0 < len \<and> int (length (buffer str)) < len then UB
      else
        let n = trim_zeros (buffer str) (nat len);
            padding = (if 0 < n then padding_loop (buffer str ! (n - 1)) 0 else 0)
        in Ok (if len < 0 then len else int n, int padding))"

definition ASN1_BIT_STRING_num_bytes :: "asn1_string \<Rightarrow> int asn1_result" where
  "ASN1_BIT_STRING_num_bytes str =
     bind_outcome (asn1_bit_string_length str)
       (\<lambda>(len, padding). if padding \<noteq> 0 then Fail NO_REASON else Ok len)"

definition ASN1_BIT_STRING_set :: "allocator \<Rightarrow> asn1_string \<Rightarrow> bytes option \<Rightarrow> int \<Rightarrow> asn1_string asn1_result" where
  "ASN1_BIT_STRING_set m x d len = ASN1_STRING_set m x d len"

section \<open>Content octets\<close>

text \<open>The value returned and the bytes written; NULL returns 0.\<close>

definition i2c_ASN1_BIT_STRING :: "asn1_string option \<Rightarrow> (int \<times> bytes) asn1_result" where
  "i2c_ASN1_BIT_STRING a =
     (case a of None \<Rightarrow> Fail NO_REASON
      | Some a \<Rightarrow> bind_outcome (asn1_bit_string_length a) (\<lambda>(len, bits).
          if len < 0 \<or> int (length (buffer a)) < len then UB
          else
            let p = take (nat len) (buffer a);
                p = (if len > 0 then p[nat len - 1 := p ! (nat len - 1) AND of_int (push_bit (nat bits) 0xff)] else p)
            in Ok (1 + len, of_int bits # p)))"

text \<open>
  The first component is \<open>*a\<close> after the call: the flags of a reused object are already changed when
  copying the content fails.
\<close>

definition c2i_ASN1_BIT_STRING ::
    "allocator \<Rightarrow> asn1_string option \<Rightarrow> bytes \<Rightarrow> int \<Rightarrow> asn1_string option \<times> (asn1_string \<times> bytes) asn1_result" where
  "c2i_ASN1_BIT_STRING m a pp len =
     (if len < 1 then (a, Fail STRING_TOO_SHORT)
      else if len > INT_MAX then (a, Fail STRING_TOO_LONG)
      else case (case a of None \<Rightarrow> ASN1_STRING_type_new m V_ASN1_BIT_STRING | Some s \<Rightarrow> Ok s) of
        UB \<Rightarrow> (a, UB)
      | Fail e \<Rightarrow> (a, Fail e)
      | Ok ret \<Rightarrow>
          (case pp of [] \<Rightarrow> (a, UB) | c # p \<Rightarrow>
             let padding = uint c; len = len - 1 in
             if padding > 7 then (a, Fail INVALID_BIT_STRING_BITS_LEFT)
             else
               let mask = push_bit (nat padding) 1 - 1 in
               if padding \<noteq> 0 \<and> 1 \<le> len \<and> length p < nat len then (a, UB)
               else if padding \<noteq> 0 \<and> (len < 1 \<or> uint (p ! nat (len - 1)) AND mask \<noteq> 0)
               then (a, Fail INVALID_BIT_STRING_PADDING)
               else
                 let flags = str_flags ret AND NOT (ASN1_STRING_FLAG_BITS_LEFT OR 7);
                     flags = flags OR (ASN1_STRING_FLAG_BITS_LEFT OR padding);
                     ret = ret\<lparr>str_flags := flags\<rparr>;
                     a' = (case a of None \<Rightarrow> None | Some _ \<Rightarrow> Some ret) in
                 if len > 0 \<and> length p < nat len then (a', UB)
                 else case (if len > 0 then map_option (\<lambda>_. Some (take (nat len) p)) (m 1 (nat len))
                            else Some None) of
                   None \<Rightarrow> (a', Fail MALLOC_FAILURE)
                 | Some s \<Rightarrow>
                     let ret = ret\<lparr>str_length := len, str_data := s, str_type := V_ASN1_BIT_STRING\<rparr>
                     in (Some ret, Ok (ret, drop (nat len) p))))"

section \<open>Single bits\<close>

definition c_div :: "int \<Rightarrow> int \<Rightarrow> int" where
  "c_div a b = sgn a * sgn b * (\<bar>a\<bar> div \<bar>b\<bar>)"

text \<open>The string after the call (\<open>None\<close> is NULL) and the return value.\<close>

definition ASN1_BIT_STRING_set_bit ::
    "allocator \<Rightarrow> asn1_string option \<Rightarrow> int \<Rightarrow> bool \<Rightarrow> (asn1_string option \<times> int) asn1_result" where
  "ASN1_BIT_STRING_set_bit m a n value =
     (let w = c_div n 8;
          v = push_bit (nat (7 - (n AND 7))) (1::int);
          iv = NOT v;
          v = (if value then v else 0) in
      case a of None \<Rightarrow> Ok (None, 0)
      | Some a \<Rightarrow>
     let a = a\<lparr>str_flags := str_flags a AND NOT (ASN1_STRING_FLAG_BITS_LEFT OR 7)\<rparr>;
          short = (str_length a < w + 1 \<or> str_data a = None) in
      if short \<and> \<not> value then Ok (Some a, 1)
      else bind_outcome
        (if short \<and> w < 0 then UB
         else if short then
           (case (case str_data a of None \<Rightarrow> m 0 (nat (w + 1))
                  | Some c \<Rightarrow> c_realloc m 0 c (nat (w + 1))) of
              None \<Rightarrow> Ok (a, True)
            | Some c \<Rightarrow>
                if str_length a < 0 then UB
                else
                  let c = (if w + 1 - str_length a > 0
                           then take (nat (str_length a)) c @ replicate (nat (w + 1 - str_length a)) 0
                           else c)
                  in Ok (a\<lparr>str_data := Some c, str_length := w + 1\<rparr>, False))
         else Ok (a, False))
        (\<lambda>(a, oom).
           if oom then Ok (Some a, 0)
           else if w < 0 \<or> int (length (buffer a)) \<le> w \<or> int (length (buffer a)) < str_length a then UB
           else
             let d = (buffer a)[nat w := of_int ((uint (buffer a ! nat w) AND iv) OR v)]
             in Ok (Some (a\<lparr>str_data := Some d, str_length := int (trim_zeros d (nat (str_length a)))\<rparr>), 1)))"

definition ASN1_BIT_STRING_get_bit :: "asn1_string option \<Rightarrow> int \<Rightarrow> bool asn1_result" where
  "ASN1_BIT_STRING_get_bit a n =
     (let w = c_div n 8; v = push_bit (nat (7 - (n AND 7))) (1::int) in
      case a of None \<Rightarrow> Ok False
      | Some a \<Rightarrow>
          if str_length a < w + 1 \<or> str_data a = None then Ok False
          else if w < 0 \<or> int (length (buffer a)) \<le> w then UB
          else Ok (uint (buffer a ! nat w) AND v \<noteq> 0))"

text \<open>The loop of \<open>ASN1_BIT_STRING_check\<close> over the string's octets and the remaining mask octets.\<close>

fun bit_check :: "bytes \<Rightarrow> bytes \<Rightarrow> bool" where
  "bit_check [] flags = True"
| "bit_check (d # ds) flags =
     (let mask = (case flags of f # _ \<Rightarrow> NOT f | [] \<Rightarrow> 0xff)
      in if d AND mask = 0 then bit_check ds (tl flags) else False)"

definition ASN1_BIT_STRING_check :: "asn1_string option \<Rightarrow> bytes \<Rightarrow> bool" where
  "ASN1_BIT_STRING_check a flags =
     (case a of None \<Rightarrow> True
      | Some a \<Rightarrow> if str_data a = None then True else bit_check (content a) flags)"


section \<open>Bits of a byte string\<close>

text \<open>Bit \<open>n\<close> of a byte string, the most significant bit of the first octet first.\<close>

definition bs_bit :: "bytes \<Rightarrow> nat \<Rightarrow> bool" where
  "bs_bit d n \<longleftrightarrow> n div 8 < length d \<and> bit (d ! (n div 8)) (7 - n mod 8)"

lemma and_7 [byte_simps]: "(x::int) AND 7 = x mod 8"
  using take_bit_eq_mask [of 3 x] by (simp add: take_bit_eq_mod mask_eq_exp_minus_1)

lemma uint_and_push: "k < 8 \<Longrightarrow> uint (b::u8) AND push_bit k 1 \<noteq> 0 \<longleftrightarrow> bit b k"
  using and_exp_eq_0_iff_not_bit [of "uint b" k] by (simp add: push_bit_eq_mult bit_uint_iff)

lemma c_div_8: "0 \<le> n \<Longrightarrow> c_div n 8 = int (nat n div 8)"
  by (cases "n = 0") (auto simp: c_div_def zdiv_int nat_div_distrib)

lemma bit_index: "0 \<le> n \<Longrightarrow> nat (7 - (n AND 7)) = 7 - nat n mod 8"
  by (simp add: and_7 nat_mod_distrib nat_diff_distrib')

lemma trim_zeros_le: "trim_zeros d n \<le> n"
  by (induction n) auto

lemma trim_zeros_last: "0 < trim_zeros d n \<Longrightarrow> d ! (trim_zeros d n - 1) \<noteq> 0"
  by (induction n) auto

lemma trim_zeros_zero: "trim_zeros d n \<le> i \<Longrightarrow> i < n \<Longrightarrow> d ! i = 0"
  by (induction n) (auto simp: less_Suc_eq split: if_splits)

lemma trim_zeros_cong: "(\<And>i. i < n \<Longrightarrow> d ! i = e ! i) \<Longrightarrow> trim_zeros d n = trim_zeros e n"
  by (induction n) auto

lemma bs_bit_trim:
  assumes "n \<le> length d"
  shows "bs_bit (take (trim_zeros d n) d) i = bs_bit (take n d) i"
  using assms trim_zeros_le [of d n] trim_zeros_zero [of d n "i div 8"]
  by (cases "trim_zeros d n \<le> i div 8") (auto simp: bs_bit_def)

lemma bs_bit_append_zeros: "bs_bit (d @ replicate k 0) i = bs_bit d i"
  by (auto simp: bs_bit_def nth_append)

lemma get_bit_content:
  assumes "wf_string s" "0 \<le> n"
  shows "ASN1_BIT_STRING_get_bit (Some s) n = Ok (bs_bit (content s) (nat n))"
proof -
  let ?w = "nat n div 8" and ?k = "7 - nat n mod 8"
  have "str_data s = None \<Longrightarrow> content s = []" by (simp add: content_def buffer_def)
  moreover have len: "length (content s) = nat (str_length s)"
    using length_content [OF assms(1)] assms(1) by (simp add: wf_string_def)
  moreover have "?w < length (content s) \<Longrightarrow> content s ! ?w = buffer s ! ?w"
    by (simp add: content_def)
  ultimately show ?thesis
    using assms uint_and_push [of ?k "buffer s ! ?w"]
    by (auto simp: ASN1_BIT_STRING_get_bit_def c_div_8 bit_index bs_bit_def Let_def wf_string_def
        not_less)
qed

lemma uint_set_byte_bit:
  assumes "k < 8"
  shows "bit (of_int ((uint (b::u8) AND NOT (push_bit k 1)) OR (if v then push_bit k 1 else 0)) :: u8) j
    = (if j = k then v else bit b j)"
proof (cases "j < 8")
  case True
  then show ?thesis
    using assms by (auto simp: bit_simps bit_uint_iff)
next
  case False
  then have "\<not> bit b j" using bit_imp_le_length [of b j] by auto
  with False show ?thesis using assms by (auto simp: bit_simps)
qed

lemma bs_bit_update:
  assumes "nat n div 8 < length d"
  shows "bs_bit (d[nat n div 8 :=
      of_int ((uint (d ! (nat n div 8)) AND NOT (push_bit (7 - nat n mod 8) 1)) OR
        (if v then push_bit (7 - nat n mod 8) 1 else 0))]) i
    = (if i = nat n then v else bs_bit d i)"
proof (cases "i div 8 = nat n div 8")
  case True
  have "i mod 8 < 8" "nat n mod 8 < 8" by simp_all
  then have "7 - i mod 8 = 7 - nat n mod 8 \<longleftrightarrow> i mod 8 = nat n mod 8" by arith
  with True have "7 - i mod 8 = 7 - nat n mod 8 \<longleftrightarrow> i = nat n"
    by (metis div_mult_mod_eq)
  moreover have "7 - nat n mod 8 < 8" by simp
  ultimately show ?thesis
    using assms True uint_set_byte_bit [of "7 - nat n mod 8" "d ! (nat n div 8)" v "7 - i mod 8"]
    unfolding bs_bit_def by (simp del: uint_set_byte_bit)
next
  case False
  then have "i \<noteq> nat n" by auto
  with False show ?thesis by (auto simp: bs_bit_def nth_list_update)
qed

lemma content_take: "0 \<le> str_length s \<Longrightarrow> str_data s = Some d \<Longrightarrow> content s = take (nat (str_length s)) d"
  by (simp add: content_def buffer_def)

text \<open>Setting a bit inside the string, and the extension that makes room for one outside it.\<close>

lemma set_bit_inside:
  fixes n v d
  defines "w \<equiv> nat n div 8"
  defines "d' \<equiv> d[w := of_int ((uint (d ! w) AND NOT (push_bit (nat (7 - (n AND 7))) 1)) OR
        (if v then push_bit (nat (7 - (n AND 7))) 1 else 0))]"
  assumes "0 \<le> n" "w < len" "len \<le> length d"
  shows "bs_bit (take (trim_zeros d' len) d') i = (if i = nat n then v else bs_bit (take len d) i)"
proof -
  have "bs_bit (take (trim_zeros d' len) d') i = bs_bit (take len d') i"
    using assms(5) by (intro bs_bit_trim) (simp add: d'_def)
  also have "take len d' = (take len d)[w := d' ! w]"
    using assms(4,5) by (simp add: d'_def take_update_swap)
  also have "d' ! w = of_int ((uint (take len d ! w) AND NOT (push_bit (7 - nat n mod 8) 1)) OR
        (if v then push_bit (7 - nat n mod 8) 1 else 0))"
    using assms(3-5) by (simp add: d'_def bit_index)
  also have "bs_bit ((take len d)[w := \<dots>]) i = (if i = nat n then v else bs_bit (take len d) i)"
    unfolding w_def by (rule bs_bit_update) (use assms(4,5) in \<open>simp add: w_def\<close>)
  finally show ?thesis .
qed


lemma set_bit_grow:
  assumes m: "alloc_ok m" and wf: "wf_string a" and w: "str_length a < w + 1" "0 \<le> w"
    and c: "(case str_data a of None \<Rightarrow> m 0 (nat (w + 1)) | Some c \<Rightarrow> c_realloc m 0 c (nat (w + 1))) = Some c"
  shows "length c = nat (w + 1)" "take (nat (str_length a)) c = content a"
proof -
  show l: "length c = nat (w + 1)"
    using c alloc_okD [OF m] length_c_realloc [OF m] by (auto split: option.splits)
  show "take (nat (str_length a)) c = content a"
  proof (cases "str_data a")
    case None
    then show ?thesis using wf by (simp add: content_def buffer_def wf_string_def)
  next
    case (Some d)
    then have "nat (str_length a) \<le> length d" "nat (str_length a) \<le> nat (w + 1)"
      using wf w by (auto simp: wf_string_def buffer_def)
    then show ?thesis
      using Some c by (auto simp: c_realloc_def content_def buffer_def min_def)
  qed
qed

text \<open>The final step of \<open>ASN1_BIT_STRING_set_bit\<close>, once the bit's octet is in the buffer.\<close>

lemma set_bit_write:
  fixes n v d a
  defines "w \<equiv> nat n div 8"
  defines "d' \<equiv> d[w := of_int ((uint (d ! w) AND NOT (push_bit (nat (7 - (n AND 7))) 1)) OR
        (if v then push_bit (nat (7 - (n AND 7))) 1 else 0))]"
  defines "a' \<equiv> a\<lparr>str_data := Some d', str_length := int (trim_zeros d' (nat (str_length a)))\<rparr>"
  assumes "0 \<le> n" "int w < str_length a" "str_length a \<le> int (length d)"
  shows "wf_string a'" "bs_bit (content a') i = (if i = nat n then v else bs_bit (take (nat (str_length a)) d) i)"
    "content a' \<noteq> [] \<longrightarrow> last (content a') \<noteq> 0"
proof -
  let ?k = "trim_zeros d' (nat (str_length a))"
  have k: "?k \<le> nat (str_length a)" by (rule trim_zeros_le)
  have len: "length d' = length d" by (simp add: d'_def)
  show "wf_string a'"
    using k assms(6) by (auto simp: wf_string_def a'_def buffer_def len)
  have c: "content a' = take ?k d'" by (simp add: content_def a'_def buffer_def)
  show "bs_bit (content a') i = (if i = nat n then v else bs_bit (take (nat (str_length a)) d) i)"
    unfolding c d'_def w_def by (rule set_bit_inside) (use assms(4-6) in \<open>auto simp: w_def\<close>)
  have "?k \<le> length d'" using k assms(6) len by linarith
  then show "content a' \<noteq> [] \<longrightarrow> last (content a') \<noteq> 0"
    using trim_zeros_last [of d' "nat (str_length a)"] unfolding c
    by (auto simp: last_conv_nth min_absorb2)
qed

lemma set_bit_cases:
  fixes v :: bool
  assumes m: "alloc_ok m" and wf: "wf_string a" and n: "0 \<le> n"
  defines "a0 \<equiv> a\<lparr>str_flags := str_flags a AND NOT (ASN1_STRING_FLAG_BITS_LEFT OR 7)\<rparr>"
    and "refused \<equiv> v \<and> str_length a \<le> n div 8 \<and> m 0 (nat (n div 8 + 1)) = None"
  shows "refused \<and> ASN1_BIT_STRING_set_bit m (Some a) n v = Ok (Some a0, 0) \<or>
    (\<not> refused \<and> \<not> v \<and> \<not> bs_bit (content a) (nat n) \<and> ASN1_BIT_STRING_set_bit m (Some a) n v = Ok (Some a0, 1)) \<or>
    (\<exists>a'. \<not> refused \<and> ASN1_BIT_STRING_set_bit m (Some a) n v = Ok (Some a', 1) \<and> wf_string a' \<and> str_flags a' = str_flags a0 \<and>
       (content a' \<noteq> [] \<longrightarrow> last (content a') \<noteq> 0) \<and>
       (\<forall>i. bs_bit (content a') i = (if i = nat n then v else bs_bit (content a) i)))"
proof -
  define w where "w = nat n div 8"
  let ?short = "str_length a < int w + 1 \<or> str_data a = None"
  have none: "str_data a = None \<Longrightarrow> str_length a = 0"
    using wf by (auto simp: wf_string_def buffer_def)
  have cw: "c_div n 8 = int w" "n div 8 = int w" using n by (simp_all add: w_def c_div_8)
  have short: "?short \<longleftrightarrow> str_length a < int w + 1" using none by auto
  have lc: "length (content a) = nat (str_length a)"
    using length_content [OF wf] by linarith
  consider (clear) "?short" "\<not> v" | (grow) "?short" "v" | (room) "\<not> ?short" by argo
  then show ?thesis
  proof cases
    case clear
    then have "\<not> bs_bit (content a) (nat n)"
      using short lc by (auto simp: bs_bit_def w_def)
    then show ?thesis using clear cw by (simp add: ASN1_BIT_STRING_set_bit_def a0_def Let_def refused_def)
  next
    case grow
    define r where "r = (case str_data a of None \<Rightarrow> m 0 (nat (int w + 1))
      | Some c \<Rightarrow> c_realloc m 0 c (nat (int w + 1)))"
    show ?thesis
    proof (cases r)
      case None
      then have "m 0 (nat (int w + 1)) = None" by (simp add: r_def c_realloc_def split: option.splits)
      then have "refused" using grow short cw by (simp add: refused_def)
      then show ?thesis
        using grow cw None by (simp add: ASN1_BIT_STRING_set_bit_def a0_def Let_def r_def)
    next
      case (Some c)
      define d where "d = content a @ replicate (nat (int w + 1 - str_length a)) 0"
      define b where "b = a0\<lparr>str_data := Some d, str_length := int w + 1\<rparr>"
      have ws: "str_length a < int w + 1" using grow short by simp
      have c: "length c = nat (int w + 1)" "take (nat (str_length a)) c = content a"
        using set_bit_grow [OF m wf ws _ Some [unfolded r_def]] by auto
      have dl: "length d = Suc w"
        unfolding d_def using wf lc ws by (simp add: wf_string_def) arith
      have nn: "0 \<le> str_length a" using wf by (simp add: wf_string_def)
      let ?d' = "d[w := of_int ((uint (d ! w) AND NOT (push_bit (nat (7 - (n AND 7))) 1)) OR
        (if v then push_bit (nat (7 - (n AND 7))) 1 else 0))]"
      let ?a' = "b\<lparr>str_data := Some ?d', str_length := int (trim_zeros ?d' (nat (str_length b)))\<rparr>"
      have "m 0 (nat (int w + 1)) \<noteq> None" using Some by (auto simp: r_def c_realloc_def split: option.splits)
      then have "\<not> refused" using cw by (simp add: refused_def)
      moreover have "ASN1_BIT_STRING_set_bit m (Some a) n v = Ok (Some ?a', 1)"
        using grow cw Some c nn ws dl
        by (simp add: ASN1_BIT_STRING_set_bit_def a0_def b_def Let_def r_def d_def buffer_def)
      moreover have "bs_bit d i = bs_bit (content a) i" for i
        unfolding d_def by (rule bs_bit_append_zeros)
      moreover have "take (nat (str_length b)) d = d" using dl by (simp add: b_def)
      moreover have "wf_string ?a'" "content ?a' \<noteq> [] \<longrightarrow> last (content ?a') \<noteq> 0"
          "bs_bit (content ?a') i = (if i = nat n then v else bs_bit (take (nat (str_length b)) d) i)" for i
        using set_bit_write [of n b d v] n dl unfolding w_def [symmetric] by (simp_all add: b_def)
      moreover have "str_flags ?a' = str_flags a0" by (simp add: b_def)
      ultimately show ?thesis by metis
    qed
  next
    case room
    then obtain d where d: "str_data a = Some d" by auto
    let ?d' = "d[w := of_int ((uint (d ! w) AND NOT (push_bit (nat (7 - (n AND 7))) 1)) OR
        (if v then push_bit (nat (7 - (n AND 7))) 1 else 0))]"
    let ?a' = "a0\<lparr>str_data := Some ?d', str_length := int (trim_zeros ?d' (nat (str_length a0)))\<rparr>"
    have b: "str_length a \<le> int (length d)" "int w < str_length a" using wf d room by (auto simp: wf_string_def buffer_def)
    then have "\<not> refused" using cw by (simp add: refused_def)
    moreover have "ASN1_BIT_STRING_set_bit m (Some a) n v = Ok (Some ?a', 1)"
      using room cw d b by (simp add: ASN1_BIT_STRING_set_bit_def a0_def Let_def buffer_def)
    moreover have "take (nat (str_length a0)) d = content a" by (simp add: a0_def content_def buffer_def d)
    moreover have "wf_string ?a'" "content ?a' \<noteq> [] \<longrightarrow> last (content ?a') \<noteq> 0"
        "bs_bit (content ?a') i = (if i = nat n then v else bs_bit (take (nat (str_length a0)) d) i)" for i
      using set_bit_write [of n a0 d v] n b unfolding w_def [symmetric] by (simp_all add: a0_def)
    moreover have "str_flags ?a' = str_flags a0" by simp
    ultimately show ?thesis by metis
  qed
qed

section \<open>Encoding and decoding\<close>

lemma padding_loop_le: "n \<le> 7 \<Longrightarrow> padding_loop l n \<le> 7"
  by (induction l n rule: padding_loop.induct) (subst padding_loop.simps, simp)

lemma padding_loop_zero: "n \<le> i \<Longrightarrow> i < padding_loop l n \<Longrightarrow> \<not> bit l i"
proof (induction l n rule: padding_loop.induct)
  case (1 l n)
  have n: "n < 7" "uint l AND push_bit n 1 = 0" "i < padding_loop l (Suc n) \<or> i = n"
    using "1.prems" by (simp_all add: padding_loop.simps [of l n] split: if_splits)
  then have "\<not> bit l n" using uint_and_push [of n l] by simp
  with n "1.prems" "1.IH" show ?case by (cases "i = n") auto
qed

lemma bit_string_length_bounds:
  assumes "wf_string a" "asn1_bit_string_length a = Ok (len, padding)"
  shows "0 \<le> len" "len \<le> str_length a" "0 \<le> padding" "padding \<le> 7" "len = 0 \<longrightarrow> padding = 0"
proof -
  have "trim_zeros (buffer a) (nat (str_length a)) \<le> nat (str_length a)" by (rule trim_zeros_le)
  moreover have "x AND 7 \<le> 7" "0 \<le> x AND 7" for x :: int by (simp_all add: and_7)
  moreover have "padding_loop l 0 \<le> 7" for l by (rule padding_loop_le) simp
  ultimately have "0 \<le> len \<and> len \<le> str_length a \<and> 0 \<le> padding \<and> padding \<le> 7 \<and> (len = 0 \<longrightarrow> padding = 0)"
    using assms by (auto simp: asn1_bit_string_length_def wf_string_def Let_def split: if_splits)
  then show "0 \<le> len" "len \<le> str_length a" "0 \<le> padding" "padding \<le> 7" "len = 0 \<longrightarrow> padding = 0"
    by auto
qed

lemma bit_string_length_total: "wf_string a \<Longrightarrow> \<exists>r. asn1_bit_string_length a = Ok r"
  by (auto simp: asn1_bit_string_length_def wf_string_def Let_def)

text \<open>The bits the encoder keeps.\<close>

lemma mask_high: "bit ((b::u8) AND of_int (push_bit k 0xff)) j \<longleftrightarrow> bit b j \<and> k \<le> j"
proof -
  have "(255::int) = mask 8" by (simp add: mask_eq_exp_minus_1)
  then have "bit ((b::u8) AND of_int (push_bit k 0xff)) j \<longleftrightarrow>
      bit b j \<and> j < 8 \<and> k \<le> j \<and> j - k < 8"
    by (simp only: bit_and_iff bit_of_int_iff bit_push_bit_iff bit_mask_iff)
      (use bit_imp_le_length [of b j] in \<open>auto simp: possible_bit_def\<close>)
  then show ?thesis
    using bit_imp_le_length [of b j] by auto
qed

lemma bs_bit_mask_last:
  assumes "p \<noteq> []" "k \<le> 7"
  shows "bs_bit (p[length p - 1 := p ! (length p - 1) AND of_int (push_bit k 0xff)]) i \<longleftrightarrow>
    i < 8 * length p - k \<and> bs_bit p i"
proof (cases "i div 8 = length p - 1")
  case True
  have "k \<le> 7 - i mod 8 \<longleftrightarrow> i < 8 * length p - k"
  proof -
    have "i = 8 * (length p - 1) + i mod 8" using mult_div_mod_eq [of 8 i] True by simp
    moreover have "8 * length p = 8 * (length p - 1) + 8" using assms(1) by (cases p) auto
    moreover have "i mod 8 < 8" by simp
    ultimately show ?thesis using assms(2) by linarith
  qed
  then show ?thesis using assms(1) True by (auto simp: bs_bit_def mask_high)
next
  case False
  have "i < 8 * length p - k" if "i div 8 < length p"
  proof -
    have "i div 8 < length p - 1" using that False by linarith
    then have "i < 8 * (length p - 1)" by (simp add: div_less_iff_less_mult mult.commute)
    then show ?thesis using assms by (cases p) auto
  qed
  with False show ?thesis by (auto simp: bs_bit_def nth_list_update)
qed

lemma i2c_bit_string_Ok:
  assumes wf: "wf_string a" and l: "asn1_bit_string_length a = Ok (len, padding)"
  defines "p \<equiv> take (nat len) (buffer a)"
  defines "q \<equiv> (if 0 < len then p[nat len - 1 := p ! (nat len - 1) AND of_int (push_bit (nat padding) 0xff)] else p)"
  shows "i2c_ASN1_BIT_STRING (Some a) = Ok (1 + len, of_int padding # q)"
    "length q = nat len" "bs_bit q i \<longleftrightarrow> i < 8 * nat len - nat padding \<and> bs_bit (content a) i"
proof -
  note b = bit_string_length_bounds [OF wf l]
  have lb: "len \<le> int (length (buffer a))" using b wf by (simp add: wf_string_def)
  then have lp: "length p = nat len" by (simp add: p_def)
  show "i2c_ASN1_BIT_STRING (Some a) = Ok (1 + len, of_int padding # q)"
    using l b lb by (simp add: i2c_ASN1_BIT_STRING_def q_def p_def Let_def)
  show "length q = nat len" using lp by (simp add: q_def)
  have pc: "p = take (nat len) (content a)"
    using b by (simp add: p_def content_def min_def)
  have "bs_bit p i \<longleftrightarrow> i < 8 * nat len \<and> bs_bit (content a) i"
    using lp by (auto simp: pc bs_bit_def less_mult_imp_div_less div_less_iff_less_mult mult.commute)
  then show "bs_bit q i \<longleftrightarrow> i < 8 * nat len - nat padding \<and> bs_bit (content a) i"
  proof (cases "0 < len")
    case True
    then have "p \<noteq> []" "nat padding \<le> 7" using lp b by auto
    from bs_bit_mask_last [OF this, of i] True show ?thesis
      using lp \<open>bs_bit p i \<longleftrightarrow> _\<close> by (auto simp: q_def)
  qed (use b in \<open>auto simp: q_def\<close>)
qed

lemma uint_and_mask: "uint (b::u8) AND (2 ^ k - 1) = 0 \<longleftrightarrow> (\<forall>j<k. \<not> bit b j)"
  by (auto simp: bit_eq_iff bit_simps simp flip: mask_eq_exp_minus_1)

text \<open>The decoder on a fresh object: when it accepts, and what it builds.\<close>

definition bit_string_ok :: "bytes \<Rightarrow> bool" where
  "bit_string_ok bs \<longleftrightarrow> (case bs of [] \<Rightarrow> False | c # p \<Rightarrow>
     uint c \<le> 7 \<and> (c \<noteq> 0 \<longrightarrow> p \<noteq> [] \<and> (\<forall>j<unat c. \<not> bit (last p) j)))"

lemma last_take_nth: "0 < k \<Longrightarrow> k \<le> length p \<Longrightarrow> last (take k p) = p ! (k - 1)"
  by (subst last_conv_nth) auto

lemma c2i_bit_string_None:
  assumes m: "alloc_ok m" and len: "1 \<le> len" "len \<le> INT_MAX" "len \<le> int (length pp)"
  shows "case c2i_ASN1_BIT_STRING m None pp len of (a', r) \<Rightarrow>
    r \<noteq> UB \<and>
    (\<forall>ret rest. r = Ok (ret, rest) \<longrightarrow> a' = Some ret \<and> bit_string_ok (take (nat len) pp) \<and>
       wf_string ret \<and> content ret = take (nat len - 1) (tl pp) \<and> str_length ret = len - 1 \<and>
       str_type ret = V_ASN1_BIT_STRING \<and> str_flags ret = (ASN1_STRING_FLAG_BITS_LEFT OR uint (hd pp)) \<and>
       rest = drop (nat len) pp) \<and>
    (\<not> is_ok r \<longrightarrow> a' = None \<and> (bit_string_ok (take (nat len) pp) \<longrightarrow> r = Fail MALLOC_FAILURE))"
proof -
  obtain c p where pp: "pp = c # p" using len by (cases pp) auto
  obtain k where k: "len = 1 + int k" using len by (metis zle_iff_zadd)
  have kp: "k \<le> length p" using len pp k by simp
  have u: "nat (uint c) = unat c" "uint c = 0 \<longleftrightarrow> c = 0" "nat (int k - 1) = k - 1"
    by (simp_all add: uint_0_iff)
  have ok: "bit_string_ok (take (nat len) pp) \<longleftrightarrow> uint c \<le> 7 \<and>
      (uint c \<noteq> 0 \<longrightarrow> 0 < k \<and> uint (p ! (k - 1)) AND (push_bit (nat (uint c)) 1 - 1) = 0)"
    using kp last_take_nth [of k p]
    by (auto simp: bit_string_ok_def pp k u nat_add_distrib uint_and_mask)
  show ?thesis
  proof (cases "m 0 0")
    case None
    then show ?thesis using len by (simp add: c2i_ASN1_BIT_STRING_def ASN1_STRING_type_new_def)
  next
    case Some
    show ?thesis
    proof (cases "bit_string_ok (take (nat len) pp)")
      case True
      then show ?thesis
        using Some len kp True ok alloc_okD [OF m]
        by (auto simp: c2i_ASN1_BIT_STRING_def ASN1_STRING_type_new_def pp k Let_def nat_add_distrib
            u content_def buffer_def wf_string_def split: option.splits)
    next
      case False
      then show ?thesis
        using Some len kp ok
        by (auto simp: c2i_ASN1_BIT_STRING_def ASN1_STRING_type_new_def pp k u Let_def)
    qed
  qed
qed

lemma flags_padding:
  assumes "0 \<le> padding" "padding \<le> (7::int)"
  shows "(ASN1_STRING_FLAG_BITS_LEFT OR padding) AND ASN1_STRING_FLAG_BITS_LEFT = ASN1_STRING_FLAG_BITS_LEFT"
    "(ASN1_STRING_FLAG_BITS_LEFT OR padding) AND 7 = padding"
proof -
  have "padding \<in> {0, 1, 2, 3, 4, 5, 6, 7}" using assms by auto
  then show "(ASN1_STRING_FLAG_BITS_LEFT OR padding) AND ASN1_STRING_FLAG_BITS_LEFT = ASN1_STRING_FLAG_BITS_LEFT"
    "(ASN1_STRING_FLAG_BITS_LEFT OR padding) AND 7 = padding"
    by auto
qed

lemma mask_last_id: "(\<forall>j<k. \<not> bit b j) \<Longrightarrow> (b::u8) AND of_int (push_bit k 0xff) = b"
  by (intro bit_eqI) (use mask_high [of b k] not_le in blast)

lemma bit_string_decoded_length:
  assumes "str_flags ret = (ASN1_STRING_FLAG_BITS_LEFT OR padding)" "0 \<le> padding" "padding \<le> 7"
  shows "asn1_bit_string_length ret = Ok (str_length ret, if str_length ret = 0 then 0 else padding)"
  using assms flags_padding [of padding] by (simp add: asn1_bit_string_length_def)

lemma i2c_of_decoded:
  assumes "bit_string_ok (c # p)" "wf_string ret" "content ret = p" "str_length ret = int (length p)"
    "str_flags ret = (ASN1_STRING_FLAG_BITS_LEFT OR uint c)"
  shows "i2c_ASN1_BIT_STRING (Some ret) = Ok (1 + int (length p), c # p)"
proof -
  have c: "uint c \<le> 7" "c \<noteq> 0 \<longrightarrow> p \<noteq> [] \<and> (\<forall>j<unat c. \<not> bit (last p) j)"
    using assms(1) by (auto simp: bit_string_ok_def)
  have p: "take (length p) (buffer ret) = p" "length p \<le> length (buffer ret)"
    using assms(2-4) by (auto simp: content_def wf_string_def)
  have "p[length p - 1 := p ! (length p - 1) AND of_int (push_bit (unat c) 0xff)] = p" if "p \<noteq> []"
    using that c mask_last_id [of "unat c" "last p"]
    by (cases "c = 0") (auto simp: last_conv_nth)
  with bit_string_decoded_length [OF assms(5) _ c(1)] p c assms(4) show ?thesis
    by (auto simp: i2c_ASN1_BIT_STRING_def Let_def)
qed

lemma i2c_bit_string_ok:
  assumes wf: "wf_string a" and l: "asn1_bit_string_length a = Ok (len, padding)"
  shows "\<exists>q. i2c_ASN1_BIT_STRING (Some a) = Ok (1 + len, of_int padding # q) \<and> length q = nat len \<and>
    bit_string_ok (of_int padding # q) \<and> uint (of_int padding :: u8) = padding \<and>
    (\<forall>i. bs_bit q i \<longleftrightarrow> i < 8 * nat len - nat padding \<and> bs_bit (content a) i)"
proof -
  note b = bit_string_length_bounds [OF wf l]
  from i2c_bit_string_Ok [OF wf l] obtain q where
    q: "i2c_ASN1_BIT_STRING (Some a) = Ok (1 + len, of_int padding # q)" "length q = nat len"
      "\<And>i. bs_bit q i \<longleftrightarrow> i < 8 * nat len - nat padding \<and> bs_bit (content a) i"
    by metis
  have u: "uint (of_int padding :: u8) = padding" using b by (simp add: uint_of_int_u8)
  have "\<not> bit (last q) j" if j: "j < nat padding" "q \<noteq> []" for j
  proof -
    have "j < 8" using j b by linarith
    moreover obtain n where n: "nat len = Suc n"
      using j(2) q(2) by (metis length_0_conv not0_implies_Suc)
    moreover from \<open>j < 8\<close> obtain k where k: "7 = j + k" using le_Suc_ex [of j 7] by auto
    then have "7 - k = j" "k < 8" by linarith+
    ultimately have k8: "7 - k = j" "k < 8" by simp_all
    from k n have e: "8 * nat len - 1 - j = 8 * n + k" by linarith
    have i: "(8 * nat len - 1 - j) div 8 = nat len - 1" "7 - (8 * nat len - 1 - j) mod 8 = j"
      unfolding e using n k8 by simp_all
    have "\<not> bs_bit q (8 * nat len - 1 - j)"
      unfolding q(3) using j(1) by auto
    with i q(2) j show ?thesis by (auto simp: bs_bit_def last_conv_nth)
  qed
  moreover have "q \<noteq> []" if "(of_int padding :: u8) \<noteq> 0"
  proof -
    have "padding \<noteq> 0" using that by auto
    then show ?thesis using b q(2) by auto
  qed
  ultimately have "bit_string_ok (of_int padding # q)"
    using b u by (auto simp: bit_string_ok_def simp flip: nat_uint_eq)
  with q u show ?thesis by blast
qed

section \<open>Properties\<close>

text \<open>
  C10: Setting bit \<open>n\<close> of a BIT STRING never leaves its buffer. It answers 0 exactly when a bit beyond the
  end is to be set and the allocator refuses the request for the octets up to it, and then no bit changes; otherwise
  it answers 1 and \<open>ASN1_BIT_STRING_get_bit\<close> reads the new value at \<open>n\<close> and the old value at every
  other position. The string stays well formed in both cases.
\<close>

theorem set_bit_get_bit:
  assumes "alloc_ok m" "wf_string a" "0 \<le> n" "0 \<le> n'"
  shows "\<exists>a' r. ASN1_BIT_STRING_set_bit m (Some a) n v = Ok (Some a', r) \<and> wf_string a' \<and>
    r = (if v \<and> str_length a \<le> n div 8 \<and> m 0 (nat (n div 8 + 1)) = None then 0 else 1) \<and>
    ASN1_BIT_STRING_get_bit (Some a') n' =
      (if r = 1 \<and> n' = n then Ok v else ASN1_BIT_STRING_get_bit (Some a) n')"
proof -
  let ?a0 = "a\<lparr>str_flags := str_flags a AND NOT (ASN1_STRING_FLAG_BITS_LEFT OR 7)\<rparr>"
  have a0: "wf_string ?a0" "content ?a0 = content a"
    using assms(2) by (simp_all add: wf_string_def content_def buffer_def)
  note g = get_bit_content [OF _ assms(4)]
  have n: "nat n' = nat n \<longleftrightarrow> n' = n" using assms by (simp add: eq_nat_nat_iff)
  from set_bit_cases [OF assms(1-3), of v] show ?thesis
  proof (elim disjE exE conjE, goal_cases)
    case 1
    then show ?case using a0 assms(2) by (simp add: g)
  next
    case 2
    then show ?case using a0 assms(2) n by (auto simp: g)
  next
    case (3 a')
    then show ?case using assms(2) n by (auto simp: g)
  qed
qed

lemma set_bit_get_bit_witness:
  "ASN1_BIT_STRING_get_bit (Some \<lparr>str_length = 1, str_type = 3, str_data = Some [0x80], str_flags = 0\<rparr>) 0 = Ok True \<and>
   (\<exists>a'. ASN1_BIT_STRING_set_bit zero_alloc
     (Some \<lparr>str_length = 1, str_type = 3, str_data = Some [0x80], str_flags = 0\<rparr>) 10 True = Ok (Some a', 1) \<and>
     ASN1_BIT_STRING_get_bit (Some a') 10 = Ok True)"
proof -
  let ?a = "\<lparr>str_length = 1, str_type = 3, str_data = Some [0x80 :: u8], str_flags = 0\<rparr>"
  have "ASN1_BIT_STRING_set_bit zero_alloc (Some ?a) 10 True =
      Ok (Some \<lparr>str_length = 2, str_type = 3, str_data = Some [0x80, 0x20], str_flags = 0\<rparr>, 1)"
    by code_simp
  moreover have "ASN1_BIT_STRING_get_bit (Some ?a) 0 = Ok True" by code_simp
  ultimately show ?thesis
    using set_bit_get_bit [of zero_alloc ?a 10 10 True] by (auto simp: wf_string_def buffer_def)
qed

text \<open>
  A BIT STRING value set through single bits carries no trailing zero octet: after a successful
  \<open>ASN1_BIT_STRING_set_bit\<close> that wrote a bit, the last octet is not zero, and the padding count is
  left to be computed (the flag is cleared).
\<close>

theorem set_bit_trimmed:
  assumes "alloc_ok m" "wf_string a" "0 \<le> n" "ASN1_BIT_STRING_set_bit m (Some a) n True = Ok (Some a', 1)"
  shows "content a' \<noteq> [] \<and> last (content a') \<noteq> 0 \<and> str_flags a' AND ASN1_STRING_FLAG_BITS_LEFT = 0"
proof -
  have f: "(x AND NOT (ASN1_STRING_FLAG_BITS_LEFT OR 7)) AND ASN1_STRING_FLAG_BITS_LEFT = 0" for x
    by (simp add: and.assoc)
  from set_bit_cases [OF assms(1-3), of True] assms(4)
  have a': "content a' \<noteq> [] \<longrightarrow> last (content a') \<noteq> 0"
    "bs_bit (content a') (nat n)" "str_flags a' = str_flags a AND NOT (ASN1_STRING_FLAG_BITS_LEFT OR 7)"
    by auto
  then have "content a' \<noteq> []" by (auto simp: bs_bit_def)
  with a' show ?thesis by (simp only: f) simp
qed

lemma set_bit_trimmed_witness:
  "\<exists>a'. ASN1_BIT_STRING_set_bit zero_alloc
     (Some \<lparr>str_length = 1, str_type = 3, str_data = Some [0x80], str_flags = 11\<rparr>) 10 True = Ok (Some a', 1) \<and>
     last (content a') \<noteq> 0"
proof -
  let ?a = "\<lparr>str_length = 1, str_type = 3, str_data = Some [0x80 :: u8], str_flags = 11\<rparr>"
  have "ASN1_BIT_STRING_set_bit zero_alloc (Some ?a) 10 True =
      Ok (Some \<lparr>str_length = 2, str_type = 3, str_data = Some [0x80, 0x20], str_flags = 0\<rparr>, 1)"
    by code_simp
  then show ?thesis
    using set_bit_trimmed [of zero_alloc ?a 10] by (auto simp: wf_string_def buffer_def)
qed

text \<open>
  C8: Whatever \<open>c2i_ASN1_BIT_STRING\<close> accepts it re-encodes byte for byte: the decoder takes exactly
  the announced octets, and \<open>i2c_ASN1_BIT_STRING\<close> on the decoded string returns them and their number.
\<close>

theorem bit_string_decode_encode:
  assumes "alloc_ok m" "0 \<le> len" "len \<le> int (length pp)"
    and "c2i_ASN1_BIT_STRING m None pp len = (a', Ok (ret, rest))"
  shows "i2c_ASN1_BIT_STRING (Some ret) = Ok (len, take (nat len) pp) \<and> rest = drop (nat len) pp"
proof -
  have len: "1 \<le> len" "len \<le> INT_MAX"
    using assms(4) by (auto simp: c2i_ASN1_BIT_STRING_def split: if_splits)
  then obtain c p where pp: "pp = c # p" using assms(3) by (cases pp) auto
  have n: "nat len = Suc (nat (len - 1))" using len by simp
  have k: "nat (len - 1) \<le> length p" using assms(3) pp by simp
  show ?thesis
    using c2i_bit_string_None [OF assms(1) len assms(3)] assms(4) k len
      i2c_of_decoded [of c "take (nat (len - 1)) p" ret]
    by (auto simp: pp n min_absorb2)
qed

lemma bit_string_decode_encode_witness:
  "i2c_ASN1_BIT_STRING (Some \<lparr>str_length = 2, str_type = 3, str_data = Some [0xa5, 0xc0], str_flags = 14\<rparr>) =
   Ok (3, [6, 0xa5, 0xc0])"
proof -
  have "c2i_ASN1_BIT_STRING zero_alloc None [6, 0xa5, 0xc0, 1] 3 =
      (Some \<lparr>str_length = 2, str_type = 3, str_data = Some [0xa5, 0xc0], str_flags = 14\<rparr>,
       Ok (\<lparr>str_length = 2, str_type = 3, str_data = Some [0xa5, 0xc0], str_flags = 14\<rparr>, [1]))"
    by code_simp
  then show ?thesis
    using bit_string_decode_encode [of zero_alloc 3 "[6, 0xa5, 0xc0, 1]"] by simp
qed

text \<open>
  C9: What \<open>i2c_ASN1_BIT_STRING\<close> writes, \<open>c2i_ASN1_BIT_STRING\<close> reads back, unless memory runs out: the
  decoded string has the same bits as the original up to its padding, zeros after it, and the bytes
  that follow the encoding are left over.
\<close>

theorem bit_string_encode_decode:
  assumes "alloc_ok m" "wf_string a" "str_length a < INT_MAX"
    and "asn1_bit_string_length a = Ok (len, padding)" "0 \<le> i"
  shows "\<exists>bs. i2c_ASN1_BIT_STRING (Some a) = Ok (int (length bs), bs) \<and>
    (case snd (c2i_ASN1_BIT_STRING m None (bs @ rest) (int (length bs))) of
       UB \<Rightarrow> False
     | Fail e \<Rightarrow> e = MALLOC_FAILURE
     | Ok (s, left) \<Rightarrow> left = rest \<and> wf_string s \<and> asn1_bit_string_length s = Ok (len, padding) \<and>
         ASN1_BIT_STRING_get_bit (Some s) i =
           (if i < 8 * len - padding then ASN1_BIT_STRING_get_bit (Some a) i else Ok False))"
proof -
  note b = bit_string_length_bounds [OF assms(2,4)]
  from i2c_bit_string_ok [OF assms(2,4)] obtain q where
    q: "i2c_ASN1_BIT_STRING (Some a) = Ok (1 + len, of_int padding # q)" "length q = nat len"
      "bit_string_ok (of_int padding # q)" "uint (of_int padding :: u8) = padding"
      "\<And>i. bs_bit q i \<longleftrightarrow> i < 8 * nat len - nat padding \<and> bs_bit (content a) i" by blast
  let ?bs = "of_int padding # q"
  have ql: "int (length q) = len" using q(2) b by simp
  then have l: "int (length ?bs) = 1 + len" by simp
  have i: "nat i < 8 * nat len - nat padding \<longleftrightarrow> i < 8 * len - padding" using b assms(5) by linarith
  have c: "case c2i_ASN1_BIT_STRING m None (?bs @ rest) (1 + len) of (a', r) \<Rightarrow>
      r \<noteq> UB \<and> (\<forall>ret left. r = Ok (ret, left) \<longrightarrow> wf_string ret \<and> content ret = q \<and>
        str_length ret = len \<and> str_flags ret = (ASN1_STRING_FLAG_BITS_LEFT OR padding) \<and> left = rest) \<and>
      (\<not> is_ok r \<longrightarrow> r = Fail MALLOC_FAILURE)"
    using c2i_bit_string_None [OF assms(1), of "1 + len" "?bs @ rest"] b assms(3) q(2-4) l
    by (auto simp: nat_add_distrib)
  have d: "asn1_bit_string_length s = Ok (len, padding)"
    if "str_length s = len" "str_flags s = (ASN1_STRING_FLAG_BITS_LEFT OR padding)" for s
    using bit_string_decoded_length [of s padding] that b by auto
  from c d show ?thesis
    unfolding l [symmetric]
    by (intro exI [of _ ?bs])
      (auto simp: q(1,5) l ql i get_bit_content assms(2,5) simp del: of_int_eq_numeral_iff split: outcome.splits)
qed

lemma bit_string_encode_decode_witness:
  "let a = \<lparr>str_length = 2, str_type = 3, str_data = Some [0xa5, 0xff], str_flags = 14\<rparr> in
   \<exists>bs. i2c_ASN1_BIT_STRING (Some a) = Ok (int (length bs), bs) \<and>
    snd (c2i_ASN1_BIT_STRING zero_alloc None (bs @ [9]) (int (length bs))) \<noteq> UB"
proof -
  let ?a = "\<lparr>str_length = 2, str_type = 3, str_data = Some [0xa5, 0xff :: u8], str_flags = 14\<rparr>"
  have "asn1_bit_string_length ?a = Ok (2, 6)" by code_simp
  then show ?thesis
    using bit_string_encode_decode [of zero_alloc ?a 2 6 0 "[9]"]
    by (auto simp: wf_string_def buffer_def Let_def)
qed

end
