(* ===== verification/Asn1_Cmp.thy ===== *)
theory Asn1_Cmp
  imports Asn1_BitString "HOL-Library.Product_Lexorder" "HOL-Library.List_Lexorder"
begin

text \<open>
  Comparison of strings (\<open>asn1_lib.c\<close>, \<open>a_octet.c\<close>) and of INTEGERs (\<open>a_int.c\<close>). The C functions
  return an \<open>int\<close> of which only the sign is specified, since \<open>memcmp\<close> specifies only the sign; the
  model returns that sign. The comparison is the order of a key: the number of octets, then fewer
  padding bits first, then the octets, then the type.
\<close>

section \<open>The comparison functions\<close>

text \<open>The sign of \<open>memcmp\<close> over the first \<open>n\<close> octets; \<open>None\<close> when a buffer is shorter.\<close>

fun memcmp_loop :: "nat \<Rightarrow> bytes \<Rightarrow> bytes \<Rightarrow> int option" where
  "memcmp_loop 0 a b = Some 0"
| "memcmp_loop (Suc n) (x # a) (y # b) =
     (if x < y then Some (-1) else if y < x then Some 1 else memcmp_loop n a b)"
| "memcmp_loop (Suc n) a b = None"

definition compared_length :: "asn1_string \<Rightarrow> (int \<times> int) asn1_result" where
  "compared_length a =
     (if str_type a = V_ASN1_BIT_STRING then asn1_bit_string_length a else Ok (str_length a, 0))"

definition ASN1_STRING_cmp :: "asn1_string \<Rightarrow> asn1_string \<Rightarrow> int asn1_result" where
  "ASN1_STRING_cmp a b =
     bind_outcome (compared_length a) (\<lambda>(a_length, a_padding).
     bind_outcome (compared_length b) (\<lambda>(b_length, b_padding).
       if a_length < b_length then Ok (-1)
       else if a_length > b_length then Ok 1
       else if a_padding > b_padding then Ok (-1)
       else if a_padding < b_padding then Ok 1
       else if a_length < 0 then UB
       else case memcmp_loop (nat a_length) (buffer a) (buffer b) of
         None \<Rightarrow> UB
       | Some ret \<Rightarrow>
           if ret \<noteq> 0 then Ok ret
           else if str_type a < str_type b then Ok (-1)
           else if str_type a > str_type b then Ok 1
           else Ok 0))"

definition ASN1_OCTET_STRING_cmp :: "asn1_string \<Rightarrow> asn1_string \<Rightarrow> int asn1_result" where
  "ASN1_OCTET_STRING_cmp a b = ASN1_STRING_cmp a b"

definition ASN1_INTEGER_cmp :: "asn1_string \<Rightarrow> asn1_string \<Rightarrow> int asn1_result" where
  "ASN1_INTEGER_cmp x y =
     (let neg = str_type x AND V_ASN1_NEG in
      if neg \<noteq> str_type y AND V_ASN1_NEG then Ok (if neg \<noteq> 0 then -1 else 1)
      else bind_outcome (ASN1_STRING_cmp x y) (\<lambda>ret. Ok (if neg \<noteq> 0 then - ret else ret)))"

section \<open>The key\<close>

definition cmp_sign :: "'a::linorder \<Rightarrow> 'a \<Rightarrow> int" where
  "cmp_sign x y = (if x < y then -1 else if y < x then 1 else 0)"

definition string_key :: "asn1_string \<Rightarrow> int \<times> int \<times> bytes \<times> int" where
  "string_key s = (case compared_length s of
     Ok (len, padding) \<Rightarrow> (len, - padding, take (nat len) (buffer s), str_type s)
   | _ \<Rightarrow> (0, 0, [], 0))"

lemma memcmp_loop_sign:
  "n \<le> length a \<Longrightarrow> n \<le> length b \<Longrightarrow> memcmp_loop n a b = Some (cmp_sign (take n a) (take n b))"
proof (induction n arbitrary: a b)
  case (Suc n)
  then obtain x a' y b' where "a = x # a'" "b = y # b'" by (cases a; cases b) auto
  with Suc.prems Suc.IH [of a' b'] show ?case
    by (cases x y rule: linorder_cases) (auto simp: cmp_sign_def)
qed (simp add: cmp_sign_def)

lemma compared_length_total:
  "wf_string s \<Longrightarrow> \<exists>len padding. compared_length s = Ok (len, padding) \<and> 0 \<le> len \<and> len \<le> int (length (buffer s))"
proof (cases "str_type s = V_ASN1_BIT_STRING")
  case True
  assume wf: "wf_string s"
  then obtain len padding where "asn1_bit_string_length s = Ok (len, padding)"
    using bit_string_length_total [of s] by auto
  moreover from bit_string_length_bounds [OF wf this] wf have "0 \<le> len" "len \<le> int (length (buffer s))"
    by (simp_all add: wf_string_def)
  ultimately show ?thesis using True by (simp add: compared_length_def)
qed (simp add: compared_length_def wf_string_def)

lemma ASN1_STRING_cmp_key:
  assumes "wf_string a" "wf_string b"
  shows "ASN1_STRING_cmp a b = Ok (cmp_sign (string_key a) (string_key b))"
proof -
  obtain la pa where a: "compared_length a = Ok (la, pa)" "0 \<le> la" "la \<le> int (length (buffer a))"
    using compared_length_total [OF assms(1)] by blast
  obtain lb pb where b: "compared_length b = Ok (lb, pb)" "0 \<le> lb" "lb \<le> int (length (buffer b))"
    using compared_length_total [OF assms(2)] by blast
  show ?thesis
    using a b memcmp_loop_sign [of "nat la" "buffer a" "buffer b"]
    by (auto simp: ASN1_STRING_cmp_def string_key_def cmp_sign_def)
qed

lemma cmp_sign_laws:
  "cmp_sign x x = 0" "cmp_sign x y = 0 \<longleftrightarrow> x = y" "cmp_sign x y = - cmp_sign y x"
  "cmp_sign x y \<le> 0 \<Longrightarrow> cmp_sign y z \<le> 0 \<Longrightarrow> cmp_sign x z \<le> 0"
  by (auto simp: cmp_sign_def not_less split: if_splits)

section \<open>Properties\<close>

text \<open>
  \<open>ASN1_STRING_cmp\<close> on well-formed strings is a total order and never reads outside them: it
  always answers, swapping the arguments flips the sign, it is transitive, and it answers 0 exactly
  for strings of the same type, number of octets, padding and octets.
\<close>

theorem string_cmp_order:
  assumes "wf_string a" "wf_string b" "wf_string c"
  shows "\<exists>ab ba bc ac. ASN1_STRING_cmp a b = Ok ab \<and> ASN1_STRING_cmp b a = Ok ba \<and>
    ASN1_STRING_cmp b c = Ok bc \<and> ASN1_STRING_cmp a c = Ok ac \<and>
    ba = - ab \<and> (ab \<le> 0 \<longrightarrow> bc \<le> 0 \<longrightarrow> ac \<le> 0) \<and>
    (ab = 0 \<longleftrightarrow> str_type a = str_type b \<and>
       (\<exists>len padding. compared_length a = Ok (len, padding) \<and> compared_length b = Ok (len, padding) \<and>
          take (nat len) (buffer a) = take (nat len) (buffer b)))"
proof -
  have "string_key a = string_key b \<longleftrightarrow> str_type a = str_type b \<and>
       (\<exists>len padding. compared_length a = Ok (len, padding) \<and> compared_length b = Ok (len, padding) \<and>
          take (nat len) (buffer a) = take (nat len) (buffer b))"
    using compared_length_total [OF assms(1)] compared_length_total [OF assms(2)]
    by (auto simp: string_key_def)
  moreover let ?k = string_key
  have "cmp_sign (?k b) (?k a) = - cmp_sign (?k a) (?k b)"
    "cmp_sign (?k a) (?k b) \<le> 0 \<longrightarrow> cmp_sign (?k b) (?k c) \<le> 0 \<longrightarrow> cmp_sign (?k a) (?k c) \<le> 0"
    "cmp_sign (?k a) (?k b) = 0 \<longleftrightarrow> ?k a = ?k b"
    using cmp_sign_laws(2,4) cmp_sign_laws(3) [of "?k b"] by blast+
  ultimately show ?thesis
    unfolding ASN1_STRING_cmp_key [OF assms(1,2)] ASN1_STRING_cmp_key [OF assms(2,1)]
      ASN1_STRING_cmp_key [OF assms(2,3)] ASN1_STRING_cmp_key [OF assms(1,3)]
    by simp
qed

lemma string_cmp_order_witness:
  "let s = \<lambda>d. \<lparr>str_length = 2, str_type = 4, str_data = Some d, str_flags = 0\<rparr> in
   \<exists>r. ASN1_STRING_cmp (s [1, 2]) (s [1, 3]) = Ok r \<and> ASN1_STRING_cmp (s [1, 3]) (s [1, 2]) = Ok (- r)"
  using string_cmp_order [of "\<lparr>str_length = 2, str_type = 4, str_data = Some [1, 2], str_flags = 0\<rparr>"
      "\<lparr>str_length = 2, str_type = 4, str_data = Some [1, 3], str_flags = 0\<rparr>"
      "\<lparr>str_length = 2, str_type = 4, str_data = Some [1, 3], str_flags = 0\<rparr>"]
  by (auto simp: wf_string_def buffer_def Let_def)

end
