(* ===== verification/Asn1_Header.thy ===== *)
theory Asn1_Header
  imports Asn1_Consts
begin

text \<open>
  Tag-length headers of \<open>asn1_lib.c\<close>: \<open>ASN1_get_object\<close> with its length parser, \<open>ASN1_put_object\<close>
  with its length writer, \<open>ASN1_put_eoc\<close> and \<open>ASN1_object_size\<close>. A buffer pointer is the list of
  bytes it points at; advancing the pointer drops them, and a read past the end is \<open>UB\<close>. The
  functions that write return the bytes they write.
\<close>

section \<open>Reading a header\<close>

text \<open>The base-128 loop of the high-tag form: \<open>p\<close>, \<open>l\<close> and \<open>max\<close> (here \<open>mx\<close>) as in the code.\<close>

fun get_high_tag :: "bytes \<Rightarrow> int \<Rightarrow> int \<Rightarrow> (int \<times> bytes \<times> int) asn1_result" where
  "get_high_tag [] l mx = UB"
| "get_high_tag (c # p) l mx =
     (let l' = push_bit 7 l OR (uint c AND 0x7f) in
      if uint c AND 0x80 \<noteq> 0 then
        if mx - 1 = 0 then Fail HEADER_TOO_LONG
        else if l' > drop_bit 7 INT_MAX then Fail HEADER_TOO_LONG
        else get_high_tag p l' (mx - 1)
      else if mx - 1 = 0 then Fail HEADER_TOO_LONG
      else Ok (l', p, mx - 1))"

text \<open>The loop of the long-form length: \<open>i\<close> bytes are shifted into \<open>ret\<close>.\<close>

fun get_length_loop :: "nat \<Rightarrow> bytes \<Rightarrow> u64 \<Rightarrow> (u64 \<times> bytes) option" where
  "get_length_loop 0 p ret = Some (ret, p)"
| "get_length_loop (Suc i) [] ret = None"
| "get_length_loop (Suc i) (c # p) ret = get_length_loop i p (push_bit 8 ret OR ucast c)"

text \<open>\<open>asn1_get_length\<close>: \<open>Fail\<close> stands for the return value 0.\<close>

definition asn1_get_length :: "bytes \<Rightarrow> int \<Rightarrow> (int \<times> bytes) asn1_result" where
  "asn1_get_length p mx =
     (if mx < 1 then Fail HEADER_TOO_LONG
      else case p of [] \<Rightarrow> UB | c # p' \<Rightarrow>
        if uint c = 0x80 then Fail HEADER_TOO_LONG
        else
          let i = uint c AND 0x7f; mx = mx - 1 in
          if uint c AND 0x80 \<noteq> 0 then
            if i > 8 \<or> mx < i then Fail HEADER_TOO_LONG
            else (case get_length_loop (nat i) p' 0 of None \<Rightarrow> UB
                  | Some (ret, q) \<Rightarrow>
                      if uint ret > INT_MAX div 2 then Fail HEADER_TOO_LONG else Ok (uint ret, q))
          else if i > INT_MAX div 2 then Fail HEADER_TOO_LONG else Ok (i, p'))"

text \<open>The tag number: the low five bits, or the high-tag form.\<close>

definition get_tag_number :: "u8 \<Rightarrow> bytes \<Rightarrow> int \<Rightarrow> (int \<times> bytes \<times> int) asn1_result" where
  "get_tag_number c p omax =
     (let i = uint c AND V_ASN1_PRIMITIVE_TAG in
      if i = V_ASN1_PRIMITIVE_TAG then
        if omax - 1 = 0 then Fail HEADER_TOO_LONG else get_high_tag p 0 (omax - 1)
      else if omax - 1 = 0 then Fail HEADER_TOO_LONG else Ok (i, p, omax - 1))"

text \<open>
  \<open>ASN1_get_object\<close> on success: the constructed bit, the length, the tag, the class and the new
  pointer. On failure the code returns 0x80.
\<close>

definition ASN1_get_object :: "bytes \<Rightarrow> int \<Rightarrow> (int \<times> int \<times> int \<times> int \<times> bytes) asn1_result" where
  "ASN1_get_object pp omax =
     (if omax = 0 then Fail HEADER_TOO_LONG
      else case pp of [] \<Rightarrow> UB | c # p \<Rightarrow>
        let ret = uint c AND V_ASN1_CONSTRUCTED;
            xclass = uint c AND V_ASN1_PRIVATE in
        bind_outcome (get_tag_number c p omax)
          (\<lambda>(tag, p, mx).
             if xclass = V_ASN1_UNIVERSAL \<and> tag > V_ASN1_MAX_UNIVERSAL then Fail HEADER_TOO_LONG
             else bind_outcome (asn1_get_length p mx)
               (\<lambda>(plength, p).
                  if plength > omax - int (length pp - length p) then Fail TOO_LONG
                  else Ok (ret, plength, tag, xclass, p))))"

section \<open>Writing a header\<close>

text \<open>\<open>for (i = 0; v > 0; i++) v >>= k\<close>: the number of \<open>k\<close>-bit groups.\<close>

function count_groups :: "nat \<Rightarrow> int \<Rightarrow> nat" where
  "count_groups k v = (if v > 0 \<and> k > 0 then Suc (count_groups k (drop_bit k v)) else 0)"
  by pat_completeness auto

lemma drop_bit_less: "0 < (v::int) \<Longrightarrow> 0 < k \<Longrightarrow> drop_bit k v < v"
proof -
  assume v: "0 < v" "0 < k"
  have "v div 2 ^ k < v"
    using v by (intro int_div_less_self) (auto intro: one_less_power)
  then show ?thesis by (simp add: drop_bit_eq_div)
qed

lemma drop_bit_nonneg: "0 \<le> (v::int) \<Longrightarrow> 0 \<le> drop_bit k v"
  by (simp add: drop_bit_eq_div pos_imp_zdiv_nonneg_iff)

termination count_groups
  by (relation "measure (\<lambda>(k, v). nat v)") (auto simp: drop_bit_less drop_bit_nonneg)

declare count_groups.simps [simp del]

text \<open>The two loops that fill the groups from the last to the first.\<close>

fun put_tag_loop :: "nat \<Rightarrow> nat \<Rightarrow> int \<Rightarrow> bytes \<Rightarrow> bytes" where
  "put_tag_loop ttag 0 tag acc = acc"
| "put_tag_loop ttag (Suc i) tag acc =
     put_tag_loop ttag i (drop_bit 7 tag)
       ((let b = of_int (tag AND 0x7f) in if i \<noteq> ttag - 1 then b OR 0x80 else b) # acc)"

fun put_length_loop :: "nat \<Rightarrow> int \<Rightarrow> bytes \<Rightarrow> bytes" where
  "put_length_loop 0 l acc = acc"
| "put_length_loop (Suc i) l acc =
     put_length_loop i (drop_bit 8 l) (of_int (l AND 0xff) # acc)"

definition asn1_put_length :: "int \<Rightarrow> bytes" where
  "asn1_put_length len =
     (if len \<le> 127 then [of_int len]
      else let i = count_groups 8 len in of_int (int i OR 0x80) # put_length_loop i len [])"

definition ASN1_put_object :: "int \<Rightarrow> int \<Rightarrow> int \<Rightarrow> int \<Rightarrow> bytes" where
  "ASN1_put_object constructed len tag xclass =
     (let i = (if constructed \<noteq> 0 then V_ASN1_CONSTRUCTED else 0) OR (xclass AND V_ASN1_PRIVATE) in
      (if tag < 31 then [of_int (i OR (tag AND V_ASN1_PRIMITIVE_TAG))]
       else let ttag = count_groups 7 tag
            in of_int (i OR V_ASN1_PRIMITIVE_TAG) # put_tag_loop ttag ttag tag [])
      @ (if constructed = 2 then [0x80] else asn1_put_length len))"

definition ASN1_put_eoc :: "int \<times> bytes" where
  "ASN1_put_eoc = (2, [0, 0])"

definition ASN1_object_size :: "int \<Rightarrow> int \<Rightarrow> int \<Rightarrow> int" where
  "ASN1_object_size constructed len tag =
     (if len < 0 then -1
      else
        let ret = 1 + (if tag \<ge> 31 then int (count_groups 7 tag) else 0);
            ret = (if constructed = 2 then ret + 3
                   else ret + 1 + (if len > 127 then int (count_groups 8 len) else 0))
        in if ret \<ge> INT_MAX - len then -1 else ret + len)"


section \<open>Shifts as arithmetic\<close>

lemma drop_bit_7 [byte_simps]: "drop_bit 7 (v::int) = v div 128"
  by (simp add: drop_bit_eq_div)

lemma drop_bit_8 [byte_simps]: "drop_bit 8 (v::int) = v div 256"
  by (simp add: drop_bit_eq_div)

lemma shift7_or [byte_simps]: "push_bit 7 l OR (uint (c::u8) AND 127) = l * 128 + uint c mod 128"
  using or_disjoint_int [of "uint c mod 128" 7 l] by (simp add: byte_simps)

lemma count_groups_bound:
  "0 \<le> v \<Longrightarrow> 0 < k \<Longrightarrow> v < 2 ^ (k * count_groups k v)"
proof (induction k v rule: count_groups.induct)
  case (1 k v)
  show ?case
  proof (cases "v > 0")
    case True
    let ?n = "count_groups k (drop_bit k v)"
    have ih: "drop_bit k v < 2 ^ (k * ?n)"
      using 1 True by (simp add: drop_bit_nonneg)
    have "v = drop_bit k v * 2 ^ k + v mod 2 ^ k"
      using div_mult_mod_eq [of v "2 ^ k"] by (simp add: drop_bit_eq_div)
    also have "\<dots> < (drop_bit k v + 1) * 2 ^ k"
      by (simp add: algebra_simps)
    also have "\<dots> \<le> 2 ^ (k * ?n) * 2 ^ k"
      using ih by (intro mult_right_mono) auto
    finally show ?thesis
      using True 1 by (simp add: count_groups.simps [of k v] power_add algebra_simps)
  next
    case False
    with 1 show ?thesis by simp
  qed
qed

lemma count_groups_le:
  "v < 2 ^ (k * n) \<Longrightarrow> count_groups k v \<le> n"
proof (induction n arbitrary: v)
  case 0
  then show ?case by (simp add: count_groups.simps)
next
  case (Suc n)
  have "drop_bit k v < 2 ^ (k * n)" if "v > 0"
  proof -
    have "v < 2 ^ (k * n) * 2 ^ k" using Suc.prems by (simp add: power_add algebra_simps)
    then show ?thesis by (simp add: drop_bit_eq_div int_div_less_iff)
  qed
  then show ?case using Suc.IH by (subst count_groups.simps) auto
qed

lemma count_groups_pos: "0 < v \<Longrightarrow> 0 < k \<Longrightarrow> 0 < count_groups k v"
  by (subst count_groups.simps) simp


section \<open>Reading what was written\<close>

lemma put_tag_loop_acc: "put_tag_loop t i tag acc = put_tag_loop t i tag [] @ acc"
proof (induction i arbitrary: tag acc)
  case (Suc i)
  show ?case
    unfolding put_tag_loop.simps
    by (subst (1 2) Suc) simp
qed simp

lemma length_put_tag_loop [simp]: "length (put_tag_loop t i tag acc) = i + length acc"
  by (induction i arbitrary: tag acc) auto

lemma put_length_loop_acc: "put_length_loop i l acc = put_length_loop i l [] @ acc"
proof (induction i arbitrary: l acc)
  case (Suc i)
  show ?case
    unfolding put_length_loop.simps
    by (subst (1 2) Suc) simp
qed simp

lemma length_put_length_loop [simp]: "length (put_length_loop i l acc) = i + length acc"
  by (induction i arbitrary: l acc) auto

lemma be_val_put_length_loop: "0 \<le> l \<Longrightarrow> int (be_val (put_length_loop i l [])) = l mod 256 ^ i"
proof (induction i arbitrary: l)
  case (Suc i)
  have "int (be_val (put_length_loop (Suc i) l [])) =
      (l div 256) mod 256 ^ i * 256 + l mod 256"
    using Suc by (simp add: put_length_loop_acc [of i _ "[_]"] be_val_append byte_simps
        pos_imp_zdiv_nonneg_iff flip: uint_nat)
  also have "\<dots> = l mod 256 ^ Suc i"
    by (simp add: mod_mult2_eq' zmod_zmult2_eq)
  finally show ?case .
qed simp


text \<open>Reading the leading groups accumulates the tag; reading the last one ends the loop.\<close>

lemma uint_or_bit7 [byte_simps]: "uint ((b::u8) OR 128) = uint b mod 128 + 128"
  by (induct b rule: u8_check) code_simp

lemma get_high_tag_Cons [simp]:
  "get_high_tag (c # p) l mx =
     (let l' = l * 128 + uint c mod 128 in
      if uint c \<ge> 128 then
        if mx = 1 \<or> l' > 16777215 then Fail HEADER_TOO_LONG else get_high_tag p l' (mx - 1)
      else if mx = 1 then Fail HEADER_TOO_LONG else Ok (l', p, mx - 1))"
  by (simp add: Let_def shift7_or uint_bit7)

declare get_high_tag.simps(2) [simp del]

lemma get_high_tag_step:
  assumes "0 \<le> tag" "mx > 1" "l * 128 + tag mod 128 \<le> 16777215"
  shows "get_high_tag ((of_int (tag AND 127) OR 128) # p) l mx =
         get_high_tag p (l * 128 + tag mod 128) (mx - 1)"
proof -
  have "tag mod 128 mod 256 = tag mod 128"
    using assms by (intro mod_pos_pos_trivial) auto
  with assms show ?thesis by (simp add: byte_simps)
qed

lemma get_high_tag_last:
  assumes "0 \<le> tag" "mx > 1"
  shows "get_high_tag (of_int (tag AND 127) # p) l mx = Ok (l * 128 + tag mod 128, p, mx - 1)"
proof -
  have "tag mod 128 mod 256 = tag mod 128"
    using assms by (intro mod_pos_pos_trivial) auto
  moreover have "\<not> 128 \<le> tag mod 128" by simp
  ultimately show ?thesis using assms by (simp add: byte_simps)
qed

lemma get_high_tag_groups:
  "0 \<le> tag \<Longrightarrow> 0 \<le> l \<Longrightarrow> i \<le> t \<Longrightarrow> int i < mx \<Longrightarrow>
   l * 128 ^ i + tag mod 128 ^ i \<le> 16777215 \<Longrightarrow> 
   get_high_tag (put_tag_loop (Suc t) i tag [] @ p) l mx =
   get_high_tag p (l * 128 ^ i + tag mod 128 ^ i) (mx - int i)"
proof (induction i arbitrary: tag p)
  case (Suc i)
  let ?t = "tag div 128" and ?b = "of_int (tag AND 127) OR 128 :: u8"
  let ?l = "l * 128 ^ i + ?t mod 128 ^ i"
  have eq: "?l * 128 + tag mod 128 = l * 128 ^ Suc i + tag mod 128 ^ Suc i"
    by (simp add: algebra_simps zmod_zmult2_eq)
  have "0 \<le> ?l" using Suc.prems by simp
  then have small: "?l \<le> 16777215" using eq Suc.prems by (smt (verit) pos_mod_sign)
  have "get_high_tag (put_tag_loop (Suc t) (Suc i) tag [] @ p) l mx =
        get_high_tag (put_tag_loop (Suc t) i ?t [] @ ?b # p) l mx"
    using Suc.prems by (simp add: put_tag_loop_acc [of _ i _ "[_]"] byte_simps)
  also have "\<dots> = get_high_tag (?b # p) ?l (mx - int i)"
    using Suc.prems small by (intro Suc.IH) (auto simp: pos_imp_zdiv_nonneg_iff)
  also have "\<dots> = get_high_tag p (?l * 128 + tag mod 128) (mx - int i - 1)"
    using Suc.prems eq by (intro get_high_tag_step) auto
  finally show ?case by (simp only: eq) (simp add: algebra_simps)
qed simp

lemma put_length_loop_read:
  "uint ret * 256 ^ length bs + int (be_val bs) < 2 ^ 64 \<Longrightarrow>
   \<exists>r. get_length_loop (length bs) (bs @ p) ret = Some (r, p) \<and>
       uint r = uint ret * 256 ^ length bs + int (be_val bs)"
proof (induction bs arbitrary: ret)
  case (Cons b bs)
  let ?ret = "push_bit 8 ret OR ucast b"
  have small: "uint ret * 256 + uint b < 2 ^ 64"
  proof -
    have "(uint ret * 256 + uint b) * 1 \<le> (uint ret * 256 + uint b) * 256 ^ length bs"
      by (intro mult_left_mono) auto
    also have "\<dots> \<le> uint ret * 256 ^ length (b # bs) + int (be_val (b # bs))"
      by (simp add: algebra_simps flip: uint_nat)
    finally show ?thesis using Cons.prems by simp
  qed
  have v: "uint ?ret = uint ret * 256 + uint b"
    using small by (rule push8_or_u64)
  have "uint ?ret * 256 ^ length bs + int (be_val bs) < 2 ^ 64"
    using Cons.prems v by (simp add: algebra_simps flip: uint_nat)
  from Cons.IH [OF this] show ?case
    using v by (simp add: algebra_simps flip: uint_nat)
qed simp


lemma put_length_loop_nonempty_bound:
  assumes "127 < len" "len \<le> INT_MAX"
  shows "1 \<le> count_groups 8 len" "count_groups 8 len \<le> 4"
  using assms count_groups_pos [of len 8] count_groups_le [of len 8 4] by auto

text \<open>The length parser with its masks read as arithmetic.\<close>

lemma asn1_get_length_Cons:
  "1 \<le> mx \<Longrightarrow> asn1_get_length (c # p) mx =
     (if uint c = 128 then Fail HEADER_TOO_LONG
      else if uint c < 128 then Ok (uint c, p)
      else if uint c - 128 > 8 \<or> mx - 1 < uint c - 128 then Fail HEADER_TOO_LONG
      else case get_length_loop (nat (uint c - 128)) p 0 of None \<Rightarrow> UB
           | Some (ret, q) \<Rightarrow>
               if uint ret > 1073741823 then Fail HEADER_TOO_LONG else Ok (uint ret, q))"
proof -
  assume mx: "1 \<le> mx"
  have m: "uint c mod 128 = (if uint c < 128 then uint c else uint c - 128)"
    by (induct c rule: u8_check) code_simp
  from mx show ?thesis
    by (auto simp: asn1_get_length_def Let_def and_127 uint_bit7 m split: option.splits)
qed

lemma asn1_get_put_length:
  assumes len: "0 \<le> len" "len \<le> INT_MAX div 2"
    and mx: "int (length (asn1_put_length len)) \<le> mx"
  shows "asn1_get_length (asn1_put_length len @ p) mx = Ok (len, p)"
proof (cases "len \<le> 127")
  case True
  with len mx show ?thesis
    by (simp add: asn1_get_length_Cons asn1_put_length_def byte_simps)
next
  case False
  let ?n = "count_groups 8 len"
  have n: "1 \<le> ?n" "?n \<le> 4"
    using put_length_loop_nonempty_bound [of len] False len by auto
  have hd: "uint (of_int (int ?n OR 128) :: u8) = int ?n + 128"
    using n by (simp add: numeral_eq_Suc le_Suc_eq) (elim disjE; simp)
  have "int (be_val (put_length_loop ?n len [])) = len"
    using be_val_put_length_loop [of len ?n] count_groups_bound [of len 8] len
    by (simp add: power_mult)
  then obtain r where "get_length_loop ?n (put_length_loop ?n len [] @ p) 0 = Some (r, p)"
    and "uint r = len"
    using put_length_loop_read [of 0 "put_length_loop ?n len []" p] len by auto
  with False n len mx hd show ?thesis
    by (simp add: asn1_get_length_Cons asn1_put_length_def Let_def)
qed

definition asn1_class :: "int \<Rightarrow> bool" where
  "asn1_class c \<longleftrightarrow> c \<in> {V_ASN1_UNIVERSAL, V_ASN1_APPLICATION, V_ASN1_CONTEXT_SPECIFIC, V_ASN1_PRIVATE}"

lemma ident_octet:
  assumes "asn1_class xclass" "0 \<le> t" "t \<le> 31"
  shows "((if c \<noteq> (0::int) then 32 else 0) OR (xclass AND 192)) OR t
         = xclass + (if c \<noteq> 0 then 32 else 0) + t"
proof -
  have k: "push_bit 5 k OR t = k * 32 + t" for k
    using assms or_disjoint_int [of t 5 k] by simp
  have "(96::int) = push_bit 5 3" "(160::int) = push_bit 5 5" "(224::int) = push_bit 5 7"
    "(32::int) = push_bit 5 1" "(64::int) = push_bit 5 2" "(128::int) = push_bit 5 4"
    "(192::int) = push_bit 5 6" "(0::int) = push_bit 5 0" by simp_all
  then show ?thesis
    using assms(1) k [of 0] k [of 1] k [of 2] k [of 3] k [of 4] k [of 5] k [of 6] k [of 7]
    by (auto simp: asn1_class_def)
qed

lemma ident_octet_fields:
  assumes "asn1_class xclass" "0 \<le> t" "t \<le> 31"
    and b: "b = (of_int (xclass + (if c then 32 else 0) + t) :: u8)"
  shows "uint b AND 32 = (if c then 32 else 0)" "uint b AND 192 = xclass" "uint b AND 31 = t"
proof -
  have u: "uint b = xclass + (if c then 32 else 0) + t"
    unfolding b uint_of_int_u8 using assms(1-3) by (auto simp: asn1_class_def)
  obtain k where k: "xclass + (if c then 32 else 0) = 32 * k" "xclass = k div 2 * 64"
    "(if c then 1 else 0) = k mod 2"
    using assms(1) that [of 0] that [of 1] that [of 2] that [of 3] that [of 4] that [of 5]
      that [of 6] that [of 7] by (cases c) (auto simp: asn1_class_def)
  have "uint b div 32 = k" "uint b mod 32 = t"
    using assms(2,3) by (simp_all add: u k(1))
  moreover have "uint b div 64 = uint b div 32 div 2"
    by (simp flip: zdiv_zmult2_eq)
  ultimately have "uint b div 32 mod 2 = (if c then 1 else 0)" "uint b div 64 * 64 = xclass"
    "uint b mod 32 = t"
    using k(2,3) by auto
  then show "uint b AND 32 = (if c then 32 else 0)" "uint b AND 192 = xclass" "uint b AND 31 = t"
    by (auto simp: byte_simps)
qed

lemma get_high_tag_roundtrip:
  assumes tag: "31 \<le> tag" "tag \<le> INT_MAX" and mx: "int (count_groups 7 tag) < mx"
  shows "get_high_tag (put_tag_loop (count_groups 7 tag) (count_groups 7 tag) tag [] @ p) 0 mx =
         Ok (tag, p, mx - int (count_groups 7 tag))"
proof -
  obtain i where i: "count_groups 7 tag = Suc i"
    using tag count_groups_pos [of tag 7] by (cases "count_groups 7 tag") auto
  have small: "tag div 128 < 128 ^ i"
  proof -
    have "i = count_groups 7 (tag div 128)"
      using i tag by (subst (asm) count_groups.simps) (simp add: byte_simps)
    then show ?thesis
      using count_groups_bound [of "tag div 128" 7] tag
      by (simp add: power_mult pos_imp_zdiv_nonneg_iff)
  qed
  let ?i = "count_groups 7 tag"
  have "get_high_tag (put_tag_loop ?i ?i tag [] @ p) 0 mx =
      get_high_tag (put_tag_loop ?i i (tag div 128) [] @ of_int (tag AND 127) # p) 0 mx"
    unfolding i by (simp add: put_tag_loop_acc [of _ i _ "[_]"] byte_simps)
  also have "\<dots> = get_high_tag (of_int (tag AND 127) # p) (tag div 128) (mx - int i)"
    using get_high_tag_groups [of "tag div 128" 0 i i mx] small tag mx i
    by (simp add: pos_imp_zdiv_nonneg_iff int_div_less_iff)
  also have "\<dots> = Ok (tag, p, mx - int i - 1)"
    using get_high_tag_last [of tag "mx - int i"] tag mx i by simp
  finally show ?thesis using i by simp
qed


lemma length_put_length: "length (asn1_put_length len) = (if len \<le> 127 then 1 else 1 + count_groups 8 len)"
  by (simp add: asn1_put_length_def Let_def)

lemma length_put_object:
  "length (ASN1_put_object c len tag xclass) =
     (if tag < 31 then 1 else 1 + count_groups 7 tag) +
     (if c = 2 then 1 else if len \<le> 127 then 1 else 1 + count_groups 8 len)"
  by (simp add: ASN1_put_object_def length_put_length Let_def)

lemma ASN1_get_put_object:
  assumes cls: "asn1_class xclass" and con: "constructed \<in> {0, 1}"
    and tag: "0 \<le> tag" "tag \<le> INT_MAX" "xclass = V_ASN1_UNIVERSAL \<Longrightarrow> tag \<le> V_ASN1_MAX_UNIVERSAL"
    and len: "0 \<le> len" "len \<le> INT_MAX div 2"
    and omax: "int (length (ASN1_put_object constructed len tag xclass)) + len \<le> omax"
  shows "ASN1_get_object (ASN1_put_object constructed len tag xclass @ body) omax =
         Ok (if constructed = 1 then V_ASN1_CONSTRUCTED else 0, len, tag, xclass, body)"
proof -
  let ?i = "(if constructed \<noteq> 0 then 32 else 0) OR (xclass AND 192)" and ?c = "constructed \<noteq> 0"
  define t where "t = (if tag < 31 then tag else 31)"
  define b :: u8 where "b = of_int (?i OR t)"
  define gs where "gs = (if tag < 31 then [] else put_tag_loop (count_groups 7 tag) (count_groups 7 tag) tag [])"
  have t: "0 \<le> t" "t \<le> 31" and tm: "t = (if tag < 31 then tag mod 32 else 31)"
    using tag by (auto simp: t_def)
  have put: "ASN1_put_object constructed len tag xclass = b # gs @ asn1_put_length len"
    using con tm by (auto simp: ASN1_put_object_def b_def gs_def byte_simps Let_def)
  have "b = of_int (xclass + (if ?c then 32 else 0) + t)"
    unfolding b_def using ident_octet [OF cls t, of constructed] by simp
  note fields = ident_octet_fields [OF cls t this]
  let ?m = "omax - 1"
  have omax1: "int (length gs) + int (length (asn1_put_length len)) + len \<le> ?m"
    using omax by (simp add: put)
  have lenpos: "1 \<le> length (asn1_put_length len)"
    by (simp add: length_put_length)
  have rd: "get_tag_number b (gs @ asn1_put_length len @ body) omax
     = Ok (tag, asn1_put_length len @ body, ?m - int (length gs))"
    using omax1 lenpos len get_high_tag_roundtrip [of tag ?m] tag fields(3)
    by (auto simp: get_tag_number_def t_def gs_def Let_def)
  have "int (length (asn1_put_length len)) \<le> ?m - int (length gs)"
    using omax1 len by simp
  note gl = asn1_get_put_length [OF len this]
  have "\<not> omax = 0" using omax1 lenpos len by simp
  with rd gl fields tag omax1 con show ?thesis
    by (auto simp: ASN1_get_object_def put Let_def)
qed


section \<open>Bounds and memory safety of the reader\<close>

lemma get_high_tag_result:
  "get_high_tag p l mx = Ok (tag, q, m) \<Longrightarrow> 0 \<le> l \<Longrightarrow> l \<le> 16777215 \<Longrightarrow> 1 \<le> mx \<Longrightarrow>
   0 \<le> tag \<and> tag \<le> INT_MAX \<and> 1 \<le> m \<and> (\<exists>pre. p = pre @ q \<and> mx = m + int (length pre))"
proof (induction p arbitrary: l mx)
  case (Cons c p)
  have cm: "0 \<le> uint c mod 128" "uint c mod 128 < 128" by simp_all
  show ?case
  proof (cases "uint c \<ge> 128")
    case True
    with Cons.prems have *: "get_high_tag p (l * 128 + uint c mod 128) (mx - 1) = Ok (tag, q, m)"
      and "l * 128 + uint c mod 128 \<le> 16777215" "mx \<noteq> 1"
      by (auto simp: Let_def split: if_splits)
    from Cons.IH [OF *] this Cons.prems cm show ?thesis
      by (auto intro: exI [of _ "c # _"])
  next
    case False
    with Cons.prems cm show ?thesis
      by (auto simp: Let_def intro!: exI [of _ "[c]"] split: if_splits)
  qed
qed simp

lemma get_high_tag_safe: "1 \<le> mx \<Longrightarrow> mx \<le> int (length p) \<Longrightarrow> get_high_tag p l mx \<noteq> UB"
  by (induction p arbitrary: l mx) (auto simp: Let_def)

lemma get_length_loop_safe: "i \<le> length p \<Longrightarrow> \<exists>r. get_length_loop i p ret = Some (r, drop i p)"
  by (induction i p ret rule: get_length_loop.induct) auto

lemma get_tag_number_safe:
  "0 < omax \<Longrightarrow> omax - 1 \<le> int (length p) \<Longrightarrow> get_tag_number c p omax \<noteq> UB"
  using get_high_tag_safe [of "omax - 1" p 0] by (auto simp: get_tag_number_def Let_def)

lemma get_tag_number_result:
  assumes "get_tag_number c p omax = Ok (tag, q, mx)" "0 < omax"
  shows "0 \<le> tag \<and> tag \<le> INT_MAX \<and> 1 \<le> mx \<and>
    (\<exists>pre. p = pre @ q \<and> omax - 1 = mx + int (length pre))"
  using assms get_high_tag_result [of p 0 "omax - 1" tag q mx]
  by (auto simp: get_tag_number_def Let_def and_31 split: if_splits)

lemma asn1_get_length_safe: "mx \<le> int (length p) \<Longrightarrow> asn1_get_length p mx \<noteq> UB"
proof (cases p)
  case (Cons c p')
  assume mx: "mx \<le> int (length p)"
  show ?thesis
  proof (cases "1 \<le> mx \<and> 128 \<le> uint c \<and> uint c - 128 \<le> mx - 1")
    case True
    then have "nat (uint c - 128) \<le> length p'" using mx Cons by (simp add: nat_le_iff)
    from get_length_loop_safe [OF this, of 0] True Cons show ?thesis
      by (auto simp: asn1_get_length_Cons split: if_splits)
  next
    case False
    then show ?thesis
      using asn1_get_length_Cons [of mx c p']
      by (cases "1 \<le> mx") (auto simp: Cons asn1_get_length_def)
  qed
qed (simp add: asn1_get_length_def)

lemma asn1_get_length_result:
  assumes "asn1_get_length p mx = Ok (len, q)"
  shows "0 \<le> len \<and> len \<le> INT_MAX div 2 \<and> (\<exists>pre. p = pre @ q \<and> pre \<noteq> [] \<and> int (length pre) \<le> mx)"
proof (cases p)
  case (Cons c p')
  have mx: "1 \<le> mx" using assms by (auto simp: asn1_get_length_def split: if_splits)
  have loop: "get_length_loop i p ret = Some (r, q) \<Longrightarrow> \<exists>pre. p = pre @ q \<and> length pre = i" for i p ret r q
  proof (induction i p ret rule: get_length_loop.induct)
    case (3 i c p ret)
    then obtain pre where "p = pre @ q" "length pre = i" by auto
    then show ?case by (auto intro: exI [of _ "c # pre"])
  qed auto
  show ?thesis
  proof (cases "uint c < 128")
    case True
    with assms mx Cons show ?thesis
      by (auto simp: asn1_get_length_Cons intro!: exI [of _ "[c]"] split: if_splits)
  next
    case False
    with assms mx Cons obtain r where r: "get_length_loop (nat (uint c - 128)) p' 0 = Some (r, q)"
      and *: "len = uint r" "uint r \<le> 1073741823" "uint c - 128 \<le> mx - 1"
      by (auto simp: asn1_get_length_Cons split: if_splits option.splits)
    from loop [OF r] obtain pre where "p' = pre @ q" "length pre = nat (uint c - 128)" by blast
    with * False Cons mx show ?thesis by (auto intro!: exI [of _ "c # pre"])
  qed
qed (use assms in \<open>auto simp: asn1_get_length_def split: if_splits\<close>)

lemma ASN1_get_object_never_UB:
  assumes "0 \<le> omax" "omax \<le> int (length pp)"
  shows "ASN1_get_object pp omax \<noteq> UB"
proof (cases "pp = [] \<or> omax = 0")
  case False
  then obtain c p where pp: "pp = c # p" by (cases pp) auto
  have "get_tag_number c p omax \<noteq> UB"
    using get_tag_number_safe [of omax p c] assms False pp by auto
  moreover have "asn1_get_length q mx \<noteq> UB" if "get_tag_number c p omax = Ok (tag, q, mx)" for tag q mx
    using get_tag_number_result [OF that] asn1_get_length_safe [of mx q] assms False pp by auto
  ultimately show ?thesis
    using False by (auto simp: ASN1_get_object_def pp Let_def bind_outcome_UB_iff split: if_splits)
qed (use assms in \<open>auto simp: ASN1_get_object_def\<close>)

lemma ASN1_get_object_result:
  assumes ok: "ASN1_get_object pp omax = Ok (ret, len, tag, xclass, p)" and omax: "0 \<le> omax"
  shows "ret \<in> {0, V_ASN1_CONSTRUCTED} \<and> asn1_class xclass \<and> 0 \<le> tag \<and> tag \<le> INT_MAX \<and>
    (xclass = V_ASN1_UNIVERSAL \<longrightarrow> tag \<le> V_ASN1_MAX_UNIVERSAL) \<and>
    0 \<le> len \<and> len \<le> INT_MAX div 2 \<and>
    (\<exists>hdr. pp = hdr @ p \<and> 2 \<le> length hdr \<and> int (length hdr) + len \<le> omax)"
proof -
  obtain c p0 where pp: "pp = c # p0"
    using ok by (cases pp) (auto simp: ASN1_get_object_def split: if_splits)
  obtain q mx where tg: "get_tag_number c p0 omax = Ok (tag, q, mx)"
    and univ: "\<not> (xclass = 0 \<and> 255 < tag)" and len: "asn1_get_length q mx = Ok (len, p)"
    and fits: "len \<le> omax - int (length pp - length p)"
    and ret: "ret = uint c AND 32" and cls: "xclass = uint c AND 192" and nz: "omax \<noteq> 0"
    using ok by (auto simp: ASN1_get_object_def pp Let_def bind_outcome_Ok_iff split: if_splits)
  from get_tag_number_result [OF tg] omax nz obtain pre
    where tagb: "0 \<le> tag" "tag \<le> INT_MAX" and pre: "p0 = pre @ q" by auto
  from asn1_get_length_result [OF len] obtain pre2 where lenb: "0 \<le> len" "len \<le> INT_MAX div 2"
    and pre2: "q = pre2 @ p" "pre2 \<noteq> []" by blast
  have "uint c div 64 \<in> {0, 1, 2, 3}" by (induct c rule: u8_check) code_simp
  then have "asn1_class xclass" unfolding cls asn1_class_def byte_simps by auto
  moreover have "\<exists>hdr. pp = hdr @ p \<and> 2 \<le> length hdr \<and> int (length hdr) + len \<le> omax"
    using pp pre pre2 fits by (intro exI [of _ "c # pre @ pre2"]) (cases pre2; auto)
  ultimately show ?thesis
    using tagb lenb univ ret by (auto simp: uint_bit5)
qed


section \<open>Properties of headers\<close>

text \<open>
  C1: Reading back a written header gives its constructed bit, tag, class and content length and
  leaves the pointer on the content, for every definite-length header whose universal tags stay
  within \<open>V_ASN1_MAX_UNIVERSAL\<close> and whose length the parser admits.
\<close>

theorem header_roundtrip:
  assumes "asn1_class xclass" "constructed \<in> {0, 1}"
    and "0 \<le> tag" "tag \<le> INT_MAX" "xclass = V_ASN1_UNIVERSAL \<Longrightarrow> tag \<le> V_ASN1_MAX_UNIVERSAL"
    and "0 \<le> len" "len \<le> INT_MAX div 2" "len \<le> int (length body)"
  shows "ASN1_get_object (ASN1_put_object constructed len tag xclass @ body)
           (int (length (ASN1_put_object constructed len tag xclass @ body))) =
         Ok (if constructed = 1 then V_ASN1_CONSTRUCTED else 0, len, tag, xclass, body)"
  using assms by (intro ASN1_get_put_object) auto

lemma header_roundtrip_witness:
  "ASN1_get_object (ASN1_put_object 1 2 300 V_ASN1_CONTEXT_SPECIFIC @ [7, 9])
     (int (length (ASN1_put_object 1 2 300 V_ASN1_CONTEXT_SPECIFIC @ [7, 9]))) =
   Ok (0x20, 2, 300, 0x80, [7, 9])"
  using header_roundtrip [of 128 1 300 2 "[7, 9]"] by (simp add: asn1_class_def)

text \<open>
  C2: The header parser never reads outside the \<open>omax\<close> bytes the caller gives it, and on success
  the header and the announced content both lie inside those bytes, the tag and length fit their
  bounds and the class is one of the four.
\<close>

theorem get_object_in_bounds:
  assumes "0 \<le> omax" "omax \<le> int (length pp)"
  shows "ASN1_get_object pp omax \<noteq> UB \<and>
    (\<forall>ret len tag xclass p. ASN1_get_object pp omax = Ok (ret, len, tag, xclass, p) \<longrightarrow>
       asn1_class xclass \<and> 0 \<le> tag \<and> tag \<le> INT_MAX \<and> 0 \<le> len \<and> len \<le> INT_MAX div 2 \<and>
       (\<exists>hdr. pp = hdr @ p \<and> int (length hdr) + len \<le> omax))"
  using ASN1_get_object_never_UB [OF assms] ASN1_get_object_result [OF _ assms(1)] by blast

lemma get_object_in_bounds_witness:
  "ASN1_get_object [0x30, 0x01, 0xff] 3 \<noteq> UB"
  using get_object_in_bounds [of 3 "[0x30, 0x01, 0xff]"] by simp

text \<open>
  \<open>ASN1_object_size\<close> is the number of bytes of the header \<open>ASN1_put_object\<close> writes plus the
  content (and the end-of-contents octets when the length is indefinite), unless it reports
  overflow with -1.
\<close>

theorem object_size_exact:
  assumes "0 \<le> len" "0 \<le> tag" "ASN1_object_size constructed len tag \<noteq> -1"
  shows "ASN1_object_size constructed len tag =
    int (length (ASN1_put_object constructed len tag xclass)) + len +
    (if constructed = 2 then int (length (snd ASN1_put_eoc)) else 0)"
  using assms
  by (auto simp: ASN1_object_size_def length_put_object ASN1_put_eoc_def Let_def split: if_splits)

lemma object_size_exact_witness: "ASN1_object_size 1 200 31 = 204"
proof -
  have g: "count_groups 8 200 = 1" "count_groups 7 31 = 1"
    by (simp_all add: count_groups.simps)
  then have "ASN1_object_size 1 200 31 \<noteq> -1"
    by (simp add: ASN1_object_size_def)
  then show ?thesis
    using object_size_exact [of 200 31 1 0] g by (simp add: length_put_object)
qed

text \<open>
  \<open>ASN1_object_size\<close> reports -1 exactly when the length is negative or the total would reach
  \<open>INT_MAX\<close>; otherwise the sum it returns does not overflow.
\<close>

theorem object_size_overflow:
  assumes "0 \<le> tag"
  shows "ASN1_object_size constructed len tag = -1 \<longleftrightarrow>
    len < 0 \<or>
    int (length (ASN1_put_object constructed len tag xclass)) + len +
    (if constructed = 2 then 2 else 0) \<ge> INT_MAX"
  using assms by (auto simp: ASN1_object_size_def length_put_object Let_def)

lemma object_size_overflow_witness: "ASN1_object_size 0 2147483645 4 = -1"
proof -
  have "count_groups 8 2147483645 = 4" by (simp add: count_groups.simps)
  then show ?thesis
    using object_size_overflow [of 4 0 2147483645 0] by (simp add: length_put_object)
qed

end
