(* ===== verification/Asn1_Integer.thy ===== *)
theory Asn1_Integer
  imports Asn1_Cmp Asn1_Header
begin

text \<open>
  INTEGER and ENUMERATED (\<open>a_int.c\<close>, \<open>a_enum.c\<close>). An integer is an \<open>ASN1_STRING\<close> whose octets are the
  big-endian magnitude and whose type carries the sign. The content encoder and decoder go to and
  from two's complement; the setters and getters go to and from C's \<open>uint64_t\<close> and \<open>long\<close>. The
  functions that walk a buffer from its end are written over the reversed list.
\<close>

section \<open>Two's complement content\<close>

text \<open>
  \<open>while (!*n && i > 1)\<close> copies trailing zeros; the next octet is complemented and incremented, the
  others complemented.
\<close>

fun copy_zeros :: "bytes \<Rightarrow> bytes \<times> bytes" where
  "copy_zeros [] = ([], [])"
| "copy_zeros (n # ns) =
     (if n = 0 \<and> ns \<noteq> [] then (let (z, r) = copy_zeros ns in (0 # z, r)) else ([], n # ns))"

definition complement_from :: "bytes \<Rightarrow> bytes" where
  "complement_from ns = (case copy_zeros ns of
     (z, []) \<Rightarrow> z
   | (z, n # r) \<Rightarrow> z @ ((n XOR 0xff) + 1) # map (\<lambda>b. b XOR 0xff) r)"

text \<open>The pad octet: \<open>None\<close> when there is none.\<close>

definition int_pad :: "bool \<Rightarrow> bytes \<Rightarrow> u8 option" where
  "int_pad neg d =
     (let i = uint (hd d) in
      if \<not> neg \<and> i > 127 then Some 0
      else if neg then
        if i > 128 then Some 0xff
        else if i = 128 then if list_ex (\<lambda>b. b \<noteq> 0) (tl d) then Some 0xff else None
        else None
      else None)"

definition i2c_ASN1_INTEGER :: "asn1_string option \<Rightarrow> (int \<times> bytes) asn1_result" where
  "i2c_ASN1_INTEGER a =
     (case a of None \<Rightarrow> Fail NO_REASON
      | Some a \<Rightarrow>
          let neg = (str_type a AND V_ASN1_NEG \<noteq> 0) in
          if str_length a = 0 then Ok (1, [0])
          else if str_length a < 0 \<or> int (length (buffer a)) < str_length a then UB
          else
            let d = take (nat (str_length a)) (buffer a);
                neg = (if str_length a = 1 \<and> hd d = 0 then False else neg);
                pad = int_pad neg d;
                ret = str_length a + (if pad = None then 0 else 1);
                p = (case pad of None \<Rightarrow> [] | Some pb \<Rightarrow> [pb])
            in Ok (ret, p @ (if neg then rev (complement_from (rev d)) else d)))"

text \<open>
  The decoder's loop \<open>while ((!*p) && i)\<close> reads \<open>*p\<close> before it tests \<open>i\<close>: with all \<open>i\<close> octets zero it
  reads the octet before them, which exists only if a leading 0xff was skipped.
\<close>

definition c2i_negative :: "bool \<Rightarrow> bytes \<Rightarrow> bytes option" where
  "c2i_negative skipped p =
     (if list_all (\<lambda>b. b = 0) p then
        if skipped then Some (1 # replicate (length p) 0) else None
      else Some (rev (let ns = rev p; z = takeWhile (\<lambda>b. b = 0) ns; r = dropWhile (\<lambda>b. b = 0) ns
                      in z @ ((hd r XOR 0xff) + 1) # map (\<lambda>b. b XOR 0xff) (tl r))))"

text \<open>The sign and octets the decoder builds from the content.\<close>

definition c2i_value :: "bytes \<Rightarrow> (int \<times> bytes) option" where
  "c2i_value p = (case p of [] \<Rightarrow> Some (V_ASN1_INTEGER, [])
     | c # q \<Rightarrow>
         if c AND 0x80 \<noteq> 0 then
           map_option (Pair V_ASN1_NEG_INTEGER)
             (if c = 0xff \<and> q \<noteq> [] then c2i_negative True q else c2i_negative False (c # q))
         else Some (V_ASN1_INTEGER, if c = 0 \<and> q \<noteq> [] then q else c # q))"

text \<open>The first component is \<open>*a\<close> after the call.\<close>

definition c2i_ASN1_INTEGER ::
    "allocator \<Rightarrow> asn1_string option \<Rightarrow> bytes \<Rightarrow> int \<Rightarrow> asn1_string option \<times> (asn1_string \<times> bytes) asn1_result" where
  "c2i_ASN1_INTEGER m a pp len =
     (if len < 0 \<or> len > INT_MAX div 2 then (a, Fail TOO_LONG)
      else case (case a of None \<Rightarrow> ASN1_STRING_type_new m V_ASN1_INTEGER | Some s \<Rightarrow> Ok s) of
        UB \<Rightarrow> (a, UB)
      | Fail e \<Rightarrow> (a, Fail e)
      | Ok ret \<Rightarrow>
          (case m 1 (nat len + 1) of
             None \<Rightarrow> (a, Fail MALLOC_FAILURE)
           | Some s \<Rightarrow>
               if length pp < nat len then (a, UB)
               else case c2i_value (take (nat len) pp) of
                 None \<Rightarrow> (a, UB)
               | Some (type, d) \<Rightarrow>
                   let ret = ret\<lparr>str_type := type, str_data := Some (d @ drop (length d) s),
                                 str_length := int (length d)\<rparr>
                   in (Some ret, Ok (ret, drop (nat len) pp))))"

section \<open>C integers\<close>

definition be_bytes :: "u64 \<Rightarrow> bytes" where
  "be_bytes v = map (\<lambda>i. ucast (drop_bit (8 * i) v)) (rev [0..<8])"

text \<open>\<open>for (leading_zeros = 0; leading_zeros < 7; leading_zeros++) if (data[leading_zeros] != 0) break\<close>\<close>

fun leading_zeros :: "nat \<Rightarrow> bytes \<Rightarrow> nat" where
  "leading_zeros (Suc k) (b # d) = (if b \<noteq> 0 then 0 else Suc (leading_zeros k d))"
| "leading_zeros k d = 0"

definition ASN1_INTEGER_set_uint64 :: "allocator \<Rightarrow> asn1_string \<Rightarrow> u64 \<Rightarrow> asn1_string asn1_result" where
  "ASN1_INTEGER_set_uint64 m out v =
     (case m 0 8 of None \<Rightarrow> Fail MALLOC_FAILURE
      | Some _ \<Rightarrow>
          let d = be_bytes v; lz = leading_zeros 7 d
          in Ok (out\<lparr>str_data := Some (drop lz d @ drop (8 - lz) d), str_type := V_ASN1_INTEGER,
                     str_length := 8 - int lz\<rparr>))"

definition ASN1_INTEGER_set :: "allocator \<Rightarrow> asn1_string \<Rightarrow> int \<Rightarrow> asn1_string asn1_result" where
  "ASN1_INTEGER_set m a v =
     (if v \<ge> 0 then ASN1_INTEGER_set_uint64 m a (of_int v)
      else bind_outcome (ASN1_INTEGER_set_uint64 m a (0 - of_int v))
             (\<lambda>a. Ok (a\<lparr>str_type := V_ASN1_NEG_INTEGER\<rparr>)))"

text \<open>The common body of \<open>ASN1_INTEGER_get\<close> and \<open>ASN1_ENUMERATED_get\<close>, which differ in the types.\<close>

fun read_u64 :: "bytes \<Rightarrow> u64 \<Rightarrow> u64" where
  "read_u64 [] r = r"
| "read_u64 (c # p) r = read_u64 p (push_bit 8 r OR ucast c)"

definition get_long :: "int \<Rightarrow> int \<Rightarrow> asn1_string option \<Rightarrow> int asn1_result" where
  "get_long pos_type neg_type a =
     (case a of None \<Rightarrow> Ok 0
      | Some a \<Rightarrow>
          if str_type a \<noteq> neg_type \<and> str_type a \<noteq> pos_type then Ok (-1)
          else if str_length a > 8 then Ok (-1)
          else if str_data a \<noteq> None \<and> int (length (buffer a)) < str_length a then UB
          else
            let r64 = (if str_data a \<noteq> None then read_u64 (content a) 0 else 0)
            in if uint r64 > LONG_MAX then Ok (-1)
               else Ok (if str_type a = neg_type then - uint r64 else uint r64))"

definition ASN1_INTEGER_get :: "asn1_string option \<Rightarrow> int asn1_result" where
  "ASN1_INTEGER_get a = get_long V_ASN1_INTEGER V_ASN1_NEG_INTEGER a"

definition ASN1_ENUMERATED_get :: "asn1_string option \<Rightarrow> int asn1_result" where
  "ASN1_ENUMERATED_get a = get_long V_ASN1_ENUMERATED V_ASN1_NEG_ENUMERATED a"

text \<open>The octets of \<open>d\<close> from the lowest, at most \<open>sizeof(long)\<close>.\<close>

fun enum_loop :: "nat \<Rightarrow> int \<Rightarrow> bytes" where
  "enum_loop 0 d = []"
| "enum_loop (Suc i) d = (if d = 0 then [] else of_int (d AND 0xff) # enum_loop i (drop_bit 8 d))"

text \<open>
  The string after the call and the return value: a failed allocation has already freed the old data
  and changed the type. Negating \<open>LONG_MIN\<close> overflows.
\<close>

definition ASN1_ENUMERATED_set :: "allocator \<Rightarrow> asn1_string \<Rightarrow> int \<Rightarrow> (asn1_string \<times> int) asn1_result" where
  "ASN1_ENUMERATED_set m a v =
     (let a = a\<lparr>str_type := V_ASN1_ENUMERATED\<rparr>;
          a = (if str_length a < 9
               then a\<lparr>str_data := map_option (\<lambda>_. replicate 9 0) (m 0 9)\<rparr> else a) in
      if str_data a = None then Ok (a, 0)
      else if v = LONG_MIN then UB
      else
        let d = (if v < 0 then - v else v);
            a = (if v < 0 then a\<lparr>str_type := V_ASN1_NEG_ENUMERATED\<rparr> else a);
            out = rev (enum_loop 8 d)
        in (case memcpy_at (buffer a) 0 out of
              None \<Rightarrow> UB
            | Some buf \<Rightarrow> Ok (a\<lparr>str_data := Some buf, str_length := int (length out)\<rparr>, 1)))"

definition ASN1_INTEGER_dup :: "allocator \<Rightarrow> asn1_string option \<Rightarrow> asn1_string asn1_result" where
  "ASN1_INTEGER_dup m x = ASN1_STRING_dup m x"

section \<open>Big numbers\<close>

text \<open>
  \<open>BIGNUM\<close> lives in another part of the library, outside the repository: its operations are a
  parameter, \<open>bn_laws\<close> their documented behaviour with respect to the number \<open>val\<close> they represent.
\<close>

record 'bn bignum_api =
  bn_is_negative :: "'bn \<Rightarrow> bool"
  bn_is_zero :: "'bn \<Rightarrow> bool"
  bn_num_bits :: "'bn \<Rightarrow> int"
  bn_bn2bin :: "'bn \<Rightarrow> bytes"
  bn_bin2bn :: "bytes \<Rightarrow> 'bn option"
  bn_set_negative :: "'bn \<Rightarrow> 'bn"

text \<open>The common body of \<open>BN_to_ASN1_INTEGER\<close> and \<open>BN_to_ASN1_ENUMERATED\<close>, before the zero case.\<close>

definition bn_to_string ::
    "'bn bignum_api \<Rightarrow> allocator \<Rightarrow> int \<Rightarrow> bool \<Rightarrow> 'bn \<Rightarrow> asn1_string option \<Rightarrow> (asn1_string \<times> bool) asn1_result" where
  "bn_to_string api m new_type neg bn ai =
     bind_outcome (case ai of Some s \<Rightarrow> Ok s
        | None \<Rightarrow> (case ASN1_STRING_type_new m new_type of Ok s \<Rightarrow> Ok s | _ \<Rightarrow> Fail NESTED_ASN1_ERROR))
       (\<lambda>ret.
          let ret = ret\<lparr>str_type := if neg then new_type OR V_ASN1_NEG else new_type\<rparr>;
              j = bn_num_bits api bn;
              len = (if j = 0 then 0 else c_div j 8 + 1);
              grown = (if str_length ret < len + 4
                       then (case str_data ret of None \<Rightarrow> m 1 (nat (len + 4))
                             | Some c \<Rightarrow> c_realloc m 1 c (nat (len + 4)))
                       else Some (buffer ret))
          in (case grown of
                None \<Rightarrow> Ok (ret, False)
              | Some buf \<Rightarrow>
                  (case memcpy_at buf 0 (bn_bn2bin api bn) of
                     None \<Rightarrow> UB
                   | Some buf \<Rightarrow> Ok (ret\<lparr>str_data := Some buf,
                                          str_length := int (length (bn_bn2bin api bn))\<rparr>, True))))"

text \<open>The string after the call and whether it was returned; on failure a caller's object keeps its new type.\<close>

definition BN_to_ASN1_INTEGER ::
    "'bn bignum_api \<Rightarrow> allocator \<Rightarrow> 'bn \<Rightarrow> asn1_string option \<Rightarrow> (asn1_string \<times> bool) asn1_result" where
  "BN_to_ASN1_INTEGER api m bn ai =
     bind_outcome (bn_to_string api m V_ASN1_INTEGER (bn_is_negative api bn \<and> \<not> bn_is_zero api bn) bn ai)
       (\<lambda>(ret, done).
          if done \<and> str_length ret = 0 then
            (case memcpy_at (buffer ret) 0 [0] of None \<Rightarrow> UB
             | Some buf \<Rightarrow> Ok (ret\<lparr>str_data := Some buf, str_length := 1\<rparr>, True))
          else Ok (ret, done))"

definition BN_to_ASN1_ENUMERATED ::
    "'bn bignum_api \<Rightarrow> allocator \<Rightarrow> 'bn \<Rightarrow> asn1_string option \<Rightarrow> (asn1_string \<times> bool) asn1_result" where
  "BN_to_ASN1_ENUMERATED api m bn ai =
     bn_to_string api m V_ASN1_ENUMERATED (bn_is_negative api bn) bn ai"

definition string_to_bn :: "'bn bignum_api \<Rightarrow> int \<Rightarrow> asn1_string \<Rightarrow> 'bn asn1_result" where
  "string_to_bn api neg_type ai =
     (if str_length ai < 0 \<or> int (length (buffer ai)) < str_length ai then UB
      else case bn_bin2bn api (content ai) of
        None \<Rightarrow> Fail BN_LIB
      | Some ret \<Rightarrow> Ok (if str_type ai = neg_type then bn_set_negative api ret else ret))"

definition ASN1_INTEGER_to_BN :: "'bn bignum_api \<Rightarrow> asn1_string \<Rightarrow> 'bn asn1_result" where
  "ASN1_INTEGER_to_BN api ai = string_to_bn api V_ASN1_NEG_INTEGER ai"

definition ASN1_ENUMERATED_to_BN :: "'bn bignum_api \<Rightarrow> asn1_string \<Rightarrow> 'bn asn1_result" where
  "ASN1_ENUMERATED_to_BN api ai = string_to_bn api V_ASN1_NEG_ENUMERATED ai"

section \<open>Values\<close>

text \<open>The number a content string denotes in two's complement, and the number an integer object denotes.\<close>

definition twos_value :: "bytes \<Rightarrow> int" where
  "twos_value bs = (case bs of [] \<Rightarrow> 0
     | b # _ \<Rightarrow> if uint b < 128 then int (be_val bs) else int (be_val bs) - 256 ^ length bs)"

definition int_value :: "asn1_string \<Rightarrow> int" where
  "int_value s = (if str_type s AND V_ASN1_NEG \<noteq> 0 then - int (be_val (content s)) else int (be_val (content s)))"

text \<open>DER: no redundant leading octet. The objects the setters build have no leading zero octet.\<close>

definition minimal_der :: "bytes \<Rightarrow> bool" where
  "minimal_der bs \<longleftrightarrow> bs \<noteq> [] \<and>
     (2 \<le> length bs \<longrightarrow> \<not> (hd bs = 0 \<and> uint (bs ! 1) < 128) \<and> \<not> (hd bs = 0xff \<and> uint (bs ! 1) \<ge> 128))"

definition canonical_int :: "asn1_string \<Rightarrow> bool" where
  "canonical_int s \<longleftrightarrow> wf_string s \<and> content s \<noteq> [] \<and>
     (hd (content s) \<noteq> 0 \<or> content s = [0] \<and> str_type s AND V_ASN1_NEG = 0)"

lemma be_val_hd:
  assumes "bs \<noteq> []"
  shows "k \<le> unat (hd bs) \<longleftrightarrow> k * 256 ^ (length bs - 1) \<le> be_val bs"
proof -
  obtain b r where bs: "bs = b # r" using assms by (cases bs) auto
  let ?n = "256 ^ length r :: nat"
  have "be_val r div ?n = 0" by (rule div_less) (rule be_val_bound)
  then have "(unat b * ?n + be_val r) div ?n = unat b"
    using div_mult_self3 [of ?n "unat b" "be_val r"] by simp
  moreover have "k \<le> (unat b * ?n + be_val r) div ?n \<longleftrightarrow> k * ?n \<le> unat b * ?n + be_val r"
    by (rule less_eq_div_iff_mult_less_eq) simp
  ultimately have "k \<le> unat b \<longleftrightarrow> k * ?n \<le> unat b * ?n + be_val r" by (simp only:)
  then show ?thesis
    by (simp only: bs list.sel length_Cons diff_Suc_1 be_val_Cons)
qed

lemma twos_value_be:
  assumes "bs \<noteq> []"
  shows "twos_value bs = (if be_val bs < 128 * 256 ^ (length bs - 1)
    then int (be_val bs) else int (be_val bs) - 256 ^ length bs)"
proof -
  have "uint (hd bs) < 128 \<longleftrightarrow> unat (hd bs) < 128"
    using int_unat_u8 [of "hd bs"] by linarith
  then show ?thesis
    using be_val_hd [OF assms, of 128] assms by (auto simp: twos_value_def split: list.splits)
qed

lemma pow256: "bs \<noteq> [] \<Longrightarrow> (256::'a::comm_semiring_1) ^ length bs = 256 * 256 ^ (length bs - 1)"
  by (cases bs) auto

lemma pow_int: "int (256 ^ n) = 256 ^ n" by simp

lemma be_val_bound_int: "int (be_val bs) < 256 ^ length bs"
  using be_val_bound [of bs] by (metis of_nat_less_iff of_nat_numeral of_nat_power)

lemma be_val_half_int:
  assumes "bs \<noteq> []"
  shows "be_val bs < k * 256 ^ (length bs - 1) \<longleftrightarrow> int (be_val bs) < int k * 256 ^ (length bs - 1)"
  by (metis of_nat_less_iff of_nat_mult pow_int)

lemma twos_value_range:
  assumes "bs \<noteq> []"
  shows "- (128 * 256 ^ (length bs - 1)) \<le> twos_value bs \<and> twos_value bs < 128 * 256 ^ (length bs - 1)"
  using be_val_bound_int [of bs] pow256 [OF assms, where 'a = int] be_val_half_int [OF assms, of 128]
  by (auto simp: twos_value_be [OF assms])

lemma twos_value_inj:
  assumes "length xs = length ys" "twos_value xs = twos_value ys"
  shows "xs = ys"
proof (cases "xs = []")
  case False
  then have "ys \<noteq> []" using assms by auto
  then consider "int (be_val xs) = int (be_val ys)"
    | "int (be_val xs) - 256 ^ length xs = int (be_val ys)"
    | "int (be_val xs) = int (be_val ys) - 256 ^ length xs"
    using assms twos_value_be [OF False] twos_value_be [of ys] by (auto split: if_splits)
  then have "int (be_val xs) = int (be_val ys)"
  proof cases
    case 2
    then show ?thesis using be_val_bound_int [of xs] by linarith
  next
    case 3
    then show ?thesis using be_val_bound_int [of ys] assms(1) by simp
  qed
  then show ?thesis using be_val_inj [OF assms(1)] by simp
qed (use assms in simp)

text \<open>Minimality as a range of the value: it does not fit in one octet less.\<close>

lemma minimal_der_value:
  "minimal_der bs \<longleftrightarrow> bs \<noteq> [] \<and>
     (2 \<le> length bs \<longrightarrow> twos_value bs < - (128 * 256 ^ (length bs - 2)) \<or> 128 * 256 ^ (length bs - 2) \<le> twos_value bs)"
proof (cases "2 \<le> length bs")
  case True
  then obtain b c r where bs: "bs = b # c # r" by (cases bs; cases "tl bs") auto
  let ?n = "256 ^ length r :: int"
  have cr: "128 * ?n \<le> int (be_val (c # r)) \<longleftrightarrow> 128 \<le> uint c"
  proof -
    have "128 \<le> uint c \<longleftrightarrow> 128 \<le> unat c" using uint_nat [of c] by linarith
    also have "\<dots> \<longleftrightarrow> 128 * 256 ^ length r \<le> be_val (c # r)"
      using be_val_hd [of "c # r" 128] by (simp del: be_val_Cons)
    also have "\<dots> \<longleftrightarrow> 128 * ?n \<le> int (be_val (c # r))"
      using be_val_half_int [of "c # r" 128] by (simp del: be_val_Cons add: not_less [symmetric])
    finally show ?thesis by blast
  qed
  have B: "int (be_val (c # r)) < 256 * ?n" "0 \<le> int (be_val (c # r))"
    using be_val_bound_int [of "c # r"] by simp_all
  have v: "twos_value bs = (if uint b < 128 then uint b else uint b - 256) * 256 * ?n + int (be_val (c # r))"
    by (simp add: twos_value_def bs int_unat_u8 algebra_simps)
  have n: "1 \<le> ?n" by simp
  have z: "b = 0 \<longleftrightarrow> uint b = 0" "b = 0xff \<longleftrightarrow> uint b = 255"
    by (simp_all add: word_uint_eq_iff)
  have md: "minimal_der bs \<longleftrightarrow> \<not> (uint b = 0 \<and> \<not> 128 \<le> uint c) \<and> \<not> (uint b = 255 \<and> 128 \<le> uint c)"
    by (auto simp: minimal_der_def bs z)
  have l: "length bs - 2 = length r" "2 \<le> length bs" "bs \<noteq> []" by (simp_all add: bs)
  define V where "V = int (be_val (c # r))"
  note ub = uint_u8_bounds [of b] and V = B [folded V_def] cr [folded V_def] v [folded V_def]
  consider "uint b = 0" | "uint b = 255" | "1 \<le> uint b" "uint b < 128" | "128 \<le> uint b" "uint b \<le> 254"
    using ub by linarith
  then show ?thesis
  proof cases
    case 1
    then have "twos_value bs = V" using V(4) by simp
    with 1 V n l(2,3) show ?thesis by (auto simp: md l(1))
  next
    case 2
    then have "twos_value bs = V - 256 * ?n" using V(4) by simp
    with 2 V n l(2,3) show ?thesis by (auto simp: md l(1))
  next
    case 3
    have "1 * (256 * ?n) \<le> uint b * (256 * ?n)" using 3 by (intro mult_right_mono) auto
    moreover have "twos_value bs = uint b * (256 * ?n) + V" using V(4) 3 by simp
    ultimately have "128 * ?n \<le> twos_value bs" using V(2) n by linarith
    with 3 l(2,3) show ?thesis by (auto simp: md l(1))
  next
    case 4
    have "(uint b - 256) * (256 * ?n) \<le> (-2) * (256 * ?n)" using 4 by (intro mult_right_mono) auto
    moreover have "twos_value bs = (uint b - 256) * (256 * ?n) + V" using V(4) 4 by simp
    ultimately have "twos_value bs < - (128 * ?n)" using V(1) n by linarith
    with 4 l(2,3) show ?thesis by (auto simp: md l(1))
  qed
qed (auto simp: minimal_der_def)

lemma minimal_der_length:
  assumes "minimal_der xs" "ys \<noteq> []" "twos_value xs = twos_value ys"
  shows "length xs \<le> length ys"
proof (rule ccontr)
  assume "\<not> length xs \<le> length ys"
  moreover have "1 \<le> length ys" using assms(2) by (cases ys) auto
  ultimately have l: "2 \<le> length xs" "length ys - 1 \<le> length xs - 2" by linarith+
  have "(256::int) ^ (length ys - 1) \<le> 256 ^ (length xs - 2)"
    using l(2) by (intro power_increasing) auto
  moreover have "twos_value xs < - (128 * 256 ^ (length xs - 2)) \<or> 128 * 256 ^ (length xs - 2) \<le> twos_value xs"
    using assms(1) l(1) by (simp add: minimal_der_value)
  ultimately show False
    using twos_value_range [OF assms(2)] unfolding assms(3) by linarith
qed

lemma minimal_der_unique:
  "minimal_der xs \<Longrightarrow> minimal_der ys \<Longrightarrow> twos_value xs = twos_value ys \<Longrightarrow> xs = ys"
  by (intro twos_value_inj le_antisym minimal_der_length) (simp_all add: minimal_der_def)

section \<open>Complementing a buffer from its end\<close>

lemma unat_xor_ff: "unat ((b::u8) XOR 0xff) + unat b = 255"
  by (induct b rule: u8_check) code_simp

lemma unat_xor_ff_Suc: "(b::u8) \<noteq> 0 \<Longrightarrow> unat ((b XOR 0xff) + 1) + unat b = 256"
  by (induct b rule: u8_check) code_simp

lemma be_val_rev_Cons: "be_val (rev (n # ns)) = be_val (rev ns) * 256 + unat n"
  by (simp add: be_val_append)

lemma be_val_complement:
  "be_val (rev (map (\<lambda>b. b XOR 0xff) r)) + be_val (rev r) + 1 = 256 ^ length r"
proof (induction r)
  case (Cons b r)
  have "(be_val (rev (map (\<lambda>b. b XOR 0xff) r)) + be_val (rev r) + 1) * 256 = 256 ^ length (b # r)"
    unfolding Cons by simp
  then show ?case
    using unat_xor_ff [of b] unfolding list.map be_val_rev_Cons by (simp add: algebra_simps)
qed simp

lemma complement_from_simps [simp]:
  "complement_from [] = []"
  "complement_from (n # ns) = (if n = 0 \<and> ns \<noteq> [] then 0 # complement_from ns
     else ((n XOR 0xff) + 1) # map (\<lambda>b. b XOR 0xff) ns)"
  by (auto simp: complement_from_def split: prod.splits list.splits)

lemma length_complement_from [simp]: "length (complement_from ns) = length ns"
  by (induction ns) auto

lemma be_val_complement_from:
  "be_val (rev (complement_from ns)) = (if be_val (rev ns) = 0 then 0 else 256 ^ length ns - be_val (rev ns))"
proof (induction ns)
  case (Cons n ns)
  show ?case
  proof (cases "n = 0 \<and> ns \<noteq> []")
    case True
    then show ?thesis
      using Cons by (simp add: be_val_append diff_mult_distrib2 mult.commute [of _ 256])
  next
    case False
    show ?thesis
    proof (cases "n = 0")
      case True
      with False show ?thesis by simp
    next
      case n: False
      let ?c = "be_val (rev (map (\<lambda>b. b XOR 0xff) ns))" and ?v = "be_val (rev ns)"
      have "unat n \<noteq> 0" using n by (simp add: unat_eq_zero)
      moreover have "(?c + ?v + 1) * 256 = 256 ^ length (n # ns)"
        unfolding be_val_complement by simp
      ultimately show ?thesis
        using n unat_xor_ff_Suc [OF n] unfolding complement_from_simps be_val_rev_Cons
        by (simp only: if_False simp_thms be_val_rev_Cons) (simp add: algebra_simps)
    qed
  qed
qed simp

text \<open>The decoder's loop is the encoder's, except that it runs off a string of zeros.\<close>

lemma complement_from_zeros:
  assumes "\<not> list_all (\<lambda>b. b = 0) ns"
  shows "complement_from ns = (let z = takeWhile (\<lambda>b. b = 0) ns; r = dropWhile (\<lambda>b. b = 0) ns
    in z @ ((hd r XOR 0xff) + 1) # map (\<lambda>b. b XOR 0xff) (tl r))"
  using assms by (induction ns) (auto simp: Let_def)

lemma c2i_negative_eq:
  "c2i_negative skipped p =
     (if list_all (\<lambda>b. b = 0) p then if skipped then Some (1 # replicate (length p) 0) else None
      else Some (rev (complement_from (rev p))))"
  using complement_from_zeros [of "rev p"] by (simp add: c2i_negative_def Let_def list_all_iff)

lemma be_val_eq_0: "be_val bs = 0 \<longleftrightarrow> list_all (\<lambda>b. b = 0) bs"
  by (induction bs) (auto simp: unat_eq_zero)

section \<open>The encoder\<close>

definition int_octets :: "bool \<Rightarrow> bytes \<Rightarrow> bytes" where
  "int_octets neg d = (case int_pad neg d of None \<Rightarrow> [] | Some pb \<Rightarrow> [pb]) @
     (if neg then rev (complement_from (rev d)) else d)"

lemma int_pad_neg:
  assumes "d \<noteq> []"
  shows "int_pad True d = (if 128 * 256 ^ (length d - 1) < be_val d then Some 0xff else None)"
proof -
  obtain b r where d: "d = b # r" using assms by (cases d) auto
  let ?n = "256 ^ length r :: nat"
  have e: "list_ex (\<lambda>b. b \<noteq> 0) r \<longleftrightarrow> be_val r \<noteq> 0"
    by (auto simp: be_val_eq_0 list_all_iff list_ex_iff)
  have r: "be_val r < ?n" by (rule be_val_bound)
  consider "unat b \<le> 127" | "unat b = 128" | "129 \<le> unat b" by linarith
  then show ?thesis
  proof cases
    case 1
    then have "\<not> 128 * ?n \<le> be_val d" using be_val_hd [OF assms, of 128] by (simp add: d)
    moreover have "uint b \<le> 127" using 1 int_unat_u8 [of b] by linarith
    ultimately show ?thesis by (auto simp: int_pad_def d Let_def)
  next
    case 2
    moreover from 2 have "uint b = 128" using int_unat_u8 [of b] by linarith
    ultimately show ?thesis using e by (auto simp: int_pad_def d Let_def)
  next
    case 3
    have "129 * ?n \<le> unat b * ?n" using 3 by (rule mult_right_mono) simp
    then have "128 * ?n < unat b * ?n + be_val r" using r by linarith
    moreover have "128 < uint b" using 3 int_unat_u8 [of b] by linarith
    ultimately show ?thesis by (auto simp: int_pad_def d Let_def)
  qed
qed

lemma int_octets_pos:
  assumes "d \<noteq> []"
  shows "int_octets False d = (if 128 * 256 ^ (length d - 1) \<le> be_val d then 0 # d else d)"
proof -
  have "uint (hd d) > 127 \<longleftrightarrow> 128 \<le> unat (hd d)" using int_unat_u8 [of "hd d"] by linarith
  also have "\<dots> \<longleftrightarrow> 128 * 256 ^ (length d - 1) \<le> be_val d" by (rule be_val_hd [OF assms])
  finally show ?thesis by (simp add: int_octets_def int_pad_def Let_def)
qed

lemma int_octets_value:
  assumes "d \<noteq> []"
  shows "twos_value (int_octets neg d) = (if neg then - int (be_val d) else int (be_val d))"
proof (cases neg)
  case False
  then show ?thesis
    using twos_value_be [OF assms] by (auto simp: int_octets_pos [OF assms] twos_value_def)
next
  case True
  let ?c = "rev (complement_from (rev d))" and ?h = "256 ^ (length d - 1) :: nat"
  have c: "be_val ?c = (if be_val d = 0 then 0 else 256 ^ length d - be_val d)" "length ?c = length d" "?c \<noteq> []"
    using be_val_complement_from [of "rev d"] assms length_complement_from [of "rev d"]
    by (simp_all del: length_complement_from flip: length_greater_0_conv)
  have p: "256 ^ length d = 256 * ?h" by (rule pow256 [OF assms])
  have b: "be_val d < 256 * ?h" using be_val_bound [of d] p by simp
  have v: "twos_value ?c = (if be_val ?c < 128 * ?h then int (be_val ?c) else int (be_val ?c) - 256 * int ?h)"
    using twos_value_be [OF c(3)] c(2) pow256 [OF assms, where 'a = int] by simp
  show ?thesis
  proof (cases "128 * ?h < be_val d")
    case True
    then have "int (be_val ?c) = 256 * int ?h - int (be_val d)"
      using b by (simp only: c(1) p) auto
    then show ?thesis
      using True \<open>neg\<close> c(2) pow256 [OF assms, where 'a = int]
      by (simp add: int_octets_def int_pad_neg [OF assms] twos_value_def)
  next
    case False
    then have "twos_value ?c = - int (be_val d)"
      using b unfolding v by (simp only: c(1) p) auto
    then show ?thesis
      using False \<open>neg\<close> by (simp add: int_octets_def int_pad_neg [OF assms])
  qed
qed

lemma int_octets_length: "length (int_octets neg d) = length d + (if int_pad neg d = None then 0 else 1)"
  by (auto simp: int_octets_def)

lemma int_octets_minimal:
  assumes "d \<noteq> []" "hd d \<noteq> 0 \<or> d = [0]"
  shows "minimal_der (int_octets neg d)"
proof (cases "d = [0]")
  case True
  then show ?thesis by (simp add: int_octets_def int_pad_def minimal_der_def)
next
  case False
  let ?n = "int_octets neg d" and ?h = "256 ^ (length d - 1) :: nat"
  have "1 \<le> unat (hd d)" using assms(2) False by (simp add: Suc_le_eq unat_gt_0)
  then have lo: "?h \<le> be_val d" using be_val_hd [OF assms(1), of 1] by simp
  have h: "int ?h = 256 ^ (length d - 1)" by simp
  have ne: "?n \<noteq> []" using assms(1) int_octets_length [of neg d] by auto
  have len: "length ?n = length d + (if (if neg then 128 * ?h < be_val d else 128 * ?h \<le> be_val d) then 1 else 0)"
    using assms(1) int_octets_pos [OF assms(1)] by (cases neg) (auto simp: int_octets_length int_pad_neg)
  have "128 * 256 ^ (length ?n - 2) < int (be_val d) \<or>
      \<not> neg \<and> 128 * 256 ^ (length ?n - 2) \<le> int (be_val d)" if "2 \<le> length ?n"
  proof (cases "length ?n = length d")
    case True
    have "?h = 256 * 256 ^ (length ?n - 2)" using True that by (cases "length d - 1") auto
    moreover have "0 < (256::nat) ^ (length ?n - 2)" by simp
    ultimately have "128 * 256 ^ (length ?n - 2) < be_val d" using lo by linarith
    then have "int (128 * 256 ^ (length ?n - 2)) < int (be_val d)" by (simp only: of_nat_less_iff)
    then show ?thesis by simp
  next
    case False
    then have l: "length ?n - 2 = length d - 1" "if neg then 128 * ?h < be_val d else 128 * ?h \<le> be_val d"
      using len by (simp_all split: if_splits)
    then have "if neg then int (128 * ?h) < int (be_val d) else int (128 * ?h) \<le> int (be_val d)"
      by (simp only: of_nat_less_iff of_nat_le_iff)
    then show ?thesis by (simp add: l(1) split: if_splits)
  qed
  then show ?thesis
    using ne by (auto simp: minimal_der_value int_octets_value [OF assms(1)])
qed

lemma i2c_integer:
  assumes "wf_string a"
  shows "i2c_ASN1_INTEGER (Some a) =
    (if content a = [] then Ok (1, [0])
     else let bs = int_octets (str_type a AND V_ASN1_NEG \<noteq> 0 \<and> content a \<noteq> [0]) (content a)
          in Ok (int (length bs), bs))"
proof -
  have l: "int (length (content a)) = str_length a" by (rule length_content [OF assms])
  have e: "str_length a = 1 \<and> hd (content a) = 0 \<longleftrightarrow> content a = [0]"
    using l by (cases "content a"; cases "tl (content a)") auto
  have c: "take (nat (str_length a)) (buffer a) = content a" by (simp add: content_def)
  have k: "content a = [] \<longleftrightarrow> str_length a = 0" using l by auto
  show ?thesis
    using assms k
    by (auto simp: i2c_ASN1_INTEGER_def Let_def c e int_octets_length l int_octets_def wf_string_def
        split: option.splits)
qed

section \<open>The decoder\<close>

definition signed_value :: "int \<times> bytes \<Rightarrow> int" where
  "signed_value v = (if fst v = V_ASN1_NEG_INTEGER then - int (be_val (snd v)) else int (be_val (snd v)))"

definition decoded :: "bytes \<Rightarrow> int \<times> bytes \<Rightarrow> bool" where
  "decoded p v \<longleftrightarrow> signed_value v = twos_value p \<and> snd v \<noteq> [] \<and> length (snd v) \<le> length p \<and>
     fst v \<in> {V_ASN1_INTEGER, V_ASN1_NEG_INTEGER} \<and>
     (minimal_der p \<longrightarrow> hd (snd v) \<noteq> 0 \<or> snd v = [0] \<and> fst v = V_ASN1_INTEGER)"

lemma c2i_positive_decoded:
  assumes "uint c < 128"
  shows "decoded (c # q) (V_ASN1_INTEGER, if c = 0 \<and> q \<noteq> [] then q else c # q)"
proof -
  have "uint (q ! 0) = uint (hd q)" if "q \<noteq> []" using that by (simp add: hd_conv_nth)
  then show ?thesis
    using assms by (cases q) (auto simp: decoded_def signed_value_def twos_value_def minimal_der_def)
qed

text \<open>The negative branch on the octets \<open>p\<close> left after skipping: \<open>- be_val C = be_val p - 256 ^ length p\<close>.\<close>

lemma c2i_negative_value:
  assumes "p \<noteq> []" "skipped \<or> \<not> list_all (\<lambda>b. b = 0) p"
  shows "\<exists>C. c2i_negative skipped p = Some C \<and> be_val C + be_val p = 256 ^ length p \<and> C \<noteq> [] \<and>
    length C = length p + (if list_all (\<lambda>b. b = 0) p then 1 else 0) \<and>
    (be_val p \<le> 255 * 256 ^ (length p - 1) \<longrightarrow> hd C \<noteq> 0)"
proof (cases "list_all (\<lambda>b. b = 0) p")
  case True
  have "be_val p = 0" using True by (simp add: be_val_eq_0)
  with True assms(2) show ?thesis by (simp add: c2i_negative_eq)
next
  case False
  let ?C = "rev (complement_from (rev p))"
  have v: "be_val ?C + be_val p = 256 ^ length p"
    using False be_val_bound [of p] be_val_complement_from [of "rev p"] by (simp add: be_val_eq_0)
  have ne: "?C \<noteq> []" and l: "length ?C = length p"
    using assms(1) length_complement_from [of "rev p"]
    by (simp_all del: length_complement_from flip: length_greater_0_conv)
  have "hd ?C \<noteq> 0" if "be_val p \<le> 255 * 256 ^ (length p - 1)"
  proof -
    have "256 ^ (length p - 1) \<le> be_val ?C" using v that pow256 [OF assms(1), where 'a = nat] by linarith
    then show ?thesis using be_val_hd [OF ne, of 1] l by auto
  qed
  with False v ne l show ?thesis by (simp add: c2i_negative_eq)
qed

lemma c2i_value_decoded:
  assumes "p \<noteq> []"
  shows "\<exists>v. c2i_value p = Some v \<and> decoded p v"
proof -
  obtain c q where p: "p = c # q" using assms by (cases p) auto
  show ?thesis
  proof (cases "uint c < 128")
    case True
    then have "c AND 0x80 = 0" by (simp add: byte_bit7)
    then show ?thesis using c2i_positive_decoded [OF True] by (simp add: c2i_value_def p)
  next
    case False
    then have neg: "c AND 0x80 \<noteq> 0" by (simp add: byte_bit7)
    have tv: "twos_value p = int (be_val p) - 256 ^ length p" using False by (simp add: twos_value_def p)
    show ?thesis
    proof (cases "c = 0xff \<and> q \<noteq> []")
      case True
      from c2i_negative_value [of q True] True obtain C where
        C: "c2i_negative True q = Some C" "be_val C + be_val q = 256 ^ length q" "C \<noteq> []"
          "length C \<le> Suc (length q)" "be_val q \<le> 255 * 256 ^ (length q - 1) \<longrightarrow> hd C \<noteq> 0" by auto
      have "int (be_val C) = 256 ^ length q - int (be_val q)"
        using C(2) by (metis add_diff_cancel_right' of_nat_add of_nat_numeral of_nat_power)
      moreover have "be_val q \<le> 255 * 256 ^ (length q - 1)" if "minimal_der p"
      proof -
        have "uint (q ! 0) < 128" using that True by (cases q) (auto simp: minimal_der_def p)
        then have "\<not> 128 \<le> unat (hd q)" using True by (simp add: le_unat_u8 hd_conv_nth)
        then have "be_val q < 128 * 256 ^ (length q - 1)" using be_val_hd [of q 128] True by simp
        then show ?thesis by simp
      qed
      ultimately show ?thesis
        using C True neg tv by (auto simp: c2i_value_def p decoded_def signed_value_def)
    next
      case skip: False
      have "c \<noteq> 0" using False by auto
      then have "\<not> list_all (\<lambda>b. b = 0) p" by (simp add: p)
      from c2i_negative_value [OF assms] this obtain C where
        C: "c2i_negative False p = Some C" "be_val C + be_val p = 256 ^ length p" "C \<noteq> []"
          "length C = length p" "be_val p \<le> 255 * 256 ^ (length p - 1) \<longrightarrow> hd C \<noteq> 0" by auto
      have "int (be_val C) = 256 ^ length p - int (be_val p)"
        using C(2) by (metis add_diff_cancel_right' of_nat_add of_nat_numeral of_nat_power)
      moreover have "be_val p \<le> 255 * 256 ^ (length p - 1)"
      proof (cases "q = []")
        case True
        then show ?thesis using unat_u8_bound [of c] by (simp add: p)
      next
        case q: False
        then have "c \<noteq> 0xff" using skip by simp
        then have "uint c \<noteq> 255" by (simp add: word_uint_eq_iff)
        then have "\<not> 255 \<le> unat c" using uint_u8_bounds [of c] by (simp add: le_unat_u8)
        then show ?thesis using be_val_hd [of p 255] by (simp add: p)
      qed
      ultimately show ?thesis
        using C skip neg tv by (auto simp: c2i_value_def p decoded_def signed_value_def)
    qed
  qed
qed

text \<open>The decoder on a fresh object.\<close>

lemma neg_types:
  "V_ASN1_INTEGER AND V_ASN1_NEG = 0" "V_ASN1_NEG_INTEGER AND V_ASN1_NEG \<noteq> 0"
  by simp_all

lemma c2i_integer_None:
  assumes m: "alloc_ok m" and len: "1 \<le> len" "len \<le> INT_MAX div 2" "len \<le> int (length pp)"
  shows "c2i_ASN1_INTEGER m None pp len = (None, Fail MALLOC_FAILURE) \<or>
    (\<exists>s. c2i_ASN1_INTEGER m None pp len = (Some s, Ok (s, drop (nat len) pp)) \<and> wf_string s \<and>
       int_value s = twos_value (take (nat len) pp) \<and> content s \<noteq> [] \<and>
       str_length s \<le> len \<and> str_type s \<in> {V_ASN1_INTEGER, V_ASN1_NEG_INTEGER} \<and>
       (minimal_der (take (nat len) pp) \<longrightarrow> canonical_int s))"
proof -
  have "take (nat len) pp \<noteq> []" using len by (cases pp) auto
  from c2i_value_decoded [OF this] obtain type C where
    v: "c2i_value (take (nat len) pp) = Some (type, C)" "decoded (take (nat len) pp) (type, C)" by auto
  have lC: "length C \<le> nat len" using v(2) by (simp add: decoded_def)
  have int_type: "type = V_ASN1_INTEGER \<or> type = V_ASN1_NEG_INTEGER" using v(2) by (simp add: decoded_def)
  show ?thesis
  proof (cases "m 0 0 = None \<or> m 1 (nat len + 1) = None")
    case True
    then show ?thesis
      using len by (auto simp: c2i_ASN1_INTEGER_def ASN1_STRING_type_new_def split: option.splits)
  next
    case False
    then obtain x b where b: "m 0 0 = Some x" "m 1 (nat len + 1) = Some b" by auto
    let ?s = "\<lparr>str_length = int (length C), str_type = type, str_data = Some (C @ drop (length C) b), str_flags = 0\<rparr>"
    have "c2i_ASN1_INTEGER m None pp len = (Some ?s, Ok (?s, drop (nat len) pp))"
      using b len v(1) by (simp add: c2i_ASN1_INTEGER_def ASN1_STRING_type_new_def Let_def)
    moreover have c: "content ?s = C" "wf_string ?s" by (simp_all add: content_def buffer_def wf_string_def)
    moreover have "int_value ?s = twos_value (take (nat len) pp)"
      using v(2) int_type neg_types unfolding int_value_def c
      by (auto simp: decoded_def signed_value_def)
    moreover have "minimal_der (take (nat len) pp) \<longrightarrow> canonical_int ?s"
      using v(2) neg_types c(2) unfolding canonical_int_def c(1) by (auto simp: decoded_def)
    moreover have "C \<noteq> []" "int (length C) \<le> len" using v(2) lC len(1) by (auto simp: decoded_def)
    ultimately show ?thesis using int_type by (intro disjI2 exI [of _ ?s]) simp
  qed
qed

lemma i2c_canonical:
  assumes "wf_string s" "content s \<noteq> []"
  shows "\<exists>bs. i2c_ASN1_INTEGER (Some s) = Ok (int (length bs), bs) \<and> twos_value bs = int_value s \<and>
    bs \<noteq> [] \<and> (canonical_int s \<longrightarrow> minimal_der bs)"
proof -
  let ?neg = "str_type s AND V_ASN1_NEG \<noteq> 0 \<and> content s \<noteq> [0]"
  let ?bs = "int_octets ?neg (content s)"
  have "twos_value ?bs = int_value s"
    using int_octets_value [OF assms(2), of ?neg] by (auto simp: int_value_def)
  moreover have "minimal_der ?bs" if "canonical_int s"
    using that by (intro int_octets_minimal) (auto simp: canonical_int_def)
  moreover have "?bs \<noteq> []" using assms(2) int_octets_length [of ?neg "content s"] by auto
  ultimately show ?thesis using assms by (simp add: i2c_integer Let_def)
qed

section \<open>Comparison\<close>

lemma lex_be_val: "length xs = length ys \<Longrightarrow> xs < ys \<longleftrightarrow> be_val xs < be_val (ys :: bytes)"
proof (induction xs ys rule: list_induct2)
  case (Cons x xs y ys)
  let ?n = "256 ^ length ys :: nat"
  have b: "be_val xs < ?n" "be_val ys < ?n"
    using be_val_bound [of xs] be_val_bound [of ys] Cons.hyps by simp_all
  have step: "unat x * ?n + be_val xs < unat y * ?n + be_val ys" if "x < y" "be_val xs < ?n" for x y :: u8 and xs ys
  proof -
    have "Suc (unat x) * ?n \<le> unat y * ?n"
      using that(1) by (intro mult_right_mono) (simp_all add: word_less_nat_alt)
    then show ?thesis using that(2) by simp
  qed
  show ?case
    using Cons b step [of x y xs ys] step [of y x ys xs]
    by (cases x y rule: linorder_cases) auto
qed simp

text \<open>Without leading zeros, the longer magnitude is the larger.\<close>

lemma canonical_longer:
  assumes "xs \<noteq> []" "length xs < length ys" "hd ys \<noteq> 0 \<or> ys = [0]"
  shows "be_val xs < be_val ys"
proof -
  have ys: "hd ys \<noteq> 0" "ys \<noteq> []" using assms by (cases xs; auto)+
  then have "1 \<le> unat (hd ys)" by (simp add: Suc_le_eq unat_gt_0)
  then have "256 ^ (length ys - 1) \<le> be_val ys" using be_val_hd [OF ys(2), of 1] by simp
  moreover have "be_val xs < 256 ^ length xs" by (rule be_val_bound)
  moreover have "(256::nat) ^ length xs \<le> 256 ^ (length ys - 1)"
    using assms(2) by (intro power_increasing) auto
  ultimately show ?thesis by linarith
qed

lemma canonical_key_less:
  assumes "xs \<noteq> []" "hd xs \<noteq> 0 \<or> xs = [0]" "ys \<noteq> []" "hd ys \<noteq> 0 \<or> ys = [0]"
  shows "length xs < length ys \<or> length xs = length ys \<and> xs < ys \<longleftrightarrow> be_val xs < be_val ys"
  using canonical_longer [of xs ys] canonical_longer [of ys xs] lex_be_val [of xs ys] assms
  by (cases "length xs" "length ys" rule: linorder_cases) auto

definition integer_type :: "asn1_string \<Rightarrow> bool" where
  "integer_type s \<longleftrightarrow> str_type s = V_ASN1_INTEGER \<or> str_type s = V_ASN1_NEG_INTEGER"

lemma integer_key:
  assumes "wf_string s" "integer_type s"
  shows "string_key s = (int (length (content s)), 0, content s, str_type s)"
  using assms length_content [of s]
  by (auto simp: string_key_def compared_length_def integer_type_def content_def)

lemma integer_cmp_same_sign:
  assumes x: "canonical_int x" "integer_type x" and y: "canonical_int y" "integer_type y"
    and t: "str_type x = str_type y"
  shows "ASN1_STRING_cmp x y = Ok (sgn (int (be_val (content x)) - int (be_val (content y))))"
proof -
  let ?x = "content x" and ?y = "content y"
  have wf: "wf_string x" "wf_string y" using x y by (simp_all add: canonical_int_def)
  have c: "?x \<noteq> []" "hd ?x \<noteq> 0 \<or> ?x = [0]" "?y \<noteq> []" "hd ?y \<noteq> 0 \<or> ?y = [0]"
    using x(1) y(1) by (auto simp: canonical_int_def)
  have "string_key x < string_key y \<longleftrightarrow> be_val ?x < be_val ?y"
    "string_key y < string_key x \<longleftrightarrow> be_val ?y < be_val ?x"
    unfolding integer_key [OF wf(1) x(2)] integer_key [OF wf(2) y(2)]
      canonical_key_less [OF c, symmetric] canonical_key_less [OF c(3,4,1,2), symmetric]
    using t by auto
  then show ?thesis
    unfolding ASN1_STRING_cmp_key [OF wf] cmp_sign_def by (auto simp: sgn_if)
qed

lemma ASN1_INTEGER_cmp_value:
  assumes x: "canonical_int x" "integer_type x" and y: "canonical_int y" "integer_type y"
  shows "ASN1_INTEGER_cmp x y = Ok (sgn (int_value x - int_value y))"
proof (cases "str_type x = str_type y")
  case True
  then show ?thesis
    using integer_cmp_same_sign [OF assms True]
    by (auto simp: ASN1_INTEGER_cmp_def int_value_def Let_def sgn_if)
next
  case False
  have pos: "0 < be_val (content s)" if "canonical_int s" "str_type s = V_ASN1_NEG_INTEGER" for s
  proof -
    have "hd (content s) \<noteq> 0" "content s \<noteq> []" using that neg_types by (auto simp: canonical_int_def)
    then show ?thesis by (cases "content s") (auto simp: unat_gt_0)
  qed
  show ?thesis
    using False x y pos [of x] pos [of y] neg_types
    by (auto simp: ASN1_INTEGER_cmp_def int_value_def integer_type_def Let_def sgn_if)
qed

section \<open>C integers in and out\<close>

lemma unat_byte_of: "unat (ucast (drop_bit k (v::u64)) :: u8) = unat v div 2 ^ k mod 256"
proof -
  have "unat (drop_bit k v) = drop_bit k (unat v)"
    using unsigned_less [of v, where 'a = nat] by (simp add: unsigned_drop_bit_eq take_bit_nat_eq_self)
  then show ?thesis by (simp only: unsigned_ucast_eq take_bit_eq_mod drop_bit_eq_div) simp
qed

lemma be_val_bytes:
  "be_val (map (\<lambda>i. ucast (drop_bit (8 * i) v)) (rev [0..<n])) = unat (v::u64) mod 256 ^ n"
proof (induction n)
  case (Suc n)
  have e: "(2::nat) ^ (8 * n) = 256 ^ n" by (simp add: power_mult)
  have m: "unat v mod 256 ^ Suc n = 256 ^ n * (unat v div 256 ^ n mod 256) + unat v mod 256 ^ n"
    using mod_mult2_eq [of "unat v" "256 ^ n" 256] by (simp add: mult.commute)
  show ?case
    unfolding m using Suc by (simp add: unat_byte_of e)
qed simp

lemma be_bytes: "length (be_bytes v) = 8" "be_val (be_bytes v) = unat v"
proof -
  have "unat v < 256 ^ 8" using unsigned_less [of v, where 'a = nat] by simp
  then show "be_val (be_bytes v) = unat v" unfolding be_bytes_def be_val_bytes by simp
qed (simp add: be_bytes_def)

lemma leading_zeros_le: "leading_zeros k d \<le> k"
  by (induction k d rule: leading_zeros.induct) auto

lemma leading_zeros_value: "be_val (drop (leading_zeros k d) d) = be_val d"
  by (induction k d rule: leading_zeros.induct) auto

lemma leading_zeros_hd:
  "k < length d \<Longrightarrow> hd (drop (leading_zeros k d) d) \<noteq> 0 \<or> leading_zeros k d = k"
  by (induction k d rule: leading_zeros.induct) auto

lemma set_uint64_result:
  assumes "ASN1_INTEGER_set_uint64 m out v = Ok s"
  shows "wf_string s \<and> content s \<noteq> [] \<and> be_val (content s) = unat v \<and> str_type s = V_ASN1_INTEGER \<and>
    str_length s \<le> 8 \<and> str_data s \<noteq> None \<and> (hd (content s) \<noteq> 0 \<or> content s = [0])"
proof -
  define d where "d = be_bytes v"
  define lz where "lz = leading_zeros 7 d"
  have d: "length d = 8" "be_val d = unat v" by (simp_all add: d_def be_bytes)
  have lz: "lz \<le> 7" unfolding lz_def by (rule leading_zeros_le)
  have s: "s = out\<lparr>str_data := Some (drop lz d @ drop (8 - lz) d), str_type := V_ASN1_INTEGER,
                     str_length := 8 - int lz\<rparr>"
    using assms by (auto simp: ASN1_INTEGER_set_uint64_def Let_def d_def lz_def split: option.splits)
  have c: "content s = drop lz d" using d lz by (simp add: s content_def buffer_def nat_diff_distrib)
  have v: "be_val (drop lz d) = unat v" using d(2) by (simp add: lz_def leading_zeros_value)
  have "hd (drop lz d) \<noteq> 0 \<or> drop lz d = [0]"
  proof (cases "lz = 7")
    case True
    then have "length (drop lz d) = 1" using d(1) by simp
    then obtain b where "drop lz d = [b]" by (auto simp: length_Suc_conv simp del: length_drop)
    then show ?thesis by auto
  qed (use leading_zeros_hd [of 7 d] d(1) in \<open>simp add: lz_def\<close>)
  with c v lz d show ?thesis by (simp add: s wf_string_def buffer_def)
qed

lemma read_u64_value:
  "uint r * 256 ^ length bs + int (be_val bs) < 2 ^ 64 \<Longrightarrow>
   uint (read_u64 bs r) = uint r * 256 ^ length bs + int (be_val bs)"
proof (induction bs arbitrary: r)
  case (Cons b bs)
  let ?r = "push_bit 8 r OR ucast b"
  have small: "uint r * 256 + uint b < 2 ^ 64"
  proof -
    have "(uint r * 256 + uint b) * 1 \<le> (uint r * 256 + uint b) * 256 ^ length bs"
      by (intro mult_left_mono) auto
    also have "\<dots> \<le> uint r * 256 ^ length (b # bs) + int (be_val (b # bs))"
      by (simp add: algebra_simps int_unat_u8)
    finally show ?thesis using Cons.prems by simp
  qed
  then have v: "uint ?r = uint r * 256 + uint b" by (rule push8_or_u64)
  have "uint ?r * 256 ^ length bs + int (be_val bs) < 2 ^ 64"
    using Cons.prems v by (simp add: algebra_simps int_unat_u8)
  from Cons.IH [OF this] show ?case using v by (simp add: algebra_simps int_unat_u8)
qed simp

lemma get_long_value:
  assumes "wf_string s" "str_length s \<le> 8" "str_type s = pos \<or> str_type s = neg"
  shows "get_long pos neg (Some s) = Ok (if int (be_val (content s)) > LONG_MAX then -1
    else if str_type s = neg then - int (be_val (content s)) else int (be_val (content s)))"
proof -
  have l: "length (content s) \<le> 8" using length_content [OF assms(1)] assms(2) by linarith
  have "int (be_val (content s)) < 256 ^ length (content s)" by (rule be_val_bound_int)
  also have "(256::int) ^ length (content s) \<le> 256 ^ 8" using l by (intro power_increasing) auto
  finally have r: "uint (read_u64 (content s) 0) = int (be_val (content s))"
    using read_u64_value [of 0 "content s"] by simp
  have "str_data s = None \<Longrightarrow> content s = []" by (simp add: content_def buffer_def)
  with r assms show ?thesis by (auto simp: get_long_def wf_string_def)
qed

lemma enum_loop_value: "0 \<le> d \<Longrightarrow> int (be_val (rev (enum_loop i d))) = d mod 256 ^ i"
proof (induction i arbitrary: d)
  case (Suc i)
  have "d mod 256 ^ Suc i = d div 256 mod 256 ^ i * 256 + d mod 256"
    by (simp add: zmod_zmult2_eq)
  then show ?case
    using Suc by (simp add: be_val_append byte_simps int_unat_u8 pos_imp_zdiv_nonneg_iff)
qed simp

lemma enum_loop_length: "length (enum_loop i d) \<le> i"
  by (induction i arbitrary: d) auto

lemma enum_set_cases:
  assumes "alloc_ok m" "wf_string a" "LONG_MIN < v" "v \<le> LONG_MAX"
  shows "(str_length a < 9 \<and> m 0 9 = None \<and>
      ASN1_ENUMERATED_set m a v = Ok (a\<lparr>str_type := V_ASN1_ENUMERATED, str_data := None\<rparr>, 0)) \<or>
    (\<exists>s. ASN1_ENUMERATED_set m a v = Ok (s, 1) \<and> wf_string s \<and> int (be_val (content s)) = \<bar>v\<bar> \<and>
       str_length s \<le> 8 \<and> str_type s = (if v < 0 then V_ASN1_NEG_ENUMERATED else V_ASN1_ENUMERATED))"
proof -
  define b where "b = (if str_length a < 9 then map_option (\<lambda>_. replicate 9 0) (m 0 9) else str_data a)"
  show ?thesis
  proof (cases b)
    case None
    have "\<not> str_length a < 9 \<Longrightarrow> str_data a \<noteq> None"
      using assms(2) by (cases "str_data a") (auto simp: wf_string_def buffer_def)
    with None show ?thesis by (auto simp: ASN1_ENUMERATED_set_def b_def Let_def split: if_splits)
  next
    case (Some c)
    let ?out = "rev (enum_loop 8 \<bar>v\<bar>)"
    have c: "9 \<le> length c" using Some assms(2) by (auto simp: b_def wf_string_def buffer_def split: if_splits)
    have o: "length ?out \<le> 8" using enum_loop_length [of 8 "\<bar>v\<bar>"] by simp
    have av: "(if v < 0 then - v else v) = \<bar>v\<bar>" by simp
    have val: "int (be_val ?out) = \<bar>v\<bar>" using enum_loop_value [of "\<bar>v\<bar>" 8] assms(3,4) by simp
    define s where "s = a\<lparr>str_type := if v < 0 then V_ASN1_NEG_ENUMERATED else V_ASN1_ENUMERATED,
        str_data := Some (?out @ drop (length ?out) c), str_length := int (length ?out)\<rparr>"
    have "ASN1_ENUMERATED_set m a v = Ok (s, 1)"
      using Some c o assms(3) unfolding ASN1_ENUMERATED_set_def Let_def av
      by (auto simp: b_def s_def memcpy_at_def buffer_def split: if_splits)
    moreover have "content s = ?out" "wf_string s"
      by (simp_all add: s_def content_def buffer_def wf_string_def)
    ultimately show ?thesis using val o by (simp add: s_def)
  qed
qed

text \<open>What the documentation of \<open>BN_num_bits\<close>, \<open>BN_bn2bin\<close>, \<open>BN_bin2bn\<close> and the sign functions says.\<close>

definition bn_laws :: "'bn bignum_api \<Rightarrow> ('bn \<Rightarrow> int) \<Rightarrow> bool" where
  "bn_laws api val \<longleftrightarrow>
     (\<forall>b. (bn_is_negative api b \<longleftrightarrow> val b < 0) \<and> (bn_is_zero api b \<longleftrightarrow> val b = 0) \<and>
        0 \<le> bn_num_bits api b \<and> (\<forall>n. \<bar>val b\<bar> < 2 ^ n \<longleftrightarrow> bn_num_bits api b \<le> int n) \<and>
        int (be_val (bn_bn2bin api b)) = \<bar>val b\<bar> \<and>
        (\<forall>n. \<bar>val b\<bar> < 256 ^ n \<longleftrightarrow> length (bn_bn2bin api b) \<le> n) \<and>
        val (bn_set_negative api b) = - \<bar>val b\<bar>) \<and>
     (\<forall>bs b. bn_bin2bn api bs = Some b \<longrightarrow> val b = int (be_val bs))"

text \<open>A library of whole numbers that satisfies them.\<close>

definition int_bignum :: "int bignum_api" where
  "int_bignum = \<lparr>bn_is_negative = (\<lambda>b. b < 0), bn_is_zero = (\<lambda>b. b = 0),
     bn_num_bits = (\<lambda>b. int (count_groups 1 \<bar>b\<bar>)),
     bn_bn2bin = (\<lambda>b. put_length_loop (count_groups 8 \<bar>b\<bar>) \<bar>b\<bar> []),
     bn_bin2bn = (\<lambda>bs. Some (int (be_val bs))), bn_set_negative = (\<lambda>b. - \<bar>b\<bar>)\<rparr>"

lemma count_groups_le_iff: "0 \<le> v \<Longrightarrow> 0 < k \<Longrightarrow> count_groups k v \<le> n \<longleftrightarrow> v < 2 ^ (k * n)"
proof
  assume v: "0 \<le> v" "0 < k" and n: "count_groups k v \<le> n"
  have "v < 2 ^ (k * count_groups k v)" by (rule count_groups_bound [OF v])
  also have "\<dots> \<le> 2 ^ (k * n)" using n by (intro power_increasing) auto
  finally show "v < 2 ^ (k * n)" .
qed (rule count_groups_le)

lemma int_bignum_laws: "bn_laws int_bignum (\<lambda>b. b)"
proof -
  have e: "(256::int) ^ n = 2 ^ (8 * n)" for n by (simp add: power_mult)
  have "int (be_val (put_length_loop (count_groups 8 \<bar>b\<bar>) \<bar>b\<bar> [])) = \<bar>b\<bar>" for b
    using be_val_put_length_loop [of "\<bar>b\<bar>" "count_groups 8 \<bar>b\<bar>"] count_groups_bound [of "\<bar>b\<bar>" 8]
    by (simp add: e)
  then show ?thesis
    by (simp add: bn_laws_def int_bignum_def e count_groups_le_iff)
qed

lemma bn_to_string_result:
  assumes laws: "bn_laws api val" and m: "alloc_ok m" and wf: "\<And>a. ai = Some a \<Longrightarrow> wf_string a"
    and r: "bn_to_string api m t neg bn ai = r"
  shows "r \<noteq> UB \<and> (\<forall>s. r = Ok (s, True) \<longrightarrow> wf_string s \<and> str_data s \<noteq> None \<and> 4 \<le> length (buffer s) \<and>
    content s = bn_bn2bin api bn \<and> str_type s = (if neg then t OR V_ASN1_NEG else t))"
proof -
  define ret where "ret = (case ai of Some s \<Rightarrow> Ok s
    | None \<Rightarrow> (case ASN1_STRING_type_new m t of Ok s \<Rightarrow> Ok s | _ \<Rightarrow> Fail NESTED_ASN1_ERROR))"
  define j where "j = bn_num_bits api bn"
  define len where "len = (if j = 0 then 0 else c_div j 8 + 1)"
  let ?b = "bn_bn2bin api bn"
  have j: "0 \<le> j" using laws by (simp add: bn_laws_def j_def)
  have l8: "n \<le> 8 * (n div 8 + 1)" for n :: nat by presburger
  have "\<bar>val bn\<bar> < 2 ^ nat j" using laws j by (simp add: bn_laws_def j_def)
  also have "(2::int) ^ nat j \<le> 2 ^ (8 * (nat j div 8 + 1))" by (intro power_increasing l8) auto
  also have "(2::int) ^ (8 * (nat j div 8 + 1)) = 256 ^ (nat j div 8 + 1)" by (simp add: power_add power_mult)
  finally have "\<bar>val bn\<bar> < 256 ^ (nat j div 8 + 1)" .
  then have "length ?b \<le> nat j div 8 + 1" using laws unfolding bn_laws_def by blast
  moreover have "len \<ge> 0" "j \<noteq> 0 \<Longrightarrow> len = int (nat j div 8) + 1" using j by (auto simp: len_def c_div_8)
  ultimately have b: "int (length ?b) \<le> len + 4" "0 \<le> len"
    by (cases "j = 0"; simp add: len_def)+
  have new: "ret \<noteq> UB \<and> (\<forall>s. ret = Ok s \<longrightarrow> wf_string s)"
    using wf by (auto simp: ret_def ASN1_STRING_type_new_def split: option.splits)
  show ?thesis
  proof (cases ret)
    case (Ok s)
    define grown where "grown = (if str_length s < len + 4
        then (case str_data s of None \<Rightarrow> m 1 (nat (len + 4)) | Some c \<Rightarrow> c_realloc m 1 c (nat (len + 4)))
        else Some (buffer s))"
    have g: "grown = Some buf \<Longrightarrow> nat (len + 4) \<le> length buf" for buf
      using new Ok m
      by (auto simp: grown_def wf_string_def split: if_splits option.splits
          dest: alloc_okD [OF m] length_c_realloc [OF m])
    have eq: "r = (let ret = s\<lparr>str_type := if neg then t OR V_ASN1_NEG else t\<rparr> in
        case grown of None \<Rightarrow> Ok (ret, False)
        | Some buf \<Rightarrow> (case memcpy_at buf 0 ?b of None \<Rightarrow> UB
           | Some buf \<Rightarrow> Ok (ret\<lparr>str_data := Some buf, str_length := int (length ?b)\<rparr>, True)))"
      unfolding r [symmetric] bn_to_string_def ret_def [symmetric] Ok bind_outcome.simps Let_def grown_def
        len_def j_def
      by (simp add: buffer_def)
    show ?thesis
    proof (cases grown)
      case (Some buf)
      have lb: "nat (len + 4) \<le> length buf" using g [OF Some] .
      then have "length ?b \<le> length buf" "4 \<le> length buf" using b by linarith+
      then show ?thesis
        unfolding eq Some
        by (auto simp: memcpy_at_def Let_def wf_string_def buffer_def content_def)
    qed (simp add: eq)
  next
    case UB
    then show ?thesis using new by simp
  next
    case Fail
    then show ?thesis unfolding r [symmetric] bn_to_string_def ret_def [symmetric] by simp
  qed
qed

section \<open>Properties\<close>

text \<open>
  C3: \<open>i2c_ASN1_INTEGER\<close> writes the two's complement of the integer's value, and the shortest such
  string when the magnitude has no leading zero octet; the number it returns is the number it writes.
\<close>

theorem integer_encode_value:
  assumes "wf_string s" "content s \<noteq> []"
  shows "\<exists>bs. i2c_ASN1_INTEGER (Some s) = Ok (int (length bs), bs) \<and> twos_value bs = int_value s \<and>
    (canonical_int s \<longrightarrow> minimal_der bs)"
  using i2c_canonical [OF assms] by blast

lemma integer_encode_value_witness:
  "i2c_ASN1_INTEGER (Some \<lparr>str_length = 2, str_type = 0x102, str_data = Some [0x80, 0], str_flags = 0\<rparr>) = Ok (2, [0x80, 0])
   \<and> twos_value [0x80, 0] = -32768"
proof -
  have "i2c_ASN1_INTEGER (Some \<lparr>str_length = 2, str_type = 0x102, str_data = Some [0x80, 0], str_flags = 0\<rparr>) = Ok (2, [0x80, 0])"
    by code_simp
  moreover have "int_value \<lparr>str_length = 2, str_type = 0x102, str_data = Some [0x80, 0], str_flags = 0\<rparr> = -32768"
    by (simp add: int_value_def content_def buffer_def)
  ultimately show ?thesis
    using integer_encode_value [of "\<lparr>str_length = 2, str_type = 0x102, str_data = Some [0x80, 0], str_flags = 0\<rparr>"]
    by (auto simp: wf_string_def buffer_def content_def)
qed

text \<open>
  C4: \<open>c2i_ASN1_INTEGER\<close> accepts every content string of 1 to \<open>INT_MAX / 2\<close> octets unless memory runs
  out, reads nothing outside it, keeps its two's complement value and leaves the bytes after it.
\<close>

theorem integer_decode_value:
  assumes "alloc_ok m" "1 \<le> len" "len \<le> INT_MAX div 2" "len \<le> int (length pp)"
  shows "case snd (c2i_ASN1_INTEGER m None pp len) of
      UB \<Rightarrow> False
    | Fail e \<Rightarrow> e = MALLOC_FAILURE
    | Ok (s, rest) \<Rightarrow> wf_string s \<and> int_value s = twos_value (take (nat len) pp) \<and> rest = drop (nat len) pp"
  using c2i_integer_None [OF assms] by auto

lemma integer_decode_value_witness:
  "\<exists>s. snd (c2i_ASN1_INTEGER zero_alloc None [0xff, 0, 0, 7] 3) = Ok (s, [7]) \<and> int_value s = -65536"
proof -
  have "is_ok (snd (c2i_ASN1_INTEGER zero_alloc None [0xff, 0, 0, 7] 3))" by code_simp
  moreover have "twos_value [0xff, 0, 0] = -65536" by (simp add: twos_value_def)
  ultimately show ?thesis
    using integer_decode_value [of zero_alloc 3 "[0xff, 0, 0, 7]"] by (auto simp: is_ok_iff)
qed

text \<open>
  C5: A DER integer (no redundant leading octet) that is decoded and encoded again comes back byte
  for byte.
\<close>

theorem integer_decode_encode:
  assumes "alloc_ok m" "len \<le> INT_MAX div 2" "len \<le> int (length pp)" "minimal_der (take (nat len) pp)"
    and "snd (c2i_ASN1_INTEGER m None pp len) = Ok (s, rest)"
  shows "i2c_ASN1_INTEGER (Some s) = Ok (len, take (nat len) pp)"
proof -
  have len: "1 \<le> len" using assms(4) by (cases "nat len") (auto simp: minimal_der_def)
  from c2i_integer_None [OF assms(1) len assms(2,3)] assms(4,5)
  have s: "wf_string s" "int_value s = twos_value (take (nat len) pp)" "content s \<noteq> []" "canonical_int s" by auto
  from i2c_canonical [OF s(1,3)] s(4) obtain bs where
    bs: "i2c_ASN1_INTEGER (Some s) = Ok (int (length bs), bs)" "twos_value bs = int_value s" "minimal_der bs"
    by blast
  have "bs = take (nat len) pp" using minimal_der_unique [OF bs(3) assms(4)] bs(2) s(2) by simp
  with bs(1) assms(3) len show ?thesis by simp
qed

lemma integer_decode_encode_witness:
  "\<exists>s. snd (c2i_ASN1_INTEGER zero_alloc None [0xff, 0x7f, 1] 2) = Ok (s, [1]) \<and>
     i2c_ASN1_INTEGER (Some s) = Ok (2, [0xff, 0x7f])"
proof -
  let ?s = "\<lparr>str_length = 1, str_type = 0x102, str_data = Some [0x81, 0, 0], str_flags = 0\<rparr>"
  have "snd (c2i_ASN1_INTEGER zero_alloc None [0xff, 0x7f, 1] 2) = Ok (?s, [1])" by code_simp
  moreover have "minimal_der [0xff, 0x7f]" by code_simp
  ultimately show ?thesis
    using integer_decode_encode [of zero_alloc 2 "[0xff, 0x7f, 1]" ?s "[1]"] by simp
qed

text \<open>
  C6: On integers without leading zero octets \<open>ASN1_INTEGER_cmp\<close> compares the values: it returns the
  sign of their difference.
\<close>

theorem integer_cmp_value:
  assumes "canonical_int x" "integer_type x" "canonical_int y" "integer_type y"
  shows "ASN1_INTEGER_cmp x y = Ok (sgn (int_value x - int_value y))"
  by (rule ASN1_INTEGER_cmp_value [OF assms])

lemma integer_cmp_value_witness:
  "ASN1_INTEGER_cmp \<lparr>str_length = 1, str_type = 0x102, str_data = Some [7], str_flags = 0\<rparr>
     \<lparr>str_length = 2, str_type = 2, str_data = Some [1, 0], str_flags = 0\<rparr> = Ok (-1)"
  using integer_cmp_value [of "\<lparr>str_length = 1, str_type = 0x102, str_data = Some [7], str_flags = 0\<rparr>"
      "\<lparr>str_length = 2, str_type = 2, str_data = Some [1, 0], str_flags = 0\<rparr>"]
  by (simp add: canonical_int_def integer_type_def int_value_def wf_string_def content_def buffer_def)

text \<open>
  After \<open>ASN1_INTEGER_set\<close> the integer has the given value, without leading zero octets (so that
  it encodes minimally), and \<open>ASN1_INTEGER_get\<close> returns it, except that \<open>LONG_MIN\<close> reads back as -1:
  its magnitude exceeds \<open>LONG_MAX\<close>. Only running out of memory makes the setter fail.
\<close>

theorem integer_set_get:
  assumes "LONG_MIN \<le> v" "v \<le> LONG_MAX"
  shows "case ASN1_INTEGER_set m a v of
      UB \<Rightarrow> False
    | Fail e \<Rightarrow> e = MALLOC_FAILURE
    | Ok s \<Rightarrow> int_value s = v \<and> canonical_int s \<and>
        ASN1_INTEGER_get (Some s) = Ok (if v = LONG_MIN then -1 else v)"
proof (cases "0 \<le> v")
  case True
  have u: "int (unat (of_int v :: u64)) = v"
    using True assms by (simp add: uint_nat [symmetric] uint_word_of_int)
  show ?thesis
  proof (cases "ASN1_INTEGER_set_uint64 m a (of_int v)")
    case (Ok s)
    note s = set_uint64_result [OF Ok]
    have "int_value s = v" "canonical_int s"
      using s u by (auto simp: int_value_def canonical_int_def)
    moreover have "ASN1_INTEGER_get (Some s) = Ok v"
      using get_long_value [of s V_ASN1_INTEGER V_ASN1_NEG_INTEGER] s u assms
      by (simp add: ASN1_INTEGER_get_def)
    ultimately show ?thesis using True Ok by (simp add: ASN1_INTEGER_set_def)
  qed (use True in \<open>auto simp: ASN1_INTEGER_set_def ASN1_INTEGER_set_uint64_def Let_def split: option.splits\<close>)
next
  case False
  have u: "int (unat (0 - of_int v :: u64)) = - v"
  proof -
    have "(0 - of_int v :: u64) = of_int (- v)" by simp
    then show ?thesis using False assms by (simp only: uint_nat [symmetric] uint_word_of_int) simp
  qed
  show ?thesis
  proof (cases "ASN1_INTEGER_set_uint64 m a (0 - of_int v)")
    case (Ok s0)
    note s0 = set_uint64_result [OF Ok]
    define s where "s = s0\<lparr>str_type := V_ASN1_NEG_INTEGER\<rparr>"
    have s: "content s = content s0" "str_length s = str_length s0" "wf_string s" "str_type s = V_ASN1_NEG_INTEGER"
      using s0 by (simp_all add: s_def content_def buffer_def wf_string_def)
    have "content s0 \<noteq> [0]"
    proof
      assume "content s0 = [0]"
      then have "be_val (content s0) = 0" by simp
      with s0 have z: "unat (0 - of_int v :: u64) = 0" by (simp only:)
      from u [unfolded z] False show False by simp
    qed
    then have "int_value s = v" "canonical_int s"
      using s s0 u neg_types by (auto simp: int_value_def canonical_int_def)
    moreover have "ASN1_INTEGER_get (Some s) = Ok (if v = LONG_MIN then -1 else v)"
      using get_long_value [of s V_ASN1_INTEGER V_ASN1_NEG_INTEGER] s s0 u assms
      by (auto simp: ASN1_INTEGER_get_def)
    ultimately show ?thesis using False Ok by (simp add: ASN1_INTEGER_set_def s_def)
  qed (use False in \<open>auto simp: ASN1_INTEGER_set_def ASN1_INTEGER_set_uint64_def Let_def split: option.splits\<close>)
qed

lemma integer_set_get_witness:
  "\<exists>s. ASN1_INTEGER_set zero_alloc \<lparr>str_length = 0, str_type = 2, str_data = None, str_flags = 0\<rparr> (-300) = Ok s \<and>
     ASN1_INTEGER_get (Some s) = Ok (-300)"
proof -
  let ?a = "\<lparr>str_length = 0, str_type = 2, str_data = None, str_flags = 0\<rparr>"
  have "is_ok (ASN1_INTEGER_set zero_alloc ?a (-300))" by code_simp
  then show ?thesis
    using integer_set_get [of "-300" zero_alloc ?a] by (auto simp: is_ok_iff)
qed

text \<open>
  After a successful \<open>ASN1_ENUMERATED_set\<close> the object is well formed and \<open>ASN1_ENUMERATED_get\<close>
  returns the value set. When memory runs out the setter reports 0, but it has then already freed the
  old octets and kept their number: the object is left with no data and its old length.
\<close>

theorem enumerated_set_get:
  assumes "alloc_ok m" "wf_string a" "LONG_MIN < v" "v \<le> LONG_MAX"
  shows "\<exists>s r. ASN1_ENUMERATED_set m a v = Ok (s, r) \<and>
    (r = 1 \<longrightarrow> wf_string s \<and> ASN1_ENUMERATED_get (Some s) = Ok v) \<and>
    (r \<noteq> 1 \<longrightarrow> r = 0 \<and> str_length a < 9 \<and> m 0 9 = None \<and> str_data s = None \<and> str_length s = str_length a)"
  using enum_set_cases [OF assms]
proof (elim disjE exE conjE)
  fix s assume s: "ASN1_ENUMERATED_set m a v = Ok (s, 1)" "wf_string s" "int (be_val (content s)) = \<bar>v\<bar>"
    "str_length s \<le> 8" "str_type s = (if v < 0 then V_ASN1_NEG_ENUMERATED else V_ASN1_ENUMERATED)"
  have "ASN1_ENUMERATED_get (Some s) = Ok v"
    using get_long_value [OF s(2,4), of V_ASN1_ENUMERATED V_ASN1_NEG_ENUMERATED] s(3,5) assms(3,4)
    by (auto simp: ASN1_ENUMERATED_get_def)
  with s show ?thesis by auto
qed simp

lemma enumerated_set_get_witness:
  "\<exists>s. ASN1_ENUMERATED_set zero_alloc \<lparr>str_length = 0, str_type = 10, str_data = None, str_flags = 0\<rparr> (-300) = Ok (s, 1) \<and>
     ASN1_ENUMERATED_get (Some s) = Ok (-300)"
  using enumerated_set_get [of zero_alloc "\<lparr>str_length = 0, str_type = 10, str_data = None, str_flags = 0\<rparr>" "-300"]
  by (auto simp: wf_string_def zero_alloc_def)

text \<open>
  C7: \<open>BN_to_ASN1_INTEGER\<close> keeps the number: whatever object it writes into, the integer it returns is
  canonical, has the value of the big number, and \<open>ASN1_INTEGER_to_BN\<close> turns it back into a big number
  of that value. It never writes outside the buffer it sized from \<open>BN_num_bits\<close>.
\<close>

theorem bn_integer_roundtrip:
  assumes "bn_laws api val" "alloc_ok m" "\<And>a. ai = Some a \<Longrightarrow> wf_string a"
  shows "BN_to_ASN1_INTEGER api m bn ai \<noteq> UB \<and>
    (\<forall>s. BN_to_ASN1_INTEGER api m bn ai = Ok (s, True) \<longrightarrow>
       canonical_int s \<and> int_value s = val bn \<and>
       (\<forall>bn'. ASN1_INTEGER_to_BN api s = Ok bn' \<longrightarrow> val bn' = val bn))"
proof -
  let ?neg = "bn_is_negative api bn \<and> \<not> bn_is_zero api bn" and ?b = "bn_bn2bin api bn"
  have L: "?neg \<longleftrightarrow> val bn < 0" "int (be_val ?b) = \<bar>val bn\<bar>"
    "length ?b \<le> n \<longleftrightarrow> \<bar>val bn\<bar> < 256 ^ n" for n
    using assms(1) by (auto simp: bn_laws_def)
  have hd_b: "hd ?b \<noteq> 0" if "?b \<noteq> []"
  proof
    assume "hd ?b = 0"
    with that obtain r where "?b = 0 # r" by (cases ?b) auto
    then have "\<not> length ?b \<le> length r" "int (be_val ?b) < 256 ^ length r"
      using be_val_bound_int [of r] by simp_all
    then show False using L by simp
  qed
  define r where "r = bn_to_string api m V_ASN1_INTEGER ?neg bn ai"
  note r = bn_to_string_result [OF assms r_def [symmetric]]
  have eq: "BN_to_ASN1_INTEGER api m bn ai = bind_outcome r (\<lambda>(ret, done).
      if done \<and> str_length ret = 0 then (case memcpy_at (buffer ret) 0 [0] of None \<Rightarrow> UB
         | Some buf \<Rightarrow> Ok (ret\<lparr>str_data := Some buf, str_length := 1\<rparr>, True))
      else Ok (ret, done))"
    unfolding BN_to_ASN1_INTEGER_def r_def ..
  have fin: "canonical_int s \<and> int_value s = val bn \<and>
       (\<forall>bn'. ASN1_INTEGER_to_BN api s = Ok bn' \<longrightarrow> val bn' = val bn)"
    if s: "wf_string s" "content s = (if ?b = [] then [0] else ?b)"
      "str_type s = (if ?neg then V_ASN1_NEG_INTEGER else V_ASN1_INTEGER)" for s
  proof -
    have "be_val (content s) = be_val ?b" using s(2) by simp
    then have v: "int (be_val (content s)) = \<bar>val bn\<bar>" using L(2) by simp
    have e: "?b = [] \<Longrightarrow> \<not> ?neg" using L(1,2) by auto
    have "canonical_int s"
      using s hd_b e neg_types by (auto simp: canonical_int_def)
    moreover have "int_value s = val bn" using v s(3) L(1) neg_types by (auto simp: int_value_def)
    moreover have "val bn' = val bn" if d: "ASN1_INTEGER_to_BN api s = Ok bn'" for bn'
    proof -
      obtain b where b: "bn_bin2bn api (content s) = Some b" "bn' = (if ?neg then bn_set_negative api b else b)"
        using d s(3) by (auto simp: ASN1_INTEGER_to_BN_def string_to_bn_def split: if_splits option.splits)
      have "val b = \<bar>val bn\<bar>" using assms(1) b(1) v by (simp add: bn_laws_def)
      moreover have "val (bn_set_negative api b) = - \<bar>val b\<bar>" using assms(1) by (simp add: bn_laws_def)
      ultimately show ?thesis using b(2) L(1) by auto
    qed
    ultimately show ?thesis by blast
  qed
  show ?thesis
  proof (cases r)
    case (Ok p)
    obtain ret fin' where p: "p = (ret, fin')" by (cases p)
    show ?thesis
    proof (cases fin')
      case True
      then have ret: "wf_string ret" "4 \<le> length (buffer ret)" "content ret = ?b"
        "str_type ret = (if ?neg then V_ASN1_NEG_INTEGER else V_ASN1_INTEGER)"
        using r Ok p by auto
      show ?thesis
      proof (cases "str_length ret = 0")
        case z: True
        let ?s = "ret\<lparr>str_data := Some ([0] @ drop 1 (buffer ret)), str_length := 1\<rparr>"
        have "memcpy_at (buffer ret) 0 [0] = Some ([0] @ drop 1 (buffer ret))"
          using ret(2) by (auto simp: memcpy_at_def)
        then have "BN_to_ASN1_INTEGER api m bn ai = Ok (?s, True)"
          unfolding eq Ok p using True z by simp
        moreover have "?b = []" using ret(1,3) z length_content [OF ret(1)] by simp
        ultimately show ?thesis
          using fin [of ?s] ret(4) by (simp add: wf_string_def content_def buffer_def)
      next
        case nz: False
        then have "BN_to_ASN1_INTEGER api m bn ai = Ok (ret, True)" unfolding eq Ok p using True by simp
        moreover have "?b \<noteq> []" using ret(1,3) nz length_content [OF ret(1)] by auto
        ultimately show ?thesis using fin [of ret] ret by simp
      qed
    qed (simp add: eq Ok p)
  qed (use r in \<open>simp_all add: eq\<close>)
qed

lemma bn_integer_roundtrip_witness:
  "\<exists>s. BN_to_ASN1_INTEGER int_bignum zero_alloc (-5) None = Ok (s, True) \<and> int_value s = -5"
proof -
  have "is_ok (BN_to_ASN1_INTEGER int_bignum zero_alloc (-5) None) \<and>
      (\<forall>s. BN_to_ASN1_INTEGER int_bignum zero_alloc (-5) None \<noteq> Ok (s, False))"
    by (simp add: BN_to_ASN1_INTEGER_def bn_to_string_def int_bignum_def ASN1_STRING_type_new_def
        zero_alloc_def count_groups.simps c_div_def memcpy_at_def Let_def)
  then show ?thesis
    using bn_integer_roundtrip [OF int_bignum_laws alloc_ok_zero_alloc, of None "-5"]
    by (auto simp: is_ok_iff)
qed

end
