(* ===== verification/Asn1_Object.thy ===== *)
theory Asn1_Object
  imports Asn1_Header Asn1_String
begin

text \<open>
  BOOLEAN (\<open>a_bool.c\<close>) and OBJECT IDENTIFIER (\<open>a_object.c\<close>): the two types whose d2i and i2d functions
  read and write whole tag-length-value elements. \<open>out_arg\<close> is the output argument of an i2d function:
  NULL (only the length is wanted), a pointer to NULL (a buffer is allocated), or the caller's buffer;
  the model returns the value and the bytes written. \<open>OBJ_obj2txt\<close> and \<open>BIO_write\<close> are not part of the
  repository and are parameters.
\<close>

section \<open>Data\<close>

datatype out_arg = PP_NULL | PP_ALLOC | PP_BUF

abbreviation (input) ASN1_OBJECT_FLAG_DYNAMIC :: int where "ASN1_OBJECT_FLAG_DYNAMIC \<equiv> 0x01"
abbreviation (input) ASN1_OBJECT_FLAG_DYNAMIC_STRINGS :: int where "ASN1_OBJECT_FLAG_DYNAMIC_STRINGS \<equiv> 0x04"
abbreviation (input) ASN1_OBJECT_FLAG_DYNAMIC_DATA :: int where "ASN1_OBJECT_FLAG_DYNAMIC_DATA \<equiv> 0x08"

record asn1_object =
  obj_sn :: "bytes option"
  obj_ln :: "bytes option"
  obj_nid :: int
  obj_length :: int
  obj_data :: "bytes option"
  obj_flags :: int

definition obj_octets :: "asn1_object \<Rightarrow> bytes" where
  "obj_octets a = (case obj_data a of None \<Rightarrow> [] | Some d \<Rightarrow> take (nat (obj_length a)) d)"

definition wf_object :: "asn1_object \<Rightarrow> bool" where
  "wf_object a \<longleftrightarrow> 0 \<le> obj_length a \<and>
     obj_length a \<le> int (length (case obj_data a of None \<Rightarrow> [] | Some d \<Rightarrow> d))"

section \<open>BOOLEAN\<close>

definition i2d_ASN1_BOOLEAN :: "allocator \<Rightarrow> int \<Rightarrow> out_arg \<Rightarrow> (int \<times> bytes) asn1_result" where
  "i2d_ASN1_BOOLEAN m a pp =
     (let r = ASN1_object_size 0 1 V_ASN1_BOOLEAN in
      if pp = PP_NULL then Ok (r, [])
      else if pp = PP_ALLOC \<and> m 0 (nat r) = None then Fail MALLOC_FAILURE
      else Ok (r, ASN1_put_object 0 1 V_ASN1_BOOLEAN V_ASN1_UNIVERSAL @ [if a \<noteq> 0 then 0xff else 0x00]))"

text \<open>The value and the new pointer; an error returns -1.\<close>

definition d2i_ASN1_BOOLEAN :: "bytes \<Rightarrow> int \<Rightarrow> (int \<times> bytes) asn1_result" where
  "d2i_ASN1_BOOLEAN pp len =
     (case ASN1_get_object pp len of
        UB \<Rightarrow> UB
      | Fail _ \<Rightarrow> Fail BAD_OBJECT_HEADER
      | Ok (constr, len, tag, xclass, p) \<Rightarrow>
          if constr AND V_ASN1_CONSTRUCTED \<noteq> 0 then Fail TYPE_NOT_PRIMITIVE
          else if tag \<noteq> V_ASN1_BOOLEAN \<or> xclass \<noteq> V_ASN1_UNIVERSAL then Fail EXPECTING_A_BOOLEAN
          else if len \<noteq> 1 then Fail BOOLEAN_IS_WRONG_LENGTH
          else (case p of [] \<Rightarrow> UB | c # p \<Rightarrow> Ok (uint c, p)))"

section \<open>OBJECT IDENTIFIER\<close>

definition ASN1_OBJECT_new :: "allocator \<Rightarrow> asn1_object asn1_result" where
  "ASN1_OBJECT_new m =
     (case m 0 0 of None \<Rightarrow> Fail MALLOC_FAILURE
      | Some _ \<Rightarrow> Ok \<lparr>obj_sn = None, obj_ln = None, obj_nid = 0, obj_length = 0, obj_data = None,
                      obj_flags = ASN1_OBJECT_FLAG_DYNAMIC\<rparr>)"

text \<open>What \<open>ASN1_OBJECT_free\<close> leaves behind: \<open>None\<close> when the object itself is freed.\<close>

definition ASN1_OBJECT_free :: "asn1_object option \<Rightarrow> asn1_object option" where
  "ASN1_OBJECT_free a =
     (case a of None \<Rightarrow> None
      | Some a \<Rightarrow>
          let a = (if obj_flags a AND ASN1_OBJECT_FLAG_DYNAMIC_STRINGS \<noteq> 0
                   then a\<lparr>obj_sn := None, obj_ln := None\<rparr> else a);
              a = (if obj_flags a AND ASN1_OBJECT_FLAG_DYNAMIC_DATA \<noteq> 0
                   then a\<lparr>obj_data := None, obj_length := 0\<rparr> else a)
          in if obj_flags a AND ASN1_OBJECT_FLAG_DYNAMIC \<noteq> 0 then None else Some a)"

definition i2d_ASN1_OBJECT :: "allocator \<Rightarrow> asn1_object option \<Rightarrow> out_arg \<Rightarrow> (int \<times> bytes) asn1_result" where
  "i2d_ASN1_OBJECT m a pp =
     (case a of None \<Rightarrow> Fail PASSED_NULL_PARAMETER
      | Some a \<Rightarrow>
          if obj_length a = 0 then Fail ILLEGAL_OBJECT
          else
            let objsize = ASN1_object_size 0 (obj_length a) V_ASN1_OBJECT in
            if pp = PP_NULL \<or> objsize = -1 then Ok (objsize, [])
            else if pp = PP_ALLOC \<and> m 0 (nat objsize) = None then Fail MALLOC_FAILURE
            else if obj_length a < 0 \<or> length (obj_octets a) < nat (obj_length a) then UB
            else Ok (objsize, ASN1_put_object 0 (obj_length a) V_ASN1_OBJECT V_ASN1_UNIVERSAL @ obj_octets a))"

text \<open>
  The check of the content octets: \<open>oid_loop prev p\<close> is the loop with the previous octet, \<open>None\<close> at the
  first one.
\<close>

fun oid_loop :: "u8 option \<Rightarrow> bytes \<Rightarrow> bool" where
  "oid_loop prev [] = True"
| "oid_loop prev (c # p) =
     (if c = 0x80 \<and> (case prev of None \<Rightarrow> True | Some b \<Rightarrow> b AND 0x80 = 0) then False
      else oid_loop (Some c) p)"

text \<open>The first component is \<open>*a\<close> after the call; an object that is not dynamic is not reused.\<close>

definition c2i_ASN1_OBJECT ::
    "allocator \<Rightarrow> asn1_object option \<Rightarrow> bytes \<Rightarrow> int \<Rightarrow> asn1_object option \<times> (asn1_object \<times> bytes) asn1_result" where
  "c2i_ASN1_OBJECT m a pp len =
     (if len \<le> 0 \<or> len > INT_MAX then (a, Fail INVALID_OBJECT_ENCODING)
      else if length pp < nat len then (a, UB)
      else if pp ! (nat len - 1) AND 0x80 \<noteq> 0 then (a, Fail INVALID_OBJECT_ENCODING)
      else if \<not> oid_loop None (take (nat len) pp) then (a, Fail INVALID_OBJECT_ENCODING)
      else
        let reuse = (case a of None \<Rightarrow> False | Some a \<Rightarrow> obj_flags a AND ASN1_OBJECT_FLAG_DYNAMIC \<noteq> 0) in
        case (if reuse then Ok (the a) else ASN1_OBJECT_new m) of
          UB \<Rightarrow> (a, UB)
        | Fail e \<Rightarrow> (a, Fail e)
        | Ok ret \<Rightarrow>
            let grow = (obj_data ret = None \<or> obj_length ret < len);
                data = (if grow then m 1 (nat len) else obj_data ret) in
            (case data of
               None \<Rightarrow>
                 ((if reuse then Some (ret\<lparr>obj_data := None, obj_length := 0\<rparr>) else a), Fail MALLOC_FAILURE)
             | Some d \<Rightarrow>
                 (case memcpy_at d 0 (take (nat len) pp) of
                    None \<Rightarrow> (a, UB)
                  | Some d \<Rightarrow>
                      let flags = (if grow then obj_flags ret OR ASN1_OBJECT_FLAG_DYNAMIC_DATA else obj_flags ret);
                          flags = (if flags AND ASN1_OBJECT_FLAG_DYNAMIC_STRINGS \<noteq> 0
                                   then flags AND NOT ASN1_OBJECT_FLAG_DYNAMIC_STRINGS else flags);
                          ret = ret\<lparr>obj_data := Some d, obj_length := len, obj_sn := None, obj_ln := None,
                                    obj_flags := flags\<rparr>
                      in (Some ret, Ok (ret, drop (nat len) pp)))))"

definition d2i_ASN1_OBJECT ::
    "allocator \<Rightarrow> asn1_object option \<Rightarrow> bytes \<Rightarrow> int \<Rightarrow> asn1_object option \<times> (asn1_object \<times> bytes) asn1_result" where
  "d2i_ASN1_OBJECT m a pp len =
     (case ASN1_get_object pp len of
        UB \<Rightarrow> (a, UB)
      | Fail _ \<Rightarrow> (a, Fail BAD_OBJECT_HEADER)
      | Ok (constr, len, tag, xclass, p) \<Rightarrow>
          if constr AND V_ASN1_CONSTRUCTED \<noteq> 0 then (a, Fail TYPE_NOT_PRIMITIVE)
          else if tag \<noteq> V_ASN1_OBJECT \<or> xclass \<noteq> V_ASN1_UNIVERSAL then (a, Fail EXPECTING_AN_OBJECT)
          else c2i_ASN1_OBJECT m a p len)"

text \<open>
  \<open>ASN1_OBJECT_create\<close> duplicates a stack object with \<open>OBJ_dup\<close>, a parameter.
\<close>

definition ASN1_OBJECT_create ::
    "(asn1_object \<Rightarrow> asn1_object asn1_result) \<Rightarrow> int \<Rightarrow> bytes option \<Rightarrow> int \<Rightarrow> bytes option \<Rightarrow> bytes option \<Rightarrow> asn1_object asn1_result" where
  "ASN1_OBJECT_create OBJ_dup nid data len sn ln =
     OBJ_dup \<lparr>obj_sn = sn, obj_ln = ln, obj_nid = nid, obj_length = len, obj_data = data,
       obj_flags = ASN1_OBJECT_FLAG_DYNAMIC OR ASN1_OBJECT_FLAG_DYNAMIC_STRINGS OR ASN1_OBJECT_FLAG_DYNAMIC_DATA\<rparr>"

section \<open>Printing an OBJECT IDENTIFIER\<close>

text \<open>
  A BIO is a parameter: \<open>BIO_write\<close> takes its state and the bytes and gives the count it returns and the
  new state. \<open>OBJ_obj2txt\<close> gives the value it returns and the text; it stores at most \<open>buf_len - 1\<close> bytes
  of the text and a zero.
\<close>

type_synonym 'b bio_write = "'b \<Rightarrow> bytes \<Rightarrow> int \<times> 'b"

definition write_str :: "'b bio_write \<Rightarrow> 'b \<Rightarrow> bytes \<Rightarrow> int \<times> 'b" where
  "write_str BIO_write bp str =
     (let len = int (length str); (n, bp) = BIO_write bp str in (if n = len then len else -1, bp))"

definition i2t_ASN1_OBJECT :: "(asn1_object \<Rightarrow> int \<times> bytes) \<Rightarrow> int \<Rightarrow> asn1_object \<Rightarrow> int \<times> bytes" where
  "i2t_ASN1_OBJECT OBJ_obj2txt buf_len a =
     (let (len, text) = OBJ_obj2txt a in (len, take (nat (buf_len - 1)) text))"

definition i2a_ASN1_OBJECT ::
    "(asn1_object \<Rightarrow> int \<times> bytes) \<Rightarrow> 'b bio_write \<Rightarrow> allocator \<Rightarrow> 'b \<Rightarrow> asn1_object option \<Rightarrow> int \<times> 'b" where
  "i2a_ASN1_OBJECT OBJ_obj2txt BIO_write m bp a =
     (case a of None \<Rightarrow> write_str BIO_write bp [78, 85, 76, 76]
      | Some a \<Rightarrow>
          if obj_data a = None then write_str BIO_write bp [78, 85, 76, 76]
          else
            let (len, str) = i2t_ASN1_OBJECT OBJ_obj2txt 80 a in
            if len > 79 \<and> m 0 (nat (len + 1)) = None then (-1, bp)
            else
              let (len, str) = (if len > 79 then i2t_ASN1_OBJECT OBJ_obj2txt (len + 1) a else (len, str));
                  str = (if len \<le> 0 then [60, 73, 78, 86, 65, 76, 73, 68, 62] else str)
              in write_str BIO_write bp str)"

section \<open>Subidentifiers\<close>

text \<open>
  X.690, 8.19.2: an object identifier's content is a sequence of subidentifiers, each in base 128 with
  the top bit set on all octets but the last, in as few octets as possible.
\<close>

fun high_octets :: "nat \<Rightarrow> bytes" where
  "high_octets n = (if n = 0 then [] else high_octets (n div 128) @ [of_nat (n mod 128) OR 0x80])"

declare high_octets.simps [simp del]

lemma high_octets_0 [simp]: "high_octets 0 = []"
  by (simp add: high_octets.simps)

definition subidentifier :: "nat \<Rightarrow> bytes" where
  "subidentifier n = high_octets (n div 128) @ [of_nat (n mod 128)]"

lemma subidentifier_nonempty [simp]: "subidentifier n \<noteq> []"
  by (simp add: subidentifier_def)

definition oid_content :: "bytes \<Rightarrow> bool" where
  "oid_content p \<longleftrightarrow> p \<noteq> [] \<and> last p AND 0x80 = 0 \<and> oid_loop None p"

lemma low_octet:
  assumes "n < 128"
  shows "uint (of_nat n :: u8) = int n"
proof -
  have "uint (of_int (int n) :: u8) = int n" unfolding uint_of_int_u8 using assms by simp
  then show ?thesis by simp
qed

lemma low_octet_bits:
  assumes "n < 128"
  shows "(of_nat n :: u8) AND 0x80 = 0" "((of_nat n :: u8) OR 0x80) AND 0x80 \<noteq> 0"
    "(of_nat n :: u8) OR 0x80 = 0x80 \<longleftrightarrow> n = 0"
proof -
  have u: "uint ((of_nat n :: u8) OR 0x80) = int n + 128"
    using low_octet [OF assms] assms uint_or_bit7 [of "of_nat n"] by simp
  show "(of_nat n :: u8) AND 0x80 = 0" using low_octet [OF assms] assms by (simp add: byte_bit7)
  show "((of_nat n :: u8) OR 0x80) AND 0x80 \<noteq> 0" unfolding byte_bit7 u by simp
  show "(of_nat n :: u8) OR 0x80 = 0x80 \<longleftrightarrow> n = 0"
    using u by (auto simp: word_uint_eq_iff)
qed

lemma high_octets_set: "b \<in> set (high_octets n) \<Longrightarrow> b AND 0x80 \<noteq> 0"
proof (induction n rule: high_octets.induct)
  case (1 n)
  then show ?case
    using low_octet_bits(2) [of "n mod 128"] by (cases "n = 0") (auto simp: high_octets.simps [of n])
qed

lemma high_octets_hd: "high_octets n \<noteq> [] \<Longrightarrow> hd (high_octets n) \<noteq> 0x80"
proof (induction n rule: high_octets.induct)
  case (1 n)
  show ?case
  proof (cases "n = 0")
    case True
    with "1.prems" show ?thesis by (simp add: high_octets.simps)
  next
    case False
    show ?thesis
    proof (cases "high_octets (n div 128) = []")
      case True
      then have "n div 128 = 0" by (subst (asm) high_octets.simps) (auto split: if_splits)
      then have "n mod 128 \<noteq> 0" using False by (metis div_mult_mod_eq add_0 mult_0)
      then show ?thesis
        using False True low_octet_bits(3) [of "n mod 128"] by (simp add: high_octets.simps [of n])
    next
      case False
      with 1 \<open>n \<noteq> 0\<close> show ?thesis by (simp add: high_octets.simps [of n])
    qed
  qed
qed

lemma octet_of_low7: "(b::u8) AND 0x80 \<noteq> 0 \<Longrightarrow> of_nat (unat b mod 128) OR 0x80 = b"
  by (induct b rule: u8_check) code_simp

lemma octet_low: "(b::u8) AND 0x80 = 0 \<Longrightarrow> of_nat (unat b mod 128) = b \<and> unat b < 128"
proof -
  assume "b AND 0x80 = 0"
  then have "unat b < 128" using le_unat_u8 [of 128 b] by (simp add: byte_bit7)
  then show ?thesis by simp
qed

text \<open>Every block of high octets that does not start with 0x80 is such a number.\<close>

lemma high_octets_surj:
  "\<forall>b\<in>set h. b AND 0x80 \<noteq> 0 \<Longrightarrow> (h = [] \<or> hd h \<noteq> 0x80) \<Longrightarrow> \<exists>n. high_octets n = h \<and> (h \<noteq> [] \<longrightarrow> 0 < n)"
proof (induction h rule: rev_induct)
  case Nil
  show ?case by (intro exI [of _ 0]) (simp add: high_octets.simps)
next
  case (snoc b h)
  then have "h = [] \<or> hd h \<noteq> 0x80" by (cases h) auto
  with snoc obtain n where n: "high_octets n = h" "h \<noteq> [] \<longrightarrow> 0 < n" by auto
  have n0: "h = [] \<Longrightarrow> n = 0" using n(1) by (subst (asm) high_octets.simps) (auto split: if_splits)
  have b: "of_nat (unat b mod 128) OR 0x80 = b" using octet_of_low7 snoc.prems(1) by simp
  let ?m = "n * 128 + unat b mod 128"
  have "0 < ?m"
  proof (cases "h = []")
    case True
    then have "b \<noteq> 0x80" using snoc.prems(2) by simp
    have "unat b mod 128 \<noteq> 0"
    proof
      assume "unat b mod 128 = 0"
      then show False using b \<open>b \<noteq> 0x80\<close> by simp
    qed
    then show ?thesis by simp
  qed (use n in simp)
  then have "high_octets ?m = high_octets (?m div 128) @ [of_nat (?m mod 128) OR 0x80]"
    by (subst high_octets.simps) simp
  also have "\<dots> = h @ [b]" using n(1) b by simp
  finally show ?case using \<open>0 < ?m\<close> by blast
qed

text \<open>The loop over one block and what follows it.\<close>

lemma oid_loop_high:
  "\<forall>b\<in>set h. b AND 0x80 \<noteq> 0 \<Longrightarrow> (case prev of None \<Rightarrow> True | Some b \<Rightarrow> b AND 0x80 = 0) \<Longrightarrow> l AND 0x80 = 0 \<Longrightarrow>
   oid_loop prev (h @ l # p) \<longleftrightarrow> (h = [] \<or> hd h \<noteq> 0x80) \<and> oid_loop (Some l) p"
proof (cases h)
  case Nil
  then show "l AND 0x80 = 0 \<Longrightarrow> ?thesis" by auto
next
  case (Cons c r)
  assume h: "\<forall>b\<in>set h. b AND 0x80 \<noteq> 0" and l: "l AND 0x80 = 0"
    and prev: "case prev of None \<Rightarrow> True | Some b \<Rightarrow> b AND 0x80 = 0"
  have inner: "\<forall>b\<in>set (c # r). b AND 0x80 \<noteq> 0 \<Longrightarrow> oid_loop (Some c) (r @ l # p) \<longleftrightarrow> oid_loop (Some l) p" for c r
    using l by (induction r arbitrary: c) auto
  show ?thesis using Cons h prev inner [of c r] by auto
qed

lemma subidentifier_step:
  assumes "oid_loop None p" "p \<noteq> []" "last p AND 0x80 = 0"
  shows "\<exists>n q. p = subidentifier n @ q \<and> oid_loop None q \<and> length q < length p"
proof -
  let ?h = "takeWhile (\<lambda>b. b AND 0x80 \<noteq> 0) p" and ?r = "dropWhile (\<lambda>b. b AND 0x80 \<noteq> 0) p"
  have "?r \<noteq> []" using assms(2,3) by (auto simp: dropWhile_eq_Nil_conv dest: last_in_set)
  then obtain l q where r: "?r = l # q" by (cases ?r) auto
  then have l: "l AND 0x80 = 0" using hd_dropWhile [of "\<lambda>b. b AND 0x80 \<noteq> 0" p] by auto
  have p: "p = ?h @ l # q" using takeWhile_dropWhile_id [of "\<lambda>b. b AND 0x80 \<noteq> 0" p] r by metis
  have h: "\<forall>b\<in>set ?h. b AND 0x80 \<noteq> 0" by (auto dest: set_takeWhileD)
  from oid_loop_high [OF h, of None l q] assms(1) p l
  have "?h = [] \<or> hd ?h \<noteq> 0x80" and q: "oid_loop (Some l) q" by auto
  from high_octets_surj [OF h this(1)] obtain n where n: "high_octets n = ?h" by auto
  have "subidentifier (n * 128 + unat l mod 128) = ?h @ [l]"
    using n octet_low [OF l] by (simp add: subidentifier_def)
  moreover have "oid_loop None q" using q l by (cases q) auto
  moreover have "length q < length p" by (subst p) simp
  ultimately show ?thesis using p by (metis append.assoc append_Cons append_Nil)
qed

lemma oid_loop_subidentifiers: "oid_loop None (concat (map subidentifier ns))"
proof (induction ns)
  case (Cons n ns)
  have l: "(of_nat (n mod 128) :: u8) AND 0x80 = 0" by (rule low_octet_bits(1)) simp
  have "oid_loop (Some (of_nat (n mod 128))) (concat (map subidentifier ns))"
    using Cons l by (cases "concat (map subidentifier ns)") auto
  then show ?case
    using oid_loop_high [of "high_octets (n div 128)" None "of_nat (n mod 128)"] l
      high_octets_set [of _ "n div 128"] high_octets_hd [of "n div 128"]
    by (auto simp add: subidentifier_def [of n])
qed simp

lemma last_subidentifiers:
  "ns \<noteq> [] \<Longrightarrow> last (concat (map subidentifier ns)) AND 0x80 = 0"
proof (induction ns)
  case (Cons n ns)
  then show ?case
    using low_octet_bits(1) [of "n mod 128"]
    by (cases "ns = []") (auto simp: subidentifier_def last_append)
qed simp

lemma oid_content_iff: "oid_content p \<longleftrightarrow> (\<exists>ns. ns \<noteq> [] \<and> p = concat (map subidentifier ns))"
proof
  assume "oid_content p"
  then show "\<exists>ns. ns \<noteq> [] \<and> p = concat (map subidentifier ns)"
  proof (induction p rule: length_induct)
    case (1 p)
    then obtain n q where q: "p = subidentifier n @ q" "oid_loop None q" "length q < length p"
      using subidentifier_step [of p] "1.prems" unfolding oid_content_def by blast
    show ?case
    proof (cases "q = []")
      case True
      then show ?thesis using q by (intro exI [of _ "[n]"]) simp
    next
      case False
      then have "oid_content q" using 1 q by (auto simp: oid_content_def)
      then obtain ns where "ns \<noteq> []" "q = concat (map subidentifier ns)" using 1 q by blast
      then show ?thesis using q by (intro exI [of _ "n # ns"]) simp
    qed
  qed
next
  assume "\<exists>ns. ns \<noteq> [] \<and> p = concat (map subidentifier ns)"
  then obtain ns where "ns \<noteq> []" "p = concat (map subidentifier ns)" by blast
  then show "oid_content p"
    using oid_loop_subidentifiers [of ns] last_subidentifiers [of ns]
    by (cases ns) (auto simp: oid_content_def subidentifier_def)
qed

section \<open>Decoding\<close>

lemma c2i_object_cases:
  assumes m: "alloc_ok m" and wf: "\<forall>o'. a = Some o' \<longrightarrow> wf_object o'"
    and len: "0 < len" "len \<le> INT_MAX" "len \<le> int (length pp)"
  shows "snd (c2i_ASN1_OBJECT m a pp len) \<noteq> UB \<and>
    (\<forall>o' rest. snd (c2i_ASN1_OBJECT m a pp len) = Ok (o', rest) \<longrightarrow>
       oid_content (take (nat len) pp) \<and> wf_object o' \<and> obj_octets o' = take (nat len) pp \<and>
       obj_length o' = len \<and> rest = drop (nat len) pp \<and> obj_sn o' = None \<and> obj_ln o' = None) \<and>
    (\<not> is_ok (snd (c2i_ASN1_OBJECT m a pp len)) \<longrightarrow>
       snd (c2i_ASN1_OBJECT m a pp len) = Fail MALLOC_FAILURE \<or> \<not> oid_content (take (nat len) pp))"
proof -
  have ne: "take (nat len) pp \<noteq> []" using len by (cases pp) auto
  have "last (take (nat len) pp) = pp ! (nat len - 1)" using len ne by (subst last_conv_nth) auto
  then have ok: "oid_content (take (nat len) pp) \<longleftrightarrow>
      pp ! (nat len - 1) AND 0x80 = 0 \<and> oid_loop None (take (nat len) pp)"
    using ne by (simp add: oid_content_def)
  define reuse where "reuse = (case a of None \<Rightarrow> False | Some a \<Rightarrow> obj_flags a AND ASN1_OBJECT_FLAG_DYNAMIC \<noteq> 0)"
  show ?thesis
  proof (cases "oid_content (take (nat len) pp)")
    case False
    then show ?thesis using len ok by (auto simp: c2i_ASN1_OBJECT_def)
  next
    case True
    have new: "(if reuse then Ok (the a) else ASN1_OBJECT_new m) = Fail MALLOC_FAILURE \<or>
      (\<exists>ret. (if reuse then Ok (the a) else ASN1_OBJECT_new m) = Ok ret \<and> wf_object ret)"
      using wf by (auto simp: reuse_def ASN1_OBJECT_new_def wf_object_def split: option.splits)
    then show ?thesis
    proof (elim disjE exE conjE)
      assume "(if reuse then Ok (the a) else ASN1_OBJECT_new m) = Fail MALLOC_FAILURE"
      then show ?thesis using True len ok by (simp add: c2i_ASN1_OBJECT_def reuse_def Let_def)
    next
      fix ret assume ret: "(if reuse then Ok (the a) else ASN1_OBJECT_new m) = Ok ret" "wf_object ret"
      define data where "data = (if obj_data ret = None \<or> obj_length ret < len then m 1 (nat len) else obj_data ret)"
      have d: "data = Some d \<Longrightarrow> nat len \<le> length d" for d
        using ret(2) alloc_okD [OF m] by (fastforce simp: data_def wf_object_def split: if_splits)
      show ?thesis
      proof (cases data)
        case None
        then show ?thesis using True len ok ret(1)
          by (simp add: c2i_ASN1_OBJECT_def reuse_def [symmetric] Let_def flip: data_def)
      next
        case (Some d)
        have n: "length (take (nat len) pp) = nat len" using len by simp
        have "memcpy_at d 0 (take (nat len) pp) = Some (take (nat len) pp @ drop (nat len) d)"
          using d [OF Some] n by (simp add: memcpy_at_def)
        then show ?thesis using Some True len ok ret(1)
          by (simp add: c2i_ASN1_OBJECT_def reuse_def [symmetric] Let_def wf_object_def obj_octets_def
              flip: data_def)
      qed
    qed
  qed
qed

section \<open>Properties\<close>

text \<open>
  \<open>d2i_ASN1_BOOLEAN\<close> reads back what \<open>i2d_ASN1_BOOLEAN\<close> writes, truth value and following bytes
  (true comes back as 255), and the returned length is the number of bytes written.
\<close>

theorem boolean_roundtrip:
  assumes "i2d_ASN1_BOOLEAN m v PP_BUF = Ok (r, bs)" "int (length (bs @ rest)) \<le> len"
  shows "r = int (length bs) \<and> d2i_ASN1_BOOLEAN (bs @ rest) len = Ok (if v = 0 then 0 else 255, rest)"
proof -
  define b :: u8 where "b = (if v \<noteq> 0 then 0xff else 0x00)"
  have bs: "bs = ASN1_put_object 0 1 1 0 @ [b]" "r = ASN1_object_size 0 1 1"
    using assms(1) by (simp_all add: i2d_ASN1_BOOLEAN_def b_def split: if_splits)
  have "uint b = (if v = 0 then 0 else 255)" by (simp add: b_def)
  moreover have "ASN1_get_object (ASN1_put_object 0 1 1 0 @ b # rest) len = Ok (0, 1, 1, 0, b # rest)"
    using ASN1_get_put_object [of 0 0 1 1 len "b # rest"] assms(2)
    by (simp add: bs asn1_class_def length_put_object)
  moreover have "r = int (length bs)"
    unfolding bs by (simp add: ASN1_object_size_def length_put_object)
  ultimately show ?thesis by (simp add: bs(1) d2i_ASN1_BOOLEAN_def)
qed

lemma boolean_roundtrip_witness:
  "d2i_ASN1_BOOLEAN [1, 1, 0xff, 7] 4 = Ok (255, [7])"
proof -
  have "i2d_ASN1_BOOLEAN zero_alloc 1 PP_BUF = Ok (3, [1, 1, 0xff])"
    by (simp add: i2d_ASN1_BOOLEAN_def ASN1_object_size_def ASN1_put_object_def asn1_put_length_def Let_def)
  then show ?thesis using boolean_roundtrip [of zero_alloc 1 3 "[1, 1, 0xff]" "[7]" 4] by simp
qed

text \<open>
  C11: \<open>c2i_ASN1_OBJECT\<close> accepts exactly the contents X.690 allows: one or more subidentifiers in base
  128, each in as few octets as possible. It never reads outside the content, and rejects an allowed
  content only when memory runs out.
\<close>

theorem object_accepts_oids:
  assumes "alloc_ok m" "0 < len" "len \<le> INT_MAX" "len \<le> int (length pp)"
  shows "case snd (c2i_ASN1_OBJECT m None pp len) of
      UB \<Rightarrow> False
    | Ok (obj, rest) \<Rightarrow> (\<exists>ns. ns \<noteq> [] \<and> take (nat len) pp = concat (map subidentifier ns)) \<and>
        obj_octets obj = take (nat len) pp \<and> rest = drop (nat len) pp
    | Fail e \<Rightarrow> e = MALLOC_FAILURE \<or> \<not> (\<exists>ns. ns \<noteq> [] \<and> take (nat len) pp = concat (map subidentifier ns))"
  using c2i_object_cases [of m None, OF assms(1) _ assms(2-4)]
  by (auto simp: oid_content_iff split: outcome.splits)

lemma object_accepts_oids_witness:
  "\<exists>obj. snd (c2i_ASN1_OBJECT zero_alloc None [0x2a, 0x86, 0x48, 5] 3) = Ok (obj, [5]) \<and>
     obj_octets obj = [0x2a, 0x86, 0x48]"
proof -
  have "is_ok (snd (c2i_ASN1_OBJECT zero_alloc None [0x2a, 0x86, 0x48, 5] 3))" by code_simp
  then show ?thesis
    using object_accepts_oids [of zero_alloc 3 "[0x2a, 0x86, 0x48, 5]"] by (auto simp: is_ok_iff)
qed

text \<open>
  C12: An object identifier that \<open>i2d_ASN1_OBJECT\<close> encodes is read back by \<open>d2i_ASN1_OBJECT\<close> with the
  same octets, unless memory runs out, also when an existing object is reused for the result; the
  returned length is the number of bytes written.
\<close>

theorem object_roundtrip:
  assumes "alloc_ok m" "wf_object obj" "oid_content (obj_octets obj)" "obj_length obj \<le> INT_MAX div 2"
    and "\<And>a'. a = Some a' \<Longrightarrow> wf_object a'"
    and "i2d_ASN1_OBJECT m (Some obj) PP_BUF = Ok (r, bs)" "int (length (bs @ rest)) \<le> len"
  shows "r = int (length bs) \<and>
    (case snd (d2i_ASN1_OBJECT m a (bs @ rest) len) of
       UB \<Rightarrow> False
     | Fail e \<Rightarrow> e = MALLOC_FAILURE
     | Ok (obj', left) \<Rightarrow> obj_octets obj' = obj_octets obj \<and> left = rest)"
proof -
  let ?n = "obj_length obj"
  have l: "int (length (obj_octets obj)) = ?n" "0 < ?n"
    using assms(2,3) by (auto simp: wf_object_def obj_octets_def oid_content_def min_def split: option.splits)
  have size: "ASN1_object_size 0 ?n 6 \<noteq> -1"
    using l(2) assms(4) count_groups_le [of ?n 8 4] by (auto simp: ASN1_object_size_def Let_def)
  then have bs: "bs = ASN1_put_object 0 ?n 6 0 @ obj_octets obj" "r = ASN1_object_size 0 ?n 6"
    using assms(6) l by (auto simp: i2d_ASN1_OBJECT_def Let_def split: if_splits)
  have get: "ASN1_get_object (bs @ rest) len = Ok (0, ?n, 6, 0, obj_octets obj @ rest)"
    using ASN1_get_put_object [of 0 0 6 ?n len "obj_octets obj @ rest"] l assms(4,7)
    by (simp add: bs asn1_class_def)
  have t: "take (nat ?n) (obj_octets obj @ rest) = obj_octets obj" "drop (nat ?n) (obj_octets obj @ rest) = rest"
    using l by simp_all
  have "case snd (c2i_ASN1_OBJECT m a (obj_octets obj @ rest) ?n) of
       UB \<Rightarrow> False | Fail e \<Rightarrow> e = MALLOC_FAILURE
     | Ok (obj', left) \<Rightarrow> obj_octets obj' = obj_octets obj \<and> left = rest"
  proof -
    have n: "?n \<le> INT_MAX" "?n \<le> int (length (obj_octets obj @ rest))" using assms(4) l(1) by auto
    have "\<forall>o'. a = Some o' \<longrightarrow> wf_object o'" using assms(5) by blast
    note c = c2i_object_cases [of m a ?n "obj_octets obj @ rest", OF assms(1) this l(2) n, unfolded t]
    show ?thesis
    proof (cases "snd (c2i_ASN1_OBJECT m a (obj_octets obj @ rest) ?n)")
      case (Fail e)
      then have "e = MALLOC_FAILURE" using c assms(3) by (metis is_ok.simps(2,3) outcome.inject(1))
      then show ?thesis by (simp add: Fail)
    next
      case (Ok p)
      obtain o' q where p: "p = (o', q)" by (cases p)
      then have "obj_octets o' = obj_octets obj \<and> q = rest" using c Ok by blast
      then show ?thesis by (simp add: Ok p)
    qed (use c in blast)
  qed
  moreover have "r = int (length bs)"
    using size l unfolding bs by (auto simp: ASN1_object_size_def length_put_object Let_def)
  ultimately show ?thesis by (simp add: d2i_ASN1_OBJECT_def get)
qed

lemma object_roundtrip_witness:
  "\<exists>obj. snd (d2i_ASN1_OBJECT zero_alloc None [6, 3, 0x2a, 0x86, 0x48, 7] 6) = Ok (obj, [7]) \<and>
     obj_octets obj = [0x2a, 0x86, 0x48]"
proof -
  let ?o = "\<lparr>obj_sn = None, obj_ln = None, obj_nid = 0, obj_length = 3,
    obj_data = Some [0x2a, 0x86, 0x48], obj_flags = 1\<rparr>"
  have "i2d_ASN1_OBJECT zero_alloc (Some ?o) PP_BUF = Ok (5, [6, 3, 0x2a, 0x86, 0x48])"
    by (simp add: i2d_ASN1_OBJECT_def ASN1_object_size_def ASN1_put_object_def asn1_put_length_def
        obj_octets_def Let_def)
  moreover have "oid_content [0x2a, 0x86, 0x48]" by code_simp
  moreover have "ASN1_get_object [6, 3, 0x2a, 0x86, 0x48, 7] 6 = Ok (0, 3, 6, 0, [0x2a, 0x86, 0x48, 7])"
    by (simp add: ASN1_get_object_def get_tag_number_def asn1_get_length_def)
  then have "d2i_ASN1_OBJECT zero_alloc None [6, 3, 0x2a, 0x86, 0x48, 7] 6 =
      c2i_ASN1_OBJECT zero_alloc None [0x2a, 0x86, 0x48, 7] 3" by (simp add: d2i_ASN1_OBJECT_def)
  moreover have "is_ok (snd (c2i_ASN1_OBJECT zero_alloc None [0x2a, 0x86, 0x48, 7] 3))" by code_simp
  ultimately show ?thesis
    using object_roundtrip [of zero_alloc ?o None 5 "[6, 3, 0x2a, 0x86, 0x48]" "[7]" 6]
    by (auto simp: is_ok_iff wf_object_def obj_octets_def)
qed

end
