(* ===== verification/Asn1_Julian.thy ===== *)
theory Asn1_Julian
  imports Asn1_Consts
begin

text \<open>
  Calendar arithmetic (\<open>time_support.c\<close>): dates to and from Julian day numbers by the algorithm of
  Fliegel and Van Flandern. C's division truncates. The Gregorian calendar is stated separately
  (\<open>leap\<close>, \<open>month_length\<close>, \<open>next_day\<close>) and the algorithm is proved to count its days.
\<close>

section \<open>The functions\<close>

text \<open>Division as in C: towards zero.\<close>

definition cdiv :: "int \<Rightarrow> int \<Rightarrow> int" where
  "cdiv a b = (if a < 0 then - ((- a) div b) else a div b)"

definition cmod :: "int \<Rightarrow> int \<Rightarrow> int" where
  "cmod a b = a - cdiv a b * b"

definition int_ok :: "int \<Rightarrow> bool" where
  "int_ok x \<longleftrightarrow> INT_MIN \<le> x \<and> x \<le> INT_MAX"

definition date_to_julian :: "int \<Rightarrow> int \<Rightarrow> int \<Rightarrow> int" where
  "date_to_julian y m d =
     cdiv (1461 * (y + 4800 + cdiv (m - 14) 12)) 4 +
     cdiv (367 * (m - 2 - 12 * (cdiv (m - 14) 12))) 12 -
     cdiv (3 * (cdiv (y + 4900 + cdiv (m - 14) 12) 100)) 4 + d - 32075"

definition julian_to_date :: "int \<Rightarrow> int \<times> int \<times> int" where
  "julian_to_date jd =
     (let L = jd + 68569;
          n = cdiv (4 * L) 146097;
          L = L - cdiv (146097 * n + 3) 4;
          i = cdiv (4000 * (L + 1)) 1461001;
          L = L - cdiv (1461 * i) 4 + 31;
          j = cdiv (80 * L) 2447;
          d = L - cdiv (2447 * j) 80;
          L = cdiv j 11;
          m = j + 2 - (12 * L);
          y = 100 * (n - 49) + i + L
      in (y, m, d))"

text \<open>
  The arithmetic of \<open>date_to_julian\<close> is in \<open>int\<close>; the dates on which none of its signed operations
  overflows:
\<close>

definition date_to_julian_ok :: "int \<Rightarrow> int \<Rightarrow> int \<Rightarrow> bool" where
  "date_to_julian_ok y m d =
     (let q = cdiv (m - 14) 12;
          a = cdiv (1461 * (y + 4800 + q)) 4;
          b = cdiv (367 * (m - 2 - 12 * q)) 12;
          c = cdiv (3 * cdiv (y + 4900 + q) 100) 4 in
      list_all int_ok [m - 14, y + 4800, y + 4800 + q, 1461 * (y + 4800 + q), m - 2, 12 * q,
        m - 2 - 12 * q, 367 * (m - 2 - 12 * q), y + 4900, y + 4900 + q,
        3 * cdiv (y + 4900 + q) 100, a + b, a + b - c, a + b - c + d, a + b - c + d - 32075])"

section \<open>The Gregorian calendar\<close>

definition leap :: "int \<Rightarrow> bool" where
  "leap y \<longleftrightarrow> y mod 4 = 0 \<and> (y mod 100 \<noteq> 0 \<or> y mod 400 = 0)"

definition month_length :: "int \<Rightarrow> int \<Rightarrow> int" where
  "month_length y m = (if m = 2 then if leap y then 29 else 28
     else if m \<in> {4, 6, 9, 11} then 30 else 31)"

definition valid_date :: "int \<times> int \<times> int \<Rightarrow> bool" where
  "valid_date date = (case date of (y, m, d) \<Rightarrow>
     1 \<le> m \<and> m \<le> 12 \<and> 1 \<le> d \<and> d \<le> month_length y m)"

definition next_day :: "int \<times> int \<times> int \<Rightarrow> int \<times> int \<times> int" where
  "next_day date = (case date of (y, m, d) \<Rightarrow>
     if d < month_length y m then (y, m, d + 1)
     else if m < 12 then (y, m + 1, 1) else (y + 1, 1, 1))"

lemma month_length_pos: "1 \<le> month_length y m"
  by (simp add: month_length_def)

lemma valid_next_day: "valid_date date \<Longrightarrow> valid_date (next_day date)"
  using month_length_pos by (auto simp: valid_date_def next_day_def split: prod.splits)

section \<open>The algorithm in terms of centuries, years and days\<close>

text \<open>
  With years that begin in March, counted from -4900: century \<open>c\<close>, year of the century \<open>u\<close>, and day of
  the year \<open>t\<close> from 0.
\<close>

definition march_year :: "int \<Rightarrow> int \<Rightarrow> int" where
  "march_year y m = y + 4900 - (if m \<le> 2 then 1 else 0)"

definition march_month :: "int \<Rightarrow> int" where
  "march_month m = (if m \<le> 2 then m + 10 else m - 2)"

definition day_of_year :: "int \<Rightarrow> int \<Rightarrow> int" where
  "day_of_year m d = 367 * march_month m div 12 - 30 + d - 1"

definition day_count :: "int \<Rightarrow> int \<Rightarrow> int \<Rightarrow> int" where
  "day_count c u t = (146097 * c + 3) div 4 + 1461 * u div 4 + t"

lemma cdiv_nonneg: "0 \<le> a \<Longrightarrow> cdiv a b = a div b"
  by (simp add: cdiv_def)

text \<open>A quotient is determined by linear bounds, and gives them.\<close>

lemma div_between: "0 < (b::int) \<Longrightarrow> q * b \<le> a \<Longrightarrow> a < q * b + b \<Longrightarrow> a div b = q"
  by (rule int_div_pos_eq [of a b q "a - q * b"]) (simp_all add: mult.commute)

lemma div_bounds:
  assumes "0 < (b::int)"
  shows "a div b * b \<le> a" "a < a div b * b + b"
  using div_mult_mod_eq [of a b] pos_mod_sign [OF assms, of a] pos_mod_bound [OF assms, of a] by linarith+

lemma div4_bounds: "a div 4 * 4 \<le> (a::int)" "a < a div 4 * 4 + 4"
  by (rule div_bounds, simp)+

lemma century_start: "36525 * c - 3 * c div 4 = (146097 * c + 3) div (4::int)"
proof -
  have "3 * c div 4 * 4 \<le> 3 * c" "3 * c < 3 * c div 4 * 4 + 4" by (rule div4_bounds)+
  then show ?thesis
    by (intro div_between [symmetric]) (simp_all add: algebra_simps)
qed

lemma date_to_julian_count:
  assumes "1 \<le> m" "m \<le> 12" "0 \<le> march_year y m - 100"
  shows "date_to_julian y m d + 68569 =
    day_count (march_year y m div 100) (march_year y m mod 100) (day_of_year m d)"
proof -
  let ?Y = "march_year y m"
  define c u where "c = ?Y div 100" and "u = ?Y mod 100"
  have a: "cdiv (m - 14) 12 = (if m \<le> 2 then -1 else 0)"
  proof -
    have "(14 - m) div 12 = (if m \<le> 2 then 1 else 0)"
      using assms div_pos_pos_trivial [of "2 - m" 12] div_pos_pos_trivial [of "14 - m" 12]
        div_add_self2 [of 12 "2 - m"] by auto
    then show ?thesis using assms by (simp add: cdiv_def)
  qed
  have Y: "?Y = 100 * c + u" by (simp add: c_def u_def)
  have e: "y + 4800 + cdiv (m - 14) 12 = 100 * c + u - 100" "y + 4900 + cdiv (m - 14) 12 = ?Y"
    "m - 2 - 12 * cdiv (m - 14) 12 = march_month m"
    by (auto simp: a Y [symmetric] march_year_def march_month_def)
  have mm: "0 \<le> march_month m" using assms by (auto simp: march_month_def)
  have "1461 * (100 * c + u - 100) div 4 = 36525 * c + 1461 * u div 4 - 36525"
    using div4_bounds [of "1461 * u"] by (intro div_between) (simp_all add: algebra_simps)
  moreover have "0 \<le> 100 * c + u - 100" using assms(3) Y by simp
  moreover have "cdiv (3 * cdiv ?Y 100) 4 = 3 * c div 4"
    using assms(3) by (simp add: cdiv_nonneg c_def)
  ultimately show ?thesis
    using mm century_start [of c] unfolding date_to_julian_def e day_count_def
    by (simp add: cdiv_nonneg c_def [symmetric] u_def [symmetric] day_of_year_def)
qed

text \<open>The day 365 of a March year exists before a leap day only.\<close>

definition count_ok :: "int \<Rightarrow> int \<Rightarrow> int \<Rightarrow> bool" where
  "count_ok c u t \<longleftrightarrow> 0 \<le> c \<and> 0 \<le> u \<and> u \<le> 99 \<and> 0 \<le> t \<and> t \<le> 365 \<and>
     (t = 365 \<longrightarrow> u mod 4 = 3 \<and> (u = 99 \<longrightarrow> c mod 4 = 0))"

lemma year_days: "1461 * u div 4 = 365 * u + u div (4::int)"
  using div4_bounds [of u] by (intro div_between) (simp_all add: algebra_simps)

lemma count_century:
  assumes "count_ok c u t"
  shows "4 * day_count c u t div 146097 = c"
proof (rule div_between)
  define k where "k = (146097 * c + 3) div 4"
  have k: "k * 4 \<le> 146097 * c + 3" "146097 * c + 3 < k * 4 + 4" using div4_bounds [of "146097 * c + 3"] by (simp_all add: k_def)
  have k0: "c mod 4 = 0 \<Longrightarrow> k * 4 = 146097 * c"
  proof -
    assume "c mod 4 = 0"
    then have "c = 4 * (c div 4)" using mult_div_mod_eq [of 4 c] by simp
    then have "k = 146097 * (c div 4)" unfolding k_def
      by (intro div_between) (simp_all add: algebra_simps)
    with \<open>c = 4 * (c div 4)\<close> show ?thesis by linarith
  qed
  define q where "q = u div 4"
  have u4: "q * 4 \<le> u" "0 \<le> q"
    using div4_bounds(1) [of u] assms by (simp_all add: q_def count_ok_def pos_imp_zdiv_nonneg_iff)
  have L: "4 * day_count c u t = k * 4 + 4 * (365 * u + q + t)"
    by (simp add: day_count_def k_def q_def year_days)
  have "0 \<le> 365 * u + q + t" using assms u4(2) by (simp add: count_ok_def)
  with k show "c * 146097 \<le> 4 * day_count c u t" unfolding L by presburger
  show "4 * day_count c u t < c * 146097 + 146097"
  proof (cases "u = 99 \<and> t = 365")
    case True
    then show ?thesis using k0 assms unfolding L by (simp add: count_ok_def q_def)
  next
    case False
    then have "365 * u + q + t \<le> 36523" using assms u4 by (auto simp: count_ok_def)
    then show ?thesis using k unfolding L by presburger
  qed
qed simp

lemma count_year:
  assumes "count_ok c u t"
  shows "4000 * (1461 * u div 4 + t + 1) div 1461001 = u"
proof (rule div_between)
  define s where "s = u mod 4"
  have s: "0 \<le> s" "s \<le> 3" and u: "u = u div 4 * 4 + s" by (simp_all add: s_def)
  have e: "4000 * (1461 * u div 4 + t + 1) = 1461000 * u - 1000 * s + 4000 * t + 4000"
    unfolding year_days using u by (simp add: algebra_simps)
  show "u * 1461001 \<le> 4000 * (1461 * u div 4 + t + 1)"
    unfolding e using assms s by (auto simp: count_ok_def)
  show "4000 * (1461 * u div 4 + t + 1) < u * 1461001 + 1461001"
    unfolding e using assms s by (cases "t = 365") (auto simp: count_ok_def s_def [symmetric])
qed simp

lemma month_cases:
  "1 \<le> (m::int) \<Longrightarrow> m \<le> 12 \<Longrightarrow>
   m = 1 \<or> m = 2 \<or> m = 3 \<or> m = 4 \<or> m = 5 \<or> m = 6 \<or> m = 7 \<or> m = 8 \<or> m = 9 \<or> m = 10 \<or> m = 11 \<or> m = 12"
  by presburger

lemma march_month_range: "1 \<le> m \<Longrightarrow> m \<le> 12 \<Longrightarrow> 1 \<le> march_month m \<and> march_month m \<le> 12"
  by (auto simp: march_month_def)

lemma count_month:
  assumes "1 \<le> m" "m \<le> 12" "1 \<le> d" "d \<le> month_length y m"
  shows "80 * (day_of_year m d + 31) div 2447 = march_month m"
    "day_of_year m d + 31 - 2447 * march_month m div 80 = d"
proof -
  note month_cases [OF assms(1,2)]
  then have "80 * (day_of_year m d + 31) div 2447 = march_month m \<and>
      day_of_year m d + 31 - 2447 * march_month m div 80 = d"
    using assms(3,4)
    by (elim disjE; intro conjI div_between)
      (auto simp: day_of_year_def march_month_def month_length_def split: if_splits)
  then show "80 * (day_of_year m d + 31) div 2447 = march_month m"
    "day_of_year m d + 31 - 2447 * march_month m div 80 = d" by blast+
qed

lemma leap_march:
  assumes "leap (100 * c + u - 4899)" "0 \<le> u" "u \<le> 99"
  shows "u mod 4 = 3 \<and> (u = 99 \<longrightarrow> c mod 4 = 0)"
proof -
  have "(100 * c + u - 4899) mod 4 = 0" using assms(1) by (simp add: leap_def)
  then have "u mod 4 = 3" by presburger
  moreover have "c mod 4 = 0" if "u = 99"
  proof -
    have "(100 * (c - 48)) mod 100 = 0" by simp
    then have "100 * (c - 48) mod (100 * 4) = 0" using assms(1) that by (simp add: leap_def algebra_simps)
    moreover have "100 * (c - 48) mod (100 * 4) = 100 * ((c - 48) mod 4)" by (rule mod_mult_mult1)
    moreover have "(c - 48) mod 4 = c mod 4" by presburger
    ultimately show ?thesis by simp
  qed
  ultimately show ?thesis by blast
qed

lemma valid_date_count:
  assumes "valid_date (y, m, d)" "-4800 \<le> y"
  shows "count_ok (march_year y m div 100) (march_year y m mod 100) (day_of_year m d)"
    "0 \<le> march_year y m - 100 \<or> y = -4800"
proof -
  have md: "1 \<le> m" "m \<le> 12" "1 \<le> d" "d \<le> month_length y m" using assms by (simp_all add: valid_date_def)
  let ?Y = "march_year y m"
  have Y: "0 \<le> ?Y" "?Y = 100 * (?Y div 100) + ?Y mod 100" using assms(2) by (auto simp: march_year_def)
  note month_cases [OF md(1,2)]
  then have t: "0 \<le> day_of_year m d \<and> day_of_year m d \<le> 365 \<and> (day_of_year m d = 365 \<longrightarrow> m = 2 \<and> leap y)"
    using md(3,4)
    by (elim disjE) (auto simp: day_of_year_def march_month_def month_length_def split: if_splits)
  have "?Y mod 100 mod 4 = 3 \<and> (?Y mod 100 = 99 \<longrightarrow> ?Y div 100 mod 4 = 0)" if "day_of_year m d = 365"
  proof (rule leap_march)
    have "m = 2" "leap y" using t that by auto
    then show "leap (100 * (?Y div 100) + ?Y mod 100 - 4899)"
      unfolding Y(2) [symmetric] by (simp add: march_year_def)
  qed simp_all
  with t Y(1) show "count_ok (?Y div 100) (?Y mod 100) (day_of_year m d)"
    by (auto simp: count_ok_def pos_imp_zdiv_nonneg_iff)
  show "0 \<le> march_year y m - 100 \<or> y = -4800" using assms(2) by (auto simp: march_year_def)
qed

text \<open>The inverse, and counting day by day, from the year -4800 on (March year 100).\<close>

lemma julian_to_date_inverse:
  assumes "valid_date (y, m, d)" "-4799 \<le> y"
  shows "julian_to_date (date_to_julian y m d) = (y, m, d)"
proof -
  have md: "1 \<le> m" "m \<le> 12" "1 \<le> d" "d \<le> month_length y m" using assms(1) by (simp_all add: valid_date_def)
  let ?Y = "march_year y m"
  define c u t where "c = ?Y div 100" and "u = ?Y mod 100" and "t = day_of_year m d"
  have Y: "100 \<le> ?Y" using assms(2) by (auto simp: march_year_def)
  have ok: "count_ok c u t" using valid_date_count(1) [OF assms(1)] assms(2) by (simp add: c_def u_def t_def)
  have L: "date_to_julian y m d + 68569 = day_count c u t"
    using date_to_julian_count [OF md(1,2)] Y by (simp add: c_def u_def t_def)
  have nn: "0 \<le> c" "0 \<le> u" "0 \<le> t" "0 \<le> 1461 * u div 4" "0 \<le> (146097 * c + 3) div 4"
    using ok by (simp_all add: count_ok_def pos_imp_zdiv_nonneg_iff)
  have r: "day_count c u t - (146097 * c + 3) div 4 = 1461 * u div 4 + t" by (simp add: day_count_def)
  have n1: "0 \<le> day_count c u t" using nn by (simp add: day_count_def)
  note mm = march_month_range [OF md(1,2)]
  have yc: "100 * (c - 49) + u + march_month m div 11 = y"
  proof -
    have "100 * c + u = ?Y" by (simp add: c_def u_def)
    moreover have "march_month m div 11 = (if m \<le> 2 then 1 else 0)"
      using month_cases [OF md(1,2)] by (elim disjE) (simp_all add: march_month_def)
    ultimately show ?thesis by (auto simp: march_year_def split: if_splits)
  qed
  have mc: "march_month m + 2 - 12 * (march_month m div 11) = m"
    using month_cases [OF md(1,2)] by (elim disjE) (simp_all add: march_month_def)
  show ?thesis
  proof -
    have 1: "cdiv (4 * day_count c u t) 146097 = c" using n1 count_century [OF ok] by (simp add: cdiv_nonneg)
    have 2: "cdiv (146097 * c + 3) 4 = (146097 * c + 3) div 4" using nn by (simp add: cdiv_nonneg)
    have 3: "cdiv (4000 * (1461 * u div 4 + t + 1)) 1461001 = u"
      using nn count_year [OF ok] by (simp add: cdiv_nonneg)
    have 4: "cdiv (1461 * u) 4 = 1461 * u div 4" using nn by (simp add: cdiv_nonneg)
    have 5: "1461 * u div 4 + t - 1461 * u div 4 + 31 = t + 31" by simp
    have 6: "cdiv (80 * (t + 31)) 2447 = march_month m"
    proof -
      have "0 \<le> 80 * (t + 31)" using nn by simp
      then show ?thesis using count_month(1) [OF md] unfolding t_def by (simp only: cdiv_nonneg)
    qed
    have 7: "cdiv (2447 * march_month m) 80 = 2447 * march_month m div 80" "cdiv (march_month m) 11 = march_month m div 11"
      using mm by (simp_all add: cdiv_nonneg)
    have 8: "t + 31 - 2447 * march_month m div 80 = d" using count_month(2) [OF md] by (simp only: t_def)
    show ?thesis
      unfolding julian_to_date_def L Let_def 1 2 r 3 4 5 6 7 8 yc mc ..
  qed
qed

lemma day_count_next_century:
  "(146097 * (c + 1) + 3) div 4 - (146097 * c + 3) div (4::int) = (if c mod 4 = 0 then 36525 else 36524)"
proof -
  define q where "q = c div 4"
  have c: "c = 4 * q + c mod 4" by (simp add: q_def)
  have "c mod 4 = 0 \<or> c mod 4 = 1 \<or> c mod 4 = 2 \<or> c mod 4 = 3" by presburger
  then consider (r0) "c mod 4 = 0" | (r1) "c mod 4 = 1" | (r2) "c mod 4 = 2" | (r3) "c mod 4 = 3" by argo
  then show ?thesis
  proof cases
    case r0
    with c have e: "c = 4 * q" by simp
    have "(146097 * c + 3) div 4 = 146097 * q" "(146097 * (c + 1) + 3) div 4 = 146097 * q + 36525"
      unfolding e by (intro div_between; simp)+
    then show ?thesis using r0 by simp
  next
    case r1
    with c have e: "c = 4 * q + 1" by simp
    have "(146097 * c + 3) div 4 = 146097 * q + 36525" "(146097 * (c + 1) + 3) div 4 = 146097 * q + 73049"
      unfolding e by (intro div_between; simp)+
    then show ?thesis using r1 by simp
  next
    case r2
    with c have e: "c = 4 * q + 2" by simp
    have "(146097 * c + 3) div 4 = 146097 * q + 73049" "(146097 * (c + 1) + 3) div 4 = 146097 * q + 109573"
      unfolding e by (intro div_between; simp)+
    then show ?thesis using r2 by simp
  next
    case r3
    with c have e: "c = 4 * q + 3" by simp
    have "(146097 * c + 3) div 4 = 146097 * q + 109573" "(146097 * (c + 1) + 3) div 4 = 146097 * q + 146097"
      unfolding e by (intro div_between; simp)+
    then show ?thesis using r3 by simp
  qed
qed

text \<open>The first of March follows the last of February.\<close>

lemma day_count_next_year:
  assumes "0 \<le> u" "u \<le> 99" and Y_def: "Y = 100 * c + u"
  shows "day_count ((Y + 1) div 100) ((Y + 1) mod 100) 0 =
    day_count c u (if leap (Y - 4899) then 365 else 364) + 1"
proof -
  have l4: "(Y - 4899) mod 4 = 0 \<longleftrightarrow> u mod 4 = 3"
  proof -
    have "(Y - 4899) mod 4 = (u + 1) mod 4"
      using mod_mult_self1 [of "u + 1" "25 * c - 1225" 4] by (simp add: Y_def algebra_simps)
    then show ?thesis by presburger
  qed
  have l100: "(Y - 4899) mod 100 = 0 \<longleftrightarrow> u = 99"
  proof -
    have "(Y - 4899) mod 100 = (u + 1) mod 100"
      using mod_mult_self1 [of "u + 1" "c - 49" 100] by (simp add: Y_def algebra_simps)
    then show ?thesis using assms(1,2) by (cases "u = 99") auto
  qed
  have l400: "u = 99 \<Longrightarrow> (Y - 4899) mod 400 = 0 \<longleftrightarrow> c mod 4 = 0"
  proof -
    assume "u = 99"
    then have e: "Y - 4899 = 100 * (c - 48)" by (simp add: Y_def)
    have "100 * (c - 48) mod (100 * 4) = 100 * ((c - 48) mod 4)" by (rule mod_mult_mult1)
    moreover have "(c - 48) mod 4 = c mod 4" by presburger
    ultimately show ?thesis unfolding e by simp
  qed
  have ud: "(u + 1) div 4 = u div 4 + (if u mod 4 = 3 then 1 else 0)" by presburger
  show ?thesis
  proof (cases "u = 99")
    case True
    have "(Y + 1) div 100 = c + 1" "(Y + 1) mod 100 = 0" unfolding Y_def True by simp_all
    moreover have "leap (Y - 4899) \<longleftrightarrow> c mod 4 = 0" using l4 l100 l400 True by (simp add: leap_def)
    moreover have "day_count (c + 1) 0 0 = day_count c 99 (if c mod 4 = 0 then 365 else 364) + 1"
    proof -
      define A B where "A = (146097 * (c + 1) + 3) div 4" and "B = (146097 * c + 3) div 4"
      have AB: "A = B + (if c mod 4 = 0 then 36525 else 36524)"
        using day_count_next_century [of c] unfolding A_def [symmetric] B_def [symmetric] by linarith
      have a: "day_count (c + 1) 0 0 = A" "day_count c 99 t = B + 36159 + t" for t
        by (simp_all add: A_def B_def day_count_def)
      show ?thesis unfolding a AB by simp
    qed
    ultimately show ?thesis unfolding True by (simp only:)
  next
    case False
    have "(Y + 1) div 100 = c" "(Y + 1) mod 100 = u + 1"
      unfolding Y_def using assms(1,2) False
      by (auto intro: div_between int_mod_pos_eq [where q = c])
    moreover have "leap (Y - 4899) \<longleftrightarrow> u mod 4 = 3" using l4 l100 False by (simp add: leap_def)
    moreover have "day_count c (u + 1) 0 = day_count c u (if u mod 4 = 3 then 365 else 364) + 1"
    proof -
      have e: "day_count c v t = (146097 * c + 3) div 4 + 365 * v + v div 4 + t" for v t
        by (simp only: day_count_def year_days add.assoc)
      show ?thesis unfolding e ud by simp
    qed
    ultimately show ?thesis by (simp only:)
  qed
qed

lemma date_to_julian_next:
  assumes "valid_date (y, m, d)" "-4799 \<le> y" "next_day (y, m, d) = (y', m', d')"
  shows "date_to_julian y' m' d' = date_to_julian y m d + 1"
proof -
  have md: "1 \<le> m" "m \<le> 12" "1 \<le> d" "d \<le> month_length y m" using assms(1) by (simp_all add: valid_date_def)
  have "valid_date (y', m', d')" using valid_next_day [OF assms(1)] assms(3) by simp
  then have md': "1 \<le> m'" "m' \<le> 12" by (simp_all add: valid_date_def)
  have y': "-4799 \<le> y'" using assms(2,3) by (auto simp: next_day_def split: if_splits)
  have Y: "0 \<le> march_year y m - 100" "0 \<le> march_year y' m' - 100"
    using assms(2) y' by (auto simp: march_year_def)
  note j = date_to_julian_count [OF md(1,2) Y(1)] and j' = date_to_julian_count [OF md' Y(2)]
  have "day_count (march_year y' m' div 100) (march_year y' m' mod 100) (day_of_year m' d') =
      day_count (march_year y m div 100) (march_year y m mod 100) (day_of_year m d) + 1"
  proof (cases "m = 2 \<and> d = month_length y 2")
    case True
    then have n: "y' = y" "m' = 3" "d' = 1" "m = 2" using assms(3) by (auto simp: next_day_def)
    let ?Y = "march_year y 2"
    have "march_year y 3 = ?Y + 1" "?Y = 100 * (?Y div 100) + ?Y mod 100" "?Y - 4899 = y"
      by (simp_all add: march_year_def)
    moreover have "day_of_year 3 1 = 0" "day_of_year 2 (month_length y 2) = (if leap y then 365 else 364)"
      by (simp_all add: day_of_year_def march_month_def month_length_def)
    ultimately show ?thesis
      using day_count_next_year [of "?Y mod 100" ?Y "?Y div 100"] True n by simp
  next
    case False
    have "march_year y' m' = march_year y m \<and> day_of_year m' d' = day_of_year m d + 1"
      using month_cases [OF md(1,2)] False assms(3) md(3,4)
      by (elim disjE)
        (auto simp: next_day_def month_length_def march_year_def day_of_year_def march_month_def split: if_splits)
    then show ?thesis by (simp add: day_count_def)
  qed
  then show ?thesis using j [of d] j' [of d'] by simp
qed

text \<open>Every day number after that of a valid date is the number of a valid date, in no earlier year.\<close>

lemma julian_dates:
  assumes "valid_date (y0, m0, d0)" "-4799 \<le> y0"
  shows "\<exists>y m d. valid_date (y, m, d) \<and> y0 \<le> y \<and> date_to_julian y m d = date_to_julian y0 m0 d0 + int n"
proof (induction n)
  case 0
  show ?case using assms by auto
next
  case (Suc n)
  then obtain y m d where v: "valid_date (y, m, d)" "y0 \<le> y"
    "date_to_julian y m d = date_to_julian y0 m0 d0 + int n" by blast
  obtain y' m' d' where n: "next_day (y, m, d) = (y', m', d')" by (metis prod.collapse)
  have "valid_date (y', m', d')" using valid_next_day [OF v(1)] n by simp
  moreover have "y0 \<le> y'" using v(2) n by (auto simp: next_day_def split: if_splits)
  moreover have "date_to_julian y' m' d' = date_to_julian y0 m0 d0 + int (Suc n)"
    using date_to_julian_next [OF v(1) _ n] v(2,3) assms(2) by simp
  ultimately show ?case by blast
qed

lemma julian_days_from:
  assumes "valid_date (y0, m0, d0)" "-4799 \<le> y0" "date_to_julian y0 m0 d0 \<le> jd"
  shows "\<exists>y m d. julian_to_date jd = (y, m, d) \<and> valid_date (y, m, d) \<and> y0 \<le> y \<and> date_to_julian y m d = jd"
proof -
  obtain y m d where v: "valid_date (y, m, d)" "y0 \<le> y" "date_to_julian y m d = jd"
    using julian_dates [OF assms(1,2), of "nat (jd - date_to_julian y0 m0 d0)"] assms(3) by auto
  then show ?thesis using julian_to_date_inverse [OF v(1)] assms(2) by auto
qed

lemma julian_start: "date_to_julian (-4799) 1 1 = -31738"
  by (simp add: date_to_julian_def cdiv_def)

lemma julian_days:
  assumes "-31738 \<le> jd"
  shows "\<exists>y m d. julian_to_date jd = (y, m, d) \<and> valid_date (y, m, d) \<and> -4799 \<le> y \<and> date_to_julian y m d = jd"
  by (rule julian_days_from [of "-4799" 1 1]) (use assms in \<open>simp_all add: julian_start valid_date_def month_length_def\<close>)

lemma julian_year_mono:
  assumes "valid_date (y, m, d)" "-4799 \<le> y" "valid_date (y', m', d')" "-4799 \<le> y'"
    "date_to_julian y m d \<le> date_to_julian y' m' d'"
  shows "y \<le> y'"
  using julian_days_from [OF assms(1,2,5)] julian_to_date_inverse [OF assms(3,4)] by auto

lemma julian_year_cut:
  assumes "valid_date (y, m, d)" "-4799 \<le> y" "-4799 < Y"
  shows "Y \<le> y \<longleftrightarrow> date_to_julian Y 1 1 \<le> date_to_julian y m d"
proof -
  have v: "valid_date (Y, 1, 1)" "valid_date (Y - 1, 12, 31)" by (simp_all add: valid_date_def month_length_def)
  have n: "date_to_julian Y 1 1 = date_to_julian (Y - 1) 12 31 + 1"
    by (rule date_to_julian_next [OF v(2)]) (use assms in \<open>simp_all add: next_day_def month_length_def\<close>)
  show ?thesis
  proof
    assume "Y \<le> y"
    then show "date_to_julian Y 1 1 \<le> date_to_julian y m d"
      using julian_year_mono [OF assms(1,2) v(2)] assms(3) n by linarith
  next
    assume "date_to_julian Y 1 1 \<le> date_to_julian y m d"
    then show "Y \<le> y" using julian_year_mono [OF v(1) _ assms(1,2)] assms(3) by simp
  qed
qed

text \<open>The days of the years 1900 to 9999.\<close>

lemma julian_to_date_range:
  assumes "-31738 \<le> jd" "julian_to_date jd = (y, m, d)"
  shows "1900 \<le> y \<and> y \<le> 9999 \<longleftrightarrow> 2415021 \<le> jd \<and> jd < 5373485"
proof -
  have v: "valid_date (y, m, d)" "-4799 \<le> y" "date_to_julian y m d = jd"
    using julian_days [OF assms(1)] assms(2) by auto
  have e: "date_to_julian 1900 1 1 = 2415021" "date_to_julian 10000 1 1 = 5373485"
    by (simp_all add: date_to_julian_def cdiv_def)
  show ?thesis
    using julian_year_cut [OF v(1,2), of 1900] julian_year_cut [OF v(1,2), of 10000] by (simp add: e v(3)) linarith
qed

lemma cdiv_bounds:
  assumes "0 < (b::int)"
  shows "0 \<le> a \<Longrightarrow> 0 \<le> cdiv a b \<and> cdiv a b * b \<le> a \<and> a < cdiv a b * b + b"
    "a < 0 \<Longrightarrow> cdiv a b \<le> 0 \<and> a \<le> cdiv a b * b \<and> cdiv a b * b - b < a"
  using div_bounds [OF assms, of a] div_bounds [OF assms, of "- a"] assms
  by (auto simp: cdiv_def pos_imp_zdiv_nonneg_iff)

lemma date_to_julian_ok_range:
  assumes "1 \<le> m" "m \<le> 12" "1 \<le> d" "d \<le> 31" "-4799 \<le> y" "y \<le> 1000000"
  shows "date_to_julian_ok y m d" "-32076 \<le> date_to_julian y m d" "date_to_julian y m d \<le> 400000000"
proof -
  define q where "q = cdiv (m - 14) 12"
  have q: "q = (if m \<le> 2 then -1 else 0)"
    using assms(1,2) cdiv_bounds [of 12 "m - 14"] unfolding q_def by auto
  define a b e where "a = cdiv (1461 * (y + 4800 + q)) 4" and "b = cdiv (367 * (m - 2 - 12 * q)) 12"
    and "e = cdiv (y + 4900 + q) 100"
  define c where "c = cdiv (3 * e) 4"
  have a: "0 \<le> a" "a * 4 \<le> 1461 * (y + 4800 + q)" "1461 * (y + 4800 + q) < a * 4 + 4"
    using cdiv_bounds(1) [of 4 "1461 * (y + 4800 + q)"] assms(5) q unfolding a_def by auto
  have b: "0 \<le> b" "b * 12 \<le> 367 * (m - 2 - 12 * q)"
    using cdiv_bounds(1) [of 12 "367 * (m - 2 - 12 * q)"] assms(1) q unfolding b_def by auto
  have e: "0 \<le> e" "e * 100 \<le> y + 4900 + q"
    using cdiv_bounds(1) [of 100 "y + 4900 + q"] assms(5) q unfolding e_def by auto
  have c: "0 \<le> c" "c * 4 \<le> 3 * e"
    using cdiv_bounds(1) [of 4 "3 * e"] e unfolding c_def by auto
  have bounds: "a \<le> 400000000" "b \<le> 400" "e \<le> 20000" "c \<le> 20000"
    using a b c e assms q by (auto split: if_splits)
  have ac: "c \<le> a + 1" using a c e assms(5) q by (auto split: if_splits)
  have "date_to_julian y m d = a + b - c + d - 32075"
    by (simp add: date_to_julian_def a_def b_def c_def e_def q_def)
  with ac a b c(1) bounds assms show "-32076 \<le> date_to_julian y m d" "date_to_julian y m d \<le> 400000000"
    by linarith+
  show "date_to_julian_ok y m d"
    unfolding date_to_julian_ok_def q_def [symmetric] Let_def a_def [symmetric] b_def [symmetric]
      e_def [symmetric] c_def [symmetric]
    using a b c e bounds assms q by (simp add: int_ok_def)
qed

end
