(* ===== verification/Asn1_Gmtime.thy ===== *)
theory Asn1_Gmtime
  imports Asn1_Julian
begin

text \<open>
  Adjustment and difference of broken-down times (\<open>time_support.c\<close>). A signed operation whose
  result leaves \<open>int\<close> is \<open>UB\<close>; a \<open>long\<close> stored in an \<open>int\<close> is reduced modulo 2^32. Both functions are
  proved exact on the seconds that Gregorian dates count.
\<close>

section \<open>The functions\<close>

record tm =
  tm_year :: int
  tm_mon :: int
  tm_mday :: int
  tm_hour :: int
  tm_min :: int
  tm_sec :: int

abbreviation (input) SECS_PER_DAY :: int where "SECS_PER_DAY \<equiv> 86400"

text \<open>
  \<open>julian_adj\<close>: the Julian day and the second of the day; 0 is returned for a negative day. The
  quotient and the remainder are \<open>long\<close> values converted to \<open>int\<close> (modulo 2^32), and the product
  \<open>offset_day * SECS_PER_DAY\<close> is computed in \<open>int\<close>.
\<close>

definition to_int :: "int \<Rightarrow> int" where
  "to_int x = (x + 2147483648) mod 4294967296 - 2147483648"

definition julian_adj :: "tm \<Rightarrow> int \<Rightarrow> int \<Rightarrow> (int \<times> int) asn1_result" where
  "julian_adj tm off_day offset_sec =
     (let offset_day = to_int (cdiv offset_sec SECS_PER_DAY);
          prod = offset_day * SECS_PER_DAY in
      if \<not> int_ok prod \<or> \<not> (LONG_MIN \<le> offset_sec - prod \<and> offset_sec - prod \<le> LONG_MAX) then UB
      else
        let offset_hms = to_int (offset_sec - prod);
            offset_day = offset_day + off_day;
            secs = tm_hour tm * 3600 + tm_min tm * 60 + tm_sec tm in
        if \<not> list_all int_ok [offset_day, tm_hour tm * 3600, tm_min tm * 60,
             tm_hour tm * 3600 + tm_min tm * 60, secs, offset_hms + secs] then UB
        else
          let offset_hms = offset_hms + secs;
              (offset_day, offset_hms) =
                (if offset_hms \<ge> SECS_PER_DAY then (offset_day + 1, offset_hms - SECS_PER_DAY)
                 else if offset_hms < 0 then (offset_day - 1, offset_hms + SECS_PER_DAY)
                 else (offset_day, offset_hms));
              time_year = tm_year tm + 1900;
              time_month = tm_mon tm + 1;
              time_day = tm_mday tm in
          if \<not> int_ok offset_day \<or> \<not> int_ok time_year \<or> \<not> int_ok time_month \<or>
             \<not> date_to_julian_ok time_year time_month time_day then UB
          else
            let time_jd = date_to_julian time_year time_month time_day + offset_day
            in if time_jd < 0 then Fail NO_REASON else Ok (time_jd, offset_hms))"

definition OPENSSL_gmtime_adj :: "tm \<Rightarrow> int \<Rightarrow> int \<Rightarrow> tm asn1_result" where
  "OPENSSL_gmtime_adj tm off_day offset_sec =
     bind_outcome (julian_adj tm off_day offset_sec) (\<lambda>(time_jd, time_sec).
       let (time_year, time_month, time_day) = julian_to_date time_jd in
       if time_year < 1900 \<or> time_year > 9999 then Fail NO_REASON
       else Ok (tm\<lparr>tm_year := time_year - 1900, tm_mon := time_month - 1, tm_mday := time_day,
                   tm_hour := cdiv time_sec 3600, tm_min := cmod (cdiv time_sec 60) 60,
                   tm_sec := cmod time_sec 60\<rparr>))"

text \<open>The days and seconds of the difference.\<close>

definition OPENSSL_gmtime_diff :: "tm \<Rightarrow> tm \<Rightarrow> (int \<times> int) asn1_result" where
  "OPENSSL_gmtime_diff from to =
     bind_outcome (julian_adj from 0 0) (\<lambda>(from_jd, from_sec).
     bind_outcome (julian_adj to 0 0) (\<lambda>(to_jd, to_sec).
       if \<not> int_ok (to_sec - from_sec) then UB
       else
       let diff_day = to_jd - from_jd;
           diff_sec = to_sec - from_sec;
           (diff_day, diff_sec) = (if diff_day > 0 \<and> diff_sec < 0
             then (diff_day - 1, diff_sec + SECS_PER_DAY) else (diff_day, diff_sec));
           (diff_day, diff_sec) = (if diff_day < 0 \<and> diff_sec > 0
             then (diff_day + 1, diff_sec - SECS_PER_DAY) else (diff_day, diff_sec))
       in Ok (to_int diff_day, diff_sec)))"

section \<open>Times in seconds\<close>

text \<open>The time of a broken-down time in seconds, and a range in which \<open>julian_adj\<close> does not overflow.\<close>

definition tm_seconds :: "tm \<Rightarrow> int" where
  "tm_seconds t = date_to_julian (tm_year t + 1900) (tm_mon t + 1) (tm_mday t) * SECS_PER_DAY +
     tm_hour t * 3600 + tm_min t * 60 + tm_sec t"

definition valid_tm :: "tm \<Rightarrow> bool" where
  "valid_tm t \<longleftrightarrow> valid_date (tm_year t + 1900, tm_mon t + 1, tm_mday t) \<and>
     0 \<le> tm_hour t \<and> tm_hour t \<le> 23 \<and> 0 \<le> tm_min t \<and> tm_min t \<le> 59 \<and> 0 \<le> tm_sec t \<and> tm_sec t \<le> 59"

lemma to_int_id: "int_ok x \<Longrightarrow> to_int x = x"
  by (simp add: int_ok_def to_int_def)

lemma mod_60: "x mod 60 \<le> (59::int)"
  by presburger

lemma gmtime_adj_year: "OPENSSL_gmtime_adj t off_day offset_sec = Ok t' \<Longrightarrow> 0 \<le> tm_year t'"
  by (auto simp: OPENSSL_gmtime_adj_def bind_outcome_Ok_iff case_prod_unfold Let_def split: if_split_asm)

lemma split_seconds: "s div 3600 * 3600 + s div 60 mod 60 * 60 + s mod 60 = (s::int)"
proof -
  have "s div 3600 = s div 60 div 60" by (simp add: zdiv_zmult2_eq [symmetric])
  moreover have "s div 60 div 60 * 60 + s div 60 mod 60 = s div 60" "s div 60 * 60 + s mod 60 = s"
    by (rule div_mult_mod_eq)+
  ultimately show ?thesis by linarith
qed

lemma tm_seconds_bound:
  assumes "valid_tm t" "-4799 \<le> tm_year t + 1900" "tm_year t + 1900 \<le> 1000000"
  shows "tm_seconds t \<le> 400000001 * 86400"
proof -
  have d: "1 \<le> tm_mon t + 1" "tm_mon t + 1 \<le> 12" "1 \<le> tm_mday t" "tm_mday t \<le> 31"
    using assms(1) by (auto simp: valid_tm_def valid_date_def month_length_def split: if_splits)
  show ?thesis
    using date_to_julian_ok_range(3) [OF d assms(2,3)] assms(1) by (simp add: tm_seconds_def valid_tm_def)
qed

lemma julian_adj_exact:
  assumes t: "valid_tm t" "-4799 \<le> tm_year t + 1900" "tm_year t + 1900 \<le> 1000000"
    and day: "- 1000000000 \<le> off_day" "off_day \<le> 1000000000" and sec: "int_ok offset_sec"
    and S: "S = tm_seconds t + off_day * SECS_PER_DAY + offset_sec"
  shows "julian_adj t off_day offset_sec =
    (if S < 0 then Fail NO_REASON else Ok (S div SECS_PER_DAY, S mod SECS_PER_DAY))"
proof -
  define D where "D = cdiv offset_sec 86400"
  define r where "r = offset_sec - D * 86400"
  define secs where "secs = tm_hour t * 3600 + tm_min t * 60 + tm_sec t"
  define J where "J = date_to_julian (tm_year t + 1900) (tm_mon t + 1) (tm_mday t)"
  have d: "1 \<le> tm_mon t + 1" "tm_mon t + 1 \<le> 12" "1 \<le> tm_mday t" "tm_mday t \<le> 31"
    and hms: "0 \<le> tm_hour t" "tm_hour t \<le> 23" "0 \<le> tm_min t" "tm_min t \<le> 59" "0 \<le> tm_sec t" "tm_sec t \<le> 59"
    using t(1) by (auto simp: valid_tm_def valid_date_def month_length_def split: if_splits)
  note J = date_to_julian_ok_range [OF d t(2,3), folded J_def]
  have r: "-86400 < r" "r < 86400" "D * 86400 = offset_sec - r" "int_ok (D * 86400)"
    and D: "-24856 \<le> D" "D \<le> 24856"
    using cdiv_bounds [of 86400 offset_sec] sec unfolding D_def [symmetric] r_def int_ok_def by linarith+
  have secs: "0 \<le> secs" "secs < 86400" using hms by (simp_all add: secs_def)
  have to: "to_int D = D" "to_int r = r"
    using D r by (simp_all add: to_int_id int_ok_def)
  have Sv: "S = (J + off_day + D) * 86400 + (r + secs)"
    unfolding S tm_seconds_def J_def secs_def using r(3) by (simp add: algebra_simps)
  define k where "k = (if r + secs \<ge> 86400 then 1 else if r + secs < 0 then -1 else (0::int))"
  have k: "0 \<le> r + secs - k * 86400" "r + secs - k * 86400 < 86400" using r secs by (auto simp: k_def)
  have dm: "S div 86400 = J + off_day + D + k" "S mod 86400 = r + secs - k * 86400"
  proof -
    show 1: "S div 86400 = J + off_day + D + k" using k by (intro div_between) (simp_all add: Sv)
    show "S mod 86400 = r + secs - k * 86400" using 1 div_mult_mod_eq [of S 86400] by (simp add: Sv)
  qed
  have neg: "S < 0 \<longleftrightarrow> J + off_day + D + k < 0" using dm(1) pos_imp_zdiv_neg_iff [of 86400 S] by simp
  have ok: "list_all int_ok [D + off_day, tm_hour t * 3600, tm_min t * 60, tm_hour t * 3600 + tm_min t * 60,
      secs, r + secs]" "int_ok (D + off_day + k)" "int_ok (tm_year t + 1900)" "int_ok (tm_mon t + 1)"
    using D day hms r secs d t(2,3) by (auto simp: int_ok_def k_def)
  have adj: "(if r + secs \<ge> 86400 then (D + off_day + 1, r + secs - 86400)
      else if r + secs < 0 then (D + off_day - 1, r + secs + 86400) else (D + off_day, r + secs)) =
      (D + off_day + k, r + secs - k * 86400)"
    by (simp add: k_def)
  have c: "(\<not> int_ok (D * 86400) \<or> \<not> (LONG_MIN \<le> r \<and> r \<le> LONG_MAX)) = False"
    using r(1,2,4) by simp
  have c': "(\<not> int_ok (D + off_day + k) \<or> \<not> int_ok (tm_year t + 1900) \<or> \<not> int_ok (tm_mon t + 1) \<or>
      \<not> date_to_julian_ok (tm_year t + 1900) (tm_mon t + 1) (tm_mday t)) = False"
    using ok J(1) by simp
  have e: "J + (D + off_day + k) = J + off_day + D + k" by simp
  show ?thesis
    unfolding julian_adj_def D_def [symmetric] to Let_def r_def [symmetric] secs_def [symmetric] adj
      J_def [symmetric] prod.case dm neg c c' if_False e
    by (simp only: ok(1) not_True_eq_False if_False)
qed

lemma gmtime_adj_range:
  assumes t: "valid_tm t" "-4799 \<le> tm_year t + 1900" "tm_year t + 1900 \<le> 1000000"
    and day: "- 1000000000 \<le> off_day" "off_day \<le> 1000000000" and sec: "int_ok offset_sec"
    and S: "S = tm_seconds t + off_day * SECS_PER_DAY + offset_sec"
  shows "if 2415021 * SECS_PER_DAY \<le> S \<and> S < 5373485 * SECS_PER_DAY
    then \<exists>t'. OPENSSL_gmtime_adj t off_day offset_sec = Ok t' \<and> valid_tm t' \<and> tm_seconds t' = S
    else OPENSSL_gmtime_adj t off_day offset_sec = Fail NO_REASON"
proof (cases "S < 0")
  case True
  then show ?thesis by (simp add: OPENSSL_gmtime_adj_def julian_adj_exact [OF assms])
next
  case False
  define J s where "J = S div 86400" and "s = S mod 86400"
  have J: "0 \<le> J" using False by (simp add: J_def pos_imp_zdiv_nonneg_iff)
  have s: "0 \<le> s" "s < 86400" "S = J * 86400 + s" by (simp_all add: s_def J_def)
  obtain y m d where v: "julian_to_date J = (y, m, d)" "valid_date (y, m, d)" "date_to_julian y m d = J"
    using julian_days [of J] J by auto
  have adj: "OPENSSL_gmtime_adj t off_day offset_sec = (if y < 1900 \<or> y > 9999 then Fail NO_REASON
      else Ok (t\<lparr>tm_year := y - 1900, tm_mon := m - 1, tm_mday := d, tm_hour := s div 3600,
                 tm_min := s div 60 mod 60, tm_sec := s mod 60\<rparr>))"
    using False s(1) by (simp add: OPENSSL_gmtime_adj_def julian_adj_exact [OF assms] J_def [symmetric]
        s_def [symmetric] v cmod_def cdiv_nonneg minus_div_mult_eq_mod)
  have hms: "s div 3600 * 3600 + s div 60 mod 60 * 60 + s mod 60 = s"
    by (rule split_seconds)
  have h: "0 \<le> s div 3600" "s div 3600 \<le> 23"
    using s(1,2) int_div_less_iff [of 3600 s 24] by (simp_all add: pos_imp_zdiv_nonneg_iff)
  show ?thesis
  proof (cases "1900 \<le> y \<and> y \<le> 9999")
    case True
    then have "2415021 * SECS_PER_DAY \<le> S \<and> S < 5373485 * SECS_PER_DAY"
      using julian_to_date_range [OF _ v(1)] J s by simp
    moreover define t' where "t' = t\<lparr>tm_year := y - 1900, tm_mon := m - 1, tm_mday := d,
      tm_hour := s div 3600, tm_min := s div 60 mod 60, tm_sec := s mod 60\<rparr>"
    moreover have "s mod 60 \<le> 59" "s div 60 mod 60 \<le> 59" by (rule mod_60)+
    then have "valid_tm t'" using v(2) h by (simp add: valid_tm_def t'_def)
    moreover have "tm_seconds t' = J * 86400 + (s div 3600 * 3600 + s div 60 mod 60 * 60 + s mod 60)"
      by (simp add: tm_seconds_def t'_def v(3))
    then have "tm_seconds t' = S" unfolding hms s(3) .
    moreover have "OPENSSL_gmtime_adj t off_day offset_sec = Ok t'" using adj True unfolding t'_def by simp
    ultimately show ?thesis by simp
  next
    case False
    then have "\<not> (2415021 * SECS_PER_DAY \<le> S \<and> S < 5373485 * SECS_PER_DAY)"
      using julian_to_date_range [OF _ v(1)] J s by auto
    then show ?thesis using False adj by auto
  qed
qed

text \<open>
  C14: For a valid time of the years -4799 to 1000000, an offset of at most 1000000000 days either way and a number of
  seconds that fits an \<open>int\<close>, \<open>OPENSSL_gmtime_adj\<close> adds exactly the days and seconds it is given, carrying into
  minutes, hours, days, months and years of the Gregorian calendar, and gives a valid time; it fails exactly when the
  result is outside the years 1900 to 9999. Nothing overflows within these bounds; beyond them it can, as
  \<open>julian_adj_overflow\<close> shows.
\<close>

theorem gmtime_adj_exact:
  assumes t: "valid_tm t" "-4799 \<le> tm_year t + 1900" "tm_year t + 1900 \<le> 1000000"
    and day: "- 1000000000 \<le> off_day" "off_day \<le> 1000000000" and sec: "int_ok offset_sec"
    and S: "S = tm_seconds t + off_day * SECS_PER_DAY + offset_sec"
  shows "if 2415021 * SECS_PER_DAY \<le> S \<and> S < 5373485 * SECS_PER_DAY
    then \<exists>t'. OPENSSL_gmtime_adj t off_day offset_sec = Ok t' \<and> valid_tm t' \<and> tm_seconds t' = S
    else OPENSSL_gmtime_adj t off_day offset_sec = Fail NO_REASON"
  by (rule gmtime_adj_range [OF assms])

lemma gmtime_adj_exact_witness:
  "\<exists>t'. OPENSSL_gmtime_adj \<lparr>tm_year = 99, tm_mon = 11, tm_mday = 31, tm_hour = 23, tm_min = 59, tm_sec = 59\<rparr> 59 1
     = Ok t' \<and> valid_tm t' \<and> tm_seconds t' = 2451604 * 86400"
  using gmtime_adj_exact [of "\<lparr>tm_year = 99, tm_mon = 11, tm_mday = 31, tm_hour = 23, tm_min = 59, tm_sec = 59\<rparr>"
      59 1 "2451604 * 86400"]
  by (simp add: valid_tm_def valid_date_def month_length_def tm_seconds_def date_to_julian_def cdiv_def int_ok_def)

text \<open>
  Beyond the bounds the sum of the days leaves \<open>int\<close>: with \<open>INT_MAX\<close> days and one more in seconds, and with seconds
  whose whole days do not fit when they are multiplied back.
\<close>

lemma julian_adj_overflow:
  "julian_adj \<lparr>tm_year = 70, tm_mon = 0, tm_mday = 1, tm_hour = 0, tm_min = 0, tm_sec = 0\<rparr> 2147483647 86400 = UB"
  "julian_adj \<lparr>tm_year = 70, tm_mon = 0, tm_mday = 1, tm_hour = 0, tm_min = 0, tm_sec = 0\<rparr> 0 2147558400 = UB"
  by (simp_all add: julian_adj_def to_int_def cdiv_def int_ok_def Let_def)

lemma gmtime_diff_split:
  assumes "valid_tm from" "-4799 \<le> tm_year from + 1900" "tm_year from + 1900 \<le> 1000000"
    and "valid_tm to" "-4799 \<le> tm_year to + 1900" "tm_year to + 1900 \<le> 1000000"
  shows "if tm_seconds from < 0 \<or> tm_seconds to < 0 then OPENSSL_gmtime_diff from to = Fail NO_REASON
    else \<exists>days secs. OPENSSL_gmtime_diff from to = Ok (days, secs) \<and>
      days * SECS_PER_DAY + secs = tm_seconds to - tm_seconds from \<and>
      - SECS_PER_DAY < secs \<and> secs < SECS_PER_DAY \<and> (days > 0 \<longrightarrow> 0 \<le> secs) \<and> (days < 0 \<longrightarrow> secs \<le> 0)"
proof -
  have ok: "int_ok 0" by (simp add: int_ok_def)
  define A B where "A = tm_seconds from" and "B = tm_seconds to"
  have ja: "julian_adj from 0 0 = (if A < 0 then Fail NO_REASON else Ok (A div 86400, A mod 86400))"
    and jb: "julian_adj to 0 0 = (if B < 0 then Fail NO_REASON else Ok (B div 86400, B mod 86400))"
    unfolding A_def B_def
    using julian_adj_exact [OF assms(1-3) _ _ ok refl, of 0] julian_adj_exact [OF assms(4-6) _ _ ok refl, of 0]
    by simp_all
  have "if A < 0 \<or> B < 0 then OPENSSL_gmtime_diff from to = Fail NO_REASON
    else \<exists>days secs. OPENSSL_gmtime_diff from to = Ok (days, secs) \<and> days * 86400 + secs = B - A \<and>
      - 86400 < secs \<and> secs < 86400 \<and> (days > 0 \<longrightarrow> 0 \<le> secs) \<and> (days < 0 \<longrightarrow> secs \<le> 0)"
  proof (cases "A < 0 \<or> B < 0")
    case True
    then show ?thesis
      by (auto simp: OPENSSL_gmtime_diff_def ja jb)
  next
    case False
    define a b x y where "a = A div 86400" and "b = B div 86400" and "x = A mod 86400" and "y = B mod 86400"
    have e: "A = a * 86400 + x" "B = b * 86400 + y" and xy: "0 \<le> x" "x < 86400" "0 \<le> y" "y < 86400"
      by (simp_all add: a_def b_def x_def y_def)
    have "A \<le> 400000001 * 86400" "B \<le> 400000001 * 86400"
      unfolding A_def B_def by (rule tm_seconds_bound, fact, fact, fact)+
    then have ab: "0 \<le> a" "a \<le> 400000001" "0 \<le> b" "b \<le> 400000001" using False e xy by linarith+
    have i: "int_ok (y - x)" using xy by (simp add: int_ok_def)
    have j: "to_int (b - a) = b - a" "to_int (b - a - 1) = b - a - 1" "to_int (b - a + 1) = b - a + 1"
      using ab by (simp_all add: to_int_id int_ok_def)
    define k where "k = (if a < b \<and> y < x then -1 else if b < a \<and> x < y then 1 else (0::int))"
    have "OPENSSL_gmtime_diff from to = Ok (b - a + k, y - x - k * 86400)"
      using False unfolding OPENSSL_gmtime_diff_def ja jb a_def [symmetric] b_def [symmetric]
        x_def [symmetric] y_def [symmetric]
      by (cases "a < b \<and> y < x"; cases "b < a \<and> x < y") (auto simp: i j Let_def k_def)
    moreover have "(b - a + k) * 86400 + (y - x - k * 86400) = B - A" by (simp add: e algebra_simps)
    moreover have "- 86400 < y - x - k * 86400 \<and> y - x - k * 86400 < 86400 \<and>
        (b - a + k > 0 \<longrightarrow> 0 \<le> y - x - k * 86400) \<and> (b - a + k < 0 \<longrightarrow> y - x - k * 86400 \<le> 0)"
      using xy by (auto simp: k_def)
    ultimately show ?thesis using False by (metis (no_types, lifting))
  qed
  then show ?thesis unfolding A_def B_def .
qed

text \<open>
  \<open>OPENSSL_gmtime_diff\<close> splits the difference of two valid times into days and seconds of the same
  sign, with fewer seconds than a day has; it fails exactly when a time lies before the first Julian day.
\<close>

theorem gmtime_diff_exact:
  assumes "valid_tm from" "-4799 \<le> tm_year from + 1900" "tm_year from + 1900 \<le> 1000000"
    and "valid_tm to" "-4799 \<le> tm_year to + 1900" "tm_year to + 1900 \<le> 1000000"
  shows "if tm_seconds from < 0 \<or> tm_seconds to < 0 then OPENSSL_gmtime_diff from to = Fail NO_REASON
    else \<exists>days secs. OPENSSL_gmtime_diff from to = Ok (days, secs) \<and>
      days * SECS_PER_DAY + secs = tm_seconds to - tm_seconds from \<and>
      - SECS_PER_DAY < secs \<and> secs < SECS_PER_DAY \<and> (days > 0 \<longrightarrow> 0 \<le> secs) \<and> (days < 0 \<longrightarrow> secs \<le> 0)"
  by (rule gmtime_diff_split [OF assms])

lemma gmtime_diff_exact_witness:
  "\<exists>days secs. OPENSSL_gmtime_diff
      \<lparr>tm_year = 100, tm_mon = 1, tm_mday = 28, tm_hour = 12, tm_min = 0, tm_sec = 0\<rparr>
      \<lparr>tm_year = 100, tm_mon = 2, tm_mday = 1, tm_hour = 6, tm_min = 0, tm_sec = 0\<rparr> = Ok (days, secs) \<and>
    days * 86400 + secs = 151200 \<and> - 86400 < secs \<and> secs < 86400 \<and> (days > 0 \<longrightarrow> 0 \<le> secs)"
  using gmtime_diff_exact [of "\<lparr>tm_year = 100, tm_mon = 1, tm_mday = 28, tm_hour = 12, tm_min = 0, tm_sec = 0\<rparr>"
    "\<lparr>tm_year = 100, tm_mon = 2, tm_mday = 1, tm_hour = 6, tm_min = 0, tm_sec = 0\<rparr>"]
  by (auto simp: valid_tm_def valid_date_def month_length_def leap_def tm_seconds_def date_to_julian_def cdiv_def)

end
