(* ===== verification/Asn1_Time.thy ===== *)
theory Asn1_Time
  imports Asn1_Gmtime Asn1_String
begin

text \<open>
  UTCTime, GeneralizedTime and their union Time (\<open>a_utctm.c\<close>, \<open>a_gentm.c\<close>, \<open>a_time.c\<close>): the parsers,
  the printers and the conversions. The string's data is the buffer, so a read past it is \<open>UB\<close>. A NULL
  \<open>struct tm\<close> is \<open>None\<close>; a failing parser's partial writes to it are not kept, since no caller reads
  them. \<open>gmtime\<close> is a parameter (\<open>gmtime_r\<close> of the system), as are the bounded string copies
  \<open>OPENSSL_strlcpy\<close> and \<open>OPENSSL_strlcat\<close>; \<open>BIO_snprintf\<close>'s \<open>%0<width>d\<close> is written out.
\<close>

section \<open>Parsing\<close>

definition digit_at :: "bytes \<Rightarrow> nat \<Rightarrow> int asn1_result" where
  "digit_at a ofs = (if length a \<le> ofs then UB
     else let c = uint (a ! ofs) in if c < 48 \<or> c > 57 then Fail NO_REASON else Ok (c - 48))"

text \<open>One two-digit field of the date and time: the number and the new offset.\<close>

definition time_field :: "bytes \<Rightarrow> int \<Rightarrow> nat \<Rightarrow> int \<Rightarrow> int \<Rightarrow> (int \<times> nat) asn1_result" where
  "time_field a l ofs lo hi =
     bind_outcome (digit_at a ofs) (\<lambda>n.
     if int (ofs + 1) > l then Fail NO_REASON
     else bind_outcome (digit_at a (ofs + 1)) (\<lambda>k.
       let n = n * 10 + k in
       if int (ofs + 2) > l then Fail NO_REASON
       else if n < lo \<or> n > hi then Fail NO_REASON
       else Ok (n, ofs + 2)))"

definition zone_char :: "u8 \<Rightarrow> bool" where
  "zone_char c \<longleftrightarrow> c = 90 \<or> c = 43 \<or> c = 45"

definition utc_min :: "int list" where "utc_min = [0, 1, 1, 0, 0, 0, 0, 0]"
definition utc_max :: "int list" where "utc_max = [99, 12, 31, 23, 59, 59, 12, 59]"

fun utc_set :: "nat \<Rightarrow> int \<Rightarrow> tm \<Rightarrow> tm" where
  "utc_set i n tm =
     (if i = 0 then tm\<lparr>tm_year := if n < 50 then n + 100 else n\<rparr>
      else if i = 1 then tm\<lparr>tm_mon := n - 1\<rparr>
      else if i = 2 then tm\<lparr>tm_mday := n\<rparr>
      else if i = 3 then tm\<lparr>tm_hour := n\<rparr>
      else if i = 4 then tm\<lparr>tm_min := n\<rparr>
      else if i = 5 then tm\<lparr>tm_sec := n\<rparr>
      else tm)"

function utc_fields :: "bytes \<Rightarrow> int \<Rightarrow> nat \<Rightarrow> nat \<Rightarrow> tm option \<Rightarrow> (nat \<times> tm option) asn1_result" where
  "utc_fields a l i ofs tm =
     (if i \<ge> 6 then Ok (ofs, tm)
      else if i = 5 \<and> length a \<le> ofs then UB
      else if i = 5 \<and> zone_char (a ! ofs) then Ok (ofs, map_option (\<lambda>t. t\<lparr>tm_sec := 0\<rparr>) tm)
      else bind_outcome (time_field a l ofs (utc_min ! i) (utc_max ! i))
        (\<lambda>(n, ofs). utc_fields a l (i + 1) ofs (map_option (utc_set i n) tm)))"
  by pat_completeness auto
termination by (relation "measure (\<lambda>(a, l, i, ofs, tm). 6 - i)") auto

text \<open>The hours and minutes of a zone offset, as seconds; computed only for a non-NULL time.\<close>

definition zone_field :: "bytes \<Rightarrow> nat \<Rightarrow> int \<Rightarrow> int \<Rightarrow> (int \<times> nat) asn1_result" where
  "zone_field a ofs lo hi =
     bind_outcome (digit_at a ofs) (\<lambda>n.
     bind_outcome (digit_at a (ofs + 1)) (\<lambda>k.
       let n = n * 10 + k in if n < lo \<or> n > hi then Fail NO_REASON else Ok (n, ofs + 2)))"

definition zone_adjust :: "int \<Rightarrow> int \<Rightarrow> int \<Rightarrow> tm option \<Rightarrow> tm option asn1_result" where
  "zone_adjust offsign h k tm =
     (case tm of None \<Rightarrow> Ok None
      | Some t \<Rightarrow>
          let offset = h * 3600 + k * 60 in
          if offset \<noteq> 0 then bind_outcome (OPENSSL_gmtime_adj t 0 (offset * offsign)) (\<lambda>t. Ok (Some t))
          else Ok (Some t))"

definition time_zone :: "bytes \<Rightarrow> int \<Rightarrow> nat \<Rightarrow> int list \<Rightarrow> int list \<Rightarrow> tm option \<Rightarrow> (nat \<times> tm option) asn1_result" where
  "time_zone a l ofs mins maxs tm =
     (let offsign = (if a ! ofs = 45 then 1 else -1); ofs = ofs + 1 in
      if int (ofs + 4) > l then Fail NO_REASON
      else bind_outcome (zone_field a ofs (mins ! 0) (maxs ! 0)) (\<lambda>(h, ofs).
        bind_outcome (zone_field a ofs (mins ! 1) (maxs ! 1)) (\<lambda>(k, ofs).
        bind_outcome (zone_adjust offsign h k tm) (\<lambda>tm. Ok (ofs, tm)))))"

definition asn1_utctime_to_tm :: "tm option \<Rightarrow> asn1_string \<Rightarrow> tm option asn1_result" where
  "asn1_utctime_to_tm tm d =
     (if str_type d \<noteq> V_ASN1_UTCTIME then Fail NO_REASON
      else let l = str_length d; a = buffer d in
      if l < 11 then Fail NO_REASON
      else bind_outcome (utc_fields a l 0 0 tm) (\<lambda>(ofs, tm).
        bind_outcome
          (if length a \<le> ofs then UB
           else if a ! ofs = 90 then Ok (ofs + 1, tm)
           else if a ! ofs = 43 \<or> a ! ofs = 45 then time_zone a l ofs (drop 6 utc_min) (drop 6 utc_max) tm
           else Ok (ofs, tm))
          (\<lambda>(ofs, tm). if int ofs = l then Ok tm else Fail NO_REASON)))"

definition gen_min :: "int list" where "gen_min = [0, 0, 1, 1, 0, 0, 0, 0, 0]"
definition gen_max :: "int list" where "gen_max = [99, 99, 12, 31, 23, 59, 59, 12, 59]"

fun gen_set :: "nat \<Rightarrow> int \<Rightarrow> tm \<Rightarrow> tm" where
  "gen_set i n tm =
     (if i = 0 then tm\<lparr>tm_year := n * 100 - 1900\<rparr>
      else if i = 1 then tm\<lparr>tm_year := tm_year tm + n\<rparr>
      else if i = 2 then tm\<lparr>tm_mon := n - 1\<rparr>
      else if i = 3 then tm\<lparr>tm_mday := n\<rparr>
      else if i = 4 then tm\<lparr>tm_hour := n\<rparr>
      else if i = 5 then tm\<lparr>tm_min := n\<rparr>
      else if i = 6 then tm\<lparr>tm_sec := n\<rparr>
      else tm)"

function gen_fields :: "bytes \<Rightarrow> int \<Rightarrow> nat \<Rightarrow> nat \<Rightarrow> tm option \<Rightarrow> (nat \<times> tm option) asn1_result" where
  "gen_fields a l i ofs tm =
     (if i \<ge> 7 then Ok (ofs, tm)
      else if i = 6 \<and> length a \<le> ofs then UB
      else if i = 6 \<and> zone_char (a ! ofs) then Ok (ofs, map_option (\<lambda>t. t\<lparr>tm_sec := 0\<rparr>) tm)
      else bind_outcome (time_field a l ofs (gen_min ! i) (gen_max ! i))
        (\<lambda>(n, ofs). gen_fields a l (i + 1) ofs (map_option (gen_set i n) tm)))"
  by pat_completeness auto
termination by (relation "measure (\<lambda>(a, l, i, ofs, tm). 7 - i)") auto

text \<open>The digits of a fraction: \<open>a[o]\<close> is read before \<open>o \<le> l\<close> is tested.\<close>

function gen_fraction :: "bytes \<Rightarrow> int \<Rightarrow> nat \<Rightarrow> nat asn1_result" where
  "gen_fraction a l ofs =
     (if length a \<le> ofs then UB
      else if 48 \<le> a ! ofs \<and> a ! ofs \<le> 57 \<and> int ofs \<le> l then gen_fraction a l (ofs + 1)
      else Ok ofs)"
  by pat_completeness auto
termination by (relation "measure (\<lambda>(a, l, ofs). length a - ofs)") auto

definition asn1_generalizedtime_to_tm :: "tm option \<Rightarrow> asn1_string \<Rightarrow> tm option asn1_result" where
  "asn1_generalizedtime_to_tm tm d =
     (if str_type d \<noteq> V_ASN1_GENERALIZEDTIME then Fail NO_REASON
      else let l = str_length d; a = buffer d in
      if l < 13 then Fail NO_REASON
      else bind_outcome (gen_fields a l 0 0 tm) (\<lambda>(ofs, tm).
        bind_outcome
          (if length a \<le> ofs then UB
           else if a ! ofs \<noteq> 46 then Ok ofs
           else if int (ofs + 1) > l then Fail NO_REASON
           else bind_outcome (gen_fraction a l (ofs + 1))
             (\<lambda>ofs'. if ofs' = ofs + 1 then Fail NO_REASON else Ok ofs'))
          (\<lambda>ofs. bind_outcome
            (if length a \<le> ofs then UB
             else if a ! ofs = 90 then Ok (ofs + 1, tm)
             else if a ! ofs = 43 \<or> a ! ofs = 45 then time_zone a l ofs (drop 7 gen_min) (drop 7 gen_max) tm
             else if a ! ofs \<noteq> 0 then Fail NO_REASON
             else Ok (ofs, tm))
            (\<lambda>(ofs, tm). if int ofs = l then Ok tm else Fail NO_REASON))))"

section \<open>Checks and setters\<close>

definition ASN1_UTCTIME_check :: "asn1_string \<Rightarrow> unit asn1_result" where
  "ASN1_UTCTIME_check d = bind_outcome (asn1_utctime_to_tm None d) (\<lambda>_. Ok ())"

definition ASN1_GENERALIZEDTIME_check :: "asn1_string \<Rightarrow> unit asn1_result" where
  "ASN1_GENERALIZEDTIME_check d = bind_outcome (asn1_generalizedtime_to_tm None d) (\<lambda>_. Ok ())"

definition local_string :: "int \<Rightarrow> bytes \<Rightarrow> int \<Rightarrow> asn1_string" where
  "local_string len str type =
     \<lparr>str_length = to_int len, str_type = type, str_data = Some str, str_flags = 0\<rparr>"

definition ASN1_UTCTIME_set_string ::
  "allocator \<Rightarrow> asn1_string option \<Rightarrow> bytes \<Rightarrow> asn1_string option asn1_result" where
  "ASN1_UTCTIME_set_string m s str =
     (case c_strlen str of None \<Rightarrow> UB
      | Some n \<Rightarrow>
          let t = local_string n str V_ASN1_UTCTIME in
          bind_outcome (ASN1_UTCTIME_check t) (\<lambda>_.
            case s of None \<Rightarrow> Ok None
            | Some s \<Rightarrow> bind_outcome (ASN1_STRING_set m s (Some str) (str_length t))
                (\<lambda>s. Ok (Some (s\<lparr>str_type := V_ASN1_UTCTIME\<rparr>)))))"

definition ASN1_GENERALIZEDTIME_set_string ::
  "allocator \<Rightarrow> asn1_string option \<Rightarrow> bytes \<Rightarrow> asn1_string option asn1_result" where
  "ASN1_GENERALIZEDTIME_set_string m s str =
     (case c_strlen str of None \<Rightarrow> UB
      | Some n \<Rightarrow>
          let t = local_string n str V_ASN1_GENERALIZEDTIME in
          bind_outcome (ASN1_GENERALIZEDTIME_check t) (\<lambda>_.
            case s of None \<Rightarrow> Ok None
            | Some s \<Rightarrow> bind_outcome (ASN1_STRING_set m s (Some str) (str_length t))
                (\<lambda>s. Ok (Some (s\<lparr>str_type := V_ASN1_GENERALIZEDTIME\<rparr>)))))"

section \<open>Printing\<close>

fun dec_digits :: "nat \<Rightarrow> bytes" where
  "dec_digits n = (if n < 10 then [of_nat (48 + n)] else dec_digits (n div 10) @ [of_nat (48 + n mod 10)])"

declare dec_digits.simps [simp del]

text \<open>\<open>%0<width>d\<close>\<close>

definition fmt_0d :: "nat \<Rightarrow> int \<Rightarrow> bytes" where
  "fmt_0d w n =
     (let ds = dec_digits (nat \<bar>n\<bar>) in
      if n < 0 then 45 # replicate (w - 1 - length ds) 48 @ ds else replicate (w - length ds) 48 @ ds)"

definition fmt_time :: "bytes \<Rightarrow> tm \<Rightarrow> bytes" where
  "fmt_time year ts = year @ fmt_0d 2 (tm_mon ts + 1) @ fmt_0d 2 (tm_mday ts) @ fmt_0d 2 (tm_hour ts) @
     fmt_0d 2 (tm_min ts) @ fmt_0d 2 (tm_sec ts) @ [90]"

text \<open>The adjusted time both constructors start from.\<close>

type_synonym gmtime_fn = "int \<Rightarrow> tm option"

definition gmtime_adjusted :: "gmtime_fn \<Rightarrow> asn1_reason \<Rightarrow> int \<Rightarrow> int \<Rightarrow> int \<Rightarrow> tm asn1_result" where
  "gmtime_adjusted g e t off_day off_sec =
     (case g t of None \<Rightarrow> Fail e
      | Some ts \<Rightarrow> if off_day \<noteq> 0 \<or> off_sec \<noteq> 0 then OPENSSL_gmtime_adj ts off_day off_sec else Ok ts)"

text \<open>The buffer of 20 bytes is allocated unless the old one counts at least 20; the text is cut to 19.\<close>

definition put_time :: "allocator \<Rightarrow> asn1_string \<Rightarrow> bytes \<Rightarrow> int \<Rightarrow> asn1_string asn1_result" where
  "put_time m s txt type =
     bind_outcome
       (if str_data s = None \<or> str_length s < 20
        then (case m 0 20 of None \<Rightarrow> Fail MALLOC_FAILURE | Some p \<Rightarrow> Ok p)
        else Ok (buffer s))
       (\<lambda>p. case memcpy_at p 0 (take 19 txt @ [0]) of None \<Rightarrow> UB
          | Some p \<Rightarrow> Ok (s\<lparr>str_data := Some p, str_length := int (length (take 19 txt)), str_type := type\<rparr>))"

definition ASN1_UTCTIME_adj ::
  "allocator \<Rightarrow> gmtime_fn \<Rightarrow> asn1_string option \<Rightarrow> int \<Rightarrow> int \<Rightarrow> int \<Rightarrow> asn1_string asn1_result" where
  "ASN1_UTCTIME_adj m g s t off_day off_sec =
     bind_outcome (case s of None \<Rightarrow> ASN1_STRING_type_new m V_ASN1_UTCTIME | Some s \<Rightarrow> Ok s) (\<lambda>s.
     bind_outcome (gmtime_adjusted g NO_REASON t off_day off_sec) (\<lambda>ts.
       if tm_year ts < 50 \<or> tm_year ts \<ge> 150 then Fail NO_REASON
       else put_time (later 1 m) s (fmt_time (fmt_0d 2 (cmod (tm_year ts) 100)) ts) V_ASN1_UTCTIME))"

definition ASN1_UTCTIME_set ::
  "allocator \<Rightarrow> gmtime_fn \<Rightarrow> asn1_string option \<Rightarrow> int \<Rightarrow> asn1_string asn1_result" where
  "ASN1_UTCTIME_set m g s t = ASN1_UTCTIME_adj m g s t 0 0"

definition ASN1_GENERALIZEDTIME_adj ::
  "allocator \<Rightarrow> gmtime_fn \<Rightarrow> asn1_string option \<Rightarrow> int \<Rightarrow> int \<Rightarrow> int \<Rightarrow> asn1_string asn1_result" where
  "ASN1_GENERALIZEDTIME_adj m g s t off_day off_sec =
     bind_outcome (case s of None \<Rightarrow> ASN1_STRING_type_new m V_ASN1_GENERALIZEDTIME | Some s \<Rightarrow> Ok s) (\<lambda>s.
     bind_outcome (gmtime_adjusted g NO_REASON t off_day off_sec) (\<lambda>ts.
       if tm_year ts < 0 - 1900 \<or> tm_year ts > 9999 - 1900 then Fail ILLEGAL_TIME_VALUE
       else put_time (later 1 m) s (fmt_time (fmt_0d 4 (tm_year ts + 1900)) ts) V_ASN1_GENERALIZEDTIME))"

definition ASN1_GENERALIZEDTIME_set ::
  "allocator \<Rightarrow> gmtime_fn \<Rightarrow> asn1_string option \<Rightarrow> int \<Rightarrow> asn1_string asn1_result" where
  "ASN1_GENERALIZEDTIME_set m g s t = ASN1_GENERALIZEDTIME_adj m g s t 0 0"

definition ASN1_UTCTIME_cmp_time_t :: "gmtime_fn \<Rightarrow> tm \<Rightarrow> asn1_string \<Rightarrow> int \<Rightarrow> int asn1_result" where
  "ASN1_UTCTIME_cmp_time_t g stm s t =
     (case asn1_utctime_to_tm (Some stm) s of
        UB \<Rightarrow> UB | Fail _ \<Rightarrow> Ok (-2) | Ok None \<Rightarrow> UB
      | Ok (Some stm) \<Rightarrow>
          case g t of None \<Rightarrow> Ok (-2)
          | Some ttm \<Rightarrow>
              case OPENSSL_gmtime_diff ttm stm of
                UB \<Rightarrow> UB | Fail _ \<Rightarrow> Ok (-2)
              | Ok (day, sec) \<Rightarrow>
                  Ok (if day > 0 then 1 else if day < 0 then -1 else if sec > 0 then 1 else if sec < 0 then -1 else 0))"

section \<open>Time\<close>

definition ASN1_TIME_adj ::
  "allocator \<Rightarrow> gmtime_fn \<Rightarrow> asn1_string option \<Rightarrow> int \<Rightarrow> int \<Rightarrow> int \<Rightarrow> asn1_string asn1_result" where
  "ASN1_TIME_adj m g s t off_day off_sec =
     bind_outcome (gmtime_adjusted g ERROR_GETTING_TIME t off_day off_sec) (\<lambda>ts.
       if tm_year ts \<ge> 50 \<and> tm_year ts < 150 then ASN1_UTCTIME_adj m g s t off_day off_sec
       else ASN1_GENERALIZEDTIME_adj m g s t off_day off_sec)"

definition ASN1_TIME_set ::
  "allocator \<Rightarrow> gmtime_fn \<Rightarrow> asn1_string option \<Rightarrow> int \<Rightarrow> asn1_string asn1_result" where
  "ASN1_TIME_set m g s t = ASN1_TIME_adj m g s t 0 0"

definition ASN1_TIME_check :: "asn1_string \<Rightarrow> unit asn1_result" where
  "ASN1_TIME_check t =
     (if str_type t = V_ASN1_GENERALIZEDTIME then ASN1_GENERALIZEDTIME_check t
      else if str_type t = V_ASN1_UTCTIME then ASN1_UTCTIME_check t
      else Fail NO_REASON)"




definition ASN1_TIME_set_string ::
  "allocator \<Rightarrow> asn1_string option \<Rightarrow> bytes \<Rightarrow> asn1_string option asn1_result" where
  "ASN1_TIME_set_string m s str =
     (case c_strlen str of None \<Rightarrow> UB
      | Some n \<Rightarrow>
          bind_outcome
            (case ASN1_TIME_check (local_string n str V_ASN1_UTCTIME) of
               UB \<Rightarrow> UB
             | Ok _ \<Rightarrow> Ok (local_string n str V_ASN1_UTCTIME)
             | Fail _ \<Rightarrow> bind_outcome (ASN1_TIME_check (local_string n str V_ASN1_GENERALIZEDTIME))
                 (\<lambda>_. Ok (local_string n str V_ASN1_GENERALIZEDTIME)))
            (\<lambda>t. case s of None \<Rightarrow> Ok None
               | Some s \<Rightarrow> bind_outcome (ASN1_STRING_copy m s (Some t)) (\<lambda>s. Ok (Some s))))"

text \<open>A NULL time is the current one, \<open>now\<close>.\<close>

definition asn1_time_to_tm :: "gmtime_fn \<Rightarrow> int \<Rightarrow> tm \<Rightarrow> asn1_string option \<Rightarrow> tm option asn1_result" where
  "asn1_time_to_tm g now tm t =
     (case t of
        None \<Rightarrow> (case g now of None \<Rightarrow> Fail NO_REASON | Some tm \<Rightarrow> Ok (Some tm))
      | Some t \<Rightarrow>
          if str_type t = V_ASN1_UTCTIME then asn1_utctime_to_tm (Some tm) t
          else if str_type t = V_ASN1_GENERALIZEDTIME then asn1_generalizedtime_to_tm (Some tm) t
          else Fail NO_REASON)"

definition ASN1_TIME_diff ::
  "gmtime_fn \<Rightarrow> int \<Rightarrow> tm \<Rightarrow> asn1_string option \<Rightarrow> asn1_string option \<Rightarrow> (int \<times> int) asn1_result" where
  "ASN1_TIME_diff g now tm0 from to =
     bind_outcome (asn1_time_to_tm g now tm0 from) (\<lambda>a.
     bind_outcome (asn1_time_to_tm g now tm0 to) (\<lambda>b.
       case (a, b) of (Some a, Some b) \<Rightarrow> OPENSSL_gmtime_diff a b | _ \<Rightarrow> UB))"

section \<open>Printing and parsing\<close>

definition two :: "nat \<Rightarrow> bytes" where
  "two n = [of_nat (48 + n div 10), of_nat (48 + n mod 10)]"

lemma dec_digits_one: "n < 10 \<Longrightarrow> dec_digits n = [of_nat (48 + n)]"
  by (subst dec_digits.simps) simp

lemma dec_digits_two: "10 \<le> n \<Longrightarrow> n < 100 \<Longrightarrow> dec_digits n = two n"
  by (subst dec_digits.simps) (simp add: two_def dec_digits_one del: of_nat_add)

lemma fmt_two: "n < 100 \<Longrightarrow> fmt_0d 2 (int n) = two n"
  by (cases "n < 10")
    (simp_all add: fmt_0d_def dec_digits_two dec_digits_one two_def del: of_nat_add)

lemma fmt_two_int: "0 \<le> x \<Longrightarrow> x < 100 \<Longrightarrow> fmt_0d 2 x = two (nat x)"
  using fmt_two [of "nat x"] by simp

lemma dec_digits_four:
  assumes "100 \<le> n" "n < 10000"
  shows "dec_digits n = (if n < 1000 then dec_digits (n div 100) else two (n div 100)) @ two (n mod 100)"
proof -
  have m: "n mod 100 = 10 * (n div 10 mod 10) + n mod 10" using mod_mult2_eq [of n 10 10] by simp
  have e: "n div 10 div 10 = n div 100" "n mod 100 div 10 = n div 10 mod 10" "n mod 100 mod 10 = n mod 10"
    unfolding m by (simp_all add: div_mult2_eq [symmetric])
  have "dec_digits n = dec_digits (n div 100) @ two (n mod 100)"
  proof -
    have "10 \<le> n" "10 \<le> n div 10" using assms(1) by presburger+
    then show ?thesis
      by (subst dec_digits.simps, subst dec_digits.simps) (simp add: two_def e del: of_nat_add)
  qed
  then show ?thesis using assms by (auto simp: dec_digits_two)
qed

lemma length_two [simp]: "length (two n) = 2"
  by (simp add: two_def)

lemma replicate_few: "replicate 3 x = [x, x, x]" "replicate 2 x = [x, x]"
  by (simp_all add: numeral_eq_Suc)

lemma fmt_four:
  assumes "n < 10000"
  shows "fmt_0d 4 (int n) = two (n div 100) @ two (n mod 100)"
proof (cases "n < 100")
  case True
  have "two 0 = [48, 48]" by (simp add: two_def)
  with True show ?thesis
    by (cases "n < 10") (simp_all add: fmt_0d_def dec_digits_two dec_digits_one two_def
        replicate_few del: of_nat_add)
next
  case False
  then show ?thesis using assms
    by (cases "n < 1000")
      (simp_all add: fmt_0d_def dec_digits_four dec_digits_one two_def
        replicate_few del: of_nat_add)
qed

lemma of_nat_digit: "k < 10 \<Longrightarrow> uint (of_nat (48 + k) :: u8) = 48 + int k"
  by (simp add: unsigned_of_nat take_bit_nat_eq_self del: of_nat_add)

lemma digit_at_two:
  assumes "take 2 (drop ofs a) = two n" "n < 100"
  shows "digit_at a ofs = Ok (int (n div 10))" "digit_at a (ofs + 1) = Ok (int (n mod 10))"
proof -
  have l: "ofs + 2 \<le> length a" using arg_cong [OF assms(1), of length] by simp
  have "a ! ofs = take 2 (drop ofs a) ! 0" "a ! (ofs + 1) = take 2 (drop ofs a) ! 1" using l by simp_all
  then have e: "a ! ofs = of_nat (48 + n div 10)" "a ! (ofs + 1) = of_nat (48 + n mod 10)"
    unfolding assms(1) by (simp_all add: two_def)
  have k: "n div 10 < 10" "n mod 10 < 10" using assms(2) by auto
  show "digit_at a ofs = Ok (int (n div 10))" "digit_at a (ofs + 1) = Ok (int (n mod 10))"
    using l k unfolding digit_at_def e of_nat_digit [OF k(1)] of_nat_digit [OF k(2)] by simp_all
qed

lemma time_field_two:
  assumes "take 2 (drop ofs a) = two n" "n < 100" "int ofs + 2 \<le> l" "lo \<le> int n" "int n \<le> hi"
  shows "time_field a l ofs lo hi = Ok (int n, ofs + 2)"
proof -
  have "int (n div 10) * 10 + int (n mod 10) = int n" by presburger
  then show ?thesis
    using assms(3-5) unfolding time_field_def digit_at_two [OF assms(1,2)] by simp
qed

lemma two_not_zone: "take 2 (drop ofs a) = two n \<Longrightarrow> n < 100 \<Longrightarrow> \<not> zone_char (a ! ofs) \<and> ofs < length a"
  using digit_at_two [of ofs a n] by (auto simp: digit_at_def zone_char_def Let_def split: if_splits)

declare utc_fields.simps [simp del] gen_fields.simps [simp del] gen_fraction.simps [simp del]

lemma fields_end [simp]: "utc_fields a l 6 ofs tm = Ok (ofs, tm)" "gen_fields a l 7 ofs tm = Ok (ofs, tm)"
  by (simp_all add: utc_fields.simps gen_fields.simps)

lemma utc_fields_two:
  assumes "i < 6" "take 2 (drop ofs a) = two n" "n < 100" "int ofs + 2 \<le> l" "utc_min ! i \<le> int n" "int n \<le> utc_max ! i"
  shows "utc_fields a l i ofs tm = utc_fields a l (i + 1) (ofs + 2) (map_option (utc_set i (int n)) tm)"
  using assms two_not_zone [OF assms(2,3)]
  by (subst utc_fields.simps) (simp add: time_field_two [OF assms(2-6)] del: utc_set.simps)

lemma gen_fields_two:
  assumes "i < 7" "take 2 (drop ofs a) = two n" "n < 100" "int ofs + 2 \<le> l" "gen_min ! i \<le> int n" "int n \<le> gen_max ! i"
  shows "gen_fields a l i ofs tm = gen_fields a l (i + 1) (ofs + 2) (map_option (gen_set i (int n)) tm)"
  using assms two_not_zone [OF assms(2,3)]
  by (subst gen_fields.simps) (simp add: time_field_two [OF assms(2-6)] del: gen_set.simps)

lemma month_length_31: "month_length y m \<le> 31"
  by (simp add: month_length_def)

lemma valid_tm_bounds:
  "valid_tm ts \<Longrightarrow> 0 \<le> tm_mon ts \<and> tm_mon ts \<le> 11 \<and> 1 \<le> tm_mday ts \<and> tm_mday ts \<le> 31 \<and>
     0 \<le> tm_hour ts \<and> tm_hour ts \<le> 23 \<and> 0 \<le> tm_min ts \<and> tm_min ts \<le> 59 \<and> 0 \<le> tm_sec ts \<and> tm_sec ts \<le> 59"
  using month_length_31 [of "tm_year ts + 1900" "tm_mon ts + 1"] by (auto simp: valid_tm_def valid_date_def)

lemma fmt_time_two:
  assumes "valid_tm ts"
  shows "fmt_time year ts = year @ two (nat (tm_mon ts + 1)) @ two (nat (tm_mday ts)) @ two (nat (tm_hour ts)) @
     two (nat (tm_min ts)) @ two (nat (tm_sec ts)) @ [90]"
  using valid_tm_bounds [OF assms] by (simp add: fmt_time_def fmt_two_int)

text \<open>The six or seven fields of a printed time, read one after the other.\<close>

lemma drop_two [simp]: "drop 2 (two a @ xs) = xs"
  by (simp add: two_def)

lemma drop_twos [simp]:
  "drop 4 (two a @ two b @ xs) = xs" "drop 6 (two a @ two b @ two c @ xs) = xs"
  "drop 8 (two a @ two b @ two c @ two d @ xs) = xs"
  "drop 10 (two a @ two b @ two c @ two d @ two e @ xs) = xs"
  "drop 12 (two a @ two b @ two c @ two d @ two e @ two f @ xs) = xs"
  "drop 14 (two a @ two b @ two c @ two d @ two e @ two f @ two g @ xs) = xs"
  by (simp_all add: two_def)

lemma take_two [simp]: "take 2 (two a @ xs) = two a"
  by (simp add: two_def)

lemma utc_fields_all:
  assumes "a = two y @ two m @ two d @ two h @ two i @ two s @ xs" "y < 100" "1 \<le> m" "m \<le> 12" "1 \<le> d" "d \<le> 31"
    "h \<le> 23" "i \<le> 59" "s \<le> 59" "12 \<le> l"
  shows "utc_fields a l 0 0 tm = Ok (12, map_option (\<lambda>t. t\<lparr>tm_year := if int y < 50 then int y + 100 else int y,
    tm_mon := int m - 1, tm_mday := int d, tm_hour := int h, tm_min := int i, tm_sec := int s\<rparr>) tm)"
proof -
  note f = utc_min_def utc_max_def
  have "utc_fields a l 0 0 t = utc_fields a l 1 2 (map_option (utc_set 0 (int y)) t)" for t
    using assms by (subst utc_fields_two [where n = y]) (simp_all add: f numeral_2_eq_2 [symmetric] del: utc_set.simps)
  moreover have "utc_fields a l 1 2 t = utc_fields a l 2 4 (map_option (utc_set 1 (int m)) t)" for t
    using assms by (subst utc_fields_two [where n = m]) (simp_all add: f numeral_2_eq_2 [symmetric] del: utc_set.simps)
  moreover have "utc_fields a l 2 4 t = utc_fields a l 3 6 (map_option (utc_set 2 (int d)) t)" for t
    using assms by (subst utc_fields_two [where n = d]) (simp_all add: f del: utc_set.simps)
  moreover have "utc_fields a l 3 6 t = utc_fields a l 4 8 (map_option (utc_set 3 (int h)) t)" for t
    using assms by (subst utc_fields_two [where n = h]) (simp_all add: f del: utc_set.simps)
  moreover have "utc_fields a l 4 8 t = utc_fields a l 5 10 (map_option (utc_set 4 (int i)) t)" for t
    using assms by (subst utc_fields_two [where n = i]) (simp_all add: f del: utc_set.simps)
  moreover have "utc_fields a l 5 10 t = utc_fields a l 6 12 (map_option (utc_set 5 (int s)) t)" for t
    using assms by (subst utc_fields_two [where n = s]) (simp_all add: f del: utc_set.simps)
  ultimately show ?thesis by (simp add: option.map_comp o_def)
qed

lemma gen_fields_all:
  assumes "a = two c @ two y @ two m @ two d @ two h @ two i @ two s @ xs" "c < 100" "y < 100" "1 \<le> m" "m \<le> 12"
    "1 \<le> d" "d \<le> 31" "h \<le> 23" "i \<le> 59" "s \<le> 59" "14 \<le> l"
  shows "gen_fields a l 0 0 tm = Ok (14, map_option (\<lambda>t. t\<lparr>tm_year := int c * 100 - 1900 + int y,
    tm_mon := int m - 1, tm_mday := int d, tm_hour := int h, tm_min := int i, tm_sec := int s\<rparr>) tm)"
proof -
  note f = gen_min_def gen_max_def
  have "gen_fields a l 0 0 t = gen_fields a l 1 2 (map_option (gen_set 0 (int c)) t)" for t
    using assms by (subst gen_fields_two [where n = c]) (simp_all add: f numeral_2_eq_2 [symmetric] del: gen_set.simps)
  moreover have "gen_fields a l 1 2 t = gen_fields a l 2 4 (map_option (gen_set 1 (int y)) t)" for t
    using assms by (subst gen_fields_two [where n = y]) (simp_all add: f numeral_2_eq_2 [symmetric] del: gen_set.simps)
  moreover have "gen_fields a l 2 4 t = gen_fields a l 3 6 (map_option (gen_set 2 (int m)) t)" for t
    using assms by (subst gen_fields_two [where n = m]) (simp_all add: f del: gen_set.simps)
  moreover have "gen_fields a l 3 6 t = gen_fields a l 4 8 (map_option (gen_set 3 (int d)) t)" for t
    using assms by (subst gen_fields_two [where n = d]) (simp_all add: f del: gen_set.simps)
  moreover have "gen_fields a l 4 8 t = gen_fields a l 5 10 (map_option (gen_set 4 (int h)) t)" for t
    using assms by (subst gen_fields_two [where n = h]) (simp_all add: f del: gen_set.simps)
  moreover have "gen_fields a l 5 10 t = gen_fields a l 6 12 (map_option (gen_set 5 (int i)) t)" for t
    using assms by (subst gen_fields_two [where n = i]) (simp_all add: f del: gen_set.simps)
  moreover have "gen_fields a l 6 12 t = gen_fields a l 7 14 (map_option (gen_set 6 (int s)) t)" for t
    using assms by (subst gen_fields_two [where n = s]) (simp_all add: f del: gen_set.simps)
  ultimately show ?thesis by (simp add: option.map_comp o_def)
qed

lemma utc_parse:
  assumes ts: "valid_tm ts" "50 \<le> tm_year ts" "tm_year ts < 150"
    and d: "str_type d = V_ASN1_UTCTIME" "str_length d = 13"
      "take 14 (buffer d) = fmt_time (fmt_0d 2 (cmod (tm_year ts) 100)) ts @ [0]"
  shows "asn1_utctime_to_tm (Some tm0) d = Ok (Some ts)"
proof -
  note b = valid_tm_bounds [OF ts(1)]
  define y where "y = nat (tm_year ts mod 100)"
  have y: "y < 100" "int y = tm_year ts mod 100" by (simp_all add: y_def)
  have cm: "cmod (tm_year ts) 100 = int y"
    using ts(2) by (simp add: cmod_def cdiv_nonneg minus_div_mult_eq_mod y)
  have yy: "(if int y < 50 then int y + 100 else int y) = tm_year ts"
  proof (cases "tm_year ts < 100")
    case False
    have "tm_year ts mod 100 = tm_year ts - 100"
      by (rule int_mod_pos_eq [where q = 1]) (use ts(2,3) False in simp_all)
    then show ?thesis unfolding y(2) using ts(2,3) False by simp
  qed (use ts(2) in \<open>simp add: y(2)\<close>)
  define xs where "xs = drop 14 (buffer d)"
  have a: "buffer d = two y @ two (nat (tm_mon ts + 1)) @ two (nat (tm_mday ts)) @ two (nat (tm_hour ts)) @
     two (nat (tm_min ts)) @ two (nat (tm_sec ts)) @ [90, 0] @ xs"
    using append_take_drop_id [of 14 "buffer d"] unfolding d(3) cm fmt_two [OF y(1)] fmt_time_two [OF ts(1)]
    by (simp add: xs_def)
  have "utc_fields (buffer d) 13 0 0 (Some tm0) = Ok (12, Some ts)"
  proof -
    have "utc_fields (buffer d) 13 0 0 (Some tm0) = Ok (12, map_option (\<lambda>t. t\<lparr>
        tm_year := if int y < 50 then int y + 100 else int y, tm_mon := int (nat (tm_mon ts + 1)) - 1,
        tm_mday := int (nat (tm_mday ts)), tm_hour := int (nat (tm_hour ts)), tm_min := int (nat (tm_min ts)),
        tm_sec := int (nat (tm_sec ts))\<rparr>) (Some tm0))"
      by (rule utc_fields_all [OF a y(1)]) (use b in auto)
    then show ?thesis unfolding yy using b by simp
  qed
  moreover have "buffer d ! 12 = 90" "12 < length (buffer d)" unfolding a by (simp_all add: two_def)
  ultimately show ?thesis using d(1,2) by (simp add: asn1_utctime_to_tm_def)
qed

lemma gen_parse:
  assumes ts: "valid_tm ts" "-1900 \<le> tm_year ts" "tm_year ts \<le> 8099"
    and d: "str_type d = V_ASN1_GENERALIZEDTIME" "str_length d = 15"
      "take 16 (buffer d) = fmt_time (fmt_0d 4 (tm_year ts + 1900)) ts @ [0]"
  shows "asn1_generalizedtime_to_tm (Some tm0) d = Ok (Some ts)"
proof -
  note b = valid_tm_bounds [OF ts(1)]
  define n where "n = nat (tm_year ts + 1900)"
  have n: "n < 10000" "tm_year ts + 1900 = int n" using ts(2,3) by (simp_all add: n_def)
  have cy: "n div 100 < 100" "n mod 100 < 100" using n(1) by auto
  have yy: "int (n div 100) * 100 - 1900 + int (n mod 100) = tm_year ts"
    using n(2) div_mult_mod_eq [of n 100] by linarith
  define xs where "xs = drop 16 (buffer d)"
  have a: "buffer d = two (n div 100) @ two (n mod 100) @ two (nat (tm_mon ts + 1)) @ two (nat (tm_mday ts)) @
     two (nat (tm_hour ts)) @ two (nat (tm_min ts)) @ two (nat (tm_sec ts)) @ [90, 0] @ xs"
    using append_take_drop_id [of 16 "buffer d"] unfolding d(3) n(2) fmt_four [OF n(1)] fmt_time_two [OF ts(1)]
    by (simp add: xs_def)
  have "gen_fields (buffer d) 15 0 0 (Some tm0) = Ok (14, map_option (\<lambda>t. t\<lparr>
      tm_year := int (n div 100) * 100 - 1900 + int (n mod 100), tm_mon := int (nat (tm_mon ts + 1)) - 1,
      tm_mday := int (nat (tm_mday ts)), tm_hour := int (nat (tm_hour ts)), tm_min := int (nat (tm_min ts)),
      tm_sec := int (nat (tm_sec ts))\<rparr>) (Some tm0))"
    by (rule gen_fields_all [OF a cy]) (use b in auto)
  then have "gen_fields (buffer d) 15 0 0 (Some tm0) = Ok (14, Some ts)"
    unfolding yy using b by simp
  moreover have "buffer d ! 14 = 90" "14 < length (buffer d)" unfolding a by (simp_all add: two_def)
  ultimately show ?thesis using d(1,2) by (simp add: asn1_generalizedtime_to_tm_def)
qed

lemma put_time:
  assumes "alloc_ok m" "wf_string s" "length txt \<le> 19"
  shows "put_time m s txt type = Fail MALLOC_FAILURE \<or>
    (\<exists>s'. put_time m s txt type = Ok s' \<and> wf_string s' \<and> str_type s' = type \<and> str_length s' = int (length txt) \<and>
       take (length txt + 1) (buffer s') = txt @ [0])"
proof -
  have p: "\<exists>s'. (case memcpy_at p 0 (take 19 txt @ [0]) of None \<Rightarrow> UB
      | Some p \<Rightarrow> Ok (s\<lparr>str_data := Some p, str_length := int (length (take 19 txt)), str_type := type\<rparr>)) = Ok s' \<and>
      wf_string s' \<and> str_type s' = type \<and> str_length s' = int (length txt) \<and>
      take (length txt + 1) (buffer s') = txt @ [0]" if "20 \<le> length p" for p
    using that assms(3) by (auto simp: memcpy_at_def wf_string_def buffer_def)
  consider "str_data s = None \<or> str_length s < 20" "m 0 20 = None"
    | q where "str_data s = None \<or> str_length s < 20" "m 0 20 = Some q"
    | "\<not> (str_data s = None \<or> str_length s < 20)" by fastforce
  then show ?thesis
  proof cases
    case 1
    then show ?thesis by (simp add: put_time_def)
  next
    case 2
    have "20 \<le> length q" using alloc_okD [OF assms(1) 2(2)] by simp
    from p [OF this] show ?thesis unfolding put_time_def if_P [OF 2(1)] 2(2) option.case bind_outcome.simps by blast
  next
    case 3
    then have "20 \<le> length (buffer s)" using assms(2) by (auto simp: wf_string_def)
    from p [OF this] show ?thesis unfolding put_time_def if_not_P [OF 3] bind_outcome.simps by blast
  qed
qed

section \<open>Times from seconds\<close>

text \<open>
  What the code relies on of \<open>gmtime_r\<close>, for the years -4367 to 11476: a Gregorian date and time whose
  count of seconds, from Julian day 2440588 on, is its argument.
\<close>

abbreviation (input) EPOCH :: int where "EPOCH \<equiv> 2440588 * 86400"

definition time_ok :: "int \<Rightarrow> bool" where
  "time_ok t \<longleftrightarrow> -200000000000 \<le> t \<and> t \<le> 300000000000"

definition gmtime_ok :: "gmtime_fn \<Rightarrow> bool" where
  "gmtime_ok g \<longleftrightarrow> (\<forall>t. time_ok t \<longrightarrow> (\<exists>ts. g t = Some ts \<and> valid_tm ts \<and> tm_seconds ts = t + EPOCH \<and>
     -4799 \<le> tm_year ts + 1900 \<and> tm_year ts + 1900 \<le> 1000000))"

text \<open>The year of a time is decided by its seconds.\<close>

lemma tm_year_cut:
  assumes "valid_tm ts" "-4799 \<le> tm_year ts + 1900" "-4799 < Y"
  shows "Y \<le> tm_year ts + 1900 \<longleftrightarrow> date_to_julian Y 1 1 * 86400 \<le> tm_seconds ts"
proof -
  define J where "J = date_to_julian (tm_year ts + 1900) (tm_mon ts + 1) (tm_mday ts)"
  have "valid_date (tm_year ts + 1900, tm_mon ts + 1, tm_mday ts)" using assms(1) by (simp add: valid_tm_def)
  from julian_year_cut [OF this assms(2,3)]
  have "Y \<le> tm_year ts + 1900 \<longleftrightarrow> date_to_julian Y 1 1 \<le> J" by (simp add: J_def)
  moreover have "J * 86400 \<le> tm_seconds ts \<and> tm_seconds ts < J * 86400 + 86400"
    using valid_tm_bounds [OF assms(1)] by (simp add: tm_seconds_def J_def)
  ultimately show ?thesis by linarith
qed

text \<open>
  The first second that a time may have after an adjustment: of the year 1900 when there is something to add, of the year 0
  when there is not and the system's time is taken as it is.
\<close>

definition first_second :: "int \<Rightarrow> int \<Rightarrow> int" where
  "first_second off_day off_sec = (if off_day = 0 \<and> off_sec = 0 then 1721060 else 2415021) * 86400"

lemma gmtime_adjusted:
  assumes g: "gmtime_ok g" "time_ok t" and off: "- 1000000000 \<le> off_day" "off_day \<le> 1000000000" "int_ok off_sec"
    and T: "T = t + off_day * 86400 + off_sec"
      "first_second off_day off_sec \<le> T + EPOCH" "T + EPOCH < 5373485 * 86400"
  shows "\<exists>ts. gmtime_adjusted g e t off_day off_sec = Ok ts \<and> valid_tm ts \<and> tm_seconds ts = T + EPOCH \<and>
    -4799 \<le> tm_year ts + 1900 \<and> tm_year ts \<le> 8099 \<and> -1900 \<le> tm_year ts"
proof -
  obtain ts0 where ts0: "g t = Some ts0" "valid_tm ts0" "tm_seconds ts0 = t + EPOCH"
    "-4799 \<le> tm_year ts0 + 1900" "tm_year ts0 + 1900 \<le> 1000000"
    using g unfolding gmtime_ok_def by blast
  have low: "1721060 * 86400 \<le> T + EPOCH" using T(2) by (simp add: first_second_def split: if_splits)
  have "\<exists>ts. gmtime_adjusted g e t off_day off_sec = Ok ts \<and> valid_tm ts \<and> tm_seconds ts = T + EPOCH \<and>
    -4799 \<le> tm_year ts + 1900"
  proof (cases "off_day = 0 \<and> off_sec = 0")
    case True
    then show ?thesis using ts0 T(1) by (simp add: gmtime_adjusted_def)
  next
    case False
    then have "2415021 * 86400 \<le> T + EPOCH" using T(2) by (simp add: first_second_def split: if_splits)
    moreover have S: "T + EPOCH = tm_seconds ts0 + off_day * 86400 + off_sec" using ts0(3) T(1) by simp
    ultimately obtain ts where ts: "OPENSSL_gmtime_adj ts0 off_day off_sec = Ok ts" "valid_tm ts" "tm_seconds ts = T + EPOCH"
      using gmtime_adj_range [OF ts0(2,4,5) off S] T(3) by auto
    have "1900 \<le> tm_year ts + 1900" using ts(1) using gmtime_adj_year [OF ts(1)] by simp
    with False ts0(1) ts show ?thesis by (auto simp: gmtime_adjusted_def)
  qed
  then obtain ts where ts: "gmtime_adjusted g e t off_day off_sec = Ok ts" "valid_tm ts"
    "tm_seconds ts = T + EPOCH" "-4799 \<le> tm_year ts + 1900" by blast
  have e: "date_to_julian 0 1 1 = 1721060" "date_to_julian 10000 1 1 = 5373485"
    by (simp_all add: date_to_julian_def cdiv_def)
  have "0 \<le> tm_year ts + 1900" "\<not> 10000 \<le> tm_year ts + 1900"
    using tm_year_cut [OF ts(2,4), of 0] tm_year_cut [OF ts(2,4), of 10000] low T(3) by (simp_all add: e ts(3))
  with ts show ?thesis by auto
qed

lemma gmtime_adjusted_reason:
  "gmtime_adjusted g e t off_day off_sec = Ok ts \<Longrightarrow> gmtime_adjusted g e' t off_day off_sec = Ok ts"
  by (auto simp: gmtime_adjusted_def split: option.splits if_splits)

lemma length_fmt_time: "valid_tm ts \<Longrightarrow> length (fmt_time year ts) = length year + 11"
  by (simp add: fmt_time_two)

lemma new_or_given:
  assumes "pred_option wf_string s"
  shows "(case s of None \<Rightarrow> ASN1_STRING_type_new m type | Some s \<Rightarrow> Ok s) = Fail MALLOC_FAILURE \<or>
    (\<exists>s0. (case s of None \<Rightarrow> ASN1_STRING_type_new m type | Some s \<Rightarrow> Ok s) = Ok s0 \<and> wf_string s0)"
  using assms by (auto simp: ASN1_STRING_type_new_def split: option.splits)

lemma utctime_adj_parse:
  assumes m: "alloc_ok m" and s: "pred_option wf_string s"
    and ts: "gmtime_adjusted g e t off_day off_sec = Ok ts" "valid_tm ts" "50 \<le> tm_year ts" "tm_year ts < 150"
  shows "ASN1_UTCTIME_adj m g s t off_day off_sec = Fail MALLOC_FAILURE \<or>
    (\<exists>s'. ASN1_UTCTIME_adj m g s t off_day off_sec = Ok s' \<and> wf_string s' \<and> str_type s' = V_ASN1_UTCTIME \<and>
       str_length s' = 13 \<and> (\<forall>tm0. asn1_utctime_to_tm (Some tm0) s' = Ok (Some ts)))"
proof -
  let ?txt = "fmt_time (fmt_0d 2 (cmod (tm_year ts) 100)) ts"
  have "0 \<le> cmod (tm_year ts) 100 \<and> cmod (tm_year ts) 100 < 100"
    using ts(3) by (simp add: cmod_def cdiv_nonneg minus_div_mult_eq_mod)
  then have l: "length ?txt = 13" by (simp add: length_fmt_time [OF ts(2)] fmt_two_int)
  let ?s = "case s of None \<Rightarrow> ASN1_STRING_type_new m V_ASN1_UTCTIME | Some s \<Rightarrow> Ok s"
  have "?s = Fail MALLOC_FAILURE \<or> (\<exists>s0. ?s = Ok s0 \<and> wf_string s0)" by (rule new_or_given [OF s])
  then show ?thesis
  proof
    assume "?s = Fail MALLOC_FAILURE"
    then show ?thesis unfolding ASN1_UTCTIME_adj_def by simp
  next
    assume "\<exists>s0. ?s = Ok s0 \<and> wf_string s0"
    then obtain s0 where s0: "?s = Ok s0" "wf_string s0" by blast
    have e: "ASN1_UTCTIME_adj m g s t off_day off_sec = put_time (later 1 m) s0 ?txt V_ASN1_UTCTIME"
      unfolding ASN1_UTCTIME_adj_def s0(1) using ts by (simp add: gmtime_adjusted_reason [OF ts(1), of NO_REASON])
    show ?thesis unfolding e
      using put_time [OF alloc_ok_later [OF m, of 1] s0(2), of ?txt V_ASN1_UTCTIME] l utc_parse [OF ts(2-4)]
      by fastforce
  qed
qed

lemma gentime_adj_parse:
  assumes m: "alloc_ok m" and s: "pred_option wf_string s"
    and ts: "gmtime_adjusted g e t off_day off_sec = Ok ts" "valid_tm ts" "-1900 \<le> tm_year ts" "tm_year ts \<le> 8099"
  shows "ASN1_GENERALIZEDTIME_adj m g s t off_day off_sec = Fail MALLOC_FAILURE \<or>
    (\<exists>s'. ASN1_GENERALIZEDTIME_adj m g s t off_day off_sec = Ok s' \<and> wf_string s' \<and>
       str_type s' = V_ASN1_GENERALIZEDTIME \<and> str_length s' = 15 \<and>
       (\<forall>tm0. asn1_generalizedtime_to_tm (Some tm0) s' = Ok (Some ts)))"
proof -
  let ?txt = "fmt_time (fmt_0d 4 (tm_year ts + 1900)) ts"
  have l: "length ?txt = 15"
    using fmt_four [of "nat (tm_year ts + 1900)"] ts(3,4) by (simp add: length_fmt_time [OF ts(2)])
  let ?s = "case s of None \<Rightarrow> ASN1_STRING_type_new m V_ASN1_GENERALIZEDTIME | Some s \<Rightarrow> Ok s"
  have "?s = Fail MALLOC_FAILURE \<or> (\<exists>s0. ?s = Ok s0 \<and> wf_string s0)" by (rule new_or_given [OF s])
  then show ?thesis
  proof
    assume "?s = Fail MALLOC_FAILURE"
    then show ?thesis unfolding ASN1_GENERALIZEDTIME_adj_def by simp
  next
    assume "\<exists>s0. ?s = Ok s0 \<and> wf_string s0"
    then obtain s0 where s0: "?s = Ok s0" "wf_string s0" by blast
    have e: "ASN1_GENERALIZEDTIME_adj m g s t off_day off_sec = put_time (later 1 m) s0 ?txt V_ASN1_GENERALIZEDTIME"
      unfolding ASN1_GENERALIZEDTIME_adj_def s0(1)
      using ts by (simp add: gmtime_adjusted_reason [OF ts(1), of NO_REASON])
    show ?thesis unfolding e
      using put_time [OF alloc_ok_later [OF m, of 1] s0(2), of ?txt V_ASN1_GENERALIZEDTIME] l gen_parse [OF ts(2-4)]
      by fastforce
  qed
qed

lemma time_adj_parse:
  assumes m: "alloc_ok m" and s: "pred_option wf_string s" and g: "gmtime_ok g" "time_ok t"
    and off: "- 1000000000 \<le> off_day" "off_day \<le> 1000000000" "int_ok off_sec"
    and T: "T = t + off_day * 86400 + off_sec" "first_second off_day off_sec \<le> T + EPOCH" "T + EPOCH < 5373485 * 86400"
  shows "ASN1_TIME_adj m g s t off_day off_sec = Fail MALLOC_FAILURE \<or>
    (\<exists>s' ts. ASN1_TIME_adj m g s t off_day off_sec = Ok s' \<and> wf_string s' \<and>
       str_type s' = (if 2433283 * 86400 \<le> T + EPOCH \<and> T + EPOCH < 2469808 * 86400
                      then V_ASN1_UTCTIME else V_ASN1_GENERALIZEDTIME) \<and>
       (\<forall>now tm0. asn1_time_to_tm g now tm0 (Some s') = Ok (Some ts)) \<and> valid_tm ts \<and> tm_seconds ts = T + EPOCH \<and>
       -4799 \<le> tm_year ts + 1900 \<and> tm_year ts + 1900 \<le> 1000000)"
proof -
  obtain ts where ts: "gmtime_adjusted g ERROR_GETTING_TIME t off_day off_sec = Ok ts" "valid_tm ts"
    "tm_seconds ts = T + EPOCH" "-4799 \<le> tm_year ts + 1900" "tm_year ts \<le> 8099" "-1900 \<le> tm_year ts"
    using gmtime_adjusted [OF g off T] by blast
  have e: "date_to_julian 1950 1 1 = 2433283" "date_to_julian 2050 1 1 = 2469808"
    by (simp_all add: date_to_julian_def cdiv_def)
  have y: "50 \<le> tm_year ts \<longleftrightarrow> 2433283 * 86400 \<le> T + EPOCH" "tm_year ts < 150 \<longleftrightarrow> T + EPOCH < 2469808 * 86400"
    using tm_year_cut [OF ts(2,4), of 1950] tm_year_cut [OF ts(2,4), of 2050] by (simp_all add: e ts(3)) linarith+
  show ?thesis
  proof (cases "50 \<le> tm_year ts \<and> tm_year ts < 150")
    case True
    then have "ASN1_TIME_adj m g s t off_day off_sec = ASN1_UTCTIME_adj m g s t off_day off_sec"
      by (simp add: ASN1_TIME_adj_def ts(1))
    moreover have "(2433283 * 86400 \<le> T + EPOCH \<and> T + EPOCH < 2469808 * 86400) = True" using True y by blast
    moreover have "ASN1_UTCTIME_adj m g s t off_day off_sec = Fail MALLOC_FAILURE \<or>
        (\<exists>s'. ASN1_UTCTIME_adj m g s t off_day off_sec = Ok s' \<and> wf_string s' \<and> str_type s' = V_ASN1_UTCTIME \<and>
          (\<forall>now tm0. asn1_time_to_tm g now tm0 (Some s') = Ok (Some ts)))"
      using utctime_adj_parse [OF m s ts(1,2)] True ts(4-6) by (auto simp: asn1_time_to_tm_def)
    ultimately show ?thesis using ts(2-5) by (elim disjE exE conjE) (simp, auto)
  next
    case False
    then have "ASN1_TIME_adj m g s t off_day off_sec = ASN1_GENERALIZEDTIME_adj m g s t off_day off_sec"
      by (auto simp: ASN1_TIME_adj_def ts(1))
    moreover have "(2433283 * 86400 \<le> T + EPOCH \<and> T + EPOCH < 2469808 * 86400) = False" using False y by blast
    moreover have "ASN1_GENERALIZEDTIME_adj m g s t off_day off_sec = Fail MALLOC_FAILURE \<or>
        (\<exists>s'. ASN1_GENERALIZEDTIME_adj m g s t off_day off_sec = Ok s' \<and> wf_string s' \<and> str_type s' = V_ASN1_GENERALIZEDTIME \<and>
          (\<forall>now tm0. asn1_time_to_tm g now tm0 (Some s') = Ok (Some ts)))"
      using gentime_adj_parse [OF m s ts(1,2)] ts(4-6) by (auto simp: asn1_time_to_tm_def)
    ultimately show ?thesis using ts(2-5) by (elim disjE exE conjE) (simp, auto)
  qed
qed

text \<open>A \<open>gmtime_r\<close> with the behaviour the code relies on.\<close>

definition calendar_time :: gmtime_fn where
  "calendar_time t =
     (let s = t mod 86400; (y, m, d) = julian_to_date (t div 86400 + 2440588) in
      Some \<lparr>tm_year = y - 1900, tm_mon = m - 1, tm_mday = d, tm_hour = s div 3600,
            tm_min = s div 60 mod 60, tm_sec = s mod 60\<rparr>)"

lemma gmtime_ok_calendar: "gmtime_ok calendar_time"
proof -
  have "\<exists>ts. calendar_time t = Some ts \<and> valid_tm ts \<and> tm_seconds ts = t + EPOCH \<and>
     -4799 \<le> tm_year ts + 1900 \<and> tm_year ts + 1900 \<le> 1000000" if "time_ok t" for t
  proof -
    have J: "-31738 \<le> t div 86400 + 2440588" "t div 86400 + 2440588 < 6000000"
      using that div_bounds [of 86400 t] by (simp_all add: time_ok_def)
    obtain y m d where v: "julian_to_date (t div 86400 + 2440588) = (y, m, d)" "valid_date (y, m, d)"
      "-4799 \<le> y" "date_to_julian y m d = t div 86400 + 2440588"
      using julian_days [OF J(1)] by blast
    have "date_to_julian 1000001 1 1 = 366963926" by (simp add: date_to_julian_def cdiv_def)
    then have y: "\<not> 1000001 \<le> y" using julian_year_cut [OF v(2,3), of 1000001] J(2) v(4) by simp
    define s where "s = t mod 86400"
    have s: "0 \<le> s" "s < 86400" by (simp_all add: s_def)
    define ts where "ts = \<lparr>tm_year = y - 1900, tm_mon = m - 1, tm_mday = d, tm_hour = s div 3600,
      tm_min = s div 60 mod 60, tm_sec = s mod 60\<rparr>"
    have "calendar_time t = Some ts"
      by (simp only: calendar_time_def Let_def v(1) prod.case s_def ts_def)
    moreover have "s mod 60 \<le> 59" "s div 60 mod 60 \<le> 59" by (rule mod_60)+
    then have "valid_tm ts"
      using v(2) s int_div_less_iff [of 3600 s 24] by (simp add: valid_tm_def ts_def pos_imp_zdiv_nonneg_iff)
    moreover have "tm_seconds ts = (t div 86400 + 2440588) * 86400 +
        (s div 3600 * 3600 + s div 60 mod 60 * 60 + s mod 60)"
      by (simp add: tm_seconds_def ts_def v(4))
    then have "tm_seconds ts = t + EPOCH"
      unfolding split_seconds using div_mult_mod_eq [of t 86400] by (simp add: s_def algebra_simps)
    moreover have "-4799 \<le> tm_year ts + 1900" "tm_year ts + 1900 \<le> 1000000" using v(3) y by (simp_all add: ts_def)
    ultimately show ?thesis by blast
  qed
  then show ?thesis by (simp add: gmtime_ok_def)
qed

text \<open>
  C15: What \<open>ASN1_TIME_adj\<close> writes, \<open>asn1_time_to_tm\<close> reads back, whether into a new or a given well-formed string. The time is one the system's \<open>gmtime_r\<close> converts (between
  -2e11 and 3e11 seconds around 1970), the offset at most 1000000000 days either way and a number of seconds that fits an \<open>int\<close>,
  and the result lies in the years 1900 to 9999 (0 to 9999 when there is no offset). Then the string is a UTCTime exactly in the
  years 1950 to 2049 and a GeneralizedTime otherwise, and parses to a valid time with the same count of seconds;
  within these bounds the only failure is the allocator's.
\<close>

theorem time_adj_roundtrip:
  assumes "alloc_ok m" "pred_option wf_string s" "gmtime_ok g" "time_ok t"
    "- 1000000000 \<le> off_day" "off_day \<le> 1000000000" "int_ok off_sec"
    "T = t + off_day * 86400 + off_sec" "first_second off_day off_sec \<le> T + EPOCH" "T + EPOCH < 5373485 * 86400"
  shows "ASN1_TIME_adj m g s t off_day off_sec = Fail MALLOC_FAILURE \<or>
    (\<exists>s' ts. ASN1_TIME_adj m g s t off_day off_sec = Ok s' \<and>
       str_type s' = (if 2433283 * 86400 \<le> T + EPOCH \<and> T + EPOCH < 2469808 * 86400
                      then V_ASN1_UTCTIME else V_ASN1_GENERALIZEDTIME) \<and>
       asn1_time_to_tm g now tm0 (Some s') = Ok (Some ts) \<and> valid_tm ts \<and> tm_seconds ts = T + EPOCH)"
  using time_adj_parse [OF assms] by blast

definition blank_tm :: tm where
  "blank_tm = \<lparr>tm_year = 0, tm_mon = 0, tm_mday = 1, tm_hour = 0, tm_min = 0, tm_sec = 0\<rparr>"

definition y2000 :: asn1_string where
  "y2000 = \<lparr>str_length = 13, str_type = V_ASN1_UTCTIME,
     str_data = Some ([48, 48, 48, 49, 48, 49, 48, 48, 48, 48, 48, 48, 90] @ replicate 7 0), str_flags = 0\<rparr>"

lemma set_y2000: "ASN1_TIME_set zero_alloc calendar_time None 946684800 = Ok y2000"
  by code_simp

lemma time_adj_roundtrip_witness:
  "ASN1_TIME_adj zero_alloc calendar_time None 0 10957 0 = Fail MALLOC_FAILURE \<or>
    (\<exists>s' ts. ASN1_TIME_adj zero_alloc calendar_time None 0 10957 0 = Ok s' \<and> str_type s' = V_ASN1_UTCTIME \<and>
       asn1_time_to_tm calendar_time 0 blank_tm (Some s') = Ok (Some ts) \<and> valid_tm ts \<and>
       tm_seconds ts = 2451545 * 86400)"
  using time_adj_roundtrip [of zero_alloc None calendar_time 0 10957 0 "10957 * 86400" 0 blank_tm] gmtime_ok_calendar
  by (simp add: time_ok_def int_ok_def first_second_def)

text \<open>
  \<open>ASN1_UTCTIME_cmp_time_t\<close> orders a UTCTime that parses to a valid time and a \<open>time_t\<close> by their seconds:
  1, 0 or -1 as the string is later, equal or earlier.
\<close>

theorem utctime_cmp_order:
  assumes s: "asn1_utctime_to_tm (Some stm) s = Ok (Some ts)" "valid_tm ts" "-4712 \<le> tm_year ts + 1900"
      "tm_year ts + 1900 \<le> 1000000"
    and g: "gmtime_ok g" "time_ok t"
  shows "ASN1_UTCTIME_cmp_time_t g stm s t = Ok (sgn (tm_seconds ts - (t + EPOCH)))"
proof -
  obtain ttm where t: "g t = Some ttm" "valid_tm ttm" "tm_seconds ttm = t + EPOCH" "-4799 \<le> tm_year ttm + 1900"
    "tm_year ttm + 1900 \<le> 1000000"
    using g unfolding gmtime_ok_def by blast
  have "date_to_julian (-4712) 1 1 = 38" by (simp add: date_to_julian_def cdiv_def)
  then have "0 \<le> tm_seconds ts" using tm_year_cut [OF s(2), of "-4712"] s(3) by simp
  moreover have "0 \<le> tm_seconds ttm" using g(2) t(3) by (simp add: time_ok_def)
  ultimately obtain days secs where d: "OPENSSL_gmtime_diff ttm ts = Ok (days, secs)"
    "days * 86400 + secs = tm_seconds ts - tm_seconds ttm" "- 86400 < secs" "secs < 86400"
    "days > 0 \<longrightarrow> 0 \<le> secs" "days < 0 \<longrightarrow> secs \<le> 0"
    using gmtime_diff_split [OF t(2,4,5) s(2) _ s(4)] s(3) by auto
  show ?thesis
    unfolding ASN1_UTCTIME_cmp_time_t_def s(1) t(1) t(3) [symmetric] d(2) [symmetric]
    using d(3-6) by (simp add: d(1) sgn_if)
qed

lemma utctime_cmp_order_witness:
  "ASN1_UTCTIME_cmp_time_t calendar_time blank_tm y2000 946684801 = Ok (-1)"
proof -
  let ?ts = "\<lparr>tm_year = 100, tm_mon = 0, tm_mday = 1, tm_hour = 0, tm_min = 0, tm_sec = 0\<rparr>"
  have p: "asn1_utctime_to_tm (Some blank_tm) y2000 = Ok (Some ?ts)" by code_simp
  have v: "valid_tm ?ts" "tm_seconds ?ts = 946684800 + EPOCH" 
    by (simp_all add: valid_tm_def valid_date_def month_length_def tm_seconds_def date_to_julian_def cdiv_def)
  show ?thesis
    using utctime_cmp_order [OF p v(1) _ _ gmtime_ok_calendar, of 946684801] by (simp add: v(2) time_ok_def)
qed

text \<open>
  C16: \<open>ASN1_TIME_diff\<close> of two strings written by \<open>ASN1_TIME_set\<close>, for any times of the years 0 to 9999 and into new or
  given well-formed strings, with a \<open>gmtime_r\<close> that follows the calendar, is the exact difference of the two times: days and seconds of the same sign, with fewer seconds
  than a day has.
\<close>

theorem time_diff_exact:
  assumes g: "gmtime_ok g" "alloc_ok m" "alloc_ok m'" "pred_option wf_string s" "pred_option wf_string s'"
    and a: "1721060 * 86400 \<le> a + EPOCH" "a + EPOCH < 5373485 * 86400" "ASN1_TIME_set m g s a = Ok from"
    and b: "1721060 * 86400 \<le> b + EPOCH" "b + EPOCH < 5373485 * 86400" "ASN1_TIME_set m' g s' b = Ok to"
  shows "\<exists>days secs. ASN1_TIME_diff g now tm0 (Some from) (Some to) = Ok (days, secs) \<and>
    days * 86400 + secs = b - a \<and> - 86400 < secs \<and> secs < 86400 \<and>
    (days > 0 \<longrightarrow> 0 \<le> secs) \<and> (days < 0 \<longrightarrow> secs \<le> 0)"
proof -
  have i: "int_ok 0" by (simp add: int_ok_def)
  have ok: "time_ok a" "time_ok b" using a(1,2) b(1,2) by (simp_all add: time_ok_def)
  obtain x where x: "asn1_time_to_tm g now tm0 (Some from) = Ok (Some x)" "valid_tm x" "tm_seconds x = a + EPOCH"
    "-4799 \<le> tm_year x + 1900" "tm_year x + 1900 \<le> 1000000"
    using time_adj_parse [OF g(2,4,1) ok(1) _ _ i, of 0 a] a by (auto simp: ASN1_TIME_set_def first_second_def)
  obtain y where y: "asn1_time_to_tm g now tm0 (Some to) = Ok (Some y)" "valid_tm y" "tm_seconds y = b + EPOCH"
    "-4799 \<le> tm_year y + 1900" "tm_year y + 1900 \<le> 1000000"
    using time_adj_parse [OF g(3,5,1) ok(2) _ _ i, of 0 b] b by (auto simp: ASN1_TIME_set_def first_second_def)
  have "0 \<le> tm_seconds x" "0 \<le> tm_seconds y" using a b x(3) y(3) by simp_all
  then show ?thesis
    using gmtime_diff_split [OF x(2,4,5) y(2,4,5)] by (auto simp: ASN1_TIME_diff_def x(1,3) y(1,3))
qed

lemma time_diff_exact_witness:
  "\<exists>days secs. ASN1_TIME_diff calendar_time 0 blank_tm (Some y2000) (Some y2000) = Ok (days, secs) \<and>
    days * 86400 + secs = 0 \<and> - 86400 < secs \<and> secs < 86400"
  using time_diff_exact [OF gmtime_ok_calendar alloc_ok_zero_alloc alloc_ok_zero_alloc _ _ _ _ set_y2000 _ _ set_y2000,
      of 0 blank_tm]
  by auto

section \<open>UTCTime as GeneralizedTime\<close>















lemma strlen_century: "c_strlen [49, 57, 0] = Some 2" "c_strlen [50, 48, 0] = Some 2"
  by simp_all







end
