(* ===== verification/Char_Codec.thy ===== *)
theory Char_Codec
  imports Prelude
begin

text \<open>
  The contract of a character encoding: a reader of one character off the front of a byte string and
  a writer of one character. Whatever satisfies it decodes what it has encoded, character by character;
  the string conversions rest on that alone.
\<close>

type_synonym char_get = "bytes \<Rightarrow> (int \<times> bytes) option"
type_synonym char_add = "int \<Rightarrow> bytes option"

text \<open>All characters of a byte string. A reader that consumes nothing does not get to the end.\<close>

function decode_all :: "char_get \<Rightarrow> bytes \<Rightarrow> int list option" where
  "decode_all get bs =
     (if bs = [] then Some []
      else case get bs of None \<Rightarrow> None
        | Some (c, rest) \<Rightarrow>
            if length rest < length bs then map_option ((#) c) (decode_all get rest) else None)"
  by pat_completeness auto
termination by (relation "measure (\<lambda>(get, bs). length bs)") auto

declare decode_all.simps [simp del]

lemma decode_all_Nil [simp]: "decode_all get [] = Some []"
  by (simp add: decode_all.simps)

fun encode_all :: "char_add \<Rightarrow> int list \<Rightarrow> bytes option" where
  "encode_all add [] = Some []"
| "encode_all add (c # cs) =
     (case add c of None \<Rightarrow> None | Some b \<Rightarrow> map_option (\<lambda>bs. b @ bs) (encode_all add cs))"

lemma decode_all_Some:
  assumes "decode_all get bs = Some cs" "bs \<noteq> []"
  obtains c rest cs' where "get bs = Some (c, rest)" "length rest < length bs"
    "decode_all get rest = Some cs'" "cs = c # cs'"
proof (cases "get bs")
  case None
  then show ?thesis using assms by (simp add: decode_all.simps [of get bs])
next
  case (Some cr)
  then show ?thesis
    using assms that by (cases cr) (auto simp: decode_all.simps [of get bs] split: if_splits)
qed

locale char_codec =
  fixes get :: char_get and add :: char_add
  assumes get_add: "add c = Some bs \<Longrightarrow> get (bs @ rest) = Some (c, rest)"
    and get_shorter: "get bs = Some (c, rest) \<Longrightarrow> length rest < length bs"
begin

lemma add_nonempty: "add c = Some bs \<Longrightarrow> bs \<noteq> []"
  using get_add [of c bs "[]"] get_shorter [of bs c "[]"] by auto

lemma decode_append:
  assumes "add c = Some b"
  shows "decode_all get (b @ bs) = map_option ((#) c) (decode_all get bs)"
  using get_add [OF assms, of bs] add_nonempty [OF assms]
  by (simp add: decode_all.simps [of get "b @ bs"])

lemma decode_encode: "encode_all add cs = Some bs \<Longrightarrow> decode_all get bs = Some cs"
proof (induction cs arbitrary: bs)
  case (Cons c cs)
  then obtain b bs' where "add c = Some b" "encode_all add cs = Some bs'" "bs = b @ bs'"
    by (auto split: option.splits)
  then show ?case using Cons.IH by (simp add: decode_append)
qed simp

lemma encode_inj: "encode_all add cs = Some bs \<Longrightarrow> encode_all add cs' = Some bs \<Longrightarrow> cs = cs'"
  using decode_encode [of cs bs] decode_encode [of cs' bs] by simp

end

text \<open>A codec that also reads nothing but what it writes is canonical: then encoding undoes decoding.\<close>

locale canonical_codec = char_codec +
  assumes add_get: "get bs = Some (c, rest) \<Longrightarrow> \<exists>b. add c = Some b \<and> bs = b @ rest"
begin

lemma encode_decode: "decode_all get bs = Some cs \<Longrightarrow> encode_all add cs = Some bs"
proof (induction cs arbitrary: bs)
  case Nil
  then have "bs = []" by (auto elim: decode_all_Some)
  then show ?case by simp
next
  case (Cons c cs)
  then have "bs \<noteq> []" by auto
  with Cons.prems obtain rest where r: "get bs = Some (c, rest)" "decode_all get rest = Some cs"
    by (auto elim: decode_all_Some)
  from add_get [OF r(1)] obtain b where "add c = Some b" "bs = b @ rest" by blast
  with Cons.IH [OF r(2)] show ?case by simp
qed

end

section \<open>Characters of fixed width\<close>

text \<open>Big-endian characters of \<open>n\<close> octets (Latin-1, UCS-2, UTF-32), without any check of their values.\<close>

definition wide_get :: "nat \<Rightarrow> char_get" where
  "wide_get n bs = (if length bs < n then None else Some (int (be_val (take n bs)), drop n bs))"

fun be_octets :: "nat \<Rightarrow> int \<Rightarrow> bytes" where
  "be_octets 0 c = []"
| "be_octets (Suc n) c = be_octets n (c div 256) @ [of_int (c mod 256)]"

definition wide_add :: "nat \<Rightarrow> char_add" where
  "wide_add n c = (if 0 \<le> c \<and> c < 256 ^ n then Some (be_octets n c) else None)"

lemma length_be_octets [simp]: "length (be_octets n c) = n"
  by (induction n arbitrary: c) simp_all

lemma be_val_be_octets: "0 \<le> c \<Longrightarrow> c < 256 ^ n \<Longrightarrow> int (be_val (be_octets n c)) = c"
proof (induction n arbitrary: c)
  case (Suc n)
  have "0 \<le> c div 256" "c div 256 < 256 ^ n"
    using Suc.prems int_div_less_iff [of 256 c "256 ^ n"] by (simp_all add: pos_imp_zdiv_nonneg_iff mult.commute)
  then have "int (be_val (be_octets n (c div 256))) = c div 256" by (rule Suc.IH)
  moreover have "int (unat (of_int (c mod 256) :: u8)) = c mod 256"
    by (simp add: int_unat_u8 uint_word_of_int)
  ultimately show ?case
    by (simp add: be_val_append)
qed simp

lemma be_octets_be_val: "be_octets (length bs) (int (be_val bs)) = bs"
proof -
  have "int (be_val bs) < 256 ^ length bs" using be_val_bound [of bs] by (metis of_nat_less_iff of_nat_numeral of_nat_power)
  then have "int (be_val (be_octets (length bs) (int (be_val bs)))) = int (be_val bs)"
    by (intro be_val_be_octets) simp_all
  then show ?thesis using be_val_inj [of "be_octets (length bs) (int (be_val bs))" bs] by simp
qed

lemma wide_codec: "0 < n \<Longrightarrow> canonical_codec (wide_get n) (wide_add n)"
proof (unfold_locales, goal_cases)
  case (1 c b rest)
  then have "b = be_octets n c" "0 \<le> c" "c < 256 ^ n" by (auto simp: wide_add_def split: if_splits)
  then show ?case by (simp add: wide_get_def be_val_be_octets)
next
  case (2 bs c rest)
  then show ?case by (auto simp: wide_get_def split: if_splits)
next
  case (3 bs c rest)
  then have n: "n \<le> length bs" "c = int (be_val (take n bs))" "rest = drop n bs"
    by (auto simp: wide_get_def split: if_splits)
  have "c < 256 ^ n" using be_val_bound [of "take n bs"] n by (metis length_take min.absorb2 of_nat_less_iff of_nat_numeral of_nat_power)
  moreover have "be_octets n c = take n bs" using be_octets_be_val [of "take n bs"] n by (simp add: min_absorb2)
  ultimately show ?case using n by (auto simp: wide_add_def)
qed

interpretation latin1: canonical_codec "wide_get 1" "wide_add 1" by (rule wide_codec) simp
interpretation ucs2: canonical_codec "wide_get 2" "wide_add 2" by (rule wide_codec) simp
interpretation utf32: canonical_codec "wide_get 4" "wide_add 4" by (rule wide_codec) simp

end
