(* ===== verification/Asn1_Utf8.thy ===== *)
theory Asn1_Utf8
  imports Asn1_Consts Char_Codec
begin

text \<open>
  UTF-8 (\<open>a_utf8.c\<close>): reading one character and writing one character, in the original scheme of up to
  six octets. A character is the C \<open>uint32_t\<close>, given as its number. \<open>UTF8_getc\<close> returns the count or
  a negative code and the character it stores; \<open>UTF8_putc\<close> the count or -1 and the octets it writes,
  its buffer argument being \<open>None\<close> for NULL or the number of octets it may write.
\<close>

section \<open>The functions\<close>

definition cont :: "u8 \<Rightarrow> bool" where
  "cont b \<longleftrightarrow> uint b AND 0xc0 = 0x80"

definition low6 :: "u8 \<Rightarrow> int" where
  "low6 b = uint b AND 0x3f"

definition UTF8_getc :: "bytes \<Rightarrow> int \<Rightarrow> (int \<times> int option) asn1_result" where
  "UTF8_getc p len =
     (if len \<le> 0 then Ok (0, None)
      else if p = [] then UB
      else
        let c = uint (p ! 0) in
        if c AND 0x80 = 0 then Ok (1, Some (c AND 0x7f))
        else if c AND 0xe0 = 0xc0 then
          if len < 2 then Ok (-1, None)
          else if length p < 2 then UB
          else if \<not> cont (p ! 1) then Ok (-3, None)
          else
            let v = push_bit 6 (c AND 0x1f) OR low6 (p ! 1)
            in if v < 0x80 then Ok (-4, None) else Ok (2, Some v)
        else if c AND 0xf0 = 0xe0 then
          if len < 3 then Ok (-1, None)
          else if length p < 3 then UB
          else if \<not> cont (p ! 1) \<or> \<not> cont (p ! 2) then Ok (-3, None)
          else
            let v = push_bit 12 (c AND 0xf) OR push_bit 6 (low6 (p ! 1)) OR low6 (p ! 2)
            in if v < 0x800 then Ok (-4, None) else Ok (3, Some v)
        else if c AND 0xf8 = 0xf0 then
          if len < 4 then Ok (-1, None)
          else if length p < 4 then UB
          else if \<not> cont (p ! 1) \<or> \<not> cont (p ! 2) \<or> \<not> cont (p ! 3) then Ok (-3, None)
          else
            let v = push_bit 18 (c AND 0x7) OR push_bit 12 (low6 (p ! 1)) OR push_bit 6 (low6 (p ! 2)) OR
                    low6 (p ! 3)
            in if v < 0x10000 then Ok (-4, None) else Ok (4, Some v)
        else if c AND 0xfc = 0xf8 then
          if len < 5 then Ok (-1, None)
          else if length p < 5 then UB
          else if \<not> cont (p ! 1) \<or> \<not> cont (p ! 2) \<or> \<not> cont (p ! 3) \<or> \<not> cont (p ! 4) then Ok (-3, None)
          else
            let v = push_bit 24 (c AND 0x3) OR push_bit 18 (low6 (p ! 1)) OR push_bit 12 (low6 (p ! 2)) OR
                    push_bit 6 (low6 (p ! 3)) OR low6 (p ! 4)
            in if v < 0x200000 then Ok (-4, None) else Ok (5, Some v)
        else if c AND 0xfe = 0xfc then
          if len < 6 then Ok (-1, None)
          else if length p < 6 then UB
          else if \<not> cont (p ! 1) \<or> \<not> cont (p ! 2) \<or> \<not> cont (p ! 3) \<or> \<not> cont (p ! 4) \<or> \<not> cont (p ! 5)
          then Ok (-3, None)
          else
            let v = push_bit 30 (c AND 0x1) OR push_bit 24 (low6 (p ! 1)) OR push_bit 18 (low6 (p ! 2)) OR
                    push_bit 12 (low6 (p ! 3)) OR push_bit 6 (low6 (p ! 4)) OR low6 (p ! 5)
            in if v < 0x4000000 then Ok (-4, None) else Ok (6, Some v)
        else Ok (-2, None))"

text \<open>\<open>(unsigned char)(((value >> k) & m) | b)\<close>\<close>

definition lead :: "nat \<Rightarrow> int \<Rightarrow> int \<Rightarrow> int \<Rightarrow> u8" where
  "lead k m b v = of_int ((drop_bit k v AND m) OR b)"

definition trail :: "nat \<Rightarrow> int \<Rightarrow> u8" where
  "trail k v = lead k 0x3f 0x80 v"

definition UTF8_putc :: "int option \<Rightarrow> int \<Rightarrow> int \<times> bytes" where
  "UTF8_putc str v =
     (let len = (case str of None \<Rightarrow> 6 | Some len \<Rightarrow> len);
          out = (\<lambda>n bs. if len < n then (-1, []) else (n, if str = None then [] else bs)) in
      if str \<noteq> None \<and> len \<le> 0 then (-1, [])
      else if v < 0x80 then out 1 [of_int v]
      else if v < 0x800 then out 2 [lead 6 0x1f 0xc0 v, trail 0 v]
      else if v < 0x10000 then out 3 [lead 12 0xf 0xe0 v, trail 6 v, trail 0 v]
      else if v < 0x200000 then out 4 [lead 18 0x7 0xf0 v, trail 12 v, trail 6 v, trail 0 v]
      else if v < 0x4000000 then
        out 5 [lead 24 0x3 0xf8 v, trail 18 v, trail 12 v, trail 6 v, trail 0 v]
      else out 6 [lead 30 0x1 0xfc v, trail 24 v, trail 18 v, trail 12 v, trail 6 v, trail 0 v])"

section \<open>The octets as digits\<close>

lemma and_exp_mod: "a = 2 ^ n - 1 \<Longrightarrow> b = 2 ^ n \<Longrightarrow> (x::int) AND a = x mod b"
  using take_bit_eq_mask [of n x] by (simp only: take_bit_eq_mod mask_eq_exp_minus_1)

lemma and_mask_mod:
  "(x::int) AND 1 = x mod 2" "x AND 3 = x mod 4" "x AND 7 = x mod 8" "x AND 0xf = x mod 16"
  "x AND 0x1f = x mod 32" "x AND 0x3f = x mod 64" "x AND 0x7f = x mod 128"
  by (rule and_exp_mod [of _ 1], simp, simp) (rule and_exp_mod [of _ 2], simp, simp, rule and_exp_mod [of _ 3], simp, simp,
    rule and_exp_mod [of _ 4], simp, simp, rule and_exp_mod [of _ 5], simp, simp, rule and_exp_mod [of _ 6], simp, simp,
    rule and_exp_mod [of _ 7], simp, simp)

lemma cont_range: "cont b \<longleftrightarrow> 128 \<le> uint b \<and> uint b < 192"
  by (induct b rule: u8_check) code_simp

lemma low6_mod: "low6 b = uint b mod 64"
  by (simp add: low6_def and_mask_mod)

lemma lead_ranges:
  "uint (b::u8) AND 0x80 = 0 \<longleftrightarrow> uint b < 0x80"
  "uint b AND 0xe0 = 0xc0 \<longleftrightarrow> 0xc0 \<le> uint b \<and> uint b < 0xe0"
  "uint b AND 0xf0 = 0xe0 \<longleftrightarrow> 0xe0 \<le> uint b \<and> uint b < 0xf0"
  "uint b AND 0xf8 = 0xf0 \<longleftrightarrow> 0xf0 \<le> uint b \<and> uint b < 0xf8"
  "uint b AND 0xfc = 0xf8 \<longleftrightarrow> 0xf8 \<le> uint b \<and> uint b < 0xfc"
  "uint b AND 0xfe = 0xfc \<longleftrightarrow> 0xfc \<le> uint b \<and> uint b < 0xfe"
  by (induct b rule: u8_check, code_simp)+

text \<open>Disjoint shifted digits add up.\<close>

lemma or_digits:
  assumes "0 \<le> d1" "d1 < 64" "0 \<le> d2" "d2 < 64" "0 \<le> d3" "d3 < 64" "0 \<le> d4" "d4 < 64" "0 \<le> d5" "d5 < (64::int)"
  shows "push_bit 6 a OR d1 = a * 64 + d1"
    "push_bit 12 a OR (d2 * 64 + d1) = a * 4096 + d2 * 64 + d1"
    "push_bit 18 a OR (d3 * 4096 + d2 * 64 + d1) = a * 262144 + d3 * 4096 + d2 * 64 + d1"
    "push_bit 24 a OR (d4 * 262144 + d3 * 4096 + d2 * 64 + d1) =
       a * 16777216 + d4 * 262144 + d3 * 4096 + d2 * 64 + d1"
    "push_bit 30 a OR (d5 * 16777216 + d4 * 262144 + d3 * 4096 + d2 * 64 + d1) =
       a * 1073741824 + d5 * 16777216 + d4 * 262144 + d3 * 4096 + d2 * 64 + d1"
  using or_disjoint_int [of d1 6 a] or_disjoint_int [of "d2 * 64 + d1" 12 a]
    or_disjoint_int [of "d3 * 4096 + d2 * 64 + d1" 18 a]
    or_disjoint_int [of "d4 * 262144 + d3 * 4096 + d2 * 64 + d1" 24 a]
    or_disjoint_int [of "d5 * 16777216 + d4 * 262144 + d3 * 4096 + d2 * 64 + d1" 30 a] assms
  by simp_all

lemma low6_range: "0 \<le> low6 b" "low6 b < 64"
  by (simp_all add: low6_mod)

lemmas low6_digits = or_digits [OF low6_range low6_range low6_range low6_range low6_range]

lemma uint_lead:
  "uint (lead k 0x3f 0x80 v) = drop_bit k v mod 64 + 0x80"
  "uint (lead k 0x1f 0xc0 v) = drop_bit k v mod 32 + 0xc0"
  "uint (lead k 0xf 0xe0 v) = drop_bit k v mod 16 + 0xe0"
  "uint (lead k 0x7 0xf0 v) = drop_bit k v mod 8 + 0xf0"
  "uint (lead k 0x3 0xf8 v) = drop_bit k v mod 4 + 0xf8"
  "uint (lead k 0x1 0xfc v) = drop_bit k v mod 2 + 0xfc"
proof -
  let ?d = "drop_bit k v"
  have o: "?d mod 2 ^ n OR push_bit n a = a * 2 ^ n + ?d mod 2 ^ n" for n a
    using or_disjoint_int [of "?d mod 2 ^ n" n a] by (simp add: or.commute)
  have b: "0 \<le> ?d mod 64" "?d mod 64 < 64" "0 \<le> ?d mod 32" "?d mod 32 < 32" "0 \<le> ?d mod 16" "?d mod 16 < 16"
    "0 \<le> ?d mod 8" "?d mod 8 < 8" "0 \<le> ?d mod 4" "?d mod 4 < 4" "0 \<le> ?d mod 2" "?d mod 2 < 2" by simp_all
  show "uint (lead k 0x3f 0x80 v) = ?d mod 64 + 0x80"
    using o [of 6 2] b unfolding lead_def and_mask_mod uint_of_int_u8 by simp
  show "uint (lead k 0x1f 0xc0 v) = ?d mod 32 + 0xc0"
    using o [of 5 6] b unfolding lead_def and_mask_mod uint_of_int_u8 by simp
  show "uint (lead k 0xf 0xe0 v) = ?d mod 16 + 0xe0"
    using o [of 4 14] b unfolding lead_def and_mask_mod uint_of_int_u8 by simp
  show "uint (lead k 0x7 0xf0 v) = ?d mod 8 + 0xf0"
    using o [of 3 30] b unfolding lead_def and_mask_mod uint_of_int_u8 by simp
  show "uint (lead k 0x3 0xf8 v) = ?d mod 4 + 0xf8"
    using o [of 2 62] b unfolding lead_def and_mask_mod uint_of_int_u8 by simp
  show "uint (lead k 0x1 0xfc v) = ?d mod 2 + 0xfc"
    using o [of 1 126] b unfolding lead_def and_mask_mod uint_of_int_u8 by simp
qed

lemma low6_trail: "cont (trail k v)" "low6 (trail k v) = drop_bit k v mod 64"
proof -
  have "uint (trail k v) = drop_bit k v mod 64 + 128" by (simp add: trail_def uint_lead)
  moreover have "0 \<le> drop_bit k v mod 64" "drop_bit k v mod 64 < 64" by simp_all
  moreover have "(drop_bit k v mod 64 + 128) mod 64 = drop_bit k v mod 64"
    using mod_mult_self1 [of "drop_bit k v mod 64" 2 64] by simp
  ultimately show "cont (trail k v)" "low6 (trail k v) = drop_bit k v mod 64"
    by (simp_all add: cont_range low6_mod)
qed

lemma base64_digits:
  fixes v :: int
  assumes "0 \<le> v"
  shows "v = v div 64 * 64 + v mod 64"
    "v = v div 4096 * 4096 + v div 64 mod 64 * 64 + v mod 64"
    "v = v div 262144 * 262144 + v div 4096 mod 64 * 4096 + v div 64 mod 64 * 64 + v mod 64"
    "v = v div 16777216 * 16777216 + v div 262144 mod 64 * 262144 + v div 4096 mod 64 * 4096 +
       v div 64 mod 64 * 64 + v mod 64"
    "v = v div 1073741824 * 1073741824 + v div 16777216 mod 64 * 16777216 + v div 262144 mod 64 * 262144 +
       v div 4096 mod 64 * 4096 + v div 64 mod 64 * 64 + v mod 64"
proof -
  have s: "v div 4096 = v div 64 div 64" "v div 262144 = v div 64 div 64 div 64"
    "v div 16777216 = v div 64 div 64 div 64 div 64" "v div 1073741824 = v div 64 div 64 div 64 div 64 div 64"
    by (simp_all flip: zdiv_zmult2_eq)
  note d = div_mult_mod_eq [of v 64] div_mult_mod_eq [of "v div 64" 64] div_mult_mod_eq [of "v div 64 div 64" 64]
    div_mult_mod_eq [of "v div 64 div 64 div 64" 64] div_mult_mod_eq [of "v div 64 div 64 div 64 div 64" 64]
  show "v = v div 64 * 64 + v mod 64"
    "v = v div 4096 * 4096 + v div 64 mod 64 * 64 + v mod 64"
    "v = v div 262144 * 262144 + v div 4096 mod 64 * 4096 + v div 64 mod 64 * 64 + v mod 64"
    "v = v div 16777216 * 16777216 + v div 262144 mod 64 * 262144 + v div 4096 mod 64 * 4096 +
       v div 64 mod 64 * 64 + v mod 64"
    "v = v div 1073741824 * 1073741824 + v div 16777216 mod 64 * 16777216 + v div 262144 mod 64 * 262144 +
       v div 4096 mod 64 * 4096 + v div 64 mod 64 * 64 + v mod 64"
    unfolding s using d by linarith+
qed

section \<open>Reading what was written\<close>

lemma drop_bit_div:
  "drop_bit 0 (v::int) = v" "drop_bit 6 v = v div 64" "drop_bit 12 v = v div 4096"
  "drop_bit 18 v = v div 262144" "drop_bit 24 v = v div 16777216" "drop_bit 30 v = v div 1073741824"
  by (simp_all add: drop_bit_eq_div)

text \<open>One reader lemma per length: the branch the lead octet selects, with the value as a sum.\<close>

lemma getc_1: "uint c < 0x80 \<Longrightarrow> 1 \<le> len \<Longrightarrow> UTF8_getc (c # p) len = Ok (1, Some (uint c))"
  by (simp add: UTF8_getc_def Let_def lead_ranges and_mask_mod)

lemma getc_2:
  assumes "0xc0 \<le> uint c" "uint c < 0xe0" "cont d1" "2 \<le> len"
  shows "UTF8_getc (c # d1 # p) len =
    (let v = uint c mod 32 * 64 + low6 d1 in
     if v < 0x80 then Ok (-4, None) else Ok (2, Some v))"
proof -
  have b: "\<not> uint c < 0x80"
    "\<not> len \<le> 0" "\<not> len < 2" "\<not> length (c # d1 # p) < 2" "c # d1 # p \<noteq> []" "(c # d1 # p) ! 0 = c"
    "(c # d1 # p) ! 1 = d1"
    using assms by simp_all
  show ?thesis
    unfolding UTF8_getc_def Let_def b(5-) lead_ranges and_mask_mod low6_digits
    by (simp only: b assms if_False if_True simp_thms low6_digits)
qed

lemma getc_3:
  assumes "0xe0 \<le> uint c" "uint c < 0xf0" "cont d1" "cont d2" "3 \<le> len"
  shows "UTF8_getc (c # d1 # d2 # p) len =
    (let v = uint c mod 16 * 4096 + low6 d1 * 64 + low6 d2 in
     if v < 0x800 then Ok (-4, None) else Ok (3, Some v))"
proof -
  have b: "\<not> uint c < 0x80" "\<not> (0xc0 \<le> uint c \<and> uint c < 0xe0)"
    "\<not> len \<le> 0" "\<not> len < 3" "\<not> length (c # d1 # d2 # p) < 3" "c # d1 # d2 # p \<noteq> []" "(c # d1 # d2 # p) ! 0 = c"
    "(c # d1 # d2 # p) ! 1 = d1" "(c # d1 # d2 # p) ! 2 = d2"
    using assms by simp_all
  show ?thesis
    unfolding UTF8_getc_def Let_def b(6-) lead_ranges and_mask_mod low6_digits
    by (simp only: b assms if_False if_True simp_thms low6_digits)
qed

lemma getc_4:
  assumes "0xf0 \<le> uint c" "uint c < 0xf8" "cont d1" "cont d2" "cont d3" "4 \<le> len"
  shows "UTF8_getc (c # d1 # d2 # d3 # p) len =
    (let v = uint c mod 8 * 262144 + low6 d1 * 4096 + low6 d2 * 64 + low6 d3 in
     if v < 0x10000 then Ok (-4, None) else Ok (4, Some v))"
proof -
  have b: "\<not> uint c < 0x80" "\<not> (0xc0 \<le> uint c \<and> uint c < 0xe0)" "\<not> (0xe0 \<le> uint c \<and> uint c < 0xf0)"
    "\<not> len \<le> 0" "\<not> len < 4" "\<not> length (c # d1 # d2 # d3 # p) < 4" "c # d1 # d2 # d3 # p \<noteq> []" "(c # d1 # d2 # d3 # p) ! 0 = c"
    "(c # d1 # d2 # d3 # p) ! 1 = d1" "(c # d1 # d2 # d3 # p) ! 2 = d2" "(c # d1 # d2 # d3 # p) ! 3 = d3"
    using assms by simp_all
  show ?thesis
    unfolding UTF8_getc_def Let_def b(7-) lead_ranges and_mask_mod low6_digits
    by (simp only: b assms if_False if_True simp_thms low6_digits)
qed

lemma getc_5:
  assumes "0xf8 \<le> uint c" "uint c < 0xfc" "cont d1" "cont d2" "cont d3" "cont d4" "5 \<le> len"
  shows "UTF8_getc (c # d1 # d2 # d3 # d4 # p) len =
    (let v = uint c mod 4 * 16777216 + low6 d1 * 262144 + low6 d2 * 4096 + low6 d3 * 64 + low6 d4 in
     if v < 0x200000 then Ok (-4, None) else Ok (5, Some v))"
proof -
  have b: "\<not> uint c < 0x80" "\<not> (0xc0 \<le> uint c \<and> uint c < 0xe0)" "\<not> (0xe0 \<le> uint c \<and> uint c < 0xf0)" "\<not> (0xf0 \<le> uint c \<and> uint c < 0xf8)"
    "\<not> len \<le> 0" "\<not> len < 5" "\<not> length (c # d1 # d2 # d3 # d4 # p) < 5" "c # d1 # d2 # d3 # d4 # p \<noteq> []" "(c # d1 # d2 # d3 # d4 # p) ! 0 = c"
    "(c # d1 # d2 # d3 # d4 # p) ! 1 = d1" "(c # d1 # d2 # d3 # d4 # p) ! 2 = d2" "(c # d1 # d2 # d3 # d4 # p) ! 3 = d3" "(c # d1 # d2 # d3 # d4 # p) ! 4 = d4"
    using assms by simp_all
  show ?thesis
    unfolding UTF8_getc_def Let_def b(8-) lead_ranges and_mask_mod low6_digits
    by (simp only: b assms if_False if_True simp_thms low6_digits)
qed

lemma getc_6:
  assumes "0xfc \<le> uint c" "uint c < 0xfe" "cont d1" "cont d2" "cont d3" "cont d4" "cont d5" "6 \<le> len"
  shows "UTF8_getc (c # d1 # d2 # d3 # d4 # d5 # p) len =
    (let v = uint c mod 2 * 1073741824 + low6 d1 * 16777216 + low6 d2 * 262144 + low6 d3 * 4096 + low6 d4 * 64 + low6 d5 in
     if v < 0x4000000 then Ok (-4, None) else Ok (6, Some v))"
proof -
  have b: "\<not> uint c < 0x80" "\<not> (0xc0 \<le> uint c \<and> uint c < 0xe0)" "\<not> (0xe0 \<le> uint c \<and> uint c < 0xf0)" "\<not> (0xf0 \<le> uint c \<and> uint c < 0xf8)" "\<not> (0xf8 \<le> uint c \<and> uint c < 0xfc)"
    "\<not> len \<le> 0" "\<not> len < 6" "\<not> length (c # d1 # d2 # d3 # d4 # d5 # p) < 6" "c # d1 # d2 # d3 # d4 # d5 # p \<noteq> []" "(c # d1 # d2 # d3 # d4 # d5 # p) ! 0 = c"
    "(c # d1 # d2 # d3 # d4 # d5 # p) ! 1 = d1" "(c # d1 # d2 # d3 # d4 # d5 # p) ! 2 = d2" "(c # d1 # d2 # d3 # d4 # d5 # p) ! 3 = d3" "(c # d1 # d2 # d3 # d4 # d5 # p) ! 4 = d4" "(c # d1 # d2 # d3 # d4 # d5 # p) ! 5 = d5"
    using assms by simp_all
  show ?thesis
    unfolding UTF8_getc_def Let_def b(9-) lead_ranges and_mask_mod low6_digits
    by (simp only: b assms if_False if_True simp_thms low6_digits)
qed

lemma lead_mod: "((x::int) + 0xc0) mod 32 = x mod 32"
  using mod_add_right_eq [of x 192 32] by simp

lemma lead_mod_3: "((x::int) + 0xe0) mod 16 = x mod 16"
  using mod_add_right_eq [of x 224 16] by simp

lemma lead_mod_4: "((x::int) + 0xf0) mod 8 = x mod 8"
  using mod_add_right_eq [of x 240 8] by simp

lemma lead_mod_5: "((x::int) + 0xf8) mod 4 = x mod 4"
  using mod_add_right_eq [of x 248 4] by simp

lemma lead_mod_6: "((x::int) + 0xfc) mod 2 = x mod 2"
  using mod_add_right_eq [of x 252 2] by simp

lemmas lead_mods = lead_mod lead_mod_3 lead_mod_4 lead_mod_5 lead_mod_6

lemma putc_getc:
  assumes v: "0 \<le> v" "v < 2 ^ 31" and n: "UTF8_putc (Some room) v = (n, bs)" "n \<noteq> -1"
    and len: "n \<le> len"
  shows "int (length bs) = n \<and> UTF8_getc (bs @ rest) len = Ok (n, Some v)"
proof -
  have room: "0 < room" using n by (auto simp: UTF8_putc_def Let_def split: if_splits)
  note digits = base64_digits [OF v(1), symmetric]
  have d: "0 \<le> v div 64" "0 \<le> v div 4096" "0 \<le> v div 262144" "0 \<le> v div 16777216" "0 \<le> v div 1073741824"
    using v(1) by (simp_all add: pos_imp_zdiv_nonneg_iff)
  have up: "v div 64 < k \<longleftrightarrow> v < k * 64" "v div 4096 < k \<longleftrightarrow> v < k * 4096" "v div 262144 < k \<longleftrightarrow> v < k * 262144"
    "v div 16777216 < k \<longleftrightarrow> v < k * 16777216" "v div 1073741824 < k \<longleftrightarrow> v < k * 1073741824" for k
    by (simp_all add: int_div_less_iff)
  consider "v < 0x80" | "0x80 \<le> v" "v < 0x800" | "0x800 \<le> v" "v < 0x10000" | "0x10000 \<le> v" "v < 0x200000"
    | "0x200000 \<le> v" "v < 0x4000000" | "0x4000000 \<le> v" by linarith
  then show ?thesis
  proof cases
    case 1
    have u: "uint (of_int v :: u8) = v" unfolding uint_of_int_u8 using 1 v(1) by simp
    have nb: "n = 1" "bs = [of_int v]"
      using 1 n room by (auto simp: UTF8_putc_def Let_def split: if_splits)
    show ?thesis
      using getc_1 [of "of_int v" len rest, unfolded u] 1 len unfolding nb by simp
  next
    case 2
    then have nb: "n = 2" "bs = [lead 6 0x1f 0xc0 v, trail 0 v]"
      using n room by (auto simp: UTF8_putc_def Let_def split: if_splits)
    have s: "v div 64 < 32" using 2 up(1) [of 32] by simp
    then have "v div 64 mod 32 = v div 64" using d(1) by simp
    then have u: "uint (lead 6 0x1f 0xc0 v) = v div 64 + 0xc0"
      by (simp only: uint_lead drop_bit_div)
    have r: "0xc0 \<le> uint (lead 6 0x1f 0xc0 v)" "uint (lead 6 0x1f 0xc0 v) < 0xe0" "uint (lead 6 0x1f 0xc0 v) mod 32 = v div 64"
      unfolding u lead_mods using s d(1) by simp_all
    note g = getc_2 [OF r(1,2) low6_trail(1) [of 0 v] len [unfolded nb], where p = rest]
    show ?thesis
      using g 2 unfolding nb r(3) low6_trail(2) drop_bit_div digits Let_def by simp
  next
    case 3
    then have nb: "n = 3" "bs = [lead 12 0xf 0xe0 v, trail 6 v, trail 0 v]"
      using n room by (auto simp: UTF8_putc_def Let_def split: if_splits)
    have s: "v div 4096 < 16" using 3 up(2) [of 16] by simp
    then have "v div 4096 mod 16 = v div 4096" using d(2) by simp
    then have u: "uint (lead 12 0xf 0xe0 v) = v div 4096 + 0xe0"
      by (simp only: uint_lead drop_bit_div)
    have r: "0xe0 \<le> uint (lead 12 0xf 0xe0 v)" "uint (lead 12 0xf 0xe0 v) < 0xf0" "uint (lead 12 0xf 0xe0 v) mod 16 = v div 4096"
      unfolding u lead_mods using s d(2) by simp_all
    note g = getc_3 [OF r(1,2) low6_trail(1) [of 6 v] low6_trail(1) [of 0 v] len [unfolded nb], where p = rest]
    show ?thesis
      using g 3 unfolding nb r(3) low6_trail(2) drop_bit_div digits Let_def by simp
  next
    case 4
    then have nb: "n = 4" "bs = [lead 18 0x7 0xf0 v, trail 12 v, trail 6 v, trail 0 v]"
      using n room by (auto simp: UTF8_putc_def Let_def split: if_splits)
    have s: "v div 262144 < 8" using 4 up(3) [of 8] by simp
    then have "v div 262144 mod 8 = v div 262144" using d(3) by simp
    then have u: "uint (lead 18 0x7 0xf0 v) = v div 262144 + 0xf0"
      by (simp only: uint_lead drop_bit_div)
    have r: "0xf0 \<le> uint (lead 18 0x7 0xf0 v)" "uint (lead 18 0x7 0xf0 v) < 0xf8" "uint (lead 18 0x7 0xf0 v) mod 8 = v div 262144"
      unfolding u lead_mods using s d(3) by simp_all
    note g = getc_4 [OF r(1,2) low6_trail(1) [of 12 v] low6_trail(1) [of 6 v] low6_trail(1) [of 0 v] len [unfolded nb], where p = rest]
    show ?thesis
      using g 4 unfolding nb r(3) low6_trail(2) drop_bit_div digits Let_def by simp
  next
    case 5
    then have nb: "n = 5" "bs = [lead 24 0x3 0xf8 v, trail 18 v, trail 12 v, trail 6 v, trail 0 v]"
      using n room by (auto simp: UTF8_putc_def Let_def split: if_splits)
    have s: "v div 16777216 < 4" using 5 up(4) [of 4] by simp
    then have "v div 16777216 mod 4 = v div 16777216" using d(4) by simp
    then have u: "uint (lead 24 0x3 0xf8 v) = v div 16777216 + 0xf8"
      by (simp only: uint_lead drop_bit_div)
    have r: "0xf8 \<le> uint (lead 24 0x3 0xf8 v)" "uint (lead 24 0x3 0xf8 v) < 0xfc" "uint (lead 24 0x3 0xf8 v) mod 4 = v div 16777216"
      unfolding u lead_mods using s d(4) by simp_all
    note g = getc_5 [OF r(1,2) low6_trail(1) [of 18 v] low6_trail(1) [of 12 v] low6_trail(1) [of 6 v] low6_trail(1) [of 0 v] len [unfolded nb], where p = rest]
    show ?thesis
      using g 5 unfolding nb r(3) low6_trail(2) drop_bit_div digits Let_def by simp
  next
    case 6
    then have nb: "n = 6" "bs = [lead 30 0x1 0xfc v, trail 24 v, trail 18 v, trail 12 v, trail 6 v, trail 0 v]"
      using n room by (auto simp: UTF8_putc_def Let_def split: if_splits)
    have s: "v div 1073741824 < 2" using v(2) up(5) [of 2] by simp
    then have "v div 1073741824 mod 2 = v div 1073741824" using d(5) by simp
    then have u: "uint (lead 30 0x1 0xfc v) = v div 1073741824 + 0xfc"
      by (simp only: uint_lead drop_bit_div)
    have r: "0xfc \<le> uint (lead 30 0x1 0xfc v)" "uint (lead 30 0x1 0xfc v) < 0xfe" "uint (lead 30 0x1 0xfc v) mod 2 = v div 1073741824"
      unfolding u lead_mods using s d(5) by simp_all
    note g = getc_6 [OF r(1,2) low6_trail(1) [of 24 v] low6_trail(1) [of 18 v] low6_trail(1) [of 12 v] low6_trail(1) [of 6 v] low6_trail(1) [of 0 v] len [unfolded nb], where p = rest]
    show ?thesis
      using g 6 unfolding nb r(3) low6_trail(2) drop_bit_div digits Let_def by simp
  qed
qed

section \<open>Writing what was read\<close>

text \<open>A character is only stored when the octets it needs are there and have the right form.\<close>

lemma getc_Some_2:
  assumes "UTF8_getc (c # r) len = Ok (n, Some v)" "0xc0 \<le> uint c" "uint c < 0xe0"
  shows "\<exists>d1 q. r = d1 # q \<and> cont d1 \<and> 2 \<le> len"
proof -
  have b: "\<not> uint c < 0x80"
    using assms(2,3) by simp_all
  have "\<not> len < 2 \<and> 2 \<le> length (c # r) \<and> cont ((c # r) ! 1)"
    using assms(1) unfolding UTF8_getc_def Let_def lead_ranges nth_Cons_0
    by (simp only: b assms(2,3) if_False if_True simp_thms split: if_splits) auto
  then show ?thesis
    by (auto simp: Suc_le_length_iff numeral_eq_Suc)
qed

lemma getc_Some_3:
  assumes "UTF8_getc (c # r) len = Ok (n, Some v)" "0xe0 \<le> uint c" "uint c < 0xf0"
  shows "\<exists>d1 d2 q. r = d1 # d2 # q \<and> cont d1 \<and> cont d2 \<and> 3 \<le> len"
proof -
  have b: "\<not> uint c < 0x80" "\<not> (0xc0 \<le> uint c \<and> uint c < 0xe0)"
    using assms(2,3) by simp_all
  have "\<not> len < 3 \<and> 3 \<le> length (c # r) \<and> cont ((c # r) ! 1) \<and> cont ((c # r) ! 2)"
    using assms(1) unfolding UTF8_getc_def Let_def lead_ranges nth_Cons_0
    by (simp only: b assms(2,3) if_False if_True simp_thms split: if_splits) auto
  then show ?thesis
    by (auto simp: Suc_le_length_iff numeral_eq_Suc)
qed

lemma getc_Some_4:
  assumes "UTF8_getc (c # r) len = Ok (n, Some v)" "0xf0 \<le> uint c" "uint c < 0xf8"
  shows "\<exists>d1 d2 d3 q. r = d1 # d2 # d3 # q \<and> cont d1 \<and> cont d2 \<and> cont d3 \<and> 4 \<le> len"
proof -
  have b: "\<not> uint c < 0x80" "\<not> (0xc0 \<le> uint c \<and> uint c < 0xe0)" "\<not> (0xe0 \<le> uint c \<and> uint c < 0xf0)"
    using assms(2,3) by simp_all
  have "\<not> len < 4 \<and> 4 \<le> length (c # r) \<and> cont ((c # r) ! 1) \<and> cont ((c # r) ! 2) \<and> cont ((c # r) ! 3)"
    using assms(1) unfolding UTF8_getc_def Let_def lead_ranges nth_Cons_0
    by (simp only: b assms(2,3) if_False if_True simp_thms split: if_splits) auto
  then show ?thesis
    by (auto simp: Suc_le_length_iff numeral_eq_Suc)
qed

lemma getc_Some_5:
  assumes "UTF8_getc (c # r) len = Ok (n, Some v)" "0xf8 \<le> uint c" "uint c < 0xfc"
  shows "\<exists>d1 d2 d3 d4 q. r = d1 # d2 # d3 # d4 # q \<and> cont d1 \<and> cont d2 \<and> cont d3 \<and> cont d4 \<and> 5 \<le> len"
proof -
  have b: "\<not> uint c < 0x80" "\<not> (0xc0 \<le> uint c \<and> uint c < 0xe0)" "\<not> (0xe0 \<le> uint c \<and> uint c < 0xf0)" "\<not> (0xf0 \<le> uint c \<and> uint c < 0xf8)"
    using assms(2,3) by simp_all
  have "\<not> len < 5 \<and> 5 \<le> length (c # r) \<and> cont ((c # r) ! 1) \<and> cont ((c # r) ! 2) \<and> cont ((c # r) ! 3) \<and> cont ((c # r) ! 4)"
    using assms(1) unfolding UTF8_getc_def Let_def lead_ranges nth_Cons_0
    by (simp only: b assms(2,3) if_False if_True simp_thms split: if_splits) auto
  then show ?thesis
    by (auto simp: Suc_le_length_iff numeral_eq_Suc)
qed

lemma getc_Some_6:
  assumes "UTF8_getc (c # r) len = Ok (n, Some v)" "0xfc \<le> uint c" "uint c < 0xfe"
  shows "\<exists>d1 d2 d3 d4 d5 q. r = d1 # d2 # d3 # d4 # d5 # q \<and> cont d1 \<and> cont d2 \<and> cont d3 \<and> cont d4 \<and> cont d5 \<and> 6 \<le> len"
proof -
  have b: "\<not> uint c < 0x80" "\<not> (0xc0 \<le> uint c \<and> uint c < 0xe0)" "\<not> (0xe0 \<le> uint c \<and> uint c < 0xf0)" "\<not> (0xf0 \<le> uint c \<and> uint c < 0xf8)" "\<not> (0xf8 \<le> uint c \<and> uint c < 0xfc)"
    using assms(2,3) by simp_all
  have "\<not> len < 6 \<and> 6 \<le> length (c # r) \<and> cont ((c # r) ! 1) \<and> cont ((c # r) ! 2) \<and> cont ((c # r) ! 3) \<and> cont ((c # r) ! 4) \<and> cont ((c # r) ! 5)"
    using assms(1) unfolding UTF8_getc_def Let_def lead_ranges nth_Cons_0
    by (simp only: b assms(2,3) if_False if_True simp_thms split: if_splits) auto
  then show ?thesis
    by (auto simp: Suc_le_length_iff numeral_eq_Suc)
qed

lemma base64_step: "0 \<le> d \<Longrightarrow> d < 64 \<Longrightarrow> (x * 64 + d) div 64 = x \<and> (x * 64 + d) mod 64 = (d::int)"
  by simp

lemma div_powers:
  "(v::int) div 4096 = v div 64 div 64" "v div 262144 = v div 64 div 64 div 64"
  "v div 16777216 = v div 64 div 64 div 64 div 64" "v div 1073741824 = v div 64 div 64 div 64 div 64 div 64"
  by (simp_all flip: zdiv_zmult2_eq)

lemma trail_eq: "cont d \<Longrightarrow> drop_bit k v mod 64 = low6 d \<Longrightarrow> trail k v = d"
proof -
  assume d: "cont d" "drop_bit k v mod 64 = low6 d"
  have "uint (trail k v) = low6 d + 0x80" using d(2) by (simp only: trail_def uint_lead)
  also have "low6 d + 0x80 = uint d"
    using d(1) by (induct d rule: u8_check) code_simp
  finally show ?thesis by (simp add: word_uint_eq_iff)
qed

lemma mod_of_offset:
  assumes "\<And>x::int. (x + h) mod m = x mod m" "h \<le> c" "c < h + m"
  shows "c mod m + h = c"
proof -
  have "c mod m = (c - h) mod m" using assms(1) [of "c - h"] by (simp only: diff_add_cancel)
  moreover have "(c - h) mod m = c - h" using assms(2,3) by (intro mod_pos_pos_trivial) auto
  ultimately show ?thesis by linarith
qed

lemmas lead_octet_2 = mod_of_offset [OF lead_mod]
  and lead_octet_3 = mod_of_offset [OF lead_mod_3]
  and lead_octet_4 = mod_of_offset [OF lead_mod_4]
  and lead_octet_5 = mod_of_offset [OF lead_mod_5]
  and lead_octet_6 = mod_of_offset [OF lead_mod_6]

lemma putc_of_value_2:
  assumes "0xc0 \<le> uint c" "uint c < 0xe0" and cs: "cont d1"
    and v: "v = uint c mod 32 * 64 + low6 d1"
  shows "v < 0x800 \<and> [lead 6 0x1f 0xc0 v, trail 0 v] = [c, d1]"
proof -
  have n: "v = uint c mod 32 * 64 + low6 d1" unfolding v by simp
  have d: "drop_bit 6 v = uint c mod 32"
    "drop_bit 0 v mod 64 = low6 d1"
    unfolding drop_bit_div div_powers n using low6_range
    by (simp_all only: base64_step mod_mod_trivial)
  have "uint (lead 6 0x1f 0xc0 v) = uint c"
    unfolding uint_lead d(1) mod_mod_trivial by (rule lead_octet_2) (use assms(1,2) in simp_all)
  then have "lead 6 0x1f 0xc0 v = c" by (simp add: word_uint_eq_iff)
  moreover have "uint c mod 32 < 32" by simp
  then have "v < 0x800" unfolding v using low6_range [of d1] by linarith
  ultimately show ?thesis using trail_eq [OF cs(1) d(2)] by (simp only: simp_thms)
qed

lemma putc_of_value_3:
  assumes "0xe0 \<le> uint c" "uint c < 0xf0" and cs: "cont d1" "cont d2"
    and v: "v = uint c mod 16 * 4096 + low6 d1 * 64 + low6 d2"
  shows "v < 0x10000 \<and> [lead 12 0xf 0xe0 v, trail 6 v, trail 0 v] = [c, d1, d2]"
proof -
  have n: "v = (uint c mod 16 * 64 + low6 d1) * 64 + low6 d2" unfolding v by simp
  have d: "drop_bit 12 v = uint c mod 16"
    "drop_bit 6 v mod 64 = low6 d1" "drop_bit 0 v mod 64 = low6 d2"
    unfolding drop_bit_div div_powers n using low6_range
    by (simp_all only: base64_step mod_mod_trivial)
  have "uint (lead 12 0xf 0xe0 v) = uint c"
    unfolding uint_lead d(1) mod_mod_trivial by (rule lead_octet_3) (use assms(1,2) in simp_all)
  then have "lead 12 0xf 0xe0 v = c" by (simp add: word_uint_eq_iff)
  moreover have "uint c mod 16 < 16" by simp
  then have "v < 0x10000" unfolding v using low6_range [of d1] low6_range [of d2] by linarith
  ultimately show ?thesis using trail_eq [OF cs(1) d(2)] trail_eq [OF cs(2) d(3)] by (simp only: simp_thms)
qed

lemma putc_of_value_4:
  assumes "0xf0 \<le> uint c" "uint c < 0xf8" and cs: "cont d1" "cont d2" "cont d3"
    and v: "v = uint c mod 8 * 262144 + low6 d1 * 4096 + low6 d2 * 64 + low6 d3"
  shows "v < 0x200000 \<and> [lead 18 0x7 0xf0 v, trail 12 v, trail 6 v, trail 0 v] = [c, d1, d2, d3]"
proof -
  have n: "v = ((uint c mod 8 * 64 + low6 d1) * 64 + low6 d2) * 64 + low6 d3" unfolding v by simp
  have d: "drop_bit 18 v = uint c mod 8"
    "drop_bit 12 v mod 64 = low6 d1" "drop_bit 6 v mod 64 = low6 d2" "drop_bit 0 v mod 64 = low6 d3"
    unfolding drop_bit_div div_powers n using low6_range
    by (simp_all only: base64_step mod_mod_trivial)
  have "uint (lead 18 0x7 0xf0 v) = uint c"
    unfolding uint_lead d(1) mod_mod_trivial by (rule lead_octet_4) (use assms(1,2) in simp_all)
  then have "lead 18 0x7 0xf0 v = c" by (simp add: word_uint_eq_iff)
  moreover have "uint c mod 8 < 8" by simp
  then have "v < 0x200000" unfolding v using low6_range [of d1] low6_range [of d2] low6_range [of d3] by linarith
  ultimately show ?thesis using trail_eq [OF cs(1) d(2)] trail_eq [OF cs(2) d(3)] trail_eq [OF cs(3) d(4)] by (simp only: simp_thms)
qed

lemma putc_of_value_5:
  assumes "0xf8 \<le> uint c" "uint c < 0xfc" and cs: "cont d1" "cont d2" "cont d3" "cont d4"
    and v: "v = uint c mod 4 * 16777216 + low6 d1 * 262144 + low6 d2 * 4096 + low6 d3 * 64 + low6 d4"
  shows "v < 0x4000000 \<and> [lead 24 0x3 0xf8 v, trail 18 v, trail 12 v, trail 6 v, trail 0 v] = [c, d1, d2, d3, d4]"
proof -
  have n: "v = (((uint c mod 4 * 64 + low6 d1) * 64 + low6 d2) * 64 + low6 d3) * 64 + low6 d4" unfolding v by simp
  have d: "drop_bit 24 v = uint c mod 4"
    "drop_bit 18 v mod 64 = low6 d1" "drop_bit 12 v mod 64 = low6 d2" "drop_bit 6 v mod 64 = low6 d3" "drop_bit 0 v mod 64 = low6 d4"
    unfolding drop_bit_div div_powers n using low6_range
    by (simp_all only: base64_step mod_mod_trivial)
  have "uint (lead 24 0x3 0xf8 v) = uint c"
    unfolding uint_lead d(1) mod_mod_trivial by (rule lead_octet_5) (use assms(1,2) in simp_all)
  then have "lead 24 0x3 0xf8 v = c" by (simp add: word_uint_eq_iff)
  moreover have "uint c mod 4 < 4" by simp
  then have "v < 0x4000000" unfolding v using low6_range [of d1] low6_range [of d2] low6_range [of d3] low6_range [of d4] by linarith
  ultimately show ?thesis using trail_eq [OF cs(1) d(2)] trail_eq [OF cs(2) d(3)] trail_eq [OF cs(3) d(4)] trail_eq [OF cs(4) d(5)] by (simp only: simp_thms)
qed

lemma putc_of_value_6:
  assumes "0xfc \<le> uint c" "uint c < 0xfe" and cs: "cont d1" "cont d2" "cont d3" "cont d4" "cont d5"
    and v: "v = uint c mod 2 * 1073741824 + low6 d1 * 16777216 + low6 d2 * 262144 + low6 d3 * 4096 + low6 d4 * 64 + low6 d5"
  shows "v < 0x80000000 \<and> [lead 30 0x1 0xfc v, trail 24 v, trail 18 v, trail 12 v, trail 6 v, trail 0 v] = [c, d1, d2, d3, d4, d5]"
proof -
  have n: "v = ((((uint c mod 2 * 64 + low6 d1) * 64 + low6 d2) * 64 + low6 d3) * 64 + low6 d4) * 64 + low6 d5" unfolding v by simp
  have d: "drop_bit 30 v = uint c mod 2"
    "drop_bit 24 v mod 64 = low6 d1" "drop_bit 18 v mod 64 = low6 d2" "drop_bit 12 v mod 64 = low6 d3" "drop_bit 6 v mod 64 = low6 d4" "drop_bit 0 v mod 64 = low6 d5"
    unfolding drop_bit_div div_powers n using low6_range
    by (simp_all only: base64_step mod_mod_trivial)
  have "uint (lead 30 0x1 0xfc v) = uint c"
    unfolding uint_lead d(1) mod_mod_trivial by (rule lead_octet_6) (use assms(1,2) in simp_all)
  then have "lead 30 0x1 0xfc v = c" by (simp add: word_uint_eq_iff)
  moreover have "uint c mod 2 < 2" by simp
  then have "v < 0x80000000" unfolding v using low6_range [of d1] low6_range [of d2] low6_range [of d3] low6_range [of d4] low6_range [of d5] by linarith
  ultimately show ?thesis using trail_eq [OF cs(1) d(2)] trail_eq [OF cs(2) d(3)] trail_eq [OF cs(3) d(4)] trail_eq [OF cs(4) d(5)] trail_eq [OF cs(5) d(6)] by (simp only: simp_thms)
qed

lemma getc_putc:
  assumes "UTF8_getc p len = Ok (n, Some v)"
  shows "0 \<le> v \<and> v < 2 ^ 31 \<and> 1 \<le> n \<and> n \<le> len \<and> n \<le> int (length p) \<and>
    (n \<le> room \<longrightarrow> UTF8_putc (Some room) v = (n, take (nat n) p))"
proof -
  obtain c r where p: "p = c # r" and len: "1 \<le> len"
    using assms by (cases p) (auto simp: UTF8_getc_def split: if_splits)
  note g = assms [unfolded p]
  note l = low6_range
  have "\<not> 0xfe \<le> uint c"
  proof
    assume "0xfe \<le> uint c"
    then have "\<not> uint c < 0x80" "\<not> (0xc0 \<le> uint c \<and> uint c < 0xe0)" "\<not> (0xe0 \<le> uint c \<and> uint c < 0xf0)"
      "\<not> (0xf0 \<le> uint c \<and> uint c < 0xf8)" "\<not> (0xf8 \<le> uint c \<and> uint c < 0xfc)"
      "\<not> (0xfc \<le> uint c \<and> uint c < 0xfe)" by simp_all
    with g show False
      unfolding UTF8_getc_def Let_def lead_ranges nth_Cons_0 by (simp only: if_False split: if_splits) auto
  qed
  then consider "uint c < 0x80" | "0x80 \<le> uint c" "uint c < 0xc0" | "0xc0 \<le> uint c" "uint c < 0xe0"
    | "0xe0 \<le> uint c" "uint c < 0xf0" | "0xf0 \<le> uint c" "uint c < 0xf8"
    | "0xf8 \<le> uint c" "uint c < 0xfc" | "0xfc \<le> uint c" "uint c < 0xfe" by linarith
  then show ?thesis
  proof cases
    case 1
    then have "n = 1" "v = uint c" using g getc_1 [of c len r] len by auto
    with 1 len show ?thesis by (auto simp: UTF8_putc_def Let_def p)
  next
    case 2
    then have "\<not> uint c < 0x80" "\<not> (0xc0 \<le> uint c \<and> uint c < 0xe0)" "\<not> (0xe0 \<le> uint c \<and> uint c < 0xf0)"
      "\<not> (0xf0 \<le> uint c \<and> uint c < 0xf8)" "\<not> (0xf8 \<le> uint c \<and> uint c < 0xfc)"
      "\<not> (0xfc \<le> uint c \<and> uint c < 0xfe)" by simp_all
    with g have False
      unfolding UTF8_getc_def Let_def lead_ranges nth_Cons_0 by (simp only: if_False split: if_splits) auto
    then show ?thesis ..
  next
    case 3
    from getc_Some_2 [OF g this] obtain d1 q where
      r: "r = d1 # q" and d: "cont d1" and len: "2 \<le> len" by blast
    note e = getc_2 [OF 3 d len, of q]
    from g [unfolded r e] have nv: "n = 2" "0x80 \<le> v" by (auto simp: Let_def split: if_splits)
    from g [unfolded r e] nv have v: "v = uint c mod 32 * 64 + low6 d1"
      by (auto simp: Let_def split: if_splits)
    note w = putc_of_value_2 [OF 3 d v]
    have "UTF8_putc (Some room) v = (n, take (nat n) p)" if "n \<le> room"
      using that nv w by (simp add: UTF8_putc_def Let_def p r)
    with nv w len show ?thesis by (simp add: p r)
  next
    case 4
    from getc_Some_3 [OF g this] obtain d1 d2 q where
      r: "r = d1 # d2 # q" and d: "cont d1" "cont d2" and len: "3 \<le> len" by blast
    note e = getc_3 [OF 4 d len, of q]
    from g [unfolded r e] have nv: "n = 3" "0x800 \<le> v" by (auto simp: Let_def split: if_splits)
    from g [unfolded r e] nv have v: "v = uint c mod 16 * 4096 + low6 d1 * 64 + low6 d2"
      by (auto simp: Let_def split: if_splits)
    note w = putc_of_value_3 [OF 4 d v]
    have "UTF8_putc (Some room) v = (n, take (nat n) p)" if "n \<le> room"
      using that nv w by (simp add: UTF8_putc_def Let_def p r)
    with nv w len show ?thesis by (simp add: p r)
  next
    case 5
    from getc_Some_4 [OF g this] obtain d1 d2 d3 q where
      r: "r = d1 # d2 # d3 # q" and d: "cont d1" "cont d2" "cont d3" and len: "4 \<le> len" by blast
    note e = getc_4 [OF 5 d len, of q]
    from g [unfolded r e] have nv: "n = 4" "0x10000 \<le> v" by (auto simp: Let_def split: if_splits)
    from g [unfolded r e] nv have v: "v = uint c mod 8 * 262144 + low6 d1 * 4096 + low6 d2 * 64 + low6 d3"
      by (auto simp: Let_def split: if_splits)
    note w = putc_of_value_4 [OF 5 d v]
    have "UTF8_putc (Some room) v = (n, take (nat n) p)" if "n \<le> room"
      using that nv w by (simp add: UTF8_putc_def Let_def p r)
    with nv w len show ?thesis by (simp add: p r)
  next
    case 6
    from getc_Some_5 [OF g this] obtain d1 d2 d3 d4 q where
      r: "r = d1 # d2 # d3 # d4 # q" and d: "cont d1" "cont d2" "cont d3" "cont d4" and len: "5 \<le> len" by blast
    note e = getc_5 [OF 6 d len, of q]
    from g [unfolded r e] have nv: "n = 5" "0x200000 \<le> v" by (auto simp: Let_def split: if_splits)
    from g [unfolded r e] nv have v: "v = uint c mod 4 * 16777216 + low6 d1 * 262144 + low6 d2 * 4096 + low6 d3 * 64 + low6 d4"
      by (auto simp: Let_def split: if_splits)
    note w = putc_of_value_5 [OF 6 d v]
    have "UTF8_putc (Some room) v = (n, take (nat n) p)" if "n \<le> room"
      using that nv w by (simp add: UTF8_putc_def Let_def p r)
    with nv w len show ?thesis by (simp add: p r)
  next
    case 7
    from getc_Some_6 [OF g this] obtain d1 d2 d3 d4 d5 q where
      r: "r = d1 # d2 # d3 # d4 # d5 # q" and d: "cont d1" "cont d2" "cont d3" "cont d4" "cont d5" and len: "6 \<le> len" by blast
    note e = getc_6 [OF 7 d len, of q]
    from g [unfolded r e] have nv: "n = 6" "0x4000000 \<le> v" by (auto simp: Let_def split: if_splits)
    from g [unfolded r e] nv have v: "v = uint c mod 2 * 1073741824 + low6 d1 * 16777216 + low6 d2 * 262144 + low6 d3 * 4096 + low6 d4 * 64 + low6 d5"
      by (auto simp: Let_def split: if_splits)
    note w = putc_of_value_6 [OF 7 d v]
    have "UTF8_putc (Some room) v = (n, take (nat n) p)" if "n \<le> room"
      using that nv w by (simp add: UTF8_putc_def Let_def p r)
    with nv w len show ?thesis by (simp add: p r)
  qed
qed

section \<open>Properties\<close>

text \<open>
  C13: A character below 2^31 that \<open>UTF8_putc\<close> writes is read back by \<open>UTF8_getc\<close>: same character, same
  number of octets, whatever follows.
\<close>

theorem utf8_write_read:
  assumes "0 \<le> v" "v < 2 ^ 31" "UTF8_putc (Some room) v = (n, bs)" "n \<noteq> -1" "n \<le> len"
  shows "int (length bs) = n \<and> UTF8_getc (bs @ rest) len = Ok (n, Some v)"
  by (rule putc_getc [OF assms])

lemma utf8_write_read_witness: "UTF8_getc [0xe2, 0x82, 0xac, 7] 4 = Ok (3, Some 0x20ac)"
proof -
  have "UTF8_putc (Some 3) 0x20ac = (3, [0xe2, 0x82, 0xac])" by code_simp
  then show ?thesis using utf8_write_read [of "0x20ac" 3 3 "[0xe2, 0x82, 0xac]" 4 "[7]"] by simp
qed

text \<open>
  \<open>UTF8_getc\<close> accepts only the encoding \<open>UTF8_putc\<close> writes, so that no character has two encodings:
  when it returns a character, that character is below 2^31, the octets it consumed lie within \<open>len\<close> and
  \<open>UTF8_putc\<close> writes exactly those octets.
\<close>

theorem utf8_read_write:
  assumes "UTF8_getc p len = Ok (n, Some v)"
  shows "0 \<le> v \<and> v < 2 ^ 31 \<and> 1 \<le> n \<and> n \<le> len \<and> n \<le> int (length p) \<and>
    (n \<le> room \<longrightarrow> UTF8_putc (Some room) v = (n, take (nat n) p))"
  by (rule getc_putc [OF assms])

lemma utf8_read_write_witness: "UTF8_putc (Some 6) 0x20ac = (3, [0xe2, 0x82, 0xac])"
proof -
  have "UTF8_getc [0xe2, 0x82, 0xac, 7] 4 = Ok (3, Some 0x20ac)" by code_simp
  from utf8_read_write [OF this, of 6] show ?thesis by simp
qed

section \<open>UTF-8 as a character codec\<close>

definition utf8_get :: char_get where
  "utf8_get bs = (case UTF8_getc bs (int (length bs)) of
     Ok (n, Some c) \<Rightarrow> Some (c, drop (nat n) bs) | _ \<Rightarrow> None)"

definition utf8_add :: char_add where
  "utf8_add c = (if 0 \<le> c \<and> c < 2 ^ 31 then
     (case UTF8_putc (Some 6) c of (n, bs) \<Rightarrow> if n = -1 then None else Some bs) else None)"

lemma utf8_get_Some:
  "utf8_get bs = Some (c, rest) \<longleftrightarrow> (\<exists>n. UTF8_getc bs (int (length bs)) = Ok (n, Some c) \<and> rest = drop (nat n) bs)"
  by (auto simp: utf8_get_def split: outcome.splits option.splits)

interpretation utf8: canonical_codec utf8_get utf8_add
proof
  fix c b rest
  assume "utf8_add c = Some b"
  then obtain n where c: "0 \<le> c" "c < 2 ^ 31" "UTF8_putc (Some 6) c = (n, b)" "n \<noteq> -1"
    by (auto simp: utf8_add_def split: if_splits prod.splits)
  have "n = int (length b)" using putc_getc [OF c, of n "[]"] by simp
  moreover have "UTF8_getc (b @ rest) (int (length (b @ rest))) = Ok (n, Some c)"
    using putc_getc [OF c, of "int (length (b @ rest))" rest] calculation by simp
  ultimately show "utf8_get (b @ rest) = Some (c, rest)" by (simp add: utf8_get_Some)
next
  fix b c rest
  assume "utf8_get b = Some (c, rest)"
  then obtain n where n: "UTF8_getc b (int (length b)) = Ok (n, Some c)" "rest = drop (nat n) b"
    by (auto simp: utf8_get_Some)
  from getc_putc [OF n(1), of 6] have g: "0 \<le> c" "c < 2 ^ 31" "1 \<le> n" "n \<le> int (length b)" by simp_all
  with n(2) show "length rest < length b" by simp
next
  fix b c rest
  assume "utf8_get b = Some (c, rest)"
  then obtain n where n: "UTF8_getc b (int (length b)) = Ok (n, Some c)" "rest = drop (nat n) b"
    by (auto simp: utf8_get_Some)
  from getc_putc [OF n(1), of n] have g: "0 \<le> c" "c < 2 ^ 31" "1 \<le> n" "UTF8_putc (Some n) c = (n, take (nat n) b)"
    by simp_all
  have "UTF8_putc (Some 6) c = (n, take (nat n) b)" using g by (auto simp: UTF8_putc_def Let_def split: if_splits)
  with g n(2) show "\<exists>a. utf8_add c = Some a \<and> b = a @ rest" by (simp add: utf8_add_def)
qed

end
