(* ===== verification/Asn1_Mbstring.thy ===== *)
theory Asn1_Mbstring
  imports Asn1_String Asn1_Utf8 Char_Codec
begin

text \<open>
  Multi-byte strings (\<open>a_mbstr.c\<close>), the printable-type test (\<open>a_print.c\<close>) and conversion to UTF-8
  (\<open>ASN1_STRING_to_UTF8\<close> of \<open>a_strex.c\<close>). The readers and writers of single characters
  (\<open>cbs_get_ucs2_be\<close>, \<open>cbb_add_utf8\<close>, \<dots>) belong to a part of BoringSSL the repository does not contain:
  \<open>cbs inform\<close> is the codec of a form, and the theorems assume that it is a \<open>char_codec\<close>. A failing
  allocation inside the writer is one of its failures. An input whose length is negative other than -1
  reads past its buffer and is \<open>UB\<close>.
\<close>

section \<open>Forms, masks and types\<close>

abbreviation (input) MBSTRING_FLAG :: int where "MBSTRING_FLAG \<equiv> 0x1000"
abbreviation (input) MBSTRING_UTF8 :: int where "MBSTRING_UTF8 \<equiv> 0x1000"
abbreviation (input) MBSTRING_ASC :: int where "MBSTRING_ASC \<equiv> 0x1001"
abbreviation (input) MBSTRING_BMP :: int where "MBSTRING_BMP \<equiv> 0x1002"
abbreviation (input) MBSTRING_UNIV :: int where "MBSTRING_UNIV \<equiv> 0x1004"

abbreviation (input) DIRSTRING_TYPE :: int where "DIRSTRING_TYPE \<equiv> 0x2806"
abbreviation (input) PKCS9STRING_TYPE :: int where "PKCS9STRING_TYPE \<equiv> 0x2816"

record mb_codec =
  cc_get :: char_get
  cc_add :: char_add

definition asn1_is_printable :: "int \<Rightarrow> bool" where
  "asn1_is_printable v =
     (if v > 0x7f then False
      else 97 \<le> v \<and> v \<le> 122 \<or> 65 \<le> v \<and> v \<le> 90 \<or> 48 \<le> v \<and> v \<le> 57 \<or>
           v = 32 \<or> v = 39 \<or> v = 40 \<or> v = 41 \<or> v = 43 \<or> v = 44 \<or> v = 45 \<or> v = 46 \<or>
           v = 47 \<or> v = 58 \<or> v = 61 \<or> v = 63)"

text \<open>The error a form's reader raises; \<open>None\<close> for an unknown form.\<close>

definition mb_error :: "int \<Rightarrow> asn1_reason option" where
  "mb_error inform =
     (if inform = MBSTRING_BMP then Some INVALID_BMPSTRING
      else if inform = MBSTRING_UNIV then Some INVALID_UNIVERSALSTRING
      else if inform = MBSTRING_UTF8 then Some INVALID_UTF8STRING
      else if inform = MBSTRING_ASC then Some INTERNAL_ERROR
      else None)"

section \<open>The first pass: which types can hold the characters\<close>

definition narrow :: "int \<Rightarrow> int \<Rightarrow> int" where
  "narrow msk c =
     (let msk = (if msk AND B_ASN1_PRINTABLESTRING \<noteq> 0 \<and> \<not> asn1_is_printable c
                  then msk AND NOT B_ASN1_PRINTABLESTRING else msk);
          msk = (if msk AND B_ASN1_IA5STRING \<noteq> 0 \<and> c > 127 then msk AND NOT B_ASN1_IA5STRING else msk);
          msk = (if msk AND B_ASN1_T61STRING \<noteq> 0 \<and> c > 0xff then msk AND NOT B_ASN1_T61STRING else msk);
          msk = (if msk AND B_ASN1_BMPSTRING \<noteq> 0 \<and> c > 0xffff then msk AND NOT B_ASN1_BMPSTRING else msk)
      in msk)"

function mb_scan :: "char_get \<Rightarrow> bool \<Rightarrow> asn1_reason \<Rightarrow> (int \<Rightarrow> nat) \<Rightarrow> bytes \<Rightarrow> int \<Rightarrow> nat \<Rightarrow> nat \<Rightarrow>
    (int \<times> nat \<times> nat) asn1_result" where
  "mb_scan get wide err ulen cbs msk nchar utf8_len =
     (if cbs = [] then Ok (msk, nchar, utf8_len)
      else case get cbs of
        None \<Rightarrow> Fail err
      | Some (c, rest) \<Rightarrow>
          if nchar = 0 \<and> wide \<and> c = 0xfeff then Fail ILLEGAL_CHARACTERS
          else let msk = narrow msk c in
            if msk = 0 then Fail ILLEGAL_CHARACTERS
            else if length rest < length cbs
              then mb_scan get wide err ulen rest msk (nchar + 1) (utf8_len + ulen c)
              else UB)"
  by pat_completeness auto
termination by (relation "measure (\<lambda>(get, wide, err, ulen, cbs, msk, nchar, utf8_len). length cbs)") auto

declare mb_scan.simps [simp del]

text \<open>The first possible type and the form of its octets.\<close>

definition pick_type :: "int \<Rightarrow> (int \<times> int) option" where
  "pick_type msk =
     (if msk AND B_ASN1_PRINTABLESTRING \<noteq> 0 then Some (V_ASN1_PRINTABLESTRING, MBSTRING_ASC)
      else if msk AND B_ASN1_IA5STRING \<noteq> 0 then Some (V_ASN1_IA5STRING, MBSTRING_ASC)
      else if msk AND B_ASN1_T61STRING \<noteq> 0 then Some (V_ASN1_T61STRING, MBSTRING_ASC)
      else if msk AND B_ASN1_BMPSTRING \<noteq> 0 then Some (V_ASN1_BMPSTRING, MBSTRING_BMP)
      else if msk AND B_ASN1_UNIVERSALSTRING \<noteq> 0 then Some (V_ASN1_UNIVERSALSTRING, MBSTRING_UNIV)
      else if msk AND B_ASN1_UTF8STRING \<noteq> 0 then Some (V_ASN1_UTF8STRING, MBSTRING_UTF8)
      else None)"

definition size_estimate :: "int \<Rightarrow> nat \<Rightarrow> nat \<Rightarrow> nat" where
  "size_estimate outform nchar utf8_len =
     (if outform = MBSTRING_BMP then 2 * nchar else if outform = MBSTRING_UNIV then 4 * nchar
      else if outform = MBSTRING_UTF8 then utf8_len else nchar)"

section \<open>The second pass: conversion\<close>

function mb_convert :: "char_get \<Rightarrow> char_add \<Rightarrow> bytes \<Rightarrow> bytes asn1_result" where
  "mb_convert get add cbs =
     (if cbs = [] then Ok []
      else case get cbs of
        None \<Rightarrow> Fail INTERNAL_ERROR
      | Some (c, rest) \<Rightarrow>
          case add c of
            None \<Rightarrow> Fail INTERNAL_ERROR
          | Some b \<Rightarrow>
              if length rest < length cbs
              then bind_outcome (mb_convert get add rest) (\<lambda>bs. Ok (b @ bs)) else UB)"
  by pat_completeness auto
termination by (relation "measure (\<lambda>(get, add, cbs). length cbs)") auto

declare mb_convert.simps [simp del]

text \<open>The checks of the first pass: type, form, number of characters and of UTF-8 octets.\<close>

definition mb_first_pass :: "char_get \<Rightarrow> int \<Rightarrow> asn1_reason \<Rightarrow> (int \<Rightarrow> nat) \<Rightarrow> bytes \<Rightarrow> int \<Rightarrow> int \<Rightarrow> int \<Rightarrow>
    (int \<times> int \<times> nat \<times> nat) asn1_result" where
  "mb_first_pass get inform err ulen bs msk minsize maxsize =
     bind_outcome (mb_scan get (inform = MBSTRING_BMP \<or> inform = MBSTRING_UNIV) err ulen bs msk 0 0)
       (\<lambda>(msk, nchar, utf8_len).
         if minsize > 0 \<and> int nchar < minsize then Fail STRING_TOO_SHORT
         else if maxsize > 0 \<and> int nchar > maxsize then Fail STRING_TOO_LONG
         else case pick_type msk of
           None \<Rightarrow> Fail ILLEGAL_CHARACTERS
         | Some (ty, outform) \<Rightarrow> Ok (ty, outform, nchar, utf8_len))"

text \<open>The string to fill: the caller's, emptied, or a new one.\<close>

definition mb_dest :: "allocator \<Rightarrow> asn1_string option \<Rightarrow> int \<Rightarrow> asn1_string asn1_result" where
  "mb_dest m dest ty =
     (case dest of
        None \<Rightarrow> ASN1_STRING_type_new m ty
      | Some d \<Rightarrow>
          Ok ((if str_data d \<noteq> None then d\<lparr>str_length := 0, str_data := None\<rparr> else d)\<lparr>str_type := ty\<rparr>))"

definition mb_output :: "allocator \<Rightarrow> char_get \<Rightarrow> char_add \<Rightarrow> asn1_string \<Rightarrow> bytes option \<Rightarrow> int \<Rightarrow> bytes \<Rightarrow> bool \<Rightarrow> nat \<Rightarrow>
    asn1_string asn1_result" where
  "mb_output m get add dest inp len bs same sz =
     (if same then
        (case ASN1_STRING_set (later 1 m) dest inp len of
           UB \<Rightarrow> UB | Fail _ \<Rightarrow> Fail MALLOC_FAILURE | Ok d \<Rightarrow> Ok d)
      else if m 1 (sz + 1) = None then Fail MALLOC_FAILURE
      else bind_outcome (mb_convert get add bs) (\<lambda>data.
        let data = data @ [0] in
        if int (length data) > INT_MAX then Fail INTERNAL_ERROR
        else Ok (dest\<lparr>str_length := int (length data) - 1, str_data := Some data\<rparr>)))"

text \<open>
  The result is the type and the string \<open>*out\<close>; \<open>out\<close> is \<open>None\<close> for NULL, \<open>Some None\<close> for a pointer to
  NULL. What an error leaves in \<open>*out\<close> is not kept.
\<close>

definition ASN1_mbstring_ncopy ::
  "allocator \<Rightarrow> (int \<Rightarrow> mb_codec) \<Rightarrow> (int \<Rightarrow> nat) \<Rightarrow> asn1_string option option \<Rightarrow> bytes option \<Rightarrow> int \<Rightarrow> int \<Rightarrow> int \<Rightarrow>
     int \<Rightarrow> int \<Rightarrow> (int \<times> asn1_string option) asn1_result" where
  "ASN1_mbstring_ncopy m cbs ulen out inp len inform msk minsize maxsize =
     (let inb = (case inp of None \<Rightarrow> [] | Some b \<Rightarrow> b);
          msk' = (if msk = 0 then DIRSTRING_TYPE else msk) in
      bind_outcome (if len = -1 then (case c_strlen inb of None \<Rightarrow> UB | Some n \<Rightarrow> Ok n) else Ok len) (\<lambda>len.
      case mb_error inform of
        None \<Rightarrow> Fail UNKNOWN_FORMAT
      | Some err \<Rightarrow>
          if len < 0 \<or> int (length inb) < len then UB
          else
            let bs = take (nat len) inb; get = cc_get (cbs inform) in
            bind_outcome (mb_first_pass get inform err ulen bs msk' minsize maxsize) (\<lambda>(ty, outform, nchar, utf8_len).
              case out of
                None \<Rightarrow> Ok (ty, None)
              | Some dest \<Rightarrow>
                  bind_outcome (mb_dest m dest ty) (\<lambda>dest.
                  bind_outcome (mb_output m get (cc_add (cbs outform)) dest inp len bs (inform = outform)
                                  (size_estimate outform nchar utf8_len))
                    (\<lambda>d. Ok (ty, Some d))))))"

definition ASN1_mbstring_copy ::
  "allocator \<Rightarrow> (int \<Rightarrow> mb_codec) \<Rightarrow> (int \<Rightarrow> nat) \<Rightarrow> asn1_string option option \<Rightarrow> bytes option \<Rightarrow> int \<Rightarrow> int \<Rightarrow> int \<Rightarrow>
     (int \<times> asn1_string option) asn1_result" where
  "ASN1_mbstring_copy m cbs ulen out inp len inform msk = ASN1_mbstring_ncopy m cbs ulen out inp len inform msk 0 0"

section \<open>Conversion to UTF-8\<close>

text \<open>
  Octets per character of a string type: 0 for UTF-8, -1 for a type that is no string. The table has
  31 entries.
\<close>

definition tag2nbyte :: "int list" where
  "tag2nbyte = [-1, -1, -1, -1, -1, -1, -1, -1, -1, -1, -1, -1, 0, -1, -1, -1, -1, -1, 1, 1, 1,
     -1, 1, 1, 1, -1, 1, -1, 4, -1, 2]"

definition ASN1_STRING_to_UTF8 ::
  "allocator \<Rightarrow> (int \<Rightarrow> mb_codec) \<Rightarrow> (int \<Rightarrow> nat) \<Rightarrow> asn1_string option \<Rightarrow> (bytes option \<times> int) asn1_result" where
  "ASN1_STRING_to_UTF8 m cbs ulen inp =
     (case inp of None \<Rightarrow> Fail NO_REASON
      | Some s \<Rightarrow>
          if str_type s < 0 \<or> str_type s > 30 then Fail NO_REASON
          else let mbflag = tag2nbyte ! nat (str_type s) in
            if mbflag = -1 then Fail NO_REASON
            else
              let mbflag = mbflag OR MBSTRING_FLAG;
                  stmp = \<lparr>str_length = 0, str_type = 0, str_data = None, str_flags = 0\<rparr> in
              bind_outcome
                (ASN1_mbstring_copy m cbs ulen (Some (Some stmp)) (str_data s) (str_length s) mbflag B_ASN1_UTF8STRING)
                (\<lambda>(ret, str). case str of None \<Rightarrow> UB | Some str \<Rightarrow> Ok (str_data str, str_length str)))"

section \<open>The printable test\<close>

function printable_loop :: "bytes \<Rightarrow> int \<Rightarrow> nat \<Rightarrow> bool \<Rightarrow> int asn1_result" where
  "printable_loop s len i printable =
     (if \<not> int i < len then Ok (if printable then V_ASN1_PRINTABLESTRING else V_ASN1_IA5STRING)
      else if length s \<le> i then UB
      else let c = uint (s ! i) in
        if c AND 0x80 \<noteq> 0 then Ok V_ASN1_T61STRING
        else printable_loop s len (i + 1) (printable \<and> asn1_is_printable c))"
  by pat_completeness auto
termination by (relation "measure (\<lambda>(s, len, i, printable). nat (len - int i))") auto

declare printable_loop.simps [simp del]

definition ASN1_PRINTABLE_type :: "bytes \<Rightarrow> int \<Rightarrow> int asn1_result" where
  "ASN1_PRINTABLE_type s len =
     bind_outcome (if len < 0 then (case c_strlen s of None \<Rightarrow> UB | Some n \<Rightarrow> Ok n) else Ok len)
       (\<lambda>len. printable_loop s len 0 True)"

section \<open>The type chosen\<close>

text \<open>The kinds of string in the order of preference: mask bit, type, form, repertoire.\<close>

definition string_kinds :: "(int \<times> int \<times> int \<times> (int \<Rightarrow> bool)) list" where
  "string_kinds =
     [(B_ASN1_PRINTABLESTRING, V_ASN1_PRINTABLESTRING, MBSTRING_ASC, asn1_is_printable),
      (B_ASN1_IA5STRING, V_ASN1_IA5STRING, MBSTRING_ASC, \<lambda>c. c \<le> 127),
      (B_ASN1_T61STRING, V_ASN1_T61STRING, MBSTRING_ASC, \<lambda>c. c \<le> 0xff),
      (B_ASN1_BMPSTRING, V_ASN1_BMPSTRING, MBSTRING_BMP, \<lambda>c. c \<le> 0xffff),
      (B_ASN1_UNIVERSALSTRING, V_ASN1_UNIVERSALSTRING, MBSTRING_UNIV, \<lambda>c. True),
      (B_ASN1_UTF8STRING, V_ASN1_UTF8STRING, MBSTRING_UTF8, \<lambda>c. True)]"

definition best_kind :: "int \<Rightarrow> int list \<Rightarrow> (int \<times> int) option" where
  "best_kind msk cs = map_option (\<lambda>(b, t, f, p). (t, f))
     (find (\<lambda>(b, t, f, p). msk AND b \<noteq> 0 \<and> (\<forall>c\<in>set cs. p c)) string_kinds)"

text \<open>Clearing one bit of a mask leaves the others.\<close>

lemma and_bit: "b = 2 ^ n \<Longrightarrow> (m::int) AND b \<noteq> 0 \<longleftrightarrow> bit m n"
  by (simp only: and_exp_eq_0_iff_not_bit not_not)

lemma mask_bits:
  "(m::int) AND 2 \<noteq> 0 \<longleftrightarrow> bit m 1" "m AND 4 \<noteq> 0 \<longleftrightarrow> bit m 2" "m AND 0x10 \<noteq> 0 \<longleftrightarrow> bit m 4"
  "m AND 0x100 \<noteq> 0 \<longleftrightarrow> bit m 8" "m AND 0x800 \<noteq> 0 \<longleftrightarrow> bit m 11" "m AND 0x2000 \<noteq> 0 \<longleftrightarrow> bit m 13"
  by (rule and_bit, simp)+

lemma bit_clear:
  assumes "b = 2 ^ k"
  shows "bit (if (m::int) AND b \<noteq> 0 \<and> P then m AND NOT b else m) n \<longleftrightarrow> bit m n \<and> (n = k \<longrightarrow> \<not> P)"
  unfolding and_bit [OF assms] by (auto simp: assms bit_and_iff bit_not_iff bit_exp_iff)

lemma bit_narrow:
  "bit (narrow m c) n \<longleftrightarrow> bit m n \<and> (n = 1 \<longrightarrow> asn1_is_printable c) \<and> (n = 4 \<longrightarrow> c \<le> 127) \<and>
     (n = 2 \<longrightarrow> c \<le> 0xff) \<and> (n = 11 \<longrightarrow> c \<le> 0xffff)"
proof -
  have b: "(2::int) = 2 ^ 1" "(0x10::int) = 2 ^ 4" "(4::int) = 2 ^ 2" "(0x800::int) = 2 ^ 11" by simp_all
  show ?thesis
    unfolding narrow_def Let_def bit_clear [OF b(1)] bit_clear [OF b(2)] bit_clear [OF b(3)] bit_clear [OF b(4)]
      not_not not_less
    by blast
qed

lemma bit_narrow_all:
  "bit (foldl narrow m cs) n \<longleftrightarrow> bit m n \<and> (\<forall>c\<in>set cs. (n = 1 \<longrightarrow> asn1_is_printable c) \<and> (n = 4 \<longrightarrow> c \<le> 127) \<and>
     (n = 2 \<longrightarrow> c \<le> 0xff) \<and> (n = 11 \<longrightarrow> c \<le> 0xffff))"
  by (induction cs arbitrary: m) (auto simp: bit_narrow)

lemma pick_best: "pick_type (foldl narrow m cs) = best_kind m cs"
  unfolding pick_type_def best_kind_def string_kinds_def mask_bits bit_narrow_all
  by (simp add: mask_bits)

lemma narrow_0: "narrow 0 c = 0"
  by (simp add: narrow_def)

lemma foldl_narrow_0: "foldl narrow 0 cs = 0"
  by (induction cs) (simp_all add: narrow_0)

text \<open>The first pass on characters.\<close>

lemma mb_scan_chars:
  assumes "decode_all get bs = Some cs" "\<not> (nchar = 0 \<and> wide \<and> cs \<noteq> [] \<and> hd cs = 0xfeff)" "m \<noteq> 0"
  shows "mb_scan get wide err ulen bs m nchar n8 =
    (if foldl narrow m cs = 0 then Fail ILLEGAL_CHARACTERS
     else Ok (foldl narrow m cs, nchar + length cs, n8 + sum_list (map ulen cs)))"
  using assms
proof (induction cs arbitrary: bs m nchar n8)
  case Nil
  then have "bs = []" by (auto elim: decode_all_Some)
  with Nil.prems show ?case by (simp add: mb_scan.simps)
next
  case (Cons c cs)
  then have "bs \<noteq> []" by auto
  with Cons.prems obtain rest where r: "get bs = Some (c, rest)" "length rest < length bs" "decode_all get rest = Some cs"
    by (auto elim: decode_all_Some)
  show ?case
  proof (cases "narrow m c = 0")
    case True
    then show ?thesis using r Cons.prems \<open>bs \<noteq> []\<close> by (auto simp: mb_scan.simps [of get wide err ulen bs] foldl_narrow_0)
  next
    case False
    then show ?thesis using r Cons.prems \<open>bs \<noteq> []\<close> Cons.IH [OF r(3) _ False, of "nchar + 1"]
      by (auto simp: mb_scan.simps [of get wide err ulen bs] algebra_simps)
  qed
qed

lemma mb_scan_decodes:
  "mb_scan get wide err ulen bs m nchar n8 = Ok r \<Longrightarrow>
     \<exists>cs. decode_all get bs = Some cs \<and> \<not> (nchar = 0 \<and> wide \<and> cs \<noteq> [] \<and> hd cs = 0xfeff)"
proof (induction get wide err ulen bs m nchar n8 rule: mb_scan.induct)
  case (1 get wide err ulen bs m nchar n8)
  show ?case
  proof (cases "bs = []")
    case False
    with "1.prems" obtain c rest where r: "get bs = Some (c, rest)" "\<not> (nchar = 0 \<and> wide \<and> c = 0xfeff)"
      "narrow m c \<noteq> 0" "length rest < length bs"
      "mb_scan get wide err ulen rest (narrow m c) (nchar + 1) (n8 + ulen c) = Ok r"
      by (auto simp: mb_scan.simps [of get wide err ulen bs] Let_def split: option.split_asm if_split_asm)
    from "1.IH" [OF False r(1) _ r(2) refl r(3,4,5)] obtain cs where "decode_all get rest = Some cs" by auto
    then show ?thesis using r False by (simp add: decode_all.simps [of get bs])
  qed simp
qed

text \<open>The second pass on characters.\<close>

lemma mb_convert_chars:
  assumes "decode_all get bs = Some cs"
  shows "mb_convert get add bs = (case encode_all add cs of None \<Rightarrow> Fail INTERNAL_ERROR | Some r \<Rightarrow> Ok r)"
  using assms
proof (induction cs arbitrary: bs)
  case Nil
  then have "bs = []" by (auto elim: decode_all_Some)
  then show ?case by (simp add: mb_convert.simps)
next
  case (Cons c cs)
  then have "bs \<noteq> []" by auto
  with Cons.prems obtain rest where r: "get bs = Some (c, rest)" "length rest < length bs" "decode_all get rest = Some cs"
    by (auto elim: decode_all_Some)
  then show ?case using \<open>bs \<noteq> []\<close> Cons.IH [OF r(3)]
    by (auto simp: mb_convert.simps [of get add bs] split: option.splits)
qed

section \<open>What a conversion does\<close>

definition byte_order_mark :: "int \<Rightarrow> int list \<Rightarrow> bool" where
  "byte_order_mark inform cs \<longleftrightarrow> (inform = MBSTRING_BMP \<or> inform = MBSTRING_UNIV) \<and> cs \<noteq> [] \<and> hd cs = 0xfeff"

definition sizes_ok :: "int \<Rightarrow> int \<Rightarrow> int list \<Rightarrow> bool" where
  "sizes_ok minsize maxsize cs \<longleftrightarrow> (minsize > 0 \<longrightarrow> minsize \<le> int (length cs)) \<and> (maxsize > 0 \<longrightarrow> int (length cs) \<le> maxsize)"

lemma best_kind_0: "best_kind 0 cs = None"
  by (simp add: best_kind_def string_kinds_def)

lemma best_kind_nonzero: "best_kind m cs = Some k \<Longrightarrow> foldl narrow m cs \<noteq> 0"
  using pick_best [of m cs] pick_best [of 0 "[]"] best_kind_0 by (metis foldl.simps(1) option.distinct(1))

text \<open>The first pass on characters: it answers exactly when they have a kind and the sizes fit.\<close>

lemma mb_first_pass_iff:
  assumes "msk \<noteq> 0"
  shows "mb_first_pass get inform err ulen bs msk minsize maxsize = Ok (ty, f, nchar, n8) \<longleftrightarrow>
    (\<exists>cs. decode_all get bs = Some cs \<and> \<not> byte_order_mark inform cs \<and> sizes_ok minsize maxsize cs \<and>
       best_kind msk cs = Some (ty, f) \<and> nchar = length cs \<and> n8 = sum_list (map ulen cs))"
    (is "?L \<longleftrightarrow> ?R")
proof -
  let ?wide = "inform = MBSTRING_BMP \<or> inform = MBSTRING_UNIV"
  have sc: "mb_scan get ?wide err ulen bs msk 0 0 =
      (if foldl narrow msk cs = 0 then Fail ILLEGAL_CHARACTERS
       else Ok (foldl narrow msk cs, length cs, sum_list (map ulen cs)))"
    if "decode_all get bs = Some cs" "\<not> byte_order_mark inform cs" for cs
    using mb_scan_chars [OF that(1) _ assms, of 0 ?wide err ulen 0] that(2) by (simp add: byte_order_mark_def)
  show ?thesis
  proof
    assume ?L
    then obtain m' where "mb_scan get ?wide err ulen bs msk 0 0 = Ok (m', nchar, n8)"
      and r: "\<not> (minsize > 0 \<and> int nchar < minsize)" "\<not> (maxsize > 0 \<and> int nchar > maxsize)" "pick_type m' = Some (ty, f)"
      by (auto simp: mb_first_pass_def bind_outcome_Ok_iff split: if_split_asm option.split_asm)
    then obtain cs where cs: "decode_all get bs = Some cs" "\<not> byte_order_mark inform cs"
      using mb_scan_decodes [of get ?wide err ulen bs msk 0 0] unfolding byte_order_mark_def by blast
    with sc [OF cs] r \<open>mb_scan _ _ _ _ _ _ _ _ = _\<close> show ?R
      using pick_best [of msk cs] by (auto simp: sizes_ok_def split: if_split_asm)
  next
    assume ?R
    then obtain cs where cs: "decode_all get bs = Some cs" "\<not> byte_order_mark inform cs" "sizes_ok minsize maxsize cs"
      "best_kind msk cs = Some (ty, f)" "nchar = length cs" "n8 = sum_list (map ulen cs)" by blast
    show ?L
      unfolding mb_first_pass_def sc [OF cs(1,2)]
      using cs(3-6) pick_best [of msk cs] best_kind_nonzero [OF cs(4)] by (auto simp: sizes_ok_def)
  qed
qed

lemma mb_dest_wf:
  "mb_dest m dest ty = Ok d \<Longrightarrow> pred_option wf_string dest \<Longrightarrow> wf_string d \<and> str_type d = ty"
  by (auto simp: mb_dest_def ASN1_STRING_type_new_def wf_string_def buffer_def split: option.split_asm if_split_asm)

lemma mb_output_chars:
  assumes m: "alloc_ok m" and c: "char_codec get' add" and wf: "wf_string dest"
    and len: "0 \<le> len" "len < INT_MAX" "len \<le> int (length inb)" and cs: "decode_all get (take (nat len) inb) = Some cs"
    and same: "same \<Longrightarrow> get' = get"
    and ok: "mb_output m get add dest (Some inb) len (take (nat len) inb) same sz = Ok d"
  shows "decode_all get' (content d) = Some cs \<and> wf_string d \<and> str_type d = str_type dest"
proof (cases same)
  case True
  then have "ASN1_STRING_set (later 1 m) dest (Some inb) len = Ok d"
    using ok by (auto simp: mb_output_def split: outcome.split_asm)
  with ASN1_STRING_set_Some [OF alloc_ok_later [OF m, of 1] wf len] show ?thesis
    using cs same [OF True] by auto
next
  case False
  then obtain data where d: "encode_all add cs = Some data" "d = dest\<lparr>str_length := int (length data), str_data := Some (data @ [0])\<rparr>"
    using ok cs by (auto simp: mb_output_def mb_convert_chars [OF cs] Let_def split: option.split_asm if_split_asm)
  then show ?thesis
    using char_codec.decode_encode [OF c d(1)] by (simp add: content_def buffer_def wf_string_def)
qed

text \<open>
  C18: With \<open>out\<close> NULL, \<open>ASN1_mbstring_ncopy\<close> answers with a type exactly when the input decodes to
  characters, starts with no byte order mark, keeps the size limits and fits a permitted type; the type is
  the first permitted one, in the order Printable, IA5, T61, BMP, Universal, UTF8, that holds every character.
\<close>

theorem mbstring_type_iff:
  assumes "0 \<le> len" "len \<le> int (length inb)" "mb_error inform = Some err"
  shows "ASN1_mbstring_ncopy m cbs ulen None (Some inb) len inform msk minsize maxsize = Ok (ty, s) \<longleftrightarrow>
    s = None \<and> (\<exists>cs f. decode_all (cc_get (cbs inform)) (take (nat len) inb) = Some cs \<and>
      \<not> byte_order_mark inform cs \<and> sizes_ok minsize maxsize cs \<and>
      best_kind (if msk = 0 then DIRSTRING_TYPE else msk) cs = Some (ty, f))"
    (is "?L \<longleftrightarrow> ?R")
proof -
  have mk: "(if msk = 0 then DIRSTRING_TYPE else msk) \<noteq> 0" by simp
  have "ASN1_mbstring_ncopy m cbs ulen None (Some inb) len inform msk minsize maxsize =
      bind_outcome (mb_first_pass (cc_get (cbs inform)) inform err ulen (take (nat len) inb)
        (if msk = 0 then DIRSTRING_TYPE else msk) minsize maxsize) (\<lambda>(ty, f, nchar, n8). Ok (ty, None))"
    using assms by (simp add: ASN1_mbstring_ncopy_def Let_def)
  then have "?L \<longleftrightarrow> s = None \<and> (\<exists>f nchar n8. mb_first_pass (cc_get (cbs inform)) inform err ulen (take (nat len) inb)
        (if msk = 0 then DIRSTRING_TYPE else msk) minsize maxsize = Ok (ty, f, nchar, n8))"
    by (auto simp: bind_outcome_Ok_iff)
  then show ?thesis unfolding mb_first_pass_iff [OF mk] by blast
qed

text \<open>Codecs for evaluation: Latin-1, UCS-2, UTF-32 and UTF-8, without checks of the code points.\<close>

definition plain_codecs :: "int \<Rightarrow> mb_codec" where
  "plain_codecs f =
     (if f = MBSTRING_BMP then \<lparr>cc_get = wide_get 2, cc_add = wide_add 2\<rparr>
      else if f = MBSTRING_UNIV then \<lparr>cc_get = wide_get 4, cc_add = wide_add 4\<rparr>
      else if f = MBSTRING_UTF8 then \<lparr>cc_get = utf8_get, cc_add = utf8_add\<rparr>
      else \<lparr>cc_get = wide_get 1, cc_add = wide_add 1\<rparr>)"

lemma plain_codecs_ok: "char_codec (cc_get (plain_codecs f)) (cc_add (plain_codecs f))"
  by (simp add: plain_codecs_def latin1.char_codec_axioms [simplified] ucs2.char_codec_axioms
      utf32.char_codec_axioms utf8.char_codec_axioms)

lemma mbstring_type_iff_witness:
  "ASN1_mbstring_ncopy zero_alloc plain_codecs (\<lambda>c. 1) None (Some [0x41, 0x2a]) 2 MBSTRING_ASC 0 1 5
    = Ok (V_ASN1_T61STRING, None)"
proof -
  have "decode_all (cc_get (plain_codecs MBSTRING_ASC)) (take (nat 2) [0x41, 0x2a]) = Some [0x41, 0x2a]"
    "best_kind DIRSTRING_TYPE [0x41, 0x2a] = Some (V_ASN1_T61STRING, MBSTRING_ASC)"
    "mb_error MBSTRING_ASC = Some INTERNAL_ERROR"
    "\<not> byte_order_mark MBSTRING_ASC [0x41, 0x2a]" "sizes_ok 1 5 [0x41, 0x2a]"
    by code_simp+
  then show ?thesis
    using mbstring_type_iff [of 2 "[0x41, 0x2a]" MBSTRING_ASC INTERNAL_ERROR zero_alloc plain_codecs "\<lambda>c. 1" 0 1 5
        V_ASN1_T61STRING None] by auto
qed

lemma mbstring_same_chars_aux:
  assumes m: "alloc_ok m" and c: "\<And>f. char_codec (cc_get (cbs f)) (cc_add (cbs f))"
    and len: "0 \<le> len" "len < INT_MAX" "len \<le> int (length inb)" and out: "pred_option wf_string out"
    and ok: "ASN1_mbstring_ncopy m cbs ulen (Some out) (Some inb) len inform msk minsize maxsize = Ok (ty, Some s)"
  shows "\<exists>cs f. decode_all (cc_get (cbs inform)) (take (nat len) inb) = Some cs \<and>
    decode_all (cc_get (cbs f)) (content s) = Some cs \<and> str_type s = ty \<and> wf_string s \<and>
    best_kind (if msk = 0 then DIRSTRING_TYPE else msk) cs = Some (ty, f) \<and> sizes_ok minsize maxsize cs"
proof -
  have mk: "(if msk = 0 then DIRSTRING_TYPE else msk) \<noteq> 0" by simp
  obtain err where err: "mb_error inform = Some err"
    using ok len by (cases "mb_error inform") (auto simp: ASN1_mbstring_ncopy_def)
  let ?get = "cc_get (cbs inform)" and ?bs = "take (nat len) inb"
  have "bind_outcome (mb_first_pass ?get inform err ulen ?bs (if msk = 0 then DIRSTRING_TYPE else msk) minsize maxsize)
      (\<lambda>(ty, f, nchar, n8). bind_outcome (mb_dest m out ty) (\<lambda>dest.
         bind_outcome (mb_output m ?get (cc_add (cbs f)) dest (Some inb) len ?bs (inform = f) (size_estimate f nchar n8))
           (\<lambda>d. Ok (ty, Some d)))) = Ok (ty, Some s)"
    using ok len err by (simp add: ASN1_mbstring_ncopy_def Let_def)
  then obtain f nchar n8 dest where
    p: "mb_first_pass ?get inform err ulen ?bs (if msk = 0 then DIRSTRING_TYPE else msk) minsize maxsize =
      Ok (ty, f, nchar, n8)" "mb_dest m out ty = Ok dest"
      "mb_output m ?get (cc_add (cbs f)) dest (Some inb) len ?bs (inform = f) (size_estimate f nchar n8) = Ok s"
    by (auto simp: bind_outcome_Ok_iff)
  from p(1) [unfolded mb_first_pass_iff [OF mk]] obtain cs where cs: "decode_all ?get ?bs = Some cs"
    "sizes_ok minsize maxsize cs" "best_kind (if msk = 0 then DIRSTRING_TYPE else msk) cs = Some (ty, f)" by blast
  have "decode_all (cc_get (cbs f)) (content s) = Some cs \<and> wf_string s \<and> str_type s = str_type dest"
    by (rule mb_output_chars [OF m c _ len cs(1) _ p(3)]) (use mb_dest_wf [OF p(2) out] in auto)
  then show ?thesis using cs mb_dest_wf [OF p(2) out] by blast
qed

text \<open>
  C19: The string \<open>ASN1_mbstring_ncopy\<close> makes holds the same characters as its input, encoded in the form of
  its type, for every character codec; its type is the best permitted one and it keeps the size limits.
\<close>

theorem mbstring_same_chars:
  assumes m: "alloc_ok m" and c: "\<And>f. char_codec (cc_get (cbs f)) (cc_add (cbs f))"
    and len: "0 \<le> len" "len < INT_MAX" "len \<le> int (length inb)" and out: "pred_option wf_string out"
    and ok: "ASN1_mbstring_ncopy m cbs ulen (Some out) (Some inb) len inform msk minsize maxsize = Ok (ty, Some s)"
  shows "\<exists>cs f. decode_all (cc_get (cbs inform)) (take (nat len) inb) = Some cs \<and>
    decode_all (cc_get (cbs f)) (content s) = Some cs \<and> str_type s = ty \<and> wf_string s \<and>
    best_kind (if msk = 0 then DIRSTRING_TYPE else msk) cs = Some (ty, f) \<and> sizes_ok minsize maxsize cs"
  by (rule mbstring_same_chars_aux [OF assms])

lemma mbstring_same_chars_witness:
  "\<exists>s. ASN1_mbstring_ncopy zero_alloc plain_codecs (\<lambda>c. 1) (Some None) (Some [0x20, 0xac]) 2 MBSTRING_BMP
      B_ASN1_UTF8STRING 0 0 = Ok (V_ASN1_UTF8STRING, Some s) \<and>
    decode_all (cc_get (plain_codecs MBSTRING_UTF8)) (content s) = Some [0x20ac]"
proof -
  define s :: asn1_string where
    "s = \<lparr>str_length = 3, str_type = V_ASN1_UTF8STRING, str_data = Some [0xe2, 0x82, 0xac, 0], str_flags = 0\<rparr>"
  have r: "ASN1_mbstring_ncopy zero_alloc plain_codecs (\<lambda>c. 1) (Some None) (Some [0x20, 0xac]) 2 MBSTRING_BMP
      B_ASN1_UTF8STRING 0 0 = Ok (V_ASN1_UTF8STRING, Some s)"
    unfolding s_def by code_simp
  have d: "decode_all (cc_get (plain_codecs MBSTRING_BMP)) (take (nat 2) [0x20, 0xac]) = Some [0x20ac]" by code_simp
  from mbstring_same_chars [OF alloc_ok_zero_alloc plain_codecs_ok _ _ _ _ r] d obtain f where
    "decode_all (cc_get (plain_codecs f)) (content s) = Some [0x20ac]"
    "best_kind B_ASN1_UTF8STRING [0x20ac] = Some (V_ASN1_UTF8STRING, f)" by auto
  then show ?thesis using r by (auto simp: best_kind_def string_kinds_def)
qed

text \<open>
  \<open>ASN1_STRING_to_UTF8\<close> keeps the characters: the UTF-8 octets it returns decode to what the string's
  own octets decode to in the width of its type.
\<close>

theorem to_utf8_same_chars:
  assumes "alloc_ok m" "\<And>f. char_codec (cc_get (cbs f)) (cc_add (cbs f))" "wf_string s"
    "str_length s < INT_MAX" "str_data s = Some b"
    "ASN1_STRING_to_UTF8 m cbs ulen (Some s) = Ok (Some d, n)"
  shows "\<exists>cs w. w = tag2nbyte ! nat (str_type s) \<and> w \<noteq> -1 \<and>
    decode_all (cc_get (cbs (w OR MBSTRING_FLAG))) (content s) = Some cs \<and>
    decode_all (cc_get (cbs MBSTRING_UTF8)) (take (nat n) d) = Some cs"
proof -
  define w where "w = tag2nbyte ! nat (str_type s)"
  let ?stmp = "\<lparr>str_length = 0, str_type = 0, str_data = None, str_flags = 0\<rparr> :: asn1_string"
  obtain ty r where w: "w \<noteq> -1" and r: "ASN1_mbstring_ncopy m cbs ulen (Some (Some ?stmp)) (Some b) (str_length s)
      (w OR MBSTRING_FLAG) B_ASN1_UTF8STRING 0 0 = Ok (ty, Some r)" "str_data r = Some d" "str_length r = n"
    using assms(5,6)
    by (auto simp: ASN1_STRING_to_UTF8_def ASN1_mbstring_copy_def w_def [symmetric] bind_outcome_Ok_iff Let_def
        split: if_split_asm option.split_asm)
  have len: "0 \<le> str_length s" "str_length s \<le> int (length b)"
    using assms(3,5) by (simp_all add: wf_string_def buffer_def)
  have "pred_option wf_string (Some ?stmp)" by simp
  from mbstring_same_chars_aux [OF assms(1,2) len(1) assms(4) len(2) this r(1)] obtain cs f where
    cs: "decode_all (cc_get (cbs (w OR MBSTRING_FLAG))) (take (nat (str_length s)) b) = Some cs"
      "decode_all (cc_get (cbs f)) (content r) = Some cs" "best_kind B_ASN1_UTF8STRING cs = Some (ty, f)"
    by auto
  have "f = MBSTRING_UTF8" using cs(3) by (simp add: best_kind_def string_kinds_def split: if_split_asm)
  then show ?thesis using cs w assms(5) r by (auto simp: w_def content_def buffer_def)
qed

lemma to_utf8_same_chars_witness:
  "\<exists>d n. ASN1_STRING_to_UTF8 zero_alloc plain_codecs (\<lambda>c. 1)
      (Some \<lparr>str_length = 2, str_type = V_ASN1_BMPSTRING, str_data = Some [0x20, 0xac], str_flags = 0\<rparr>) = Ok (Some d, n) \<and>
    decode_all (cc_get (plain_codecs MBSTRING_UTF8)) (take (nat n) d) = Some [0x20ac]"
proof -
  let ?s = "\<lparr>str_length = 2, str_type = V_ASN1_BMPSTRING, str_data = Some [0x20, 0xac], str_flags = 0\<rparr> :: asn1_string"
  have r: "ASN1_STRING_to_UTF8 zero_alloc plain_codecs (\<lambda>c. 1) (Some ?s) = Ok (Some [0xe2, 0x82, 0xac, 0], 3)"
    by code_simp
  have "wf_string ?s" "str_length ?s < INT_MAX" "str_data ?s = Some [0x20, 0xac]" "tag2nbyte ! nat (str_type ?s) = 2"
    by (simp_all add: wf_string_def buffer_def tag2nbyte_def)
  moreover have "decode_all (cc_get (plain_codecs (2 OR MBSTRING_FLAG))) (content ?s) = Some [0x20ac]" by code_simp
  ultimately show ?thesis
    using to_utf8_same_chars [OF alloc_ok_zero_alloc plain_codecs_ok _ _ _ r] r by fastforce
qed

text \<open>
  \<open>ASN1_PRINTABLE_type\<close> classifies the octets: T61 when one is above 0x7f, Printable when all are of the
  PrintableString alphabet, IA5 otherwise.
\<close>

theorem printable_type_class:
  assumes "0 \<le> len" "len \<le> int (length s)"
  shows "ASN1_PRINTABLE_type s len = Ok
    (let bs = map uint (take (nat len) s) in
     if \<exists>c\<in>set bs. c \<ge> 128 then V_ASN1_T61STRING
     else if \<forall>c\<in>set bs. asn1_is_printable c then V_ASN1_PRINTABLESTRING else V_ASN1_IA5STRING)"
proof -
  have "printable_loop s len i p = Ok
      (let bs = map uint (drop i (take (nat len) s)) in
       if \<exists>c\<in>set bs. c \<ge> 128 then V_ASN1_T61STRING
       else if p \<and> (\<forall>c\<in>set bs. asn1_is_printable c) then V_ASN1_PRINTABLESTRING else V_ASN1_IA5STRING)" for i p
  proof (induction "nat len - i" arbitrary: i p)
    case 0
    then have "\<not> int i < len" "nat len \<le> i" by simp_all
    then show ?case by (simp add: printable_loop.simps [of s len i])
  next
    case (Suc n)
    then have i: "int i < len" "i < length s" "i < nat len" using assms by auto
    have d: "drop i (take (nat len) s) = s ! i # drop (i + 1) (take (nat len) s)"
      using i Cons_nth_drop_Suc [of i "take (nat len) s"] by simp
    have b: "uint (s ! i) AND 128 \<noteq> 0 \<longleftrightarrow> 128 \<le> uint (s ! i)" using uint_bit7 [of "s ! i"] by auto
    show ?case
      using Suc.hyps(1) [of "i + 1" "p \<and> asn1_is_printable (uint (s ! i))"] Suc.hyps(2) i
      unfolding printable_loop.simps [of s len i] d by (auto simp: Let_def b)
  qed
  from this [of 0 True] show ?thesis using assms(1) by (simp add: ASN1_PRINTABLE_type_def)
qed

lemma printable_type_class_witness: "ASN1_PRINTABLE_type [0x41, 0x2a, 0] 2 = Ok V_ASN1_IA5STRING"
  using printable_type_class [of 2 "[0x41, 0x2a, 0]"] by (simp add: asn1_is_printable_def)

end
