(* ===== verification/Asn1_Strnid.thy ===== *)
theory Asn1_Strnid
  imports Asn1_Mbstring
begin

text \<open>
  The table of string limits by NID (\<open>a_strnid.c\<close>): the standard table, searched by bisection, and the
  entries the application adds. The global hash table \<open>string_tables\<close> is \<open>None\<close> for NULL or a map (LHASH
  is not part of the repository; what is used of it is lookup and insertion by NID). An addition looks
  a NID up before it takes the lock and again under it: the model gives both states.
\<close>

section \<open>The tables\<close>

text \<open>NIDs and flags of the public headers.\<close>

abbreviation (input) STABLE_NO_MASK :: int where "STABLE_NO_MASK \<equiv> 0x02"
abbreviation (input) ub_name :: int where "ub_name \<equiv> 32768"
abbreviation (input) ub_common_name :: int where "ub_common_name \<equiv> 64"
abbreviation (input) ub_locality_name :: int where "ub_locality_name \<equiv> 128"
abbreviation (input) ub_state_name :: int where "ub_state_name \<equiv> 128"
abbreviation (input) ub_organization_name :: int where "ub_organization_name \<equiv> 64"
abbreviation (input) ub_organization_unit_name :: int where "ub_organization_unit_name \<equiv> 64"
abbreviation (input) ub_email_address :: int where "ub_email_address \<equiv> 128"
abbreviation (input) ub_serial_number :: int where "ub_serial_number \<equiv> 64"

abbreviation (input) NID_commonName :: int where "NID_commonName \<equiv> 13"
abbreviation (input) NID_countryName :: int where "NID_countryName \<equiv> 14"
abbreviation (input) NID_localityName :: int where "NID_localityName \<equiv> 15"
abbreviation (input) NID_stateOrProvinceName :: int where "NID_stateOrProvinceName \<equiv> 16"
abbreviation (input) NID_organizationName :: int where "NID_organizationName \<equiv> 17"
abbreviation (input) NID_organizationalUnitName :: int where "NID_organizationalUnitName \<equiv> 18"
abbreviation (input) NID_pkcs9_emailAddress :: int where "NID_pkcs9_emailAddress \<equiv> 48"
abbreviation (input) NID_pkcs9_unstructuredName :: int where "NID_pkcs9_unstructuredName \<equiv> 49"
abbreviation (input) NID_pkcs9_challengePassword :: int where "NID_pkcs9_challengePassword \<equiv> 54"
abbreviation (input) NID_pkcs9_unstructuredAddress :: int where "NID_pkcs9_unstructuredAddress \<equiv> 55"
abbreviation (input) NID_givenName :: int where "NID_givenName \<equiv> 99"
abbreviation (input) NID_surname :: int where "NID_surname \<equiv> 100"
abbreviation (input) NID_initials :: int where "NID_initials \<equiv> 101"
abbreviation (input) NID_serialNumber :: int where "NID_serialNumber \<equiv> 105"
abbreviation (input) NID_friendlyName :: int where "NID_friendlyName \<equiv> 156"
abbreviation (input) NID_name :: int where "NID_name \<equiv> 173"
abbreviation (input) NID_dnQualifier :: int where "NID_dnQualifier \<equiv> 174"
abbreviation (input) NID_domainComponent :: int where "NID_domainComponent \<equiv> 391"
abbreviation (input) NID_ms_csp_name :: int where "NID_ms_csp_name \<equiv> 417"

record string_entry =
  se_nid :: int
  se_minsize :: int
  se_maxsize :: int
  se_mask :: int
  se_flags :: int

fun entry :: "int \<times> int \<times> int \<times> int \<times> int \<Rightarrow> string_entry" where
  "entry (n, lo, hi, msk, fl) =
     \<lparr>se_nid = n, se_minsize = lo, se_maxsize = hi, se_mask = msk, se_flags = fl\<rparr>"

definition tbl_standard :: "string_entry list" where
  "tbl_standard = map entry
     [(NID_commonName, 1, ub_common_name, DIRSTRING_TYPE, 0),
      (NID_countryName, 2, 2, B_ASN1_PRINTABLESTRING, STABLE_NO_MASK),
      (NID_localityName, 1, ub_locality_name, DIRSTRING_TYPE, 0),
      (NID_stateOrProvinceName, 1, ub_state_name, DIRSTRING_TYPE, 0),
      (NID_organizationName, 1, ub_organization_name, DIRSTRING_TYPE, 0),
      (NID_organizationalUnitName, 1, ub_organization_unit_name, DIRSTRING_TYPE, 0),
      (NID_pkcs9_emailAddress, 1, ub_email_address, B_ASN1_IA5STRING, STABLE_NO_MASK),
      (NID_pkcs9_unstructuredName, 1, -1, PKCS9STRING_TYPE, 0),
      (NID_pkcs9_challengePassword, 1, -1, PKCS9STRING_TYPE, 0),
      (NID_pkcs9_unstructuredAddress, 1, -1, DIRSTRING_TYPE, 0),
      (NID_givenName, 1, ub_name, DIRSTRING_TYPE, 0),
      (NID_surname, 1, ub_name, DIRSTRING_TYPE, 0),
      (NID_initials, 1, ub_name, DIRSTRING_TYPE, 0),
      (NID_serialNumber, 1, ub_serial_number, B_ASN1_PRINTABLESTRING, STABLE_NO_MASK),
      (NID_friendlyName, -1, -1, B_ASN1_BMPSTRING, STABLE_NO_MASK),
      (NID_name, 1, ub_name, DIRSTRING_TYPE, 0),
      (NID_dnQualifier, -1, -1, B_ASN1_PRINTABLESTRING, STABLE_NO_MASK),
      (NID_domainComponent, 1, -1, B_ASN1_IA5STRING, STABLE_NO_MASK),
      (NID_ms_csp_name, -1, -1, B_ASN1_BMPSTRING, STABLE_NO_MASK)]"

definition table_cmp :: "int \<Rightarrow> string_entry \<Rightarrow> int" where
  "table_cmp nid b = (if nid < se_nid b then -1 else if nid > se_nid b then 1 else 0)"

text \<open>\<open>bsearch\<close> of the C library, on the entries from \<open>lo\<close> to before \<open>hi\<close>.\<close>

function bsearch :: "int \<Rightarrow> string_entry list \<Rightarrow> nat \<Rightarrow> nat \<Rightarrow> string_entry option" where
  "bsearch nid tbl lo hi =
     (if hi \<le> lo then None
      else let mid = (lo + hi) div 2; c = table_cmp nid (tbl ! mid) in
        if c < 0 then bsearch nid tbl lo mid
        else if c > 0 then bsearch nid tbl (mid + 1) hi
        else Some (tbl ! mid))"
  by pat_completeness auto
termination by (relation "measure (\<lambda>(nid, tbl, lo, hi). hi - lo)") auto

declare bsearch.simps [simp del]

type_synonym string_tables = "(int \<rightharpoonup> string_entry) option"

definition asn1_string_table_get :: "string_tables \<Rightarrow> int \<Rightarrow> string_entry option" where
  "asn1_string_table_get tables nid =
     (case bsearch nid tbl_standard 0 (length tbl_standard) of
        Some e \<Rightarrow> Some e
      | None \<Rightarrow> (case tables of None \<Rightarrow> None | Some t \<Rightarrow> t nid))"

text \<open>
  \<open>seen\<close> is the table when the NID is looked up, \<open>tables\<close> the table when the lock is held. Allocation 0
  is the hash table's, 1 the entry's, 2 the insertion's. The result is the table left and the outcome.
\<close>

definition ASN1_STRING_TABLE_add ::
  "allocator \<Rightarrow> string_tables \<Rightarrow> string_tables \<Rightarrow> int \<Rightarrow> int \<Rightarrow> int \<Rightarrow> int \<Rightarrow> int \<Rightarrow> string_tables \<times> unit asn1_result" where
  "ASN1_STRING_TABLE_add m seen tables nid minsize maxsize msk flags =
     (if asn1_string_table_get seen nid \<noteq> None then (tables, Fail SHOULD_NOT_HAVE_BEEN_CALLED)
      else
        case (case tables of
                None \<Rightarrow> (if m 0 0 = None then Inl NO_REASON else Inr Map.empty)
              | Some t \<Rightarrow> (if t nid \<noteq> None then Inl SHOULD_NOT_HAVE_BEEN_CALLED else Inr t)) of
          Inl e \<Rightarrow> (tables, Fail e)
        | Inr t \<Rightarrow>
            if m 1 0 = None \<or> m 2 0 = None then (Some t, Fail NO_REASON)
            else (Some (t(nid \<mapsto> entry (nid, minsize, maxsize, msk, flags))), Ok ()))"

definition ASN1_STRING_get_default_mask :: int where
  "ASN1_STRING_get_default_mask = B_ASN1_UTF8STRING"

text \<open>A NULL \<open>out\<close> is a local pointer to NULL.\<close>

definition ASN1_STRING_set_by_NID ::
  "string_tables \<Rightarrow> allocator \<Rightarrow> (int \<Rightarrow> mb_codec) \<Rightarrow> (int \<Rightarrow> nat) \<Rightarrow> asn1_string option option \<Rightarrow> bytes option \<Rightarrow>
     int \<Rightarrow> int \<Rightarrow> int \<Rightarrow> asn1_string asn1_result" where
  "ASN1_STRING_set_by_NID tables m cbs ulen out inp len inform nid =
     (let out = (case out of None \<Rightarrow> Some None | Some p \<Rightarrow> Some p) in
      bind_outcome
        (case asn1_string_table_get tables nid of
           Some tbl \<Rightarrow>
             let msk = se_mask tbl;
                 msk = (if se_flags tbl AND STABLE_NO_MASK = 0 then msk AND B_ASN1_UTF8STRING else msk)
             in ASN1_mbstring_ncopy m cbs ulen out inp len inform msk (se_minsize tbl) (se_maxsize tbl)
         | None \<Rightarrow> ASN1_mbstring_copy m cbs ulen out inp len inform B_ASN1_UTF8STRING)
        (\<lambda>(ret, s). if ret \<le> 0 then Fail NO_REASON else case s of None \<Rightarrow> UB | Some s \<Rightarrow> Ok s))"

section \<open>Bisection finds what a scan finds\<close>

lemma bsearch_Some: "bsearch nid tbl lo hi = Some e \<Longrightarrow> hi \<le> length tbl \<Longrightarrow> e \<in> set tbl \<and> se_nid e = nid"
proof (induction nid tbl lo hi rule: bsearch.induct)
  case (1 nid tbl lo hi)
  then show ?case
    by (auto simp: bsearch.simps [of nid tbl lo hi] Let_def table_cmp_def split: if_split_asm)
qed

lemma bsearch_finds:
  assumes "sorted_wrt (\<lambda>a b. se_nid a < se_nid b) tbl" "lo \<le> i" "i < hi" "hi \<le> length tbl" "se_nid (tbl ! i) = nid"
  shows "bsearch nid tbl lo hi = Some (tbl ! i)"
  using assms
proof (induction nid tbl lo hi rule: bsearch.induct)
  case (1 nid tbl lo hi)
  define mid where "mid = (lo + hi) div 2"
  have m: "lo \<le> mid" "mid < hi" using "1.prems" by (auto simp: mid_def)
  have less: "se_nid (tbl ! a) < se_nid (tbl ! b)" if "a < b" "b < length tbl" for a b
    using "1.prems"(1) that by (simp add: sorted_wrt_iff_nth_less)
  consider "i < mid" | "i = mid" | "mid < i" by linarith
  then show ?case
  proof cases
    case 1
    then have "table_cmp nid (tbl ! mid) < 0" using less [of i mid] m "1.prems" by (simp add: table_cmp_def)
    with "1.IH"(1) [OF _ mid_def refl] 1 m "1.prems" show ?thesis
      by (simp add: bsearch.simps [of nid tbl lo hi] mid_def [symmetric])
  next
    case 2
    then show ?thesis using m "1.prems"
      by (simp add: bsearch.simps [of nid tbl lo hi] mid_def [symmetric] table_cmp_def)
  next
    case 3
    then have "table_cmp nid (tbl ! mid) > 0" using less [of mid i] m "1.prems" by (simp add: table_cmp_def)
    with "1.IH"(2) [OF _ mid_def refl] 3 m "1.prems" show ?thesis
      by (simp add: bsearch.simps [of nid tbl lo hi] mid_def [symmetric])
  qed
qed

lemma standard_sorted: "sorted_wrt (\<lambda>a b. se_nid a < se_nid b) tbl_standard"
  by (simp add: tbl_standard_def)

lemma standard_lookup:
  "bsearch nid tbl_standard 0 (length tbl_standard) = Some e \<longleftrightarrow> e \<in> set tbl_standard \<and> se_nid e = nid"
  using bsearch_Some bsearch_finds [OF standard_sorted] by (auto simp: in_set_conv_nth)

lemmas table_get_simps = asn1_string_table_get_def

text \<open>
  The standard limits are fixed: the bisection finds every entry of the standard table, whatever the
  application has added.
\<close>

theorem standard_entries_found:
  assumes "e \<in> set tbl_standard"
  shows "asn1_string_table_get tables (se_nid e) = Some e"
proof -
  have "bsearch (se_nid e) tbl_standard 0 (length tbl_standard) = Some e"
    using assms by (simp add: standard_lookup)
  then show ?thesis by (simp add: table_get_simps)
qed

lemma standard_entries_found_witness:
  "asn1_string_table_get None NID_countryName = Some (entry (NID_countryName, 2, 2, B_ASN1_PRINTABLESTRING, STABLE_NO_MASK))"
  using standard_entries_found [of "entry (NID_countryName, 2, 2, B_ASN1_PRINTABLESTRING, STABLE_NO_MASK)" None]
  by (simp add: tbl_standard_def)

text \<open>
  C20: \<open>ASN1_STRING_TABLE_add\<close> never changes an entry, whatever other threads have added between its two
  lookups; a successful call makes the new entry the one that is found.
\<close>

theorem table_add_keeps_entries:
  assumes "ASN1_STRING_TABLE_add m seen tables nid minsize maxsize msk flags = (tables', r)"
  shows "(\<forall>n e. asn1_string_table_get tables n = Some e \<longrightarrow> asn1_string_table_get tables' n = Some e) \<and>
    (r = Ok () \<longrightarrow> asn1_string_table_get tables' nid = Some (entry (nid, minsize, maxsize, msk, flags)))"
  using assms
  by (auto simp: ASN1_STRING_TABLE_add_def table_get_simps split: if_split_asm option.splits)

lemma table_add_keeps_entries_witness:
  "asn1_string_table_get (fst (ASN1_STRING_TABLE_add zero_alloc None None 1 0 9 B_ASN1_UTF8STRING 0)) 1 =
     Some (entry (1, 0, 9, B_ASN1_UTF8STRING, 0))"
proof -
  have g: "asn1_string_table_get None 1 = None"
    by code_simp
  then have "ASN1_STRING_TABLE_add zero_alloc None None 1 0 9 B_ASN1_UTF8STRING 0 =
      (Some (Map.empty(1 \<mapsto> entry (1, 0, 9, B_ASN1_UTF8STRING, 0))), Ok ())"
    by (simp add: ASN1_STRING_TABLE_add_def zero_alloc_def)
  from table_add_keeps_entries [OF this] this show ?thesis by simp
qed

text \<open>
  C21: When the table has an entry for the NID and \<open>ASN1_STRING_set_by_NID\<close> succeeds on an input of non-negative length below
  \<open>INT_MAX\<close>, it has enforced the entry: the string has the characters of the input, as many as the entry allows, in the
  type that the mask chooses for them. The mask is the entry's, reduced to UTF8String unless the entry has
  \<open>STABLE_NO_MASK\<close>; a mask of which nothing is left stands for the types of a DirectoryString, so the type may then be
  one that is not in the entry's mask (\<open>set_by_nid_outside_mask\<close>).
\<close>

theorem set_by_nid_limits:
  assumes m: "alloc_ok m" and c: "\<And>f. char_codec (cc_get (cbs f)) (cc_add (cbs f))"
    and len: "0 \<le> len" "len < INT_MAX" "len \<le> int (length inb)" and out: "\<And>p. out = Some p \<Longrightarrow> pred_option wf_string p"
    and e: "asn1_string_table_get tables nid = Some e"
      "msk = (if se_flags e AND STABLE_NO_MASK = 0 then se_mask e AND B_ASN1_UTF8STRING else se_mask e)"
    and ok: "ASN1_STRING_set_by_NID tables m cbs ulen out (Some inb) len inform nid = Ok s"
  shows "\<exists>cs f. decode_all (cc_get (cbs inform)) (take (nat len) inb) = Some cs \<and>
    decode_all (cc_get (cbs f)) (content s) = Some cs \<and> sizes_ok (se_minsize e) (se_maxsize e) cs \<and>
    best_kind (if msk = 0 then DIRSTRING_TYPE else msk) cs = Some (str_type s, f)"
proof -
  define p where "p = (case out of None \<Rightarrow> None | Some p \<Rightarrow> p)"
  have p: "pred_option wf_string p" using out by (cases out) (auto simp: p_def)
  obtain ty where "ASN1_mbstring_ncopy m cbs ulen (Some p) (Some inb) len inform msk (se_minsize e) (se_maxsize e) =
      Ok (ty, Some s)"
    using ok e
    by (cases out) (auto simp: ASN1_STRING_set_by_NID_def p_def bind_outcome_Ok_iff Let_def
        split: if_split_asm option.split_asm)
  from mbstring_same_chars_aux [OF m c len p this] show ?thesis by auto
qed

lemma set_by_nid_limits_witness:
  "\<exists>s cs. ASN1_STRING_set_by_NID None zero_alloc plain_codecs (\<lambda>c. 1) None (Some [0x55, 0x53]) 2 MBSTRING_ASC
      NID_countryName = Ok s \<and> sizes_ok 2 2 cs \<and> str_type s = V_ASN1_PRINTABLESTRING"
proof -
  define s :: asn1_string where
    "s = \<lparr>str_length = 2, str_type = V_ASN1_PRINTABLESTRING, str_data = Some [0x55, 0x53, 0], str_flags = 0\<rparr>"
  have r: "ASN1_STRING_set_by_NID None zero_alloc plain_codecs (\<lambda>c. 1) None (Some [0x55, 0x53]) 2 MBSTRING_ASC
      NID_countryName = Ok s"
    unfolding s_def by code_simp
  have e: "asn1_string_table_get None NID_countryName =
      Some (entry (NID_countryName, 2, 2, B_ASN1_PRINTABLESTRING, STABLE_NO_MASK))"
    by code_simp
  from set_by_nid_limits [OF alloc_ok_zero_alloc plain_codecs_ok _ _ _ _ e refl r]
  show ?thesis using r by (auto simp: s_def)
qed

text \<open>An entry that was added for IA5String only, without \<open>STABLE_NO_MASK\<close>, makes a PrintableString.\<close>

lemma set_by_nid_outside_mask:
  "\<exists>tables s. ASN1_STRING_TABLE_add zero_alloc None None 1 (-1) (-1) B_ASN1_IA5STRING 0 = (tables, Ok ()) \<and>
    ASN1_STRING_set_by_NID tables zero_alloc plain_codecs (\<lambda>c. 1) None (Some [0x55, 0x53]) 2 MBSTRING_ASC 1 = Ok s \<and>
    str_type s = V_ASN1_PRINTABLESTRING"
proof -
  let ?e = "entry (1, -1, -1, B_ASN1_IA5STRING, 0)"
  have "ASN1_STRING_TABLE_add zero_alloc None None 1 (-1) (-1) B_ASN1_IA5STRING 0 = (Some (Map.empty(1 \<mapsto> ?e)), Ok ())"
  proof -
    have "asn1_string_table_get None 1 = None" by code_simp
    then show ?thesis by (simp add: ASN1_STRING_TABLE_add_def zero_alloc_def)
  qed
  moreover have "ASN1_STRING_set_by_NID (Some (Map.empty(1 \<mapsto> ?e))) zero_alloc plain_codecs (\<lambda>c. 1) None (Some [0x55, 0x53]) 2
      MBSTRING_ASC 1 = Ok \<lparr>str_length = 2, str_type = V_ASN1_PRINTABLESTRING, str_data = Some [0x55, 0x53, 0], str_flags = 0\<rparr>"
    by code_simp
  ultimately show ?thesis by fastforce
qed

end
