(* ===== verification/Asn1_Strex.thy ===== *)
theory Asn1_Strex
  imports Asn1_Object Asn1_Mbstring Asn1_Time
begin

text \<open>
  Printing of strings (\<open>a_strex.c\<close>, \<open>charmap.h\<close>, \<open>asn1_par.c\<close>, \<open>f_int.c\<close>, \<open>f_string.c\<close>): escaping of
  characters, dumping, and the printer \<open>ASN1_STRING_print_ex\<close>. The BIO is a state of type \<open>'b\<close> and
  \<open>BIO_write\<close> a parameter; a NULL \<open>out\<close> is \<open>None\<close>. Functions that write return the C result, -1 for an
  error, and the state. The encoding of a string as \<open>ASN1_TYPE\<close> is a parameter.
\<close>

section \<open>Flags and the character table\<close>

abbreviation (input) ASN1_STRFLGS_ESC_2253 :: int where "ASN1_STRFLGS_ESC_2253 \<equiv> 1"
abbreviation (input) ASN1_STRFLGS_ESC_CTRL :: int where "ASN1_STRFLGS_ESC_CTRL \<equiv> 2"
abbreviation (input) ASN1_STRFLGS_ESC_MSB :: int where "ASN1_STRFLGS_ESC_MSB \<equiv> 4"
abbreviation (input) ASN1_STRFLGS_ESC_QUOTE :: int where "ASN1_STRFLGS_ESC_QUOTE \<equiv> 8"

abbreviation (input) CHARTYPE_FIRST_ESC_2253 :: int where "CHARTYPE_FIRST_ESC_2253 \<equiv> 0x20"
abbreviation (input) CHARTYPE_LAST_ESC_2253 :: int where "CHARTYPE_LAST_ESC_2253 \<equiv> 0x40"
abbreviation (input) CHARTYPE_BS_ESC :: int where "CHARTYPE_BS_ESC \<equiv> 0x61"
abbreviation (input) ESC_FLAGS :: int where "ESC_FLAGS \<equiv> 0xf"

abbreviation (input) BUF_TYPE_CONVUTF8 :: int where "BUF_TYPE_CONVUTF8 \<equiv> 0x8"

definition char_type :: "int list" where
  "char_type =
     [2, 2, 2, 2, 2, 2, 2, 2, 2, 2, 2, 2, 2, 2, 2, 2,
      2, 2, 2, 2, 2, 2, 2, 2, 2, 2, 2, 2, 2, 2, 2, 2,
      120, 0, 1, 40, 0, 0, 0, 16, 16, 16, 0, 25, 25, 16, 16, 16,
      16, 16, 16, 16, 16, 16, 16, 16, 16, 16, 16, 9, 9, 16, 9, 16,
      0, 16, 16, 16, 16, 16, 16, 16, 16, 16, 16, 16, 16, 16, 16, 16,
      16, 16, 16, 16, 16, 16, 16, 16, 16, 16, 16, 0, 1, 0, 0, 0,
      0, 16, 16, 16, 16, 16, 16, 16, 16, 16, 16, 16, 16, 16, 16, 16,
      16, 16, 16, 16, 16, 16, 16, 16, 16, 16, 16, 0, 0, 0, 0, 2]"

section \<open>Writing\<close>

record 'b printer =
  pr_out :: "'b option"
  pr_quotes :: "bool option"

text \<open>The writes of one step in order; the first that falls short ends it.\<close>

fun put_chunks :: "'b bio_write \<Rightarrow> bytes list \<Rightarrow> 'b printer \<Rightarrow> bool \<times> 'b printer" where
  "put_chunks W [] st = (True, st)"
| "put_chunks W (c # cs) st =
     (case pr_out st of
        None \<Rightarrow> put_chunks W cs st
      | Some b \<Rightarrow>
          let (n, b) = W b c; st = st\<lparr>pr_out := Some b\<rparr> in
          if n = int (length c) then put_chunks W cs st else (False, st))"


definition hex_digit :: "nat \<Rightarrow> u8" where
  "hex_digit n = (if n < 10 then of_nat (48 + n) else of_nat (55 + n))"

text \<open>\<open>%0<w>X\<close> of a number of at most \<open>w\<close> hexadecimal digits.\<close>

fun hex_pad :: "nat \<Rightarrow> nat \<Rightarrow> bytes" where
  "hex_pad 0 n = []"
| "hex_pad (Suc w) n = hex_pad w (n div 16) @ [hex_digit (n mod 16)]"

text \<open>What \<open>do_esc_char\<close> writes, as its single writes, and whether it asks for quotes.\<close>

definition esc_char :: "int \<Rightarrow> int \<Rightarrow> bool \<times> bytes list" where
  "esc_char c flags =
     (if c > 0xffff then (False, [[92, 87] @ hex_pad 8 (nat c)])
      else if c > 0xff then (False, [[92, 85] @ hex_pad 4 (nat c)])
      else
        let chtmp = of_int c :: u8;
            chflgs = (if c > 0x7f then flags AND ASN1_STRFLGS_ESC_MSB else (char_type ! nat c) AND flags) in
        if chflgs AND CHARTYPE_BS_ESC \<noteq> 0 then
          if chflgs AND ASN1_STRFLGS_ESC_QUOTE \<noteq> 0 then (True, [[chtmp]]) else (False, [[92], [chtmp]])
        else if chflgs AND (ASN1_STRFLGS_ESC_CTRL OR ASN1_STRFLGS_ESC_MSB) \<noteq> 0 then
          (False, [[92] @ hex_pad 2 (nat c)])
        else if chtmp = 92 \<and> flags AND ESC_FLAGS \<noteq> 0 then (False, [[92, 92]])
        else (False, [[chtmp]]))"








section \<open>Dumping\<close>

definition hex_octet :: "u8 \<Rightarrow> bytes" where
  "hex_octet b = [hex_digit (unat b div 16), hex_digit (unat b mod 16)]"



section \<open>Printing a string\<close>



definition ascii :: "string \<Rightarrow> bytes" where
  "ascii s = map of_char s"




text \<open>\<open>ASN1_STRING_print\<close>: 80 octets at a time, others than printable ASCII and line ends as dots.\<close>

definition print_octet :: "u8 \<Rightarrow> u8" where
  "print_octet c = (if c > 126 \<or> (c < 32 \<and> c \<noteq> 10 \<and> c \<noteq> 13) then 46 else c)"

fun print_loop :: "'b bio_write \<Rightarrow> bytes \<Rightarrow> bytes \<Rightarrow> 'b \<Rightarrow> int \<times> 'b" where
  "print_loop W [] buf bp =
     (if buf \<noteq> [] then let (n, bp) = W bp buf in (if n \<le> 0 then 0 else 1, bp) else (1, bp))"
| "print_loop W (c # cs) buf bp =
     (let buf = buf @ [print_octet c] in
      if length buf \<ge> 80 then let (n, bp) = W bp buf in if n \<le> 0 then (0, bp) else print_loop W cs [] bp
      else print_loop W cs buf bp)"

definition ASN1_STRING_print :: "'b bio_write \<Rightarrow> 'b \<Rightarrow> asn1_string option \<Rightarrow> (int \<times> 'b) asn1_result" where
  "ASN1_STRING_print W bp v =
     (case v of None \<Rightarrow> Ok (0, bp)
      | Some v \<Rightarrow>
          if int (length (buffer v)) < str_length v then UB
          else Ok (print_loop W (take (nat (str_length v)) (buffer v)) [] bp))"

section \<open>Integers and strings in hexadecimal\<close>

text \<open>Two digits per octet, a backslash and line end before every 35th.\<close>

fun hex_lines :: "nat \<Rightarrow> bytes \<Rightarrow> bytes list" where
  "hex_lines i [] = []"
| "hex_lines i (b # bs) =
     (if i \<noteq> 0 \<and> i mod 35 = 0 then [[92, 10]] else []) @ [hex_octet b] @ hex_lines (i + 1) bs"

definition write_chunks :: "'b bio_write \<Rightarrow> bytes list \<Rightarrow> 'b \<Rightarrow> int \<times> 'b option" where
  "write_chunks W chunks bp =
     (let (ok, st) = put_chunks W chunks \<lparr>pr_out = Some bp, pr_quotes = None\<rparr>
      in (if ok then int (length (concat chunks)) else -1, pr_out st))"

definition i2a_ASN1_INTEGER :: "'b bio_write \<Rightarrow> 'b \<Rightarrow> asn1_string option \<Rightarrow> (int \<times> 'b option) asn1_result" where
  "i2a_ASN1_INTEGER W bp a =
     (case a of None \<Rightarrow> Ok (0, Some bp)
      | Some a \<Rightarrow>
          let sign = (if str_type a AND V_ASN1_NEG \<noteq> 0 then [[45]] else []) in
          if str_length a = 0 then Ok (write_chunks W (sign @ [[48, 48]]) bp)
          else if int (length (buffer a)) < str_length a then UB
          else Ok (write_chunks W (sign @ hex_lines 0 (take (nat (str_length a)) (buffer a))) bp))"

definition i2a_ASN1_ENUMERATED :: "'b bio_write \<Rightarrow> 'b \<Rightarrow> asn1_string option \<Rightarrow> (int \<times> 'b option) asn1_result" where
  "i2a_ASN1_ENUMERATED W bp a = i2a_ASN1_INTEGER W bp a"

definition i2a_ASN1_STRING :: "'b bio_write \<Rightarrow> 'b \<Rightarrow> asn1_string option \<Rightarrow> int \<Rightarrow> (int \<times> 'b option) asn1_result" where
  "i2a_ASN1_STRING W bp a type =
     (case a of None \<Rightarrow> Ok (0, Some bp)
      | Some a \<Rightarrow>
          if str_length a = 0 then Ok (write_chunks W [[48]] bp)
          else if int (length (buffer a)) < str_length a then UB
          else Ok (write_chunks W (hex_lines 0 (take (nat (str_length a)) (buffer a))) bp))"

section \<open>Printing times\<close>

definition mon :: "string list" where
  "mon = [''Jan'', ''Feb'', ''Mar'', ''Apr'', ''May'', ''Jun'', ''Jul'', ''Aug'', ''Sep'', ''Oct'', ''Nov'', ''Dec'']"

text \<open>\<open>%2d\<close> and \<open>%d\<close> of a number that is not negative.\<close>

definition fmt_2d :: "int \<Rightarrow> bytes" where
  "fmt_2d n = (let ds = dec_digits (nat n) in replicate (2 - length ds) 32 @ ds)"

definition printed_time :: "int \<Rightarrow> int \<Rightarrow> int \<Rightarrow> int \<Rightarrow> int \<Rightarrow> bytes \<Rightarrow> int \<Rightarrow> bool \<Rightarrow> bytes" where
  "printed_time M d h m s frac y gmt =
     ascii (mon ! nat (M - 1)) @ [32] @ fmt_2d d @ [32] @ fmt_0d 2 h @ [58] @ fmt_0d 2 m @ [58] @ fmt_0d 2 s @
     frac @ [32] @ dec_digits (nat y) @ (if gmt then ascii '' GMT'' else [])"

text \<open>\<open>BIO_printf\<close> writes the formatted text and gives the count; the result is 1 or 0.\<close>

definition time_printf :: "'b bio_write \<Rightarrow> 'b \<Rightarrow> bytes \<Rightarrow> int \<times> 'b" where
  "time_printf W bp text = (let (n, bp) = W bp text in (if n \<le> 0 then 0 else 1, bp))"

definition bad_time :: "'b bio_write \<Rightarrow> 'b \<Rightarrow> int \<times> 'b" where
  "bad_time W bp = (0, snd (W bp (ascii ''Bad time value'')))"

definition is_digit :: "u8 \<Rightarrow> bool" where
  "is_digit c \<longleftrightarrow> 48 \<le> c \<and> c \<le> 57"

definition digit :: "u8 \<Rightarrow> int" where
  "digit c = uint c - 48"

definition two_at :: "bytes \<Rightarrow> nat \<Rightarrow> int" where
  "two_at v i = digit (v ! i) * 10 + digit (v ! (i + 1))"

definition ASN1_GENERALIZEDTIME_print :: "'b bio_write \<Rightarrow> 'b \<Rightarrow> asn1_string \<Rightarrow> (int \<times> 'b) asn1_result" where
  "ASN1_GENERALIZEDTIME_print W bp tm =
     (let len = str_length tm; v = buffer tm in
      if len < 12 then Ok (bad_time W bp)
      else if int (length v) < len then UB
      else
        let gmt = (v ! nat (len - 1) = 90) in
        if \<not> list_all is_digit (take 12 v) then Ok (bad_time W bp)
        else
          let y = digit (v ! 0) * 1000 + digit (v ! 1) * 100 + digit (v ! 2) * 10 + digit (v ! 3); M = two_at v 4 in
          if M > 12 \<or> M < 1 then Ok (bad_time W bp)
          else
            let secs = (len \<ge> 14 \<and> is_digit (v ! 12) \<and> is_digit (v ! 13));
                s = (if secs then two_at v 12 else 0);
                frac = (if secs \<and> len \<ge> 15 \<and> v ! 14 = 46
                        then 46 # takeWhile is_digit (drop 15 (take (nat len) v)) else [])
            in Ok (time_printf W bp (printed_time M (two_at v 6) (two_at v 8) (two_at v 10) s frac y gmt)))"

text \<open>The number and the rest of the \<open>len\<close> octets; \<open>None\<close> for a return of 0.\<close>

definition consume_two_digits :: "bytes \<Rightarrow> (int \<times> bytes) option" where
  "consume_two_digits v =
     (if length v < 2 \<or> \<not> is_digit (v ! 0) \<or> \<not> is_digit (v ! 1) then None
      else Some (digit (v ! 0) * 10 + digit (v ! 1), drop 2 v))"

definition consume_zulu_timezone :: "bytes \<Rightarrow> bool \<times> bytes" where
  "consume_zulu_timezone v = (if v = [] \<or> v ! 0 \<noteq> 90 then (False, v) else (True, drop 1 v))"

fun consume_fields :: "nat \<Rightarrow> bytes \<Rightarrow> (int list \<times> bytes) option" where
  "consume_fields 0 v = Some ([], v)"
| "consume_fields (Suc n) v =
     (case consume_two_digits v of None \<Rightarrow> None
      | Some (x, v) \<Rightarrow> map_option (\<lambda>(xs, v). (x # xs, v)) (consume_fields n v))"

definition ASN1_UTCTIME_print :: "'b bio_write \<Rightarrow> 'b \<Rightarrow> asn1_string \<Rightarrow> (int \<times> 'b) asn1_result" where
  "ASN1_UTCTIME_print W bp tm =
     (if int (length (buffer tm)) < str_length tm then UB
      else case consume_fields 5 (take (nat (str_length tm)) (buffer tm)) of
        None \<Rightarrow> Ok (bad_time W bp)
      | Some (f, v) \<Rightarrow>
          let (s, v) = (case consume_two_digits v of None \<Rightarrow> (0, v) | Some (s, v) \<Rightarrow> (s, v));
              Y = f ! 0; M = f ! 1; D = f ! 2; h = f ! 3; m = f ! 4;
              Y = (if Y < 50 then Y + 2000 else Y + 1900) in
          if M > 12 \<or> M = 0 then Ok (bad_time W bp)
          else if D > 31 \<or> D = 0 then Ok (bad_time W bp)
          else if h > 23 \<or> m > 59 \<or> s > 60 then Ok (bad_time W bp)
          else
            let (gmt, v) = consume_zulu_timezone v in
            if v \<noteq> [] then Ok (bad_time W bp)
            else Ok (time_printf W bp (printed_time M D h m s [] Y gmt)))"

definition ASN1_TIME_print :: "'b bio_write \<Rightarrow> 'b \<Rightarrow> asn1_string \<Rightarrow> (int \<times> 'b) asn1_result" where
  "ASN1_TIME_print W bp tm =
     (if str_type tm = V_ASN1_UTCTIME then ASN1_UTCTIME_print W bp tm
      else if str_type tm = V_ASN1_GENERALIZEDTIME then ASN1_GENERALIZEDTIME_print W bp tm
      else Ok (bad_time W bp))"

section \<open>What is written is what is counted\<close>

text \<open>A BIO that takes everything, and the text a printer has put there.\<close>

definition mem_write :: "bytes bio_write" where
  "mem_write b buf = (int (length buf), b @ buf)"

lemma put_chunks_mem [simp]:
  "put_chunks mem_write cs \<lparr>pr_out = Some b, pr_quotes = q\<rparr> = (True, \<lparr>pr_out = Some (b @ concat cs), pr_quotes = q\<rparr>)"
  by (induction cs arbitrary: b) (simp_all add: mem_write_def)

lemma put_chunks_null [simp]: "pr_out st = None \<Longrightarrow> put_chunks W cs st = (True, st)"
  by (induction cs) simp_all

definition esc_text :: "int \<Rightarrow> int \<Rightarrow> bytes" where
  "esc_text c flags = concat (snd (esc_char c flags))"

definition quoted :: "bool option \<Rightarrow> bool \<Rightarrow> bool option" where
  "quoted q b = (if b \<and> q \<noteq> None then Some True else q)"





lemma quoted_quoted [simp]: "quoted (quoted q a) b = quoted q (a \<or> b)"
  by (simp add: quoted_def)


section \<open>The text of a string\<close>


definition char_text :: "int \<Rightarrow> int \<Rightarrow> int \<Rightarrow> bytes" where
  "char_text type flags c =
     (if type AND BUF_TYPE_CONVUTF8 \<noteq> 0
      then concat (map (\<lambda>b. esc_text (uint b) flags) (snd (UTF8_putc (Some 6) c))) else esc_text c flags)"


definition pos_flags :: "int \<Rightarrow> bool \<Rightarrow> bool \<Rightarrow> int" where
  "pos_flags flags first final =
     (if flags AND ASN1_STRFLGS_ESC_2253 = 0 then flags
      else if final then flags OR CHARTYPE_LAST_ESC_2253
      else if first then flags OR CHARTYPE_FIRST_ESC_2253 else flags)"

fun seq_text :: "int \<Rightarrow> int \<Rightarrow> bool \<Rightarrow> int list \<Rightarrow> bytes" where
  "seq_text type flags first [] = []"
| "seq_text type flags first (c # cs) = char_text type (pos_flags flags first (cs = [])) c @ seq_text type flags False cs"









section \<open>The whole text\<close>












section \<open>Escaping loses nothing\<close>





lemma length_hex_pad [simp]: "length (hex_pad w n) = w"
  by (induction w arbitrary: n) simp_all
















text \<open>
  A leading \<open>#\<close> is escaped under RFC 2253 only when another character follows: in \<open>do_buf\<close> the flag of the
  last position replaces that of the first one.
\<close>

theorem single_hash_unescaped:
  "seq_text 1 ASN1_STRFLGS_ESC_2253 True [35] = [35] \<and> seq_text 1 ASN1_STRFLGS_ESC_2253 True [35, 97] = [92, 35, 97]"
  by code_simp

end
