(* ===== verification/Asn1_Item.thy ===== *)
theory Asn1_Item
  imports Asn1_Integer Asn1_Object Asn1_Cmp
begin

text \<open>
  The items and templates that describe ASN.1 types, the values they describe, and the access to a
  value's fields (\<open>tasn_utl.c\<close>). Memory is a tree: a pointer of the code is the value it points to, \<open>NullP\<close>
  when it is NULL; a structure is its header and its fields, and a field's \<open>offset\<close> is its index among
  them (so the size of a structure counts fields). Items refer to each other through the environment,
  as the code does through \<open>ASN1_ITEM_ptr\<close>, because they may be recursive. The declarations of
  \<open>asn1t.h\<close> (not in the repository) are the records; the functions an item may point to (external types,
  the \<open>asn1_cb\<close> of structures), reference counters and the object table are parameters.
\<close>

section \<open>Flags\<close>

abbreviation (input) ASN1_TFLG_OPTIONAL :: int where "ASN1_TFLG_OPTIONAL \<equiv> 0x1"
abbreviation (input) ASN1_TFLG_SET_OF :: int where "ASN1_TFLG_SET_OF \<equiv> 0x2"
abbreviation (input) ASN1_TFLG_SEQUENCE_OF :: int where "ASN1_TFLG_SEQUENCE_OF \<equiv> 0x4"
abbreviation (input) ASN1_TFLG_SK_MASK :: int where "ASN1_TFLG_SK_MASK \<equiv> 0x6"
abbreviation (input) ASN1_TFLG_IMPTAG :: int where "ASN1_TFLG_IMPTAG \<equiv> 0x8"
abbreviation (input) ASN1_TFLG_EXPTAG :: int where "ASN1_TFLG_EXPTAG \<equiv> 0x10"
abbreviation (input) ASN1_TFLG_TAG_MASK :: int where "ASN1_TFLG_TAG_MASK \<equiv> 0x18"
abbreviation (input) ASN1_TFLG_TAG_CLASS :: int where "ASN1_TFLG_TAG_CLASS \<equiv> 0xc0"
abbreviation (input) ASN1_TFLG_ADB_MASK :: int where "ASN1_TFLG_ADB_MASK \<equiv> 0x300"
abbreviation (input) ASN1_TFLG_ADB_OID :: int where "ASN1_TFLG_ADB_OID \<equiv> 0x100"
abbreviation (input) ASN1_TFLG_COMBINE :: int where "ASN1_TFLG_COMBINE \<equiv> 0x400"

abbreviation (input) ASN1_AFLG_REFCOUNT :: int where "ASN1_AFLG_REFCOUNT \<equiv> 1"
abbreviation (input) ASN1_AFLG_ENCODING :: int where "ASN1_AFLG_ENCODING \<equiv> 2"

section \<open>Values\<close>

text \<open>\<open>ASN1_ENCODING\<close>: the received encoding a structure may keep.\<close>

record enc_cache =
  enc_octets :: "bytes option"
  enc_len :: int
  enc_modified :: bool
  enc_alias :: bool
  enc_alias_next :: bool

text \<open>What a structure holds beside its fields: the selector of a CHOICE, the counter, the encoding.\<close>

record struct_head =
  sh_selector :: int
  sh_refs :: int
  sh_enc :: enc_cache

definition zero_head :: struct_head where
  "zero_head = \<lparr>sh_selector = 0, sh_refs = 0,
     sh_enc = \<lparr>enc_octets = None, enc_len = 0, enc_modified = False, enc_alias = False, enc_alias_next = False\<rparr>\<rparr>"

text \<open>
  \<open>OneP\<close> is the pointer \<open>(ASN1_VALUE *)1\<close> that stands for a NULL value; \<open>BoolF\<close> an \<open>ASN1_BOOLEAN\<close>, which is
  not a pointer; \<open>TypeP\<close> an \<open>ASN1_TYPE\<close> with its type and union; \<open>ExtP\<close> a value of an external type.
\<close>

datatype 'x asn1_value =
    NullP
  | StrP asn1_string
  | ObjP asn1_object
  | BoolF int
  | OneP
  | TypeP int "'x asn1_value"
  | StackP "'x asn1_value list"
  | StructP struct_head "'x asn1_value list"
  | ExtP 'x

text \<open>The blocks of memory a deallocation releases.\<close>

datatype 'x block = StrB asn1_string | ObjB asn1_object | TypeB int | StackB nat | StructB struct_head nat | EncB "bytes option" | ExtB 'x

section \<open>Items\<close>

record asn1_template =
  tt_flags :: int
  tt_tag :: int
  tt_offset :: nat
  tt_item :: nat

text \<open>The table of an ANY DEFINED BY field.\<close>

record asn1_adb =
  adb_offset :: nat
  adb_tbl :: "(int \<times> asn1_template) list"
  adb_default :: "asn1_template option"
  adb_null :: "asn1_template option"

datatype asn1_op = OP_NEW_PRE | OP_NEW_POST | OP_FREE_PRE | OP_FREE_POST | OP_D2I_PRE | OP_D2I_POST

record 'x asn1_aux =
  aux_flags :: int
  aux_cb :: "(asn1_op \<Rightarrow> 'x asn1_value \<Rightarrow> 'x asn1_value \<times> int) option"

text \<open>The header the decoder has read and may read again: \<open>ret\<close>, \<open>plen\<close>, \<open>ptag\<close>, \<open>pclass\<close> and \<open>hdrlen\<close>.\<close>

type_synonym tlc = "(int \<times> int \<times> int \<times> int \<times> nat) option"

record 'x extern_funcs =
  ex_new :: "('x asn1_value \<Rightarrow> 'x asn1_value \<times> bool) option"
  ex_free :: "('x asn1_value \<Rightarrow> 'x asn1_value \<times> 'x block list) option"
  ex_clear :: "('x asn1_value \<Rightarrow> 'x asn1_value) option"
  ex_d2i :: "'x asn1_value \<Rightarrow> bytes \<Rightarrow> int \<Rightarrow> int \<Rightarrow> int \<Rightarrow> bool \<Rightarrow> tlc \<Rightarrow> bool asn1_result \<times> 'x asn1_value \<times> bytes \<times> tlc"
  ex_i2d :: "'x asn1_value \<Rightarrow> bytes option \<Rightarrow> int \<Rightarrow> int \<Rightarrow> (int \<times> bytes option) asn1_result"

datatype item_type = ITYPE_PRIMITIVE | ITYPE_SEQUENCE | ITYPE_CHOICE | ITYPE_EXTERN | ITYPE_MSTRING | ITYPE_UNKNOWN

record 'x asn1_item =
  it_itype :: item_type
  it_utype :: int
  it_templates :: "asn1_template list"
  it_aux :: "'x asn1_aux option"
  it_ext :: "'x extern_funcs option"
  it_size :: int

text \<open>
  What the code finds outside itself: the items and tables behind the pointers of the templates, the
  reference counters, the object table, and how deep its recursion may go before the C stack is used up.
\<close>

record 'x asn1_env =
  env_item :: "nat \<Rightarrow> 'x asn1_item"
  env_adb :: "nat \<Rightarrow> asn1_adb"
  env_refcount_dec :: "int \<Rightarrow> int \<times> bool"
  env_undef_obj :: asn1_object
  env_obj2nid :: "asn1_object \<Rightarrow> int"
  env_stack :: nat

section \<open>Access to fields\<close>

fun asn1_get_choice_selector :: "'x asn1_value \<Rightarrow> int asn1_result" where
  "asn1_get_choice_selector (StructP h vs) = Ok (sh_selector h)"
| "asn1_get_choice_selector _ = UB"

fun asn1_set_choice_selector :: "'x asn1_value \<Rightarrow> int \<Rightarrow> 'x asn1_value asn1_result" where
  "asn1_set_choice_selector (StructP h vs) i = Ok (StructP (h\<lparr>sh_selector := i\<rparr>) vs)"
| "asn1_set_choice_selector _ i = UB"

definition has_aflag :: "'x asn1_item \<Rightarrow> int \<Rightarrow> bool" where
  "has_aflag it f = (case it_aux it of None \<Rightarrow> False | Some aux \<Rightarrow> aux_flags aux AND f \<noteq> 0)"

definition counted :: "'x asn1_item \<Rightarrow> bool" where
  "counted it \<longleftrightarrow> it_itype it = ITYPE_SEQUENCE \<and> has_aflag it ASN1_AFLG_REFCOUNT"

fun asn1_refcount_set_one :: "'x asn1_value \<Rightarrow> 'x asn1_item \<Rightarrow> 'x asn1_value asn1_result" where
  "asn1_refcount_set_one (StructP h vs) it = Ok (StructP (if counted it then h\<lparr>sh_refs := 1\<rparr> else h) vs)"
| "asn1_refcount_set_one v it = UB"

text \<open>The value with its counter decremented, and whether it may be freed.\<close>

fun asn1_refcount_dec_and_test_zero ::
    "'x asn1_env \<Rightarrow> 'x asn1_value \<Rightarrow> 'x asn1_item \<Rightarrow> ('x asn1_value \<times> bool) asn1_result" where
  "asn1_refcount_dec_and_test_zero env (StructP h vs) it =
     (if counted it
      then (case env_refcount_dec env (sh_refs h) of (n, zero) \<Rightarrow> Ok (StructP (h\<lparr>sh_refs := n\<rparr>) vs, zero))
      else Ok (StructP h vs, True))"
| "asn1_refcount_dec_and_test_zero env v it = (if counted it then UB else Ok (v, True))"

text \<open>\<open>asn1_get_enc_ptr\<close>: whether the value keeps its encoding.\<close>

fun asn1_get_enc_ptr :: "'x asn1_value \<Rightarrow> 'x asn1_item \<Rightarrow> enc_cache option" where
  "asn1_get_enc_ptr (StructP h vs) it = (if has_aflag it ASN1_AFLG_ENCODING then Some (sh_enc h) else None)"
| "asn1_get_enc_ptr _ it = None"

fun put_enc :: "enc_cache \<Rightarrow> 'x asn1_value \<Rightarrow> 'x asn1_value" where
  "put_enc e (StructP h vs) = StructP (h\<lparr>sh_enc := e\<rparr>) vs"
| "put_enc e v = v"

definition no_enc :: enc_cache where
  "no_enc = \<lparr>enc_octets = None, enc_len = 0, enc_modified = True, enc_alias = False, enc_alias_next = False\<rparr>"

definition asn1_enc_init :: "'x asn1_value \<Rightarrow> 'x asn1_item \<Rightarrow> 'x asn1_value" where
  "asn1_enc_init v it = (case asn1_get_enc_ptr v it of None \<Rightarrow> v | Some _ \<Rightarrow> put_enc no_enc v)"

definition asn1_enc_free :: "'x asn1_value \<Rightarrow> 'x asn1_item \<Rightarrow> 'x asn1_value \<times> 'x block list" where
  "asn1_enc_free v it =
     (case asn1_get_enc_ptr v it of None \<Rightarrow> (v, [])
      | Some e \<Rightarrow> (put_enc no_enc v, if enc_octets e \<noteq> None \<and> \<not> enc_alias e then [EncB (enc_octets e)] else []))"

text \<open>
  \<open>asn1_enc_save\<close>: the first octets of the input are copied, or pointed to when the structure was told
  to. \<open>fresh\<close> is the answer to the allocation.
\<close>

definition asn1_enc_save :: "bytes option \<Rightarrow> 'x asn1_value \<Rightarrow> bytes \<Rightarrow> int \<Rightarrow> 'x asn1_item \<Rightarrow> 'x asn1_value asn1_result \<times> 'x asn1_value" where
  "asn1_enc_save fresh v input inlen it =
     (case asn1_get_enc_ptr v it of None \<Rightarrow> (Ok v, v)
      | Some e \<Rightarrow>
          let e = e\<lparr>enc_alias := enc_alias_next e, enc_alias_next := False\<rparr> in
          if enc_alias e
          then (let w = put_enc (e\<lparr>enc_octets := Some input, enc_len := inlen, enc_modified := False\<rparr>) v in (Ok w, w))
          else if length input < nat inlen then (UB, v)
          else case fresh of
              None \<Rightarrow> (Fail NO_REASON, put_enc (e\<lparr>enc_octets := None\<rparr>) v)
            | Some b \<Rightarrow>
                (case memcpy_at b 0 (take (nat inlen) input) of
                   None \<Rightarrow> (UB, v)
                 | Some b \<Rightarrow>
                     let w = put_enc (e\<lparr>enc_octets := Some b, enc_len := inlen, enc_modified := False\<rparr>) v in (Ok w, w)))"

text \<open>The length and the octets of a valid saved encoding, \<open>None\<close> when there is none.\<close>

definition asn1_enc_restore :: "'x asn1_value \<Rightarrow> 'x asn1_item \<Rightarrow> bytes option \<Rightarrow> (int \<times> bytes option) option asn1_result" where
  "asn1_enc_restore v it out =
     (case asn1_get_enc_ptr v it of None \<Rightarrow> Ok None
      | Some e \<Rightarrow>
          if enc_modified e then Ok None
          else case out of None \<Rightarrow> Ok (Some (enc_len e, None))
            | Some b \<Rightarrow>
                (case enc_octets e of
                   None \<Rightarrow> if enc_len e = 0 then Ok (Some (enc_len e, Some b)) else UB
                 | Some d \<Rightarrow> if enc_len e < 0 \<or> int (length d) < enc_len e then UB
                            else Ok (Some (enc_len e, Some (b @ take (nat (enc_len e)) d)))))"

text \<open>\<open>asn1_get_field_ptr\<close>: the field a template describes; a combined one is the structure itself.\<close>

fun field_at :: "'x asn1_value \<Rightarrow> nat \<Rightarrow> 'x asn1_value asn1_result" where
  "field_at (StructP h vs) n = (if n < length vs then Ok (vs ! n) else UB)"
| "field_at _ n = UB"

fun put_field_at :: "'x asn1_value \<Rightarrow> nat \<Rightarrow> 'x asn1_value \<Rightarrow> 'x asn1_value" where
  "put_field_at (StructP h vs) n x = StructP h (vs[n := x])"
| "put_field_at v n x = v"

definition asn1_get_field_ptr :: "'x asn1_value \<Rightarrow> asn1_template \<Rightarrow> 'x asn1_value asn1_result" where
  "asn1_get_field_ptr v tt =
     (if tt_flags tt AND ASN1_TFLG_COMBINE \<noteq> 0 then Ok v else field_at v (tt_offset tt))"

definition put_field :: "'x asn1_value \<Rightarrow> asn1_template \<Rightarrow> 'x asn1_value \<Rightarrow> 'x asn1_value" where
  "put_field v tt x = (if tt_flags tt AND ASN1_TFLG_COMBINE \<noteq> 0 then x else put_field_at v (tt_offset tt) x)"

text \<open>
  \<open>asn1_do_adb\<close>: the template that stands for an ANY DEFINED BY field, chosen by the value of the
  selector field. \<open>Fail\<close> is the NULL it returns when no entry fits.
\<close>

definition adb_selector :: "'x asn1_env \<Rightarrow> asn1_template \<Rightarrow> 'x asn1_value \<Rightarrow> int asn1_result" where
  "adb_selector env tt v =
     (if tt_flags tt AND ASN1_TFLG_ADB_OID \<noteq> 0
      then (case v of ObjP a \<Rightarrow> Ok (env_obj2nid env a) | _ \<Rightarrow> UB)
      else (case v of StrP s \<Rightarrow> ASN1_INTEGER_get (Some s) | _ \<Rightarrow> UB))"

definition adb_entry :: "asn1_template option \<Rightarrow> asn1_template asn1_result" where
  "adb_entry e = (case e of None \<Rightarrow> Fail UNSUPPORTED_ANY_DEFINED_BY_TYPE | Some tt \<Rightarrow> Ok tt)"

definition asn1_do_adb :: "'x asn1_env \<Rightarrow> 'x asn1_value \<Rightarrow> asn1_template \<Rightarrow> asn1_template asn1_result" where
  "asn1_do_adb env v tt =
     (if tt_flags tt AND ASN1_TFLG_ADB_MASK = 0 then Ok tt
      else
        let adb = env_adb env (tt_item tt) in
        bind_outcome (field_at v (adb_offset adb))
          (\<lambda>sfld.
             if sfld = NullP then adb_entry (adb_null adb)
             else bind_outcome (adb_selector env tt sfld)
               (\<lambda>selector. case map_of (adb_tbl adb) selector of
                  Some atbl \<Rightarrow> Ok atbl
                | None \<Rightarrow> adb_entry (adb_default adb))))"

text \<open>A call of \<open>asn1_cb\<close>, when there is one.\<close>

definition call_aux :: "'x asn1_item \<Rightarrow> asn1_op \<Rightarrow> 'x asn1_value \<Rightarrow> 'x asn1_value \<times> int" where
  "call_aux it op v =
     (case it_aux it of None \<Rightarrow> (v, 1)
      | Some aux \<Rightarrow> (case aux_cb aux of None \<Rightarrow> (v, 1) | Some cb \<Rightarrow> cb op v))"

end
