(* ===== verification/Asn1_Alloc.thy ===== *)
theory Asn1_Alloc
  imports Asn1_Item
begin

text \<open>
  Allocation and deallocation of values by their items (\<open>tasn_new.c\<close>, \<open>tasn_fre.c\<close>) and the ANY type
  (\<open>a_type.c\<close>). Each operation takes the pointer's value and gives it back; a deallocation also gives the
  blocks it released, in order. Allocations are numbered by a clock \<open>k\<close>, and an allocation of a structure
  asks for as many octets as the model has fields. The recursion of the code through the items is the body of
  an operation over the operation itself (\<open>rec\<close>), unrolled as deep as the C stack allows; going deeper is \<open>UB\<close>.
\<close>

section \<open>Deallocation\<close>

text \<open>\<open>ASN1_primitive_free\<close> with a NULL item: the union of an \<open>ASN1_TYPE\<close> of type \<open>t\<close>.\<close>

fun free_type_value :: "int \<Rightarrow> 'x asn1_value \<Rightarrow> ('x asn1_value \<times> 'x block list) asn1_result" where
  "free_type_value t (TypeP t' v) =
     (if t = V_ASN1_BOOLEAN then Ok (BoolF (-1), [])
      else if t = V_ASN1_NULL then Ok (NullP, [])
      else if t = V_ASN1_ANY then bind_outcome (free_type_value t' v) (\<lambda>(w, log). Ok (NullP, log @ [TypeB t']))
      else UB)"
| "free_type_value t v =
     (if t \<noteq> V_ASN1_BOOLEAN \<and> v = NullP then Ok (v, [])
      else if t = V_ASN1_OBJECT then (case v of ObjP a \<Rightarrow> Ok (NullP, [ObjB a]) | _ \<Rightarrow> UB)
      else if t = V_ASN1_BOOLEAN then Ok (BoolF (-1), [])
      else if t = V_ASN1_NULL then Ok (NullP, [])
      else if t = V_ASN1_ANY then UB
      else (case v of StrP s \<Rightarrow> Ok (NullP, [StrB s]) | _ \<Rightarrow> UB))"

definition ASN1_primitive_free :: "'x asn1_value \<Rightarrow> 'x asn1_item \<Rightarrow> ('x asn1_value \<times> 'x block list) asn1_result" where
  "ASN1_primitive_free v it =
     (let utype = (if it_itype it = ITYPE_MSTRING then -1 else it_utype it) in
      if utype \<noteq> V_ASN1_BOOLEAN \<and> v = NullP then Ok (v, [])
      else if utype = V_ASN1_OBJECT then (case v of ObjP a \<Rightarrow> Ok (NullP, [ObjB a]) | _ \<Rightarrow> UB)
      else if utype = V_ASN1_BOOLEAN then Ok (BoolF (it_size it), [])
      else if utype = V_ASN1_NULL then Ok (NullP, [])
      else if utype = V_ASN1_ANY
        then (case v of TypeP t w \<Rightarrow> bind_outcome (free_type_value t w) (\<lambda>(w, log). Ok (NullP, log @ [TypeB t])) | _ \<Rightarrow> UB)
      else (case v of StrP s \<Rightarrow> Ok (NullP, [StrB s]) | _ \<Rightarrow> UB))"

type_synonym 'x freeing = "'x asn1_value \<Rightarrow> 'x asn1_item \<Rightarrow> bool \<Rightarrow> ('x asn1_value \<times> 'x block list) asn1_result"

fun free_each :: "'x freeing \<Rightarrow> 'x asn1_item \<Rightarrow> 'x asn1_value list \<Rightarrow> 'x block list asn1_result" where
  "free_each rec it [] = Ok []"
| "free_each rec it (v # vs) =
     bind_outcome (rec v it False) (\<lambda>(_, log). bind_outcome (free_each rec it vs) (\<lambda>log'. Ok (log @ log')))"

definition ASN1_template_free_with ::
    "'x asn1_env \<Rightarrow> 'x freeing \<Rightarrow> 'x asn1_value \<Rightarrow> asn1_template \<Rightarrow> ('x asn1_value \<times> 'x block list) asn1_result" where
  "ASN1_template_free_with env rec v tt =
     (let it = env_item env (tt_item tt) in
      if tt_flags tt AND ASN1_TFLG_SK_MASK \<noteq> 0
      then (case v of
              NullP \<Rightarrow> Ok (NullP, [])
            | StackP vs \<Rightarrow> bind_outcome (free_each rec it vs) (\<lambda>log. Ok (NullP, log @ [StackB (length vs)]))
            | _ \<Rightarrow> UB)
      else rec v it (tt_flags tt AND ASN1_TFLG_COMBINE \<noteq> 0))"

text \<open>The field of a template is freed in its place.\<close>

definition free_field ::
    "'x asn1_env \<Rightarrow> 'x freeing \<Rightarrow> 'x asn1_value \<Rightarrow> asn1_template \<Rightarrow> ('x asn1_value \<times> 'x block list) asn1_result" where
  "free_field env rec v tt =
     bind_outcome (asn1_get_field_ptr v tt) (\<lambda>f.
     bind_outcome (ASN1_template_free_with env rec f tt) (\<lambda>(f, log). Ok (put_field v tt f, log)))"

text \<open>The fields of a structure; one whose ANY DEFINED BY has no entry is skipped.\<close>

fun free_fields ::
    "'x asn1_env \<Rightarrow> 'x freeing \<Rightarrow> asn1_template list \<Rightarrow> 'x asn1_value \<Rightarrow> ('x asn1_value \<times> 'x block list) asn1_result" where
  "free_fields env rec [] v = Ok (v, [])"
| "free_fields env rec (tt # tts) v =
     (case asn1_do_adb env v tt of
        UB \<Rightarrow> UB
      | Fail _ \<Rightarrow> free_fields env rec tts v
      | Ok seqtt \<Rightarrow>
          bind_outcome (free_field env rec v seqtt) (\<lambda>(v, log).
          bind_outcome (free_fields env rec tts v) (\<lambda>(v, log'). Ok (v, log @ log'))))"

definition release_struct :: "bool \<Rightarrow> 'x asn1_value \<Rightarrow> 'x block list \<Rightarrow> ('x asn1_value \<times> 'x block list) asn1_result" where
  "release_struct combine v log =
     (if combine then Ok (v, log)
      else case v of StructP h vs \<Rightarrow> Ok (NullP, log @ [StructB h (length vs)]) | _ \<Rightarrow> UB)"

definition free_choice :: "'x asn1_env \<Rightarrow> 'x freeing \<Rightarrow> 'x freeing" where
  "free_choice env rec v it combine =
     (case call_aux it OP_FREE_PRE v of (v, i) \<Rightarrow>
        if i = 2 then Ok (v, [])
        else bind_outcome (asn1_get_choice_selector v) (\<lambda>i.
          bind_outcome (if 0 \<le> i \<and> i < int (length (it_templates it))
                        then free_field env rec v (it_templates it ! nat i) else Ok (v, []))
            (\<lambda>(v, log). release_struct combine (fst (call_aux it OP_FREE_POST v)) log)))"

definition free_sequence :: "'x asn1_env \<Rightarrow> 'x freeing \<Rightarrow> 'x freeing" where
  "free_sequence env rec v it combine =
     bind_outcome (asn1_refcount_dec_and_test_zero env v it) (\<lambda>(v, zero).
       if \<not> zero then Ok (v, [])
       else case call_aux it OP_FREE_PRE v of (v, i) \<Rightarrow>
         if i = 2 then Ok (v, [])
         else case asn1_enc_free v it of (v, log) \<Rightarrow>
           bind_outcome (free_fields env rec (rev (it_templates it)) v) (\<lambda>(v, log').
             release_struct combine (fst (call_aux it OP_FREE_POST v)) (log @ log')))"

definition item_free :: "'x asn1_env \<Rightarrow> 'x freeing \<Rightarrow> 'x freeing" where
  "item_free env rec v it combine =
     (if it_itype it \<noteq> ITYPE_PRIMITIVE \<and> v = NullP then Ok (v, [])
      else case it_itype it of
        ITYPE_PRIMITIVE \<Rightarrow>
          (case it_templates it of [] \<Rightarrow> ASN1_primitive_free v it | tt # _ \<Rightarrow> ASN1_template_free_with env rec v tt)
      | ITYPE_MSTRING \<Rightarrow> ASN1_primitive_free v it
      | ITYPE_CHOICE \<Rightarrow> free_choice env rec v it combine
      | ITYPE_EXTERN \<Rightarrow>
          (case it_ext it of None \<Rightarrow> Ok (v, [])
           | Some ef \<Rightarrow> (case ex_free ef of None \<Rightarrow> Ok (v, []) | Some f \<Rightarrow> Ok (f v)))
      | ITYPE_SEQUENCE \<Rightarrow> free_sequence env rec v it combine
      | ITYPE_UNKNOWN \<Rightarrow> Ok (v, []))"

fun item_combine_free :: "'x asn1_env \<Rightarrow> nat \<Rightarrow> 'x freeing" where
  "item_combine_free env 0 = (\<lambda>v it combine. UB)"
| "item_combine_free env (Suc n) = item_free env (item_combine_free env n)"

definition asn1_item_combine_free :: "'x asn1_env \<Rightarrow> 'x freeing" where
  "asn1_item_combine_free env = item_combine_free env (env_stack env)"

definition ASN1_item_ex_free :: "'x asn1_env \<Rightarrow> 'x asn1_value \<Rightarrow> 'x asn1_item \<Rightarrow> ('x asn1_value \<times> 'x block list) asn1_result" where
  "ASN1_item_ex_free env v it = asn1_item_combine_free env v it False"

definition ASN1_item_free :: "'x asn1_env \<Rightarrow> 'x asn1_value \<Rightarrow> 'x asn1_item \<Rightarrow> 'x block list asn1_result" where
  "ASN1_item_free env v it = bind_outcome (asn1_item_combine_free env v it False) (\<lambda>(_, log). Ok log)"

definition ASN1_template_free ::
    "'x asn1_env \<Rightarrow> 'x asn1_value \<Rightarrow> asn1_template \<Rightarrow> ('x asn1_value \<times> 'x block list) asn1_result" where
  "ASN1_template_free env v tt = ASN1_template_free_with env (asn1_item_combine_free env) v tt"

section \<open>Clearing\<close>

definition asn1_primitive_clear :: "'x asn1_item \<Rightarrow> 'x asn1_value" where
  "asn1_primitive_clear it =
     (let utype = (if it_itype it = ITYPE_MSTRING then -1 else it_utype it)
      in if utype = V_ASN1_BOOLEAN then BoolF (it_size it) else NullP)"

definition asn1_template_clear ::
    "'x asn1_env \<Rightarrow> ('x asn1_value \<Rightarrow> 'x asn1_item \<Rightarrow> 'x asn1_value asn1_result) \<Rightarrow> 'x asn1_value \<Rightarrow> asn1_template \<Rightarrow> 'x asn1_value asn1_result" where
  "asn1_template_clear env rec v tt =
     (if tt_flags tt AND (ASN1_TFLG_ADB_MASK OR ASN1_TFLG_SK_MASK) \<noteq> 0 then Ok NullP
      else rec v (env_item env (tt_item tt)))"

fun asn1_item_clear :: "'x asn1_env \<Rightarrow> nat \<Rightarrow> 'x asn1_value \<Rightarrow> 'x asn1_item \<Rightarrow> 'x asn1_value asn1_result" where
  "asn1_item_clear env 0 v it = UB"
| "asn1_item_clear env (Suc n) v it =
     (case it_itype it of
        ITYPE_EXTERN \<Rightarrow>
          Ok (case it_ext it of None \<Rightarrow> NullP | Some ef \<Rightarrow> (case ex_clear ef of None \<Rightarrow> NullP | Some f \<Rightarrow> f v))
      | ITYPE_PRIMITIVE \<Rightarrow>
          (case it_templates it of [] \<Rightarrow> Ok (asn1_primitive_clear it)
           | tt # _ \<Rightarrow> asn1_template_clear env (asn1_item_clear env n) v tt)
      | ITYPE_MSTRING \<Rightarrow> Ok (asn1_primitive_clear it)
      | ITYPE_CHOICE \<Rightarrow> Ok NullP
      | ITYPE_SEQUENCE \<Rightarrow> Ok NullP
      | ITYPE_UNKNOWN \<Rightarrow> Ok v)"

section \<open>Allocation\<close>

text \<open>The result, the value of the pointer after the call and the clock.\<close>

type_synonym 'x new_result = "unit asn1_result \<times> 'x asn1_value \<times> nat"
type_synonym 'x making = "'x asn1_value \<Rightarrow> 'x asn1_item \<Rightarrow> bool \<Rightarrow> nat \<Rightarrow> 'x new_result"

definition ASN1_primitive_new :: "'x asn1_env \<Rightarrow> allocator \<Rightarrow> 'x asn1_value \<Rightarrow> 'x asn1_item \<Rightarrow> nat \<Rightarrow> 'x new_result" where
  "ASN1_primitive_new env m v it k =
     (let utype = (if it_itype it = ITYPE_MSTRING then -1 else it_utype it) in
      if utype = V_ASN1_OBJECT then (Ok (), ObjP (env_undef_obj env), k)
      else if utype = V_ASN1_BOOLEAN then (Ok (), BoolF (it_size it), k)
      else if utype = V_ASN1_NULL then (Ok (), OneP, k)
      else if utype = V_ASN1_ANY then
        (case m k 0 of None \<Rightarrow> (Fail NO_REASON, v, Suc k) | Some _ \<Rightarrow> (Ok (), TypeP (-1) NullP, Suc k))
      else
        (case ASN1_STRING_type_new (later k m) utype of
           UB \<Rightarrow> (UB, v, Suc k)
         | Fail e \<Rightarrow> (Fail e, NullP, Suc k)
         | Ok s \<Rightarrow> (Ok (), StrP s, Suc k)))"

definition ASN1_template_new ::
    "'x asn1_env \<Rightarrow> allocator \<Rightarrow> nat \<Rightarrow> 'x making \<Rightarrow> 'x asn1_value \<Rightarrow> asn1_template \<Rightarrow> nat \<Rightarrow> 'x new_result" where
  "ASN1_template_new env m n rec v tt k =
     (if tt_flags tt AND ASN1_TFLG_OPTIONAL \<noteq> 0 then
        (case asn1_template_clear env (asn1_item_clear env n) v tt of
           UB \<Rightarrow> (UB, v, k) | Fail e \<Rightarrow> (Fail e, v, k) | Ok w \<Rightarrow> (Ok (), w, k))
      else if tt_flags tt AND ASN1_TFLG_ADB_MASK \<noteq> 0 then (Ok (), NullP, k)
      else if tt_flags tt AND ASN1_TFLG_SK_MASK \<noteq> 0 then
        (case m k 0 of None \<Rightarrow> (Fail MALLOC_FAILURE, v, Suc k) | Some _ \<Rightarrow> (Ok (), StackP [], Suc k))
      else rec v (env_item env (tt_item tt)) (tt_flags tt AND ASN1_TFLG_COMBINE \<noteq> 0) k)"

fun new_fields ::
    "'x asn1_env \<Rightarrow> allocator \<Rightarrow> nat \<Rightarrow> 'x making \<Rightarrow> asn1_template list \<Rightarrow> 'x asn1_value \<Rightarrow> nat \<Rightarrow> 'x new_result" where
  "new_fields env m n rec [] v k = (Ok (), v, k)"
| "new_fields env m n rec (tt # tts) v k =
     (case asn1_get_field_ptr v tt of
        UB \<Rightarrow> (UB, v, k) | Fail e \<Rightarrow> (Fail e, v, k)
      | Ok f \<Rightarrow>
          (case ASN1_template_new env m n rec f tt k of
             (Ok _, f, k) \<Rightarrow> new_fields env m n rec tts (put_field v tt f) k
           | (r, f, k) \<Rightarrow> (r, put_field v tt f, k)))"

text \<open>A failure after the structure exists: it is freed and the reason reported.\<close>

definition undo_new :: "'x asn1_env \<Rightarrow> asn1_reason \<Rightarrow> 'x asn1_value \<Rightarrow> 'x asn1_item \<Rightarrow> bool \<Rightarrow> nat \<Rightarrow> 'x new_result" where
  "undo_new env e v it combine k =
     (case asn1_item_combine_free env v it combine of
        Ok (v, _) \<Rightarrow> (Fail e, v, k) | Fail e' \<Rightarrow> (Fail e, v, k) | UB \<Rightarrow> (UB, v, k))"

text \<open>The structure itself: the caller's one when combined, otherwise a fresh one, all zero.\<close>

definition new_struct :: "allocator \<Rightarrow> 'x asn1_value \<Rightarrow> 'x asn1_item \<Rightarrow> bool \<Rightarrow> nat \<Rightarrow> 'x new_result" where
  "new_struct m v it combine k =
     (if combine then (Ok (), v, k)
      else case m k (nat (it_size it)) of
          None \<Rightarrow> (Fail MALLOC_FAILURE, NullP, Suc k)
        | Some _ \<Rightarrow> (Ok (), StructP zero_head (replicate (nat (it_size it)) NullP), Suc k))"

definition finish_new :: "'x asn1_env \<Rightarrow> 'x asn1_value \<Rightarrow> 'x asn1_item \<Rightarrow> bool \<Rightarrow> nat \<Rightarrow> 'x new_result" where
  "finish_new env v it combine k =
     (case call_aux it OP_NEW_POST v of (v, i) \<Rightarrow>
        if i = 0 then undo_new env AUX_ERROR v it combine k else (Ok (), v, k))"

definition new_choice :: "'x asn1_env \<Rightarrow> allocator \<Rightarrow> 'x making" where
  "new_choice env m v it combine k =
     (case call_aux it OP_NEW_PRE v of (v, i) \<Rightarrow>
        if i = 0 then (Fail AUX_ERROR, v, k)
        else if i = 2 then (Ok (), v, k)
        else case new_struct m v it combine k of
            (Ok _, v, k) \<Rightarrow>
              (case asn1_set_choice_selector v (-1) of
                 Ok v \<Rightarrow> finish_new env v it combine k | _ \<Rightarrow> (UB, v, k))
          | r \<Rightarrow> r)"

definition new_sequence :: "'x asn1_env \<Rightarrow> allocator \<Rightarrow> nat \<Rightarrow> 'x making \<Rightarrow> 'x making" where
  "new_sequence env m n rec v it combine k =
     (case call_aux it OP_NEW_PRE v of (v, i) \<Rightarrow>
        if i = 0 then (Fail AUX_ERROR, v, k)
        else if i = 2 then (Ok (), v, k)
        else case new_struct m v it combine k of
            (Ok _, v, k) \<Rightarrow>
              (case (if combine then Ok v
                     else bind_outcome (asn1_refcount_set_one v it) (\<lambda>v. Ok (asn1_enc_init v it))) of
                 Ok v \<Rightarrow>
                   (case new_fields env m n rec (it_templates it) v k of
                      (Ok _, v, k) \<Rightarrow> finish_new env v it combine k
                    | (Fail _, v, k) \<Rightarrow> undo_new env MALLOC_FAILURE v it combine k
                    | (UB, v, k) \<Rightarrow> (UB, v, k))
               | _ \<Rightarrow> (UB, v, k))
          | r \<Rightarrow> r)"

definition or_memerr :: "'x new_result \<Rightarrow> 'x new_result" where
  "or_memerr r = (case r of (Fail _, v, k) \<Rightarrow> (Fail MALLOC_FAILURE, v, k) | _ \<Rightarrow> r)"

definition item_new :: "'x asn1_env \<Rightarrow> allocator \<Rightarrow> nat \<Rightarrow> 'x making \<Rightarrow> 'x making" where
  "item_new env m n rec v it combine k =
     (case it_itype it of
        ITYPE_EXTERN \<Rightarrow>
          (case it_ext it of None \<Rightarrow> (Ok (), v, k)
           | Some ef \<Rightarrow> (case ex_new ef of None \<Rightarrow> (Ok (), v, k)
               | Some f \<Rightarrow> (case f v of (v, ok) \<Rightarrow> (if ok then Ok () else Fail MALLOC_FAILURE, v, k))))
      | ITYPE_PRIMITIVE \<Rightarrow>
          or_memerr (case it_templates it of [] \<Rightarrow> ASN1_primitive_new env m v it k
                     | tt # _ \<Rightarrow> ASN1_template_new env m n rec v tt k)
      | ITYPE_MSTRING \<Rightarrow> or_memerr (ASN1_primitive_new env m v it k)
      | ITYPE_CHOICE \<Rightarrow> new_choice env m v it combine k
      | ITYPE_SEQUENCE \<Rightarrow> new_sequence env m n rec v it combine k
      | ITYPE_UNKNOWN \<Rightarrow> (Ok (), v, k))"

fun asn1_item_ex_combine_new :: "'x asn1_env \<Rightarrow> allocator \<Rightarrow> nat \<Rightarrow> 'x making" where
  "asn1_item_ex_combine_new env m 0 = (\<lambda>v it combine k. (UB, v, k))"
| "asn1_item_ex_combine_new env m (Suc n) = item_new env m n (asn1_item_ex_combine_new env m n)"

definition ASN1_item_ex_new :: "'x asn1_env \<Rightarrow> allocator \<Rightarrow> 'x asn1_value \<Rightarrow> 'x asn1_item \<Rightarrow> nat \<Rightarrow> 'x new_result" where
  "ASN1_item_ex_new env m v it k = asn1_item_ex_combine_new env m (env_stack env) v it False k"

definition ASN1_item_new :: "'x asn1_env \<Rightarrow> allocator \<Rightarrow> 'x asn1_item \<Rightarrow> 'x asn1_value asn1_result" where
  "ASN1_item_new env m it =
     (case ASN1_item_ex_new env m NullP it 0 of (Ok _, v, _) \<Rightarrow> Ok v | (Fail e, _, _) \<Rightarrow> Fail e | (UB, _, _) \<Rightarrow> UB)"

section \<open>The ANY type\<close>

fun ASN1_TYPE_get :: "'x asn1_value \<Rightarrow> int asn1_result" where
  "ASN1_TYPE_get (TypeP t v) = Ok (if t = V_ASN1_BOOLEAN \<or> t = V_ASN1_NULL \<or> v \<noteq> NullP then t else 0)"
| "ASN1_TYPE_get _ = UB"

text \<open>The pointer form of a TRUE is the address 0xff, here \<open>BoolF 0xff\<close>.\<close>

fun asn1_type_value_as_pointer :: "'x asn1_value \<Rightarrow> 'x asn1_value asn1_result" where
  "asn1_type_value_as_pointer (TypeP t v) =
     (if t = V_ASN1_BOOLEAN then (case v of BoolF b \<Rightarrow> Ok (if b \<noteq> 0 then BoolF 0xff else NullP) | _ \<Rightarrow> UB)
      else if t = V_ASN1_NULL then Ok NullP
      else Ok v)"
| "asn1_type_value_as_pointer _ = UB"

fun ASN1_TYPE_set :: "'x asn1_value \<Rightarrow> int \<Rightarrow> 'x asn1_value \<Rightarrow> ('x asn1_value \<times> 'x block list) asn1_result" where
  "ASN1_TYPE_set (TypeP t v) type x =
     bind_outcome (free_type_value t v) (\<lambda>(_, log).
       Ok (TypeP type (if type = V_ASN1_BOOLEAN then BoolF (if x \<noteq> NullP then 0xff else 0) else x), log))"
| "ASN1_TYPE_set _ type x = UB"

definition ASN1_TYPE_set1 ::
    "allocator \<Rightarrow> (asn1_object \<Rightarrow> asn1_object option) \<Rightarrow> 'x asn1_value \<Rightarrow> int \<Rightarrow> 'x asn1_value \<Rightarrow> ('x asn1_value \<times> 'x block list) asn1_result" where
  "ASN1_TYPE_set1 m OBJ_dup a type x =
     (if x = NullP \<or> type = V_ASN1_BOOLEAN then ASN1_TYPE_set a type x
      else if type = V_ASN1_OBJECT then
        (case x of ObjP ob \<Rightarrow> (case OBJ_dup ob of None \<Rightarrow> Fail NO_REASON | Some odup \<Rightarrow> ASN1_TYPE_set a type (ObjP odup)) | _ \<Rightarrow> UB)
      else (case x of StrP s \<Rightarrow> bind_outcome (ASN1_STRING_dup m (Some s)) (\<lambda>sdup. ASN1_TYPE_set a type (StrP sdup)) | _ \<Rightarrow> UB))"

text \<open>\<open>OBJ_cmp\<close> is a parameter; two NULL pointers stand for values that cannot be compared.\<close>

fun type_cmp :: "(asn1_object \<Rightarrow> asn1_object \<Rightarrow> int) \<Rightarrow> 'x asn1_value \<Rightarrow> 'x asn1_value \<Rightarrow> int asn1_result" where
  "type_cmp OBJ_cmp (TypeP t v) (TypeP t' v') =
     (if t \<noteq> t' then Ok (-1)
      else if t = V_ASN1_OBJECT then (case (v, v') of (ObjP a, ObjP b) \<Rightarrow> Ok (OBJ_cmp a b) | _ \<Rightarrow> UB)
      else if t = V_ASN1_NULL then Ok 0
      else if t = V_ASN1_BOOLEAN then (case (v, v') of (BoolF a, BoolF b) \<Rightarrow> Ok (a - b) | _ \<Rightarrow> UB)
      else (case (v, v') of (StrP a, StrP b) \<Rightarrow> ASN1_STRING_cmp a b | _ \<Rightarrow> UB))"
| "type_cmp OBJ_cmp _ _ = UB"

definition ASN1_TYPE_cmp :: "(asn1_object \<Rightarrow> asn1_object \<Rightarrow> int) \<Rightarrow> 'x asn1_value \<Rightarrow> 'x asn1_value \<Rightarrow> int asn1_result" where
  "ASN1_TYPE_cmp OBJ_cmp a b = (if a = NullP \<or> b = NullP then Ok (-1) else type_cmp OBJ_cmp a b)"

end
