(* ===== verification/Asn1_Encode.thy ===== *)
theory Asn1_Encode
  imports Asn1_Alloc "HOL-Library.Multiset"
begin

text \<open>
  The encoder driven by items (\<open>tasn_enc.c\<close>). Its output argument \<open>out\<close> is \<open>None\<close> when the caller only asks
  for the length and \<open>Some b\<close> when the octets \<open>b\<close> have been written so far; an operation gives the length it
  returns and the output afterwards, and \<open>Fail\<close> is its return value -1. As in the code a length is
  computed by a pass of its own before anything is written. The allocations of a SET OF are numbered by
  the clock that travels with the output. \<open>ASN1_item_ex_i2d\<close> returns 0 for an omitted optional value.
\<close>

section \<open>Content octets\<close>

text \<open>The underlying type and value of a MSTRING or ANY.\<close>

definition i2c_target :: "'x asn1_value \<Rightarrow> int \<Rightarrow> 'x asn1_item \<Rightarrow> (int \<times> 'x asn1_value) asn1_result" where
  "i2c_target v putype it =
     (if it_itype it = ITYPE_MSTRING then
        (case v of
           StrP s \<Rightarrow>
             let utype = str_type s in
             if utype < 0 \<and> utype \<noteq> V_ASN1_OTHER then Fail WRONG_TYPE
             else if utype = V_ASN1_NEG_INTEGER then Ok (V_ASN1_INTEGER, v)
             else if utype = V_ASN1_NEG_ENUMERATED then Ok (V_ASN1_ENUMERATED, v)
             else Ok (utype, v)
         | _ \<Rightarrow> UB)
      else if it_utype it = V_ASN1_ANY then
        (case v of
           TypeP utype w \<Rightarrow> if utype < 0 \<and> utype \<noteq> V_ASN1_OTHER then Fail WRONG_TYPE else Ok (utype, w)
         | _ \<Rightarrow> UB)
      else Ok (putype, v))"

text \<open>The octets copied to \<open>cout\<close>, when it is not NULL.\<close>

definition copy_out :: "bool \<Rightarrow> bytes option \<Rightarrow> int \<Rightarrow> bytes asn1_result" where
  "copy_out cout cont len =
     (if cout \<and> len \<noteq> 0
      then (case cont of None \<Rightarrow> UB
            | Some d \<Rightarrow> if len < 0 \<or> int (length d) < len then UB else Ok (take (nat len) d))
      else Ok [])"

definition i2c_counted :: "bool \<Rightarrow> (int \<times> bytes) asn1_result \<Rightarrow> (int \<times> bytes) asn1_result" where
  "i2c_counted cout r = bind_outcome r (\<lambda>(len, bs). Ok (len, if cout then bs else []))"

definition boolean_omitted :: "int \<Rightarrow> 'x asn1_item \<Rightarrow> bool" where
  "boolean_omitted b it \<longleftrightarrow>
     b = -1 \<or> it_utype it \<noteq> V_ASN1_ANY \<and> (b \<noteq> 0 \<and> it_size it > 0 \<or> b = 0 \<and> it_size it = 0)"

text \<open>The length of the contents and the octets written, \<open>None\<close> when the value is to be omitted.\<close>

definition i2c_content :: "bool \<Rightarrow> 'x asn1_item \<Rightarrow> int \<Rightarrow> 'x asn1_value \<Rightarrow> (int \<times> bytes) option asn1_result" where
  "i2c_content cout it utype v =
     (if utype = V_ASN1_OBJECT then
        (case v of
           ObjP a \<Rightarrow> if obj_length a = 0 then Fail ILLEGAL_OBJECT
                     else bind_outcome (copy_out cout (obj_data a) (obj_length a)) (\<lambda>bs. Ok (Some (obj_length a, bs)))
         | _ \<Rightarrow> UB)
      else if utype = V_ASN1_NULL then Ok (Some (0, []))
      else if utype = V_ASN1_BOOLEAN then
        (case v of
           BoolF b \<Rightarrow> Ok (if boolean_omitted b it then None
                          else Some (1, if cout then [if b \<noteq> 0 then 0xff else 0x00] else []))
         | _ \<Rightarrow> UB)
      else
        (case v of
           StrP s \<Rightarrow>
             if utype = V_ASN1_BIT_STRING then
               bind_outcome (i2c_counted cout (i2c_ASN1_BIT_STRING (Some s)))
                 (\<lambda>(ret, bs). if ret \<le> 0 then Fail NO_REASON else Ok (Some (ret, bs)))
             else if utype = V_ASN1_INTEGER \<or> utype = V_ASN1_ENUMERATED then
               bind_outcome (i2c_counted cout (i2c_ASN1_INTEGER (Some s)))
                 (\<lambda>(ret, bs). if ret \<le> 0 then Fail NO_REASON else Ok (Some (ret, bs)))
             else bind_outcome (copy_out cout (str_data s) (str_length s)) (\<lambda>bs. Ok (Some (str_length s, bs)))
         | _ \<Rightarrow> UB))"

text \<open>\<open>asn1_ex_i2c\<close>: the underlying type, and the length and octets unless the value is omitted.\<close>

definition asn1_ex_i2c :: "bool \<Rightarrow> 'x asn1_value \<Rightarrow> int \<Rightarrow> 'x asn1_item \<Rightarrow> (int \<times> (int \<times> bytes) option) asn1_result" where
  "asn1_ex_i2c cout v putype it =
     (if (it_itype it \<noteq> ITYPE_PRIMITIVE \<or> it_utype it \<noteq> V_ASN1_BOOLEAN) \<and> v = NullP then Ok (putype, None)
      else bind_outcome (i2c_target v putype it) (\<lambda>(utype, w).
        bind_outcome (i2c_content cout it utype w) (\<lambda>r. Ok (utype, r))))"

section \<open>Primitive types\<close>

type_synonym out_state = "bytes option \<times> nat"

fun put_out :: "bytes \<Rightarrow> out_state \<Rightarrow> out_state" where
  "put_out bs (out, k) = (map_option (\<lambda>b. b @ bs) out, k)"

text \<open>A length computed by \<open>ASN1_object_size\<close>; -1 is a failure.\<close>

definition size_or_fail :: "int \<Rightarrow> int asn1_result" where
  "size_or_fail n = (if n = -1 then Fail NO_REASON else Ok n)"

definition uses_tag :: "int \<Rightarrow> bool" where
  "uses_tag utype \<longleftrightarrow> utype \<noteq> V_ASN1_SEQUENCE \<and> utype \<noteq> V_ASN1_SET \<and> utype \<noteq> V_ASN1_OTHER"

definition asn1_i2d_ex_primitive ::
    "'x asn1_value \<Rightarrow> out_state \<Rightarrow> 'x asn1_item \<Rightarrow> int \<Rightarrow> int \<Rightarrow> bool \<Rightarrow> (int \<times> out_state) asn1_result" where
  "asn1_i2d_ex_primitive v out it tag aclass optional =
     bind_outcome (asn1_ex_i2c False v (it_utype it) it) (\<lambda>(utype, r).
       case r of
         None \<Rightarrow> if optional then Ok (0, out) else Fail MISSING_VALUE
       | Some (len, _) \<Rightarrow>
           if len < 0 then Fail NO_REASON
           else
             let tag = (if tag = -1 then utype else tag) in
             bind_outcome
               (if fst out = None then Ok []
                else bind_outcome (asn1_ex_i2c True v utype it) (\<lambda>(_, r).
                  case r of None \<Rightarrow> Ok [] | Some (len2, bs) \<Rightarrow> if len2 < 0 then Fail NO_REASON else Ok bs))
               (\<lambda>bs.
                  let out = put_out ((if uses_tag utype then ASN1_put_object 0 len tag aclass else []) @ bs) out in
                  bind_outcome (if uses_tag utype then size_or_fail (ASN1_object_size 0 len tag) else Ok len)
                    (\<lambda>ret. Ok (ret, out))))"

section \<open>SET OF\<close>

text \<open>\<open>der_cmp\<close> orders encodings by their octets and a prefix before what it is a prefix of.\<close>

definition der_cmp :: "bytes \<Rightarrow> bytes \<Rightarrow> int" where
  "der_cmp d1 d2 =
     (let cmplen = min (length d1) (length d2) in
      case memcmp_loop cmplen d1 d2 of
        Some i \<Rightarrow> if i \<noteq> 0 then i else int (length d1) - int (length d2)
      | None \<Rightarrow> 0)"

text \<open>The library's \<open>qsort\<close> with that comparison: it gives the same order as any other sorting would.\<close>

fun der_insert :: "bytes \<Rightarrow> bytes list \<Rightarrow> bytes list" where
  "der_insert x [] = [x]"
| "der_insert x (y # ys) = (if der_cmp x y \<le> 0 then x # y # ys else y # der_insert x ys)"

fun der_sort :: "bytes list \<Rightarrow> bytes list" where
  "der_sort [] = []"
| "der_sort (x # xs) = der_insert x (der_sort xs)"

type_synonym 'x encoding = "'x asn1_value \<Rightarrow> out_state \<Rightarrow> 'x asn1_item \<Rightarrow> int \<Rightarrow> int \<Rightarrow> bool \<Rightarrow> (int \<times> out_state) asn1_result"

text \<open>The items of a stack, encoded one after the other, and the sum of their lengths.\<close>

fun sk_encode :: "'x encoding \<Rightarrow> 'x asn1_item \<Rightarrow> 'x asn1_value list \<Rightarrow> out_state \<Rightarrow> out_state asn1_result" where
  "sk_encode rec it [] out = Ok out"
| "sk_encode rec it (v # vs) out =
     bind_outcome (rec v out it (-1) 0 False) (\<lambda>(n, out). sk_encode rec it vs out)"

fun sk_length :: "'x encoding \<Rightarrow> 'x asn1_item \<Rightarrow> 'x asn1_value list \<Rightarrow> int \<Rightarrow> nat \<Rightarrow> (int \<times> nat) asn1_result" where
  "sk_length rec it [] skcontlen k = Ok (skcontlen, k)"
| "sk_length rec it (v # vs) skcontlen k =
     bind_outcome (rec v (None, k) it (-1) 0 False) (\<lambda>(tmplen, (_, k)).
       if skcontlen > INT_MAX - tmplen then Fail NO_REASON else sk_length rec it vs (skcontlen + tmplen) k)"

text \<open>
  The encodings of the items, each in its place in the buffer, of which \<open>room\<close> octets are left. An item that
  returned another length than it wrote would put other octets into the output.
\<close>

fun der_items :: "'x encoding \<Rightarrow> 'x asn1_item \<Rightarrow> 'x asn1_value list \<Rightarrow> int \<Rightarrow> nat \<Rightarrow> (bytes list \<times> nat) asn1_result" where
  "der_items rec it [] room k = Ok ([], k)"
| "der_items rec it (v # vs) room k =
     bind_outcome (rec v (Some [], k) it (-1) 0 False) (\<lambda>(n, (b, k)).
       let enc = (case b of None \<Rightarrow> [] | Some b \<Rightarrow> b) in
       if room < int (length enc) \<or> n \<noteq> int (length enc) then UB
       else bind_outcome (der_items rec it vs (room - int (length enc)) k) (\<lambda>(encs, k). Ok (enc # encs, k)))"

definition asn1_set_seq_out ::
    "'x encoding \<Rightarrow> allocator \<Rightarrow> 'x asn1_value list \<Rightarrow> out_state \<Rightarrow> int \<Rightarrow> 'x asn1_item \<Rightarrow> bool \<Rightarrow> out_state asn1_result" where
  "asn1_set_seq_out rec m sk out skcontlen it do_sort =
     (if \<not> do_sort \<or> length sk < 2 then sk_encode rec it sk out
      else
        let k = snd out in
        if m k (nat skcontlen) = None \<or> m (Suc k) (length sk) = None then Fail MALLOC_FAILURE
        else bind_outcome (der_items rec it sk skcontlen (Suc (Suc k))) (\<lambda>(encoded, k).
          Ok (put_out (concat (der_sort encoded)) (fst out, k))))"

section \<open>Templates\<close>

text \<open>The outer tag and its class: from the template or from the arguments, not both.\<close>

definition template_tag :: "asn1_template \<Rightarrow> int \<Rightarrow> int \<Rightarrow> (int \<times> int) asn1_result" where
  "template_tag tt tag iclass =
     (if tt_flags tt AND ASN1_TFLG_TAG_MASK \<noteq> 0 then
        if tag \<noteq> -1 then Fail BAD_TEMPLATE else Ok (tt_tag tt, tt_flags tt AND ASN1_TFLG_TAG_CLASS)
      else if tag \<noteq> -1 then Ok (tag, iclass AND ASN1_TFLG_TAG_CLASS)
      else Ok (-1, 0))"

definition stack_ex_i2d ::
    "'x asn1_env \<Rightarrow> 'x encoding \<Rightarrow> allocator \<Rightarrow> 'x asn1_value list \<Rightarrow> out_state \<Rightarrow> asn1_template \<Rightarrow> int \<Rightarrow> int \<Rightarrow> (int \<times> out_state) asn1_result" where
  "stack_ex_i2d env rec m sk out tt ttag tclass =
     (let flags = tt_flags tt; it = env_item env (tt_item tt);
          isset = (flags AND ASN1_TFLG_SET_OF \<noteq> 0);
          explicit = (flags AND ASN1_TFLG_EXPTAG \<noteq> 0);
          (sktag, skaclass) =
            (if ttag \<noteq> -1 \<and> \<not> explicit then (ttag, tclass)
             else (if isset then V_ASN1_SET else V_ASN1_SEQUENCE, V_ASN1_UNIVERSAL)) in
      bind_outcome (sk_length rec it sk 0 (snd out)) (\<lambda>(skcontlen, k).
      bind_outcome (size_or_fail (ASN1_object_size 1 skcontlen sktag)) (\<lambda>sklen.
      bind_outcome (if explicit then size_or_fail (ASN1_object_size 1 sklen ttag) else Ok sklen) (\<lambda>ret.
        case fst out of
          None \<Rightarrow> Ok (ret, (None, k))
        | Some b \<Rightarrow>
            bind_outcome (asn1_set_seq_out rec m sk
                (put_out ((if explicit then ASN1_put_object 1 sklen ttag tclass else [])
                  @ ASN1_put_object 1 skcontlen sktag skaclass) (Some b, k)) skcontlen it isset)
              (\<lambda>out. Ok (ret, out))))))"

definition template_i2d ::
    "'x asn1_env \<Rightarrow> 'x encoding \<Rightarrow> allocator \<Rightarrow> 'x asn1_value \<Rightarrow> out_state \<Rightarrow> asn1_template \<Rightarrow> int \<Rightarrow> int \<Rightarrow> (int \<times> out_state) asn1_result" where
  "template_i2d env rec m v out tt tag iclass =
     bind_outcome (template_tag tt tag iclass) (\<lambda>(ttag, tclass).
       let flags = tt_flags tt; it = env_item env (tt_item tt);
           optional = (flags AND ASN1_TFLG_OPTIONAL \<noteq> 0) in
       if flags AND ASN1_TFLG_SK_MASK \<noteq> 0 then
         (case v of
            NullP \<Rightarrow> if optional then Ok (0, out) else Fail MISSING_VALUE
          | StackP sk \<Rightarrow> stack_ex_i2d env rec m sk out tt ttag tclass
          | _ \<Rightarrow> UB)
       else if flags AND ASN1_TFLG_EXPTAG \<noteq> 0 then
         bind_outcome (rec v (None, snd out) it (-1) 0 optional) (\<lambda>(i, (_, k)).
           if i = 0 then Ok (0, (fst out, k))
           else bind_outcome (size_or_fail (ASN1_object_size 1 i ttag)) (\<lambda>ret.
             case fst out of
               None \<Rightarrow> Ok (ret, (None, k))
             | Some b \<Rightarrow>
                 bind_outcome (rec v (put_out (ASN1_put_object 1 i ttag tclass) (Some b, k)) it (-1) 0 False)
                   (\<lambda>(_, out). Ok (ret, out))))
       else rec v out it ttag tclass optional)"

section \<open>Items\<close>

text \<open>The fields of a SEQUENCE: the sum of their lengths, and their encodings.\<close>

fun fields_length ::
    "'x asn1_env \<Rightarrow> 'x encoding \<Rightarrow> allocator \<Rightarrow> 'x asn1_value \<Rightarrow> asn1_template list \<Rightarrow> int \<Rightarrow> nat \<Rightarrow> (int \<times> nat) asn1_result" where
  "fields_length env rec m v [] seqcontlen k = Ok (seqcontlen, k)"
| "fields_length env rec m v (tt # tts) seqcontlen k =
     bind_outcome (asn1_do_adb env v tt) (\<lambda>seqtt.
     bind_outcome (asn1_get_field_ptr v seqtt) (\<lambda>f.
     bind_outcome (template_i2d env rec m f (None, k) seqtt (-1) 0) (\<lambda>(tmplen, (_, k)).
       if tmplen > INT_MAX - seqcontlen then Fail NO_REASON
       else fields_length env rec m v tts (seqcontlen + tmplen) k)))"

fun fields_encode ::
    "'x asn1_env \<Rightarrow> 'x encoding \<Rightarrow> allocator \<Rightarrow> 'x asn1_value \<Rightarrow> asn1_template list \<Rightarrow> out_state \<Rightarrow> out_state asn1_result" where
  "fields_encode env rec m v [] out = Ok out"
| "fields_encode env rec m v (tt # tts) out =
     bind_outcome (asn1_do_adb env v tt) (\<lambda>seqtt.
     bind_outcome (asn1_get_field_ptr v seqtt) (\<lambda>f.
     bind_outcome (template_i2d env rec m f out seqtt (-1) 0) (\<lambda>(_, out). fields_encode env rec m v tts out)))"

definition sequence_i2d :: "'x asn1_env \<Rightarrow> 'x encoding \<Rightarrow> allocator \<Rightarrow> 'x asn1_value \<Rightarrow> out_state \<Rightarrow> 'x asn1_item \<Rightarrow> int \<Rightarrow> int \<Rightarrow> (int \<times> out_state) asn1_result" where
  "sequence_i2d env rec m v out it tag aclass =
     bind_outcome (asn1_enc_restore v it (fst out)) (\<lambda>saved.
       case saved of Some (seqcontlen, out') \<Rightarrow> Ok (seqcontlen, (out', snd out))
       | None \<Rightarrow>
           let (tag, aclass) = (if tag = -1 then (V_ASN1_SEQUENCE, V_ASN1_UNIVERSAL) else (tag, aclass)) in
           bind_outcome (fields_length env rec m v (it_templates it) 0 (snd out)) (\<lambda>(seqcontlen, k).
           bind_outcome (size_or_fail (ASN1_object_size 1 seqcontlen tag)) (\<lambda>seqlen.
             case fst out of
               None \<Rightarrow> Ok (seqlen, (None, k))
             | Some b \<Rightarrow>
                 bind_outcome (fields_encode env rec m v (it_templates it)
                     (put_out (ASN1_put_object 1 seqcontlen tag aclass) (Some b, k)))
                   (\<lambda>out. Ok (seqlen, out)))))"

definition choice_i2d :: "'x asn1_env \<Rightarrow> 'x encoding \<Rightarrow> allocator \<Rightarrow> 'x asn1_value \<Rightarrow> out_state \<Rightarrow> 'x asn1_item \<Rightarrow> int \<Rightarrow> (int \<times> out_state) asn1_result" where
  "choice_i2d env rec m v out it tag =
     (if tag \<noteq> -1 then Fail BAD_TEMPLATE
      else bind_outcome (asn1_get_choice_selector v) (\<lambda>i.
        if i < 0 \<or> i \<ge> int (length (it_templates it)) then Fail NO_MATCHING_CHOICE_TYPE
        else
          let chtt = it_templates it ! nat i in
          if tt_flags chtt AND ASN1_TFLG_OPTIONAL \<noteq> 0 then Fail BAD_TEMPLATE
          else bind_outcome (asn1_get_field_ptr v chtt) (\<lambda>f. template_i2d env rec m f out chtt (-1) 0)))"

definition extern_i2d :: "'x asn1_value \<Rightarrow> out_state \<Rightarrow> 'x asn1_item \<Rightarrow> int \<Rightarrow> int \<Rightarrow> (int \<times> out_state) asn1_result" where
  "extern_i2d v out it tag aclass =
     (case it_ext it of None \<Rightarrow> UB
      | Some ef \<Rightarrow> bind_outcome (ex_i2d ef v (fst out) tag aclass)
          (\<lambda>(ret, out'). if ret = 0 then Fail INTERNAL_ERROR else Ok (ret, (out', snd out))))"

definition item_i2d :: "'x asn1_env \<Rightarrow> allocator \<Rightarrow> 'x encoding \<Rightarrow> 'x encoding" where
  "item_i2d env m rec v out it tag aclass optional =
     (if it_itype it \<noteq> ITYPE_PRIMITIVE \<and> v = NullP then (if optional then Ok (0, out) else Fail MISSING_VALUE)
      else case it_itype it of
        ITYPE_PRIMITIVE \<Rightarrow>
          (case it_templates it of
             tt # _ \<Rightarrow> if tt_flags tt AND ASN1_TFLG_OPTIONAL \<noteq> 0 then Fail BAD_TEMPLATE
                        else template_i2d env rec m v out tt tag aclass
           | [] \<Rightarrow> asn1_i2d_ex_primitive v out it tag aclass optional)
      | ITYPE_MSTRING \<Rightarrow> if tag \<noteq> -1 then Fail BAD_TEMPLATE else asn1_i2d_ex_primitive v out it (-1) 0 optional
      | ITYPE_CHOICE \<Rightarrow> choice_i2d env rec m v out it tag
      | ITYPE_EXTERN \<Rightarrow> extern_i2d v out it tag aclass
      | ITYPE_SEQUENCE \<Rightarrow> sequence_i2d env rec m v out it tag aclass
      | ITYPE_UNKNOWN \<Rightarrow> Fail BAD_TEMPLATE)"

text \<open>\<open>asn1_item_ex_i2d_opt\<close>, as deep as the stack allows.\<close>

fun item_ex_i2d_opt :: "'x asn1_env \<Rightarrow> allocator \<Rightarrow> nat \<Rightarrow> 'x encoding" where
  "item_ex_i2d_opt env m 0 = (\<lambda>v out it tag aclass optional. UB)"
| "item_ex_i2d_opt env m (Suc n) = item_i2d env m (item_ex_i2d_opt env m n)"

definition ASN1_item_ex_i2d ::
    "'x asn1_env \<Rightarrow> allocator \<Rightarrow> 'x asn1_value \<Rightarrow> out_state \<Rightarrow> 'x asn1_item \<Rightarrow> int \<Rightarrow> int \<Rightarrow> (int \<times> out_state) asn1_result" where
  "ASN1_item_ex_i2d env m v out it tag aclass = item_ex_i2d_opt env m (env_stack env) v out it tag aclass False"

text \<open>
  \<open>ASN1_item_i2d\<close>: the length only, into a buffer of the caller, or into a new buffer of exactly the
  computed length, which writing more would overflow.
\<close>

definition ASN1_item_i2d ::
    "'x asn1_env \<Rightarrow> allocator \<Rightarrow> 'x asn1_value \<Rightarrow> out_arg \<Rightarrow> 'x asn1_item \<Rightarrow> (int \<times> bytes option) asn1_result" where
  "ASN1_item_i2d env m v pp it =
     (if pp = PP_ALLOC then
        bind_outcome (ASN1_item_ex_i2d env m v (None, 0) it (-1) 0) (\<lambda>(len, (_, k)).
          if len \<le> 0 then Ok (len, None)
          else case m k (nat len) of
              None \<Rightarrow> Fail MALLOC_FAILURE
            | Some buf \<Rightarrow>
                bind_outcome (ASN1_item_ex_i2d env m v (Some [], Suc k) it (-1) 0) (\<lambda>(len2, (b, _)).
                  if len2 \<le> 0 then Ok (len2, None)
                  else case b of None \<Rightarrow> UB
                    | Some bs \<Rightarrow> (case memcpy_at buf 0 bs of None \<Rightarrow> UB | Some buf \<Rightarrow> Ok (len, Some buf))))
      else bind_outcome
        (ASN1_item_ex_i2d env m v (if pp = PP_NULL then None else Some [], 0) it (-1) 0)
        (\<lambda>(len, (b, _)). Ok (len, b)))"

end
