(* ===== verification/Asn1_Der.thy ===== *)
theory Asn1_Der
  imports Asn1_Encode
begin

text \<open>
  What the encoder promises: every run of it on a value, whatever the output argument and the allocator's
  answers, that succeeds gives the same length and the same octets, and as many octets as it says
  (\<open>steady\<close>); so the buffer allocated after the length pass is filled exactly. A SET OF is written in an
  order that depends on its elements only.
\<close>

section \<open>Contents\<close>

lemma object_size_pos:
  "size_or_fail (ASN1_object_size c len tag) = Ok r \<Longrightarrow> c \<noteq> 2 \<Longrightarrow>
     0 \<le> len \<and> r = int (length (ASN1_put_object c len tag xclass)) + len"
  by (auto simp: size_or_fail_def ASN1_object_size_def length_put_object Let_def split: if_splits)

lemma i2c_integer_length: "i2c_ASN1_INTEGER a = Ok (n, bs) \<Longrightarrow> n = int (length bs)"
  by (auto simp: i2c_ASN1_INTEGER_def Let_def min_absorb2 Suc_le_eq simp flip: length_greater_0_conv
      split: option.splits if_splits)

lemma i2c_bit_string_length: "i2c_ASN1_BIT_STRING a = Ok (n, bs) \<Longrightarrow> n = int (length bs)"
  by (auto simp: i2c_ASN1_BIT_STRING_def Let_def bind_outcome_Ok_iff split: option.splits if_splits)

lemma copy_out_length: "copy_out True cont len = Ok bs \<Longrightarrow> int (length bs) = len"
  by (auto simp: copy_out_def split: option.splits if_splits)

lemma i2c_content_length: "i2c_content True it utype v = Ok (Some (len, bs)) \<Longrightarrow> int (length bs) = len"
  by (auto simp: i2c_content_def i2c_counted_def bind_outcome_Ok_iff
      dest!: copy_out_length i2c_integer_length i2c_bit_string_length split: asn1_value.splits if_splits)

text \<open>The pass that writes sees the same value and the same length as the pass that measured.\<close>

lemma i2c_content_same:
  "i2c_content False it utype v = Ok (Some (len, bs)) \<Longrightarrow> i2c_content True it utype v = Ok r \<Longrightarrow>
     \<exists>bs'. r = Some (len, bs')"
  by (auto simp: i2c_content_def i2c_counted_def bind_outcome_Ok_iff split: asn1_value.splits if_splits)

lemma ex_i2c_same:
  assumes "asn1_ex_i2c False v (it_utype it) it = Ok (utype, Some (len, bs))"
    and "asn1_ex_i2c True v utype it = Ok (utype', r)"
  shows "utype' = utype \<and> (\<exists>bs'. r = Some (len, bs') \<and> int (length bs') = len)"
proof -
  obtain w where w: "i2c_target v (it_utype it) it = Ok (utype, w)" "i2c_content False it utype w = Ok (Some (len, bs))"
    using assms(1) by (auto simp: asn1_ex_i2c_def bind_outcome_Ok_iff split: if_splits)
  then have t: "i2c_target v utype it = Ok (utype, w)"
    by (auto simp: i2c_target_def Let_def split: asn1_value.splits if_splits)
  obtain utype2 w2 where "i2c_target v utype it = Ok (utype2, w2)" "i2c_content True it utype2 w2 = Ok r" "utype' = utype2"
    using assms by (auto simp: asn1_ex_i2c_def bind_outcome_Ok_iff split: if_splits)
  with t have r: "i2c_content True it utype w = Ok r" "utype' = utype" by auto
  from i2c_content_same [OF w(2) r(1)] i2c_content_length [of it utype w len] r show ?thesis by blast
qed

section \<open>Steady encodings\<close>

text \<open>The run's answer for the length \<open>n\<close> and the octets \<open>enc\<close>.\<close>

definition answers :: "int \<Rightarrow> bytes \<Rightarrow> (out_state \<Rightarrow> (int \<times> out_state) asn1_result) \<Rightarrow> bool" where
  "answers n enc f \<longleftrightarrow>
     (\<forall>out k r. f (out, k) = Ok r \<longrightarrow>
        (\<exists>k'. r = (n, (map_option (\<lambda>b. b @ enc) out, k')) \<and> (out \<noteq> None \<longrightarrow> int (length enc) = n)))"

definition writes :: "int \<Rightarrow> bytes \<Rightarrow> (out_state \<Rightarrow> out_state asn1_result) \<Rightarrow> bool" where
  "writes n enc f \<longleftrightarrow>
     (\<forall>b k r. f (Some b, k) = Ok r \<longrightarrow> (\<exists>k'. r = (Some (b @ enc), k')) \<and> int (length enc) = n)"

text \<open>An optional value that is present has the length of a required one.\<close>

definition answers_opt :: "(bool \<Rightarrow> int \<times> bytes) \<Rightarrow> (bool \<Rightarrow> out_state \<Rightarrow> (int \<times> out_state) asn1_result) \<Rightarrow> bool" where
  "answers_opt c F \<longleftrightarrow> (\<forall>opt. answers (fst (c opt)) (snd (c opt)) (F opt)) \<and> (fst (c True) \<noteq> 0 \<longrightarrow> fst (c True) = fst (c False))"

definition steady :: "'x asn1_env \<Rightarrow> 'x encoding \<Rightarrow> bool" where
  "steady env rec \<longleftrightarrow> (\<forall>v it tag aclass. it \<in> range (env_item env) \<longrightarrow> (\<exists>c. answers_opt c (\<lambda>opt out. rec v out it tag aclass opt)))"

lemma answers_opt_same: "(\<And>opt. answers n enc (F opt)) \<Longrightarrow> \<exists>c. answers_opt c F"
  unfolding answers_opt_def by (rule exI [of _ "\<lambda>_. (n, enc)"]) simp

lemma answersI:
  "(\<And>out k r. f (out, k) = Ok r \<Longrightarrow>
      \<exists>k'. r = (n, (map_option (\<lambda>b. b @ enc) out, k')) \<and> (out \<noteq> None \<longrightarrow> int (length enc) = n)) \<Longrightarrow> answers n enc f"
  by (simp add: answers_def)

lemma answersD:
  "answers n enc f \<Longrightarrow> f (out, k) = Ok r \<Longrightarrow>
     \<exists>k'. r = (n, (map_option (\<lambda>b. b @ enc) out, k')) \<and> (out \<noteq> None \<longrightarrow> int (length enc) = n)"
  unfolding answers_def by (erule allE, erule allE, erule allE, erule (1) mp)

lemma answers_never: "(\<And>out k r. f (out, k) \<noteq> Ok r) \<Longrightarrow> answers n enc f"
  by (simp add: answers_def)

lemma answers_omitted: "(\<And>out k r. f (out, k) = Ok r \<Longrightarrow> r = (0, (out, k))) \<Longrightarrow> answers 0 [] f"
proof (rule answersI)
  fix out k r
  assume "\<And>out k r. f (out, k) = Ok r \<Longrightarrow> r = (0, (out, k))" "f (out, k) = Ok r"
  then have "r = (0, (out, k))" by blast
  then show "\<exists>k'. r = (0, (map_option (\<lambda>b. b @ []) out, k')) \<and> (out \<noteq> None \<longrightarrow> int (length ([]::bytes)) = 0)"
    by (simp add: option.map_ident)
qed

lemma put_out_simps [simp]: "put_out bs (Some b, k) = (Some (b @ bs), k)" "put_out bs (None, k) = (None, k)"
  by simp_all

lemma primitive_answers:
  "\<exists>c. answers_opt c (\<lambda>optional out. asn1_i2d_ex_primitive v out it tag aclass optional)"
proof (cases "asn1_ex_i2c False v (it_utype it) it")
  case (Ok ur)
  obtain utype r where ur: "ur = (utype, r)" by force
  let ?tag = "if tag = -1 then utype else tag"
  show ?thesis
  proof (cases r)
    case None
    have "answers 0 [] (\<lambda>out. asn1_i2d_ex_primitive v out it tag aclass optional)" for optional
      using Ok ur None by (intro answers_omitted) (auto simp: asn1_i2d_ex_primitive_def split: if_splits)
    then show ?thesis by (rule answers_opt_same)
  next
    case (Some lb)
    obtain len bs0 where lb: "lb = (len, bs0)" by force
    note first = Ok [unfolded ur Some lb]
    define hd where "hd = (if uses_tag utype then ASN1_put_object 0 len ?tag aclass else [])"
    define bs where "bs = (case asn1_ex_i2c True v utype it of Ok (_, Some (_, bs)) \<Rightarrow> bs | _ \<Rightarrow> [])"
    define n where "n = (if uses_tag utype then ASN1_object_size 0 len ?tag else len)"
    have len: "int (length bs) = len" if "asn1_ex_i2c True v utype it = Ok ur'" for ur'
      using ex_i2c_same [OF first] that by (cases ur') (force simp: bs_def)
    have "answers n (hd @ bs) (\<lambda>out. asn1_i2d_ex_primitive v out it tag aclass optional)" for optional
    proof (rule answersI)
      fix out k res
      assume a: "asn1_i2d_ex_primitive v (out, k) it tag aclass optional = Ok res"
      have total: "int (length hd) + len = n" if "uses_tag utype \<longrightarrow> ASN1_object_size 0 len ?tag \<noteq> -1"
      proof (cases "uses_tag utype")
        case True
        then show ?thesis using object_size_pos [of 0 len ?tag n aclass] that
          by (simp add: n_def hd_def size_or_fail_def)
      qed (simp add: n_def hd_def)
      show "\<exists>k'. res = (n, (map_option (\<lambda>b. b @ hd @ bs) out, k')) \<and> (out \<noteq> None \<longrightarrow> int (length (hd @ bs)) = n)"
      proof (cases out)
        case None
        with a show ?thesis
          by (auto simp: asn1_i2d_ex_primitive_def first bind_outcome_Ok_iff Let_def size_or_fail_def n_def split: if_splits)
      next
        case (Some b)
        with a obtain ur' where ur': "asn1_ex_i2c True v utype it = Ok ur'"
          by (auto simp: asn1_i2d_ex_primitive_def first bind_outcome_Ok_iff Let_def split: if_splits)
        obtain utype' bs' where "ur' = (utype', Some (len, bs'))" using ex_i2c_same [OF first] ur' by (cases ur') blast
        then have u: "asn1_ex_i2c True v utype it = Ok (utype', Some (len, bs))" using ur' by (simp add: bs_def)
        have "res = (n, (Some (b @ hd @ bs), k)) \<and> (uses_tag utype \<longrightarrow> ASN1_object_size 0 len ?tag \<noteq> -1)"
          using a Some
          by (auto simp: asn1_i2d_ex_primitive_def first u bind_outcome_Ok_iff Let_def size_or_fail_def n_def hd_def split: if_splits)
        then show ?thesis using total len [OF ur'] Some by auto
      qed
    qed
    then show ?thesis by (rule answers_opt_same)
  qed
qed (auto intro!: answers_opt_same answers_never simp: asn1_i2d_ex_primitive_def)


section \<open>Sorting\<close>

lemma memcmp_min:
  "memcmp_loop (min (length a) (length b)) a b =
     Some (cmp_sign (take (min (length a) (length b)) a) (take (min (length a) (length b)) b))"
  by (rule memcmp_loop_sign) simp_all

lemma der_cmp_Nil [simp]: "der_cmp [] y = - int (length y)" "der_cmp x [] = int (length x)"
  by (simp_all add: der_cmp_def)

lemma der_cmp_Cons [simp]:
  "der_cmp (a # x) (b # y) = (if a < b then -1 else if b < a then 1 else der_cmp x y)"
  by (auto simp: der_cmp_def memcmp_min Let_def)

text \<open>\<open>der_cmp\<close> is the lexicographic order, so that the sorted sequence is determined by its elements.\<close>

lemma der_cmp_le_iff: "der_cmp x y \<le> 0 \<longleftrightarrow> x \<le> y"
proof (induction x arbitrary: y)
  case (Cons a x)
  then show ?case by (cases y) auto
qed simp

lemma der_sort_eq: "der_sort xs = sort xs"
proof -
  have "der_insert x ys = insort x ys" for x ys by (induction ys) (simp_all add: der_cmp_le_iff)
  then show ?thesis by (induction xs) simp_all
qed

lemma length_concat_der_sort [simp]: "length (concat (der_sort xs)) = length (concat xs)"
proof -
  have "length (concat ys) = sum_mset (image_mset length (mset ys))" for ys :: "bytes list"
    by (induction ys) simp_all
  then show ?thesis by (simp add: der_sort_eq)
qed

section \<open>Stacks\<close>

text \<open>The length and the octets of every call of a steady encoding.\<close>

definition call_of :: "'x asn1_env \<Rightarrow> 'x encoding \<Rightarrow> ('x asn1_value \<Rightarrow> 'x asn1_item \<Rightarrow> int \<Rightarrow> int \<Rightarrow> bool \<Rightarrow> int \<times> bytes) \<Rightarrow> bool" where
  "call_of env rec c \<longleftrightarrow> (\<forall>v it tag aclass. it \<in> range (env_item env) \<longrightarrow> answers_opt (c v it tag aclass) (\<lambda>optional out. rec v out it tag aclass optional))"

lemma steady_call_of: "steady env rec \<Longrightarrow> \<exists>c. call_of env rec c"
proof -
  assume s: "steady env rec"
  define c where "c v it tag aclass = (SOME c. answers_opt c (\<lambda>optional out. rec v out it tag aclass optional))" for v it tag aclass
  have "answers_opt (c v it tag aclass) (\<lambda>optional out. rec v out it tag aclass optional)"
    if "it \<in> range (env_item env)" for v it tag aclass
  proof -
    have "\<exists>c. answers_opt c (\<lambda>optional out. rec v out it tag aclass optional)"
      using s that unfolding steady_def by blast
    then show ?thesis unfolding c_def by (rule someI_ex)
  qed
  then show ?thesis unfolding call_of_def by blast
qed

lemma call_of_optional: "call_of env rec c \<Longrightarrow> it \<in> range (env_item env) \<Longrightarrow> fst (c v it tag aclass True) \<noteq> 0 \<Longrightarrow> fst (c v it tag aclass True) = fst (c v it tag aclass False)"
  unfolding call_of_def answers_opt_def by blast

lemma call_ofD: "call_of env rec c \<Longrightarrow> it \<in> range (env_item env) \<Longrightarrow> rec v (out, k) it tag aclass optional = Ok r \<Longrightarrow>
   \<exists>k'. r = (fst (c v it tag aclass optional), (map_option (\<lambda>b. b @ snd (c v it tag aclass optional)) out, k')) \<and>
     (out \<noteq> None \<longrightarrow> int (length (snd (c v it tag aclass optional))) = fst (c v it tag aclass optional))"
  unfolding call_of_def answers_opt_def by (rule answersD [where f = "\<lambda>out. rec v out it tag aclass optional"]) blast+

lemma sk_length_sum:
  assumes c: "call_of env rec c" and it: "it \<in> range (env_item env)"
  shows "sk_length rec it vs s k = Ok (s', k') \<Longrightarrow> s' = s + sum_list (map (\<lambda>v. fst (c v it (-1) 0 False)) vs)"
proof (induction vs arbitrary: s k)
  case (Cons v vs)
  then obtain n out k2 where a: "rec v (None, k) it (-1) 0 False = Ok (n, (out, k2))"
    "sk_length rec it vs (s + n) k2 = Ok (s', k')"
    by (auto simp: bind_outcome_Ok_iff split: if_splits)
  with Cons.IH [of "s + n" k2] call_ofD [OF c it a(1)] show ?case by auto
qed simp

lemma sk_encode_concat:
  assumes c: "call_of env rec c" and it: "it \<in> range (env_item env)"
  shows "sk_encode rec it vs (Some b, k) = Ok r \<Longrightarrow>
     (\<exists>k'. r = (Some (b @ concat (map (\<lambda>v. snd (c v it (-1) 0 False)) vs)), k')) \<and>
     (\<forall>v\<in>set vs. int (length (snd (c v it (-1) 0 False))) = fst (c v it (-1) 0 False))"
proof (induction vs arbitrary: b k)
  case (Cons v vs)
  then obtain n out k2 where a: "rec v (Some b, k) it (-1) 0 False = Ok (n, (out, k2))"
    "sk_encode rec it vs (out, k2) = Ok r"
    by (auto simp: bind_outcome_Ok_iff)
  from call_ofD [OF c it a(1)] have o: "out = Some (b @ snd (c v it (-1) 0 False))"
    "int (length (snd (c v it (-1) 0 False))) = fst (c v it (-1) 0 False)" by auto
  from Cons.IH [OF a(2) [unfolded o(1)]] o(2) show ?case by auto
qed auto

lemma der_items_map:
  assumes c: "call_of env rec c" and it: "it \<in> range (env_item env)"
  shows "der_items rec it vs room k = Ok (encs, k') \<Longrightarrow>
     encs = map (\<lambda>v. snd (c v it (-1) 0 False)) vs \<and>
     (\<forall>v\<in>set vs. int (length (snd (c v it (-1) 0 False))) = fst (c v it (-1) 0 False))"
proof (induction vs arbitrary: room k encs)
  case (Cons v vs)
  then obtain n out k2 where a: "rec v (Some [], k) it (-1) 0 False = Ok (n, (out, k2))"
    by (auto simp: bind_outcome_Ok_iff)
  from call_ofD [OF c it a] have o: "out = Some (snd (c v it (-1) 0 False))"
    "int (length (snd (c v it (-1) 0 False))) = fst (c v it (-1) 0 False)" "n = fst (c v it (-1) 0 False)" by auto
  let ?e = "snd (c v it (-1) 0 False)"
  obtain encs2 where "der_items rec it vs (room - int (length ?e)) k2 = Ok (encs2, k')" "encs = ?e # encs2"
    using Cons.prems a o by (auto simp: bind_outcome_Ok_iff Let_def split: if_splits)
  with Cons.IH o(2) show ?case by auto
qed simp

text \<open>The octets of a stack: those of its elements, in their order or sorted.\<close>

definition stack_octets ::
    "('x asn1_value \<Rightarrow> 'x asn1_item \<Rightarrow> int \<Rightarrow> int \<Rightarrow> bool \<Rightarrow> int \<times> bytes) \<Rightarrow> 'x asn1_item \<Rightarrow> 'x asn1_value list \<Rightarrow> bool \<Rightarrow> bytes" where
  "stack_octets c it sk do_sort = concat ((if do_sort then der_sort else (\<lambda>xs. xs)) (map (\<lambda>v. snd (c v it (-1) 0 False)) sk))"

lemma set_seq_out_octets:
  assumes c: "call_of env rec c" and it: "it \<in> range (env_item env)" and o: "asn1_set_seq_out rec m sk (Some b, k) skcontlen it do_sort = Ok r"
  shows "(\<exists>k'. r = (Some (b @ stack_octets c it sk do_sort), k')) \<and>
    int (length (stack_octets c it sk do_sort)) = sum_list (map (\<lambda>v. fst (c v it (-1) 0 False)) sk)"
proof -
  let ?e = "\<lambda>v. snd (c v it (-1) 0 False)"
  have len: "int (length (stack_octets c it sk do_sort)) = sum_list (map (\<lambda>v. fst (c v it (-1) 0 False)) sk)"
    if l: "\<forall>v\<in>set sk. int (length (?e v)) = fst (c v it (-1) 0 False)"
  proof -
    have "int (length (concat (map ?e sk))) = sum_list (map (\<lambda>v. fst (c v it (-1) 0 False)) sk)"
      using l by (induction sk) auto
    then show ?thesis by (simp add: stack_octets_def)
  qed
  show ?thesis
  proof (cases "\<not> do_sort \<or> length sk < 2")
    case True
    have s: "stack_octets c it sk do_sort = concat (map ?e sk)"
      using True by (cases sk; cases "tl sk") (auto simp: stack_octets_def)
    have "sk_encode rec it sk (Some b, k) = Ok r" using o True by (simp add: asn1_set_seq_out_def)
    from sk_encode_concat [OF c it this] s len show ?thesis by auto
  next
    case False
    obtain encs k2 where e: "der_items rec it sk skcontlen (Suc (Suc k)) = Ok (encs, k2)"
      "r = (Some (b @ concat (der_sort encs)), k2)"
      using o False by (auto simp: asn1_set_seq_out_def Let_def bind_outcome_Ok_iff split: if_splits)
    from der_items_map [OF c it e(1)] e(2) False len show ?thesis by (auto simp: stack_octets_def)
  qed
qed


text \<open>The tag of a SET OF or SEQUENCE OF, and the whole encoding of a stack.\<close>

definition stack_tag :: "asn1_template \<Rightarrow> int \<Rightarrow> int \<Rightarrow> int \<times> int" where
  "stack_tag tt ttag tclass =
     (if ttag \<noteq> -1 \<and> tt_flags tt AND ASN1_TFLG_EXPTAG = 0 then (ttag, tclass)
      else (if tt_flags tt AND ASN1_TFLG_SET_OF \<noteq> 0 then V_ASN1_SET else V_ASN1_SEQUENCE, V_ASN1_UNIVERSAL))"

definition stack_sum :: "('x asn1_value \<Rightarrow> 'x asn1_item \<Rightarrow> int \<Rightarrow> int \<Rightarrow> bool \<Rightarrow> int \<times> bytes) \<Rightarrow> 'x asn1_item \<Rightarrow> 'x asn1_value list \<Rightarrow> int" where
  "stack_sum c it sk = sum_list (map (\<lambda>v. fst (c v it (-1) 0 False)) sk)"

definition stack_header :: "asn1_template \<Rightarrow> int \<Rightarrow> int \<Rightarrow> int \<Rightarrow> bytes" where
  "stack_header tt ttag tclass S =
     (if tt_flags tt AND ASN1_TFLG_EXPTAG \<noteq> 0
      then ASN1_put_object 1 (ASN1_object_size 1 S (fst (stack_tag tt ttag tclass))) ttag tclass else []) @
     ASN1_put_object 1 S (fst (stack_tag tt ttag tclass)) (snd (stack_tag tt ttag tclass))"

lemma stack_run:
  assumes c: "call_of env rec c" and r: "stack_ex_i2d env rec m sk (out, k) tt ttag tclass = Ok r"
  defines "S \<equiv> stack_sum c (env_item env (tt_item tt)) sk"
  defines "enc \<equiv> stack_header tt ttag tclass S @
    stack_octets c (env_item env (tt_item tt)) sk (tt_flags tt AND ASN1_TFLG_SET_OF \<noteq> 0)"
  shows "\<exists>k'. r = (int (length (stack_header tt ttag tclass S)) + S, (map_option (\<lambda>b. b @ enc) out, k')) \<and>
    (out \<noteq> None \<longrightarrow> int (length enc) = int (length (stack_header tt ttag tclass S)) + S)"
proof -
  let ?it = "env_item env (tt_item tt)" and ?ex = "tt_flags tt AND ASN1_TFLG_EXPTAG \<noteq> 0"
    and ?set = "tt_flags tt AND ASN1_TFLG_SET_OF \<noteq> 0"
  obtain sktag skaclass where st: "stack_tag tt ttag tclass = (sktag, skaclass)" by force
  have st': "(if ttag \<noteq> -1 \<and> \<not> ?ex then (ttag, tclass)
       else (if ?set then V_ASN1_SET else V_ASN1_SEQUENCE, V_ASN1_UNIVERSAL)) = (sktag, skaclass)"
    using st by (simp add: stack_tag_def)
  obtain s k2 sklen ret where a: "sk_length rec ?it sk 0 k = Ok (s, k2)"
    "size_or_fail (ASN1_object_size 1 s sktag) = Ok sklen"
    "(if ?ex then size_or_fail (ASN1_object_size 1 sklen ttag) else Ok sklen) = Ok ret"
    "(case out of None \<Rightarrow> Ok (ret, (None, k2))
      | Some b \<Rightarrow> bind_outcome (asn1_set_seq_out rec m sk
            (put_out ((if ?ex then ASN1_put_object 1 sklen ttag tclass else []) @ ASN1_put_object 1 s sktag skaclass)
               (Some b, k2)) s ?it ?set) (\<lambda>out. Ok (ret, out))) = Ok r"
    using r unfolding stack_ex_i2d_def Let_def st' by (auto simp: bind_outcome_Ok_iff)
  have s: "s = S" using sk_length_sum [OF c rangeI a(1)] by (simp add: S_def stack_sum_def)
  note p = object_size_pos [OF a(2) [unfolded s], of skaclass, simplified]
  have sz: "ASN1_object_size 1 S sktag = sklen" using a(2) s by (auto simp: size_or_fail_def split: if_splits)
  have h: "stack_header tt ttag tclass S =
      (if ?ex then ASN1_put_object 1 sklen ttag tclass else []) @ ASN1_put_object 1 S sktag skaclass"
    by (simp add: stack_header_def st sz)
  have ret: "ret = int (length (stack_header tt ttag tclass S)) + S"
  proof (cases ?ex)
    case True
    with a(3) have "size_or_fail (ASN1_object_size 1 sklen ttag) = Ok ret" by simp
    from object_size_pos [OF this, of tclass] p True show ?thesis by (simp add: h)
  next
    case False
    with a(3) p show ?thesis by (simp add: h)
  qed
  show ?thesis
  proof (cases out)
    case None
    with a(4) ret show ?thesis by auto
  next
    case (Some b)
    obtain out' where o: "asn1_set_seq_out rec m sk (Some (b @ stack_header tt ttag tclass S), k2) S ?it ?set = Ok out'" "r = (ret, out')"
      using a(4) Some by (auto simp: bind_outcome_Ok_iff s h)
    from set_seq_out_octets [OF c rangeI o(1)] o(2) ret Some show ?thesis
      by (auto simp: enc_def stack_sum_def S_def)
  qed
qed

section \<open>Templates and items\<close>

lemma template_answers:
  assumes "steady env rec"
  shows "\<exists>n enc. answers n enc (\<lambda>out. template_i2d env rec m v out tt tag iclass)"
proof -
  obtain c where c: "call_of env rec c" using steady_call_of [OF assms] by blast
  let ?it = "env_item env (tt_item tt)" and ?opt = "tt_flags tt AND ASN1_TFLG_OPTIONAL \<noteq> 0"
  show ?thesis
  proof (cases "template_tag tt tag iclass")
    case (Ok tc)
    obtain ttag tclass where tc: "tc = (ttag, tclass)" by force
    note T = Ok [unfolded tc]
    consider (sk) "tt_flags tt AND ASN1_TFLG_SK_MASK \<noteq> 0"
      | (ex) "tt_flags tt AND ASN1_TFLG_SK_MASK = 0" "tt_flags tt AND ASN1_TFLG_EXPTAG \<noteq> 0"
      | (plain) "tt_flags tt AND ASN1_TFLG_SK_MASK = 0" "tt_flags tt AND ASN1_TFLG_EXPTAG = 0" by blast
    then show ?thesis
    proof cases
      case sk
      consider (null) "v = NullP" | (stack) sk where "v = StackP sk" | (other) "v \<noteq> NullP" "\<nexists>sk. v = StackP sk" by blast
      then show ?thesis
      proof cases
        case null
        then have "answers 0 [] (\<lambda>out. template_i2d env rec m v out tt tag iclass)"
          using sk by (intro answers_omitted) (auto simp: template_i2d_def T Let_def split: if_splits)
        then show ?thesis by blast
      next
        case (stack sk')
        let ?S = "stack_sum c ?it sk'"
        have "answers (int (length (stack_header tt ttag tclass ?S)) + ?S)
            (stack_header tt ttag tclass ?S @ stack_octets c ?it sk' (tt_flags tt AND ASN1_TFLG_SET_OF \<noteq> 0))
            (\<lambda>out. template_i2d env rec m v out tt tag iclass)"
          using stack_run [OF c] sk stack by (intro answersI) (simp add: template_i2d_def T Let_def)
        then show ?thesis by blast
      next
        case other
        then have "answers 0 [] (\<lambda>out. template_i2d env rec m v out tt tag iclass)"
          using sk by (intro answers_never) (auto simp: template_i2d_def T Let_def split: asn1_value.split)
        then show ?thesis by blast
      qed
    next
      case ex
      let ?i = "fst (c v ?it (-1) 0 ?opt)" and ?e = "snd (c v ?it (-1) 0 False)"
      let ?hd = "ASN1_put_object 1 ?i ttag tclass"
      have "answers (if ?i = 0 then 0 else int (length ?hd) + ?i) (if ?i = 0 then [] else ?hd @ ?e)
          (\<lambda>out. template_i2d env rec m v out tt tag iclass)"
      proof (rule answersI)
        fix out k r
        assume a: "template_i2d env rec m v (out, k) tt tag iclass = Ok r"
        then obtain i o' k2 where f: "rec v (None, k) ?it (-1) 0 ?opt = Ok (i, (o', k2))"
          using ex by (auto simp: template_i2d_def T Let_def bind_outcome_Ok_iff)
        have i: "i = ?i" using call_ofD [OF c rangeI f] by auto
        show "\<exists>k'. r = (if ?i = 0 then 0 else int (length ?hd) + ?i,
            (map_option (\<lambda>b. b @ (if ?i = 0 then [] else ?hd @ ?e)) out, k')) \<and>
          (out \<noteq> None \<longrightarrow> int (length (if ?i = 0 then [] else ?hd @ ?e)) = (if ?i = 0 then 0 else int (length ?hd) + ?i))"
        proof (cases "?i = 0")
          case True
          then show ?thesis using a ex f i by (auto simp: template_i2d_def T Let_def option.map_ident)
        next
          case False
          have "bind_outcome (size_or_fail (ASN1_object_size 1 ?i ttag)) (\<lambda>ret. case out of
               None \<Rightarrow> Ok (ret, (None, k2))
             | Some b \<Rightarrow> bind_outcome (rec v (put_out ?hd (Some b, k2)) ?it (-1) 0 False) (\<lambda>(_, out). Ok (ret, out))) = Ok r"
            using a ex f i False by (simp add: template_i2d_def T Let_def)
          then obtain ret where ret: "size_or_fail (ASN1_object_size 1 ?i ttag) = Ok ret"
            "(case out of None \<Rightarrow> Ok (ret, (None, k2)) | Some b \<Rightarrow>
               bind_outcome (rec v (put_out ?hd (Some b, k2)) ?it (-1) 0 False) (\<lambda>(_, out). Ok (ret, out))) = Ok r"
            unfolding bind_outcome_Ok_iff by blast
          have n: "ret = int (length ?hd) + ?i" using object_size_pos [OF ret(1), of tclass] by simp
          show ?thesis
          proof (cases out)
            case None
            then show ?thesis using ret(2) n False by auto
          next
            case (Some b)
            then obtain n2 out2 where g: "rec v (Some (b @ ?hd), k2) ?it (-1) 0 False = Ok (n2, out2)" "r = (ret, out2)"
              using ret(2) by (auto simp: bind_outcome_Ok_iff)
            have same: "fst (c v ?it (-1) 0 False) = ?i"
              using call_of_optional [OF c rangeI, of v "tt_item tt" "-1" 0] False by (cases ?opt) auto
            show ?thesis using call_ofD [OF c rangeI g(1)] g(2) n False Some same by auto
          qed
        qed
      qed
      then show ?thesis by blast
    next
      case plain
      then have e: "(\<lambda>out. template_i2d env rec m v out tt tag iclass) = (\<lambda>out. rec v out ?it ttag tclass ?opt)"
        by (simp add: template_i2d_def T Let_def)
      show ?thesis unfolding e using c unfolding call_of_def answers_opt_def by blast
    qed
  qed (auto intro: answers_never simp: template_i2d_def)
qed


lemma fields_answers:
  assumes "steady env rec"
  shows "\<exists>n enc. (\<forall>s k s' k'. fields_length env rec m v tts s k = Ok (s', k') \<longrightarrow> s' = s + n) \<and>
    (\<forall>b k r. fields_encode env rec m v tts (Some b, k) = Ok r \<longrightarrow>
       (\<exists>k'. r = (Some (b @ enc), k')) \<and> int (length enc) = n)"
proof (induction tts)
  case Nil
  show ?case by (intro exI [of _ 0] exI [of _ "[]"]) auto
next
  case (Cons tt tts)
  obtain n enc where IH: "\<And>s k s' k'. fields_length env rec m v tts s k = Ok (s', k') \<Longrightarrow> s' = s + n"
    "\<And>b k r. fields_encode env rec m v tts (Some b, k) = Ok r \<Longrightarrow> (\<exists>k'. r = (Some (b @ enc), k')) \<and> int (length enc) = n"
    using Cons.IH by blast
  show ?case
  proof (cases "asn1_do_adb env v tt")
    case a: (Ok seqtt)
    show ?thesis
    proof (cases "asn1_get_field_ptr v seqtt")
      case f: (Ok f)
      obtain n1 e1 where t: "answers n1 e1 (\<lambda>out. template_i2d env rec m f out seqtt (-1) 0)"
        using template_answers [OF assms] by blast
      note D = answersD [OF t]
      have "s' = s + (n1 + n)" if l: "fields_length env rec m v (tt # tts) s k = Ok (s', k')" for s k s' k'
      proof -
        obtain x o' k2 where x: "template_i2d env rec m f (None, k) seqtt (-1) 0 = Ok (x, (o', k2))"
          "fields_length env rec m v tts (s + x) k2 = Ok (s', k')"
          using l by (auto simp: a f bind_outcome_Ok_iff split: if_splits)
        with D [OF x(1)] IH(1) [OF x(2)] show ?thesis by auto
      qed
      moreover have "(\<exists>k'. r = (Some (b @ e1 @ enc), k')) \<and> int (length (e1 @ enc)) = n1 + n"
        if e: "fields_encode env rec m v (tt # tts) (Some b, k) = Ok r" for b k r
      proof -
        obtain x o' k2 where x: "template_i2d env rec m f (Some b, k) seqtt (-1) 0 = Ok (x, (o', k2))"
          "fields_encode env rec m v tts (o', k2) = Ok r"
          using e by (auto simp: a f bind_outcome_Ok_iff)
        from D [OF x(1)] have o: "o' = Some (b @ e1)" "int (length e1) = n1" by auto
        from IH(2) [OF x(2) [unfolded o(1)]] o(2) show ?thesis by auto
      qed
      ultimately show ?thesis by blast
    qed (auto simp: a)
  qed auto
qed

lemma sequence_answers:
  assumes "steady env rec"
  shows "\<exists>n enc. answers n enc (\<lambda>out. sequence_i2d env rec m v out it tag aclass)"
proof (cases "\<exists>e. asn1_get_enc_ptr v it = Some e \<and> \<not> enc_modified e")
  case True
  then obtain e where e: "asn1_get_enc_ptr v it = Some e" "\<not> enc_modified e" by blast
  have "answers (enc_len e) (case enc_octets e of None \<Rightarrow> [] | Some d \<Rightarrow> take (nat (enc_len e)) d)
      (\<lambda>out. sequence_i2d env rec m v out it tag aclass)"
    using e by (intro answersI)
      (auto simp: sequence_i2d_def asn1_enc_restore_def bind_outcome_Ok_iff min_absorb2 split: option.splits if_splits)
  then show ?thesis by blast
next
  case False
  then have r: "asn1_enc_restore v it out = Ok None" for out
    by (auto simp: asn1_enc_restore_def split: option.splits)
  obtain tag' aclass' where t: "(if tag = -1 then (V_ASN1_SEQUENCE, V_ASN1_UNIVERSAL) else (tag, aclass)) = (tag', aclass')" by force
  obtain n enc where F: "\<And>s k s' k'. fields_length env rec m v (it_templates it) s k = Ok (s', k') \<Longrightarrow> s' = s + n"
    "\<And>b k r. fields_encode env rec m v (it_templates it) (Some b, k) = Ok r \<Longrightarrow>
       (\<exists>k'. r = (Some (b @ enc), k')) \<and> int (length enc) = n"
    using fields_answers [OF assms, of m v "it_templates it"] by blast
  let ?hd = "ASN1_put_object 1 n tag' aclass'"
  have "answers (int (length ?hd) + n) (?hd @ enc) (\<lambda>out. sequence_i2d env rec m v out it tag aclass)"
  proof (rule answersI)
    fix out k res
    assume a: "sequence_i2d env rec m v (out, k) it tag aclass = Ok res"
    obtain s k2 len where b: "fields_length env rec m v (it_templates it) 0 k = Ok (s, k2)"
      "size_or_fail (ASN1_object_size 1 s tag') = Ok len"
      "(case out of None \<Rightarrow> Ok (len, (None, k2))
        | Some b \<Rightarrow> bind_outcome (fields_encode env rec m v (it_templates it) (put_out (ASN1_put_object 1 s tag' aclass') (Some b, k2)))
            (\<lambda>out. Ok (len, out))) = Ok res"
      using a unfolding sequence_i2d_def t by (auto simp: r bind_outcome_Ok_iff)
    have s: "s = n" using F(1) [OF b(1)] by simp
    have len: "len = int (length ?hd) + n" using object_size_pos [OF b(2), of aclass'] s by simp
    show "\<exists>k'. res = (int (length ?hd) + n, (map_option (\<lambda>b. b @ ?hd @ enc) out, k')) \<and>
      (out \<noteq> None \<longrightarrow> int (length (?hd @ enc)) = int (length ?hd) + n)"
    proof (cases out)
      case None
      with b(3) len show ?thesis by auto
    next
      case (Some b')
      then obtain o' where o: "fields_encode env rec m v (it_templates it) (Some (b' @ ?hd), k2) = Ok o'" "res = (len, o')"
        using b(3) s by (auto simp: bind_outcome_Ok_iff)
      from F(2) [OF o(1)] o(2) len Some show ?thesis by auto
    qed
  qed
  then show ?thesis by blast
qed

lemma choice_answers:
  assumes "steady env rec"
  shows "\<exists>n enc. answers n enc (\<lambda>out. choice_i2d env rec m v out it tag)"
proof (cases "\<exists>i f. asn1_get_choice_selector v = Ok i \<and> asn1_get_field_ptr v (it_templates it ! nat i) = Ok f")
  case True
  then obtain i f where f: "asn1_get_choice_selector v = Ok i" "asn1_get_field_ptr v (it_templates it ! nat i) = Ok f" by blast
  obtain n enc where t: "answers n enc (\<lambda>out. template_i2d env rec m f out (it_templates it ! nat i) (-1) 0)"
    using template_answers [OF assms] by blast
  then have "answers n enc (\<lambda>out. choice_i2d env rec m v out it tag)"
    by (simp add: choice_i2d_def f Let_def answers_def)
  then show ?thesis by blast
next
  case False
  then have "answers 0 [] (\<lambda>out. choice_i2d env rec m v out it tag)"
    by (intro answers_never) (auto simp: choice_i2d_def Let_def bind_outcome_Ok_iff split: if_splits)
  then show ?thesis by blast
qed

text \<open>What the code relies on of an external type's encoder.\<close>

definition steady_extern :: "'x asn1_item \<Rightarrow> bool" where
  "steady_extern it \<longleftrightarrow> (\<forall>ef. it_ext it = Some ef \<longrightarrow> (\<forall>v tag aclass. \<exists>n enc. \<forall>out r. ex_i2d ef v out tag aclass = Ok r \<longrightarrow>
     r = (n, map_option (\<lambda>b. b @ enc) out) \<and> (out \<noteq> None \<longrightarrow> int (length enc) = n)))"

lemma extern_answers:
  assumes "steady_extern it"
  shows "\<exists>n enc. answers n enc (\<lambda>out. extern_i2d v out it tag aclass)"
proof (cases "it_ext it")
  case (Some ef)
  then obtain n enc where e: "\<And>out r. ex_i2d ef v out tag aclass = Ok r \<Longrightarrow>
     r = (n, map_option (\<lambda>b. b @ enc) out) \<and> (out \<noteq> None \<longrightarrow> int (length enc) = n)"
    using assms unfolding steady_extern_def by metis
  have "answers n enc (\<lambda>out. extern_i2d v out it tag aclass)"
    using Some by (intro answersI) (auto simp: extern_i2d_def bind_outcome_Ok_iff split: if_splits dest!: e)
  then show ?thesis by blast
qed (auto intro: answers_never simp: extern_i2d_def)

lemma answers_opt_const: "\<exists>n enc. answers n enc f \<Longrightarrow> \<exists>c. answers_opt c (\<lambda>opt. f)"
  by (blast intro: answers_opt_same)

lemma item_answers:
  assumes s: "steady env rec" and e: "steady_extern it"
  shows "\<exists>c. answers_opt c (\<lambda>optional out. item_i2d env m rec v out it tag aclass optional)"
proof (cases "it_itype it \<noteq> ITYPE_PRIMITIVE \<and> v = NullP")
  case True
  then show ?thesis
    by (intro answers_opt_same [of 0 "[]"] answers_omitted) (auto simp: item_i2d_def split: if_splits)
next
  case False
  note n = if_not_P [OF False]
  show ?thesis
  proof (cases "it_itype it")
    case ITYPE_PRIMITIVE
    show ?thesis
    proof (cases "it_templates it")
      case Nil
      then show ?thesis using primitive_answers unfolding item_i2d_def n ITYPE_PRIMITIVE by simp
    next
      case (Cons tt tts)
      then show ?thesis
        using answers_opt_const [OF template_answers [OF s, of m v tt tag aclass]]
        unfolding item_i2d_def n ITYPE_PRIMITIVE
        by (cases "tt_flags tt AND ASN1_TFLG_OPTIONAL = 0") (auto intro!: answers_opt_same answers_never)
    qed
  next
    case ITYPE_MSTRING
    then show ?thesis
      using primitive_answers [of v it "-1" 0] unfolding item_i2d_def n
      by (cases "tag = -1") (auto intro!: answers_opt_same answers_never)
  next
    case ITYPE_CHOICE
    then have x: "(\<lambda>optional out. item_i2d env m rec v out it tag aclass optional) = (\<lambda>optional out. choice_i2d env rec m v out it tag)"
      using False by (intro ext) (simp add: item_i2d_def)
    show ?thesis unfolding x by (rule answers_opt_const [OF choice_answers [OF s]])
  next
    case ITYPE_EXTERN
    then have x: "(\<lambda>optional out. item_i2d env m rec v out it tag aclass optional) = (\<lambda>optional out. extern_i2d v out it tag aclass)"
      using False by (intro ext) (simp add: item_i2d_def)
    show ?thesis unfolding x by (rule answers_opt_const [OF extern_answers [OF e]])
  next
    case ITYPE_SEQUENCE
    then have x: "(\<lambda>optional out. item_i2d env m rec v out it tag aclass optional) = (\<lambda>optional out. sequence_i2d env rec m v out it tag aclass)"
      using False by (intro ext) (simp add: item_i2d_def)
    show ?thesis unfolding x by (rule answers_opt_const [OF sequence_answers [OF s]])
  next
    case ITYPE_UNKNOWN
    then show ?thesis unfolding item_i2d_def n by (auto intro!: answers_opt_same answers_never)
  qed
qed

lemma item_ex_steady:
  assumes "\<forall>i. steady_extern (env_item env i)"
  shows "steady env (item_ex_i2d_opt env m n)"
proof (induction n)
  case 0
  show ?case unfolding steady_def by (auto intro!: answers_opt_same answers_never)
next
  case (Suc n)
  show ?case unfolding steady_def item_ex_i2d_opt.simps using item_answers [OF Suc] assms by fast
qed


section \<open>Properties\<close>

lemma item_ex_answers:
  assumes "\<forall>i. steady_extern (env_item env i)" "steady_extern it"
  shows "\<exists>n enc. answers n enc (\<lambda>out. ASN1_item_ex_i2d env m v out it tag aclass)"
proof (cases "env_stack env")
  case 0
  then show ?thesis unfolding ASN1_item_ex_i2d_def by (auto intro: answers_never)
next
  case (Suc n)
  then show ?thesis
    using item_answers [OF item_ex_steady [OF assms(1)] assms(2), of m m n v tag aclass]
    unfolding ASN1_item_ex_i2d_def answers_opt_def by auto
qed

text \<open>
  C24: The encoder writes what it measured: when the length pass of \<open>ASN1_item_i2d\<close> gives \<open>n\<close>, the
  allocation of \<open>n\<close> octets succeeds and the writing pass succeeds, the octets written fill the new buffer
  exactly, and they are the octets any other writing pass appends to its output, whatever its
  allocations. Externals are assumed to do the same for their types.
\<close>

theorem i2d_fills_buffer:
  assumes "\<forall>i. steady_extern (env_item env i)" "steady_extern it" "alloc_ok m"
    and "ASN1_item_ex_i2d env m v (None, 0) it (-1) 0 = Ok (n, (o1, k))" "0 < n"
    and "m k (nat n) = Some buf" "ASN1_item_ex_i2d env m v (Some [], Suc k) it (-1) 0 = Ok r"
  shows "\<exists>der. int (length der) = n \<and> ASN1_item_i2d env m v PP_ALLOC it = Ok (n, Some der) \<and>
    (\<forall>b k2 r2. ASN1_item_ex_i2d env m v (Some b, k2) it (-1) 0 = Ok r2 \<longrightarrow> fst r2 = n \<and> fst (snd r2) = Some (b @ der))"
proof -
  obtain n2 der where a: "answers n2 der (\<lambda>out. ASN1_item_ex_i2d env m v out it (-1) 0)"
    using item_ex_answers [OF assms(1,2)] by blast
  note D = answersD [OF a]
  from D [OF assms(4)] have n: "n2 = n" by auto
  from D [OF assms(7)] n obtain k' where r: "r = (n, (Some der, k'))" "int (length der) = n" by auto
  have b: "length buf = nat n" using assms(3,6) by (rule alloc_okD)
  have m: "memcpy_at buf 0 der = Some der" using b r(2) by (simp add: memcpy_at_def)
  have "ASN1_item_i2d env m v PP_ALLOC it = Ok (n, Some der)"
    using assms(4-7) by (simp add: ASN1_item_i2d_def r m)
  moreover have "fst r2 = n \<and> fst (snd r2) = Some (b @ der)"
    if "ASN1_item_ex_i2d env m v (Some b, k2) it (-1) 0 = Ok r2" for b k2 r2
    using D [OF that] n by auto
  ultimately show ?thesis using r(2) by blast
qed

text \<open>A concrete environment: item 0 is OCTET STRING, item 1 a SET OF it.\<close>

definition octet_item :: "unit asn1_item" where
  "octet_item = \<lparr>it_itype = ITYPE_PRIMITIVE, it_utype = V_ASN1_OCTET_STRING, it_templates = [], it_aux = None, it_ext = None, it_size = 0\<rparr>"

definition set_template :: asn1_template where
  "set_template = \<lparr>tt_flags = ASN1_TFLG_SET_OF, tt_tag = 0, tt_offset = 0, tt_item = 0\<rparr>"

definition set_item :: "unit asn1_item" where
  "set_item = octet_item\<lparr>it_utype := -1, it_templates := [set_template]\<rparr>"

definition demo_env :: "unit asn1_env" where
  "demo_env = \<lparr>env_item = (\<lambda>i. if i = 0 then octet_item else set_item), env_adb = (\<lambda>_. \<lparr>adb_offset = 0, adb_tbl = [], adb_default = None, adb_null = None\<rparr>),
     env_refcount_dec = (\<lambda>n. (n - 1, n = 1)), env_undef_obj = \<lparr>obj_sn = None, obj_ln = None, obj_nid = 0, obj_length = 0, obj_data = None, obj_flags = 0\<rparr>,
     env_obj2nid = obj_nid, env_stack = 10\<rparr>"

definition octets :: "bytes \<Rightarrow> unit asn1_value" where
  "octets d = StrP \<lparr>str_length = int (length d), str_type = V_ASN1_OCTET_STRING, str_data = Some d, str_flags = 0\<rparr>"

lemma demo_steady: "steady_extern (env_item demo_env i)"
  by (simp add: steady_extern_def demo_env_def octet_item_def set_item_def)

lemma i2d_fills_buffer_witness:
  "ASN1_item_i2d demo_env zero_alloc (StackP [octets [7, 8], octets [5]]) PP_ALLOC set_item =
     Ok (9, Some [0x31, 7, 4, 1, 5, 4, 2, 7, 8])"
proof -
  have 1: "ASN1_item_ex_i2d demo_env zero_alloc (StackP [octets [7, 8], octets [5]]) (None, 0) set_item (-1) 0 = Ok (9, (None, 0))"
    by code_simp
  have 2: "ASN1_item_ex_i2d demo_env zero_alloc (StackP [octets [7, 8], octets [5]]) (Some [], Suc 0) set_item (-1) 0 =
      Ok (9, (Some [0x31, 7, 4, 1, 5, 4, 2, 7, 8], 3))"
    by code_simp
  have s: "steady_extern set_item" using demo_steady [of 1] by (simp add: demo_env_def)
  from i2d_fills_buffer [OF allI [OF demo_steady] s alloc_ok_zero_alloc 1 _ _ 2, of "replicate 9 0"] 2
  show ?thesis by (force simp: zero_alloc_def)
qed

text \<open>
  C25: A SET OF is written in canonical order, as long as external types encode a value in the same way each time: after the header come the encodings of the elements, each the one that
  the encoder gives the element alone, every element's once, in ascending lexicographic order of their octets. So two
  stacks with the same elements, in whatever order, have the same encoding when both can be encoded.
\<close>

theorem set_of_canonical:
  assumes steady: "\<forall>i. steady_extern (env_item env i)" and set_of: "tt_flags tt AND ASN1_TFLG_SET_OF \<noteq> 0"
    and run: "template_i2d env (item_ex_i2d_opt env m s) m (StackP sk) (Some b, k) tt tag iclass = Ok (n, (out, k1))"
  shows "\<exists>ttag tclass es enc. template_tag tt tag iclass = Ok (ttag, tclass) \<and>
      out = Some (b @ stack_header tt ttag tclass (int (length (concat es))) @ concat es) \<and>
      sorted es \<and> mset es = image_mset enc (mset sk) \<and>
      (\<forall>v\<in>set sk. \<forall>b' j r. item_ex_i2d_opt env m s v (Some b', j) (env_item env (tt_item tt)) (-1) 0 False = Ok r \<longrightarrow>
        fst (snd r) = Some (b' @ enc v)) \<and>
      (\<forall>sk' k' n' out' k1'. mset sk' = mset sk \<longrightarrow>
        template_i2d env (item_ex_i2d_opt env m s) m (StackP sk') (Some b, k') tt tag iclass = Ok (n', (out', k1')) \<longrightarrow>
        n' = n \<and> out' = out)"
proof -
  let ?it = "env_item env (tt_item tt)"
  obtain c where c: "call_of env (item_ex_i2d_opt env m s) c" using steady_call_of [OF item_ex_steady [OF steady]] by blast
  let ?enc = "\<lambda>v. snd (c v ?it (-1) 0 False)"
  obtain ttag tclass where t: "template_tag tt tag iclass = Ok (ttag, tclass)"
    using run by (auto simp: template_i2d_def bind_outcome_Ok_iff)
  have sk: "tt_flags tt AND ASN1_TFLG_SK_MASK \<noteq> 0"
  proof
    assume a: "tt_flags tt AND ASN1_TFLG_SK_MASK = 0"
    have "tt_flags tt AND ASN1_TFLG_SET_OF = (tt_flags tt AND ASN1_TFLG_SK_MASK) AND ASN1_TFLG_SET_OF"
      by (simp add: and.assoc)
    with a set_of show False by simp
  qed
  have octets: "stack_octets c ?it xs True = concat (sort (map ?enc xs))" for xs
    by (simp add: stack_octets_def der_sort_eq)
  note r = run [unfolded template_i2d_def t, simplified sk Let_def, simplified]
  note e = stack_run [OF c r, unfolded octets simp_thms set_of]
  have sum: "stack_sum c ?it sk = int (length (concat (sort (map ?enc sk))))" using e set_of octets by auto
  have out: "out = Some (b @ stack_header tt ttag tclass (stack_sum c ?it sk) @ concat (sort (map ?enc sk)))"
    using e set_of octets by auto
  have each: "fst (snd r) = Some (b' @ ?enc v)"
    if "item_ex_i2d_opt env m s v (Some b', j) ?it (-1) 0 False = Ok r" for v b' j r
    using c that unfolding call_of_def answers_opt_def answers_def by fastforce
  have same: "n' = n \<and> out' = out" if p: "mset sk' = mset sk"
    "template_i2d env (item_ex_i2d_opt env m s) m (StackP sk') (Some b, k') tt tag iclass = Ok (n', (out', k1'))" for sk' k' n' out' k1'
  proof -
    note r' = p(2) [unfolded template_i2d_def t, simplified sk Let_def, simplified]
    have "stack_sum c ?it sk' = stack_sum c ?it sk"
      unfolding stack_sum_def sum_mset_sum_list [symmetric] mset_map p(1) ..
    moreover have "sort (map ?enc sk') = sort (map ?enc sk)" using p(1) by (intro properties_for_sort) simp_all
    then have "stack_octets c ?it sk' True = stack_octets c ?it sk True" by (simp add: octets)
    ultimately show ?thesis using stack_run [OF c r'] stack_run [OF c r] set_of by auto
  qed
  show ?thesis
    by (rule exI [of _ ttag], rule exI [of _ tclass], rule exI [of _ "sort (map ?enc sk)"], rule exI [of _ ?enc])
      (use t out each same in \<open>simp add: sum\<close>)
qed

lemma set_of_canonical_witness:
  "template_i2d demo_env (item_ex_i2d_opt demo_env zero_alloc 5) zero_alloc (StackP [octets [5], octets [7, 8]]) (Some [], 0) set_template (-1) 0 =
     Ok (9, (Some [0x31, 7, 4, 1, 5, 4, 2, 7, 8], 2))"
proof -
  have 1: "template_i2d demo_env (item_ex_i2d_opt demo_env zero_alloc 5) zero_alloc (StackP [octets [7, 8], octets [5]]) (Some [], 0) set_template (-1) 0 =
     Ok (9, (Some [0x31, 7, 4, 1, 5, 4, 2, 7, 8], 2))" by code_simp
  have 2: "template_i2d demo_env (item_ex_i2d_opt demo_env zero_alloc 5) zero_alloc (StackP [octets [5], octets [7, 8]]) (Some [], 0) set_template (-1) 0 =
     Ok (9, (Some [0x31, 7, 4, 1, 5, 4, 2, 7, 8], 2))" by code_simp
  have "tt_flags set_template AND ASN1_TFLG_SET_OF \<noteq> 0" by (simp add: set_template_def)
  from set_of_canonical [OF allI [OF demo_steady] this 1] 2 show ?thesis by blast
qed

end
