(* ===== verification/Asn1_Decode.thy ===== *)
theory Asn1_Decode
  imports Asn1_Alloc
begin

text \<open>
  The decoder driven by items (\<open>tasn_dec.c\<close>). An operation takes the pointer's value and the input and gives
  its result, the value, the rest of the input and the state: the header cache and the clock of the
  allocations. \<open>Ok True\<close> is the return value 1, \<open>Ok False\<close> the -1 of an absent optional value and \<open>Fail\<close> the
  return value 0. The input is the octets from the pointer to the end of the caller's buffer; the length
  given to an operation may be smaller. The code bounds its recursion by \<open>ASN1_MAX_CONSTRUCTED_NEST\<close>; the model
  counts the remaining levels down.
\<close>

section \<open>Headers\<close>

definition tag2bit :: "int list" where
  "tag2bit =
     [0, 0, 0, B_ASN1_BIT_STRING, B_ASN1_OCTET_STRING, 0, 0, B_ASN1_UNKNOWN,
      B_ASN1_UNKNOWN, B_ASN1_UNKNOWN, B_ASN1_UNKNOWN, B_ASN1_UNKNOWN,
      B_ASN1_UTF8STRING, B_ASN1_UNKNOWN, B_ASN1_UNKNOWN, B_ASN1_UNKNOWN,
      B_ASN1_SEQUENCE, 0, B_ASN1_NUMERICSTRING, B_ASN1_PRINTABLESTRING,
      B_ASN1_T61STRING, B_ASN1_VIDEOTEXSTRING, B_ASN1_IA5STRING,
      B_ASN1_UTCTIME, B_ASN1_GENERALIZEDTIME,
      B_ASN1_GRAPHICSTRING, B_ASN1_ISO64STRING, B_ASN1_GENERALSTRING,
      B_ASN1_UNIVERSALSTRING, B_ASN1_UNKNOWN, B_ASN1_BMPSTRING, B_ASN1_UNKNOWN]"

definition ASN1_tag2bit :: "int \<Rightarrow> int" where
  "ASN1_tag2bit tag = (if tag < 0 \<or> tag > 30 then 0 else tag2bit ! nat tag)"

text \<open>\<open>asn1_check_eoc\<close>; only its answer matters, since its callers fail when it is true.\<close>

definition asn1_check_eoc :: "bytes \<Rightarrow> int \<Rightarrow> bool asn1_result" where
  "asn1_check_eoc p len =
     (if len < 2 then Ok False else case p of a # b # _ \<Rightarrow> Ok (a = 0 \<and> b = 0) | _ \<Rightarrow> UB)"

text \<open>The header at \<open>p\<close>, from the cache or read and put there.\<close>

definition read_header :: "tlc \<Rightarrow> bytes \<Rightarrow> int \<Rightarrow> (int \<times> int \<times> int \<times> int \<times> nat) asn1_result \<times> tlc" where
  "read_header c p len =
     (case c of
        Some h \<Rightarrow> (Ok h, c)
      | None \<Rightarrow>
          (case ASN1_get_object p len of
             UB \<Rightarrow> (UB, None)
           | Fail _ \<Rightarrow> (Fail BAD_OBJECT_HEADER, None)
           | Ok (i, plen, ptag, pclass, q) \<Rightarrow>
               let h = (i, plen, ptag, pclass, length p - length q) in
               if plen + int (length p - length q) > len then (Fail TOO_LONG, None) else (Ok h, Some h)))"

text \<open>
  \<open>asn1_check_tlen\<close>: \<open>Ok None\<close> is -1; otherwise the length, the tag, the class, whether the type is
  constructed and the input after the header. Any tag will do when \<open>exptag\<close> is negative.
\<close>

definition asn1_check_tlen ::
    "tlc \<Rightarrow> bytes \<Rightarrow> int \<Rightarrow> int \<Rightarrow> int \<Rightarrow> bool \<Rightarrow> (int \<times> int \<times> int \<times> bool \<times> bytes) option asn1_result \<times> tlc" where
  "asn1_check_tlen c p len exptag expclass opt =
     (case read_header c p len of
        (UB, c) \<Rightarrow> (UB, c)
      | (Fail e, c) \<Rightarrow> (Fail e, c)
      | (Ok (i, plen, ptag, pclass, hdrlen), c) \<Rightarrow>
          if length p < hdrlen then (UB, c)
          else
            let r = Ok (Some (plen, ptag, pclass, i AND V_ASN1_CONSTRUCTED \<noteq> 0, drop hdrlen p)) in
            if exptag \<ge> 0 then
              if exptag \<noteq> ptag \<or> expclass \<noteq> pclass
              then (if opt then (Ok None, c) else (Fail WRONG_TAG, None))
              else (r, None)
            else (r, c))"

section \<open>Contents\<close>

type_synonym dec_state = "tlc \<times> nat"
type_synonym 'x dec_result = "bool asn1_result \<times> 'x asn1_value \<times> bytes \<times> dec_state"

text \<open>
  The string types: an existing string is reused and gets the type; a failed copy frees it. Reading a
  primitive value makes at most three allocations, and the clock advances by three.
\<close>

definition c2i_string :: "allocator \<Rightarrow> 'x asn1_value \<Rightarrow> bytes \<Rightarrow> int \<Rightarrow> int \<Rightarrow> unit asn1_result \<times> 'x asn1_value" where
  "c2i_string m v cont len utype =
     (if utype = V_ASN1_BMPSTRING \<and> len AND 1 \<noteq> 0 then (Fail BMPSTRING_IS_WRONG_LENGTH, v)
      else if utype = V_ASN1_UNIVERSALSTRING \<and> len AND 3 \<noteq> 0 then (Fail UNIVERSALSTRING_IS_WRONG_LENGTH, v)
      else case (case v of NullP \<Rightarrow> ASN1_STRING_type_new m utype
                 | StrP s \<Rightarrow> Ok (s\<lparr>str_type := utype\<rparr>) | _ \<Rightarrow> UB) of
          UB \<Rightarrow> (UB, v)
        | Fail e \<Rightarrow> (Fail MALLOC_FAILURE, v)
        | Ok stmp \<Rightarrow>
            (case ASN1_STRING_set (later 1 m) stmp (Some cont) len of
               UB \<Rightarrow> (UB, StrP stmp) | Fail e \<Rightarrow> (Fail MALLOC_FAILURE, NullP) | Ok s \<Rightarrow> (Ok (), StrP s)))"

text \<open>What a \<open>c2i\<close> function of the other types leaves in the pointer, NULL or the object.\<close>

definition c2i_done :: "('a \<Rightarrow> 'x asn1_value) \<Rightarrow> 'a option \<times> 'b asn1_result \<Rightarrow> unit asn1_result \<times> 'x asn1_value" where
  "c2i_done f ar = (case ar of (a, r) \<Rightarrow>
     (bind_outcome r (\<lambda>_. Ok ()), case a of None \<Rightarrow> NullP | Some a \<Rightarrow> f a))"

definition c2i_value_of :: "allocator \<Rightarrow> 'x asn1_value \<Rightarrow> bytes \<Rightarrow> int \<Rightarrow> int \<Rightarrow> unit asn1_result \<times> 'x asn1_value" where
  "c2i_value_of m v cont len utype =
     (if utype = V_ASN1_OBJECT then
        (case v of NullP \<Rightarrow> c2i_done ObjP (c2i_ASN1_OBJECT m None cont len)
         | ObjP a \<Rightarrow> c2i_done ObjP (c2i_ASN1_OBJECT m (Some a) cont len) | _ \<Rightarrow> (UB, v))
      else if utype = V_ASN1_NULL then
        (if len \<noteq> 0 then (Fail NULL_IS_WRONG_LENGTH, v) else (Ok (), OneP))
      else if utype = V_ASN1_BOOLEAN then
        (if len \<noteq> 1 then (Fail BOOLEAN_IS_WRONG_LENGTH, v)
         else case cont of [] \<Rightarrow> (UB, v) | b # _ \<Rightarrow> (Ok (), BoolF (uint b)))
      else if utype = V_ASN1_BIT_STRING then
        (case v of NullP \<Rightarrow> c2i_done StrP (c2i_ASN1_BIT_STRING m None cont len)
         | StrP s \<Rightarrow> c2i_done StrP (c2i_ASN1_BIT_STRING m (Some s) cont len) | _ \<Rightarrow> (UB, v))
      else if utype = V_ASN1_INTEGER \<or> utype = V_ASN1_ENUMERATED then
        (case (case v of NullP \<Rightarrow> c2i_done StrP (c2i_ASN1_INTEGER m None cont len)
               | StrP s \<Rightarrow> c2i_done StrP (c2i_ASN1_INTEGER m (Some s) cont len) | _ \<Rightarrow> (UB, v)) of
           (Ok _, StrP s) \<Rightarrow> (Ok (), StrP (s\<lparr>str_type := utype OR (str_type s AND V_ASN1_NEG)\<rparr>))
         | r \<Rightarrow> r)
      else c2i_string m v cont len utype)"

text \<open>
  \<open>asn1_ex_c2i\<close>: an ANY gets the type and the value of its \<open>ASN1_TYPE\<close>, which is freed with its contents
  when the value cannot be read.
\<close>

definition any_type :: "allocator \<Rightarrow> 'x asn1_value \<Rightarrow> int \<Rightarrow> 'x asn1_value asn1_result" where
  "any_type m v utype =
     (case v of
        NullP \<Rightarrow> (case m 0 0 of None \<Rightarrow> Fail NO_REASON | Some _ \<Rightarrow>
          bind_outcome (ASN1_TYPE_set (TypeP (-1) NullP) utype NullP) (\<lambda>(typ, _). Ok typ))
      | TypeP t w \<Rightarrow> if utype \<noteq> t then bind_outcome (ASN1_TYPE_set v utype NullP) (\<lambda>(typ, _). Ok typ) else Ok v
      | _ \<Rightarrow> UB)"

definition asn1_ex_c2i :: "allocator \<Rightarrow> 'x asn1_value \<Rightarrow> bytes \<Rightarrow> int \<Rightarrow> int \<Rightarrow> 'x asn1_item \<Rightarrow> unit asn1_result \<times> 'x asn1_value" where
  "asn1_ex_c2i m v cont len utype it =
     (if it_utype it = V_ASN1_ANY then
        (case any_type m v utype of
           UB \<Rightarrow> (UB, v)
         | Fail e \<Rightarrow> (Fail e, v)
         | Ok (TypeP t w) \<Rightarrow>
             (case c2i_value_of (later 1 m) w cont len utype of
                (Ok _, w) \<Rightarrow> (Ok (), TypeP t (if utype = V_ASN1_NULL then NullP else w))
              | (Fail e, w) \<Rightarrow> (case free_type_value t w of UB \<Rightarrow> (UB, NullP) | _ \<Rightarrow> (Fail e, NullP))
              | (UB, w) \<Rightarrow> (UB, v))
         | Ok _ \<Rightarrow> (UB, v))
      else c2i_value_of m v cont len utype)"

text \<open>\<open>asn1_d2i_ex_primitive\<close>: the type of an ANY is the tag found; other classes keep their header.\<close>

definition primitive_type :: "bytes \<Rightarrow> int \<Rightarrow> 'x asn1_item \<Rightarrow> int \<Rightarrow> bool \<Rightarrow> tlc \<Rightarrow> (int \<times> int) asn1_result \<times> tlc" where
  "primitive_type p inlen it tag opt c =
     (let (utype, tag) = (if it_itype it = ITYPE_MSTRING then (tag, -1) else (it_utype it, tag)) in
      if utype = V_ASN1_ANY then
        if tag \<ge> 0 then (Fail ILLEGAL_TAGGED_ANY, c)
        else if opt then (Fail ILLEGAL_OPTIONAL_ANY, c)
        else (case asn1_check_tlen c p inlen (-1) 0 False of
            (Ok (Some (_, utype, oclass, _, _)), c) \<Rightarrow> (Ok (if oclass \<noteq> V_ASN1_UNIVERSAL then V_ASN1_OTHER else utype, tag), c)
          | (Ok None, c) \<Rightarrow> (UB, c)
          | (Fail _, c) \<Rightarrow> (Fail NESTED_ASN1_ERROR, c)
          | (UB, c) \<Rightarrow> (UB, c))
      else (Ok (utype, tag), c))"

definition asn1_d2i_ex_primitive ::
    "allocator \<Rightarrow> 'x asn1_value \<Rightarrow> bytes \<Rightarrow> int \<Rightarrow> 'x asn1_item \<Rightarrow> int \<Rightarrow> int \<Rightarrow> bool \<Rightarrow> dec_state \<Rightarrow> 'x dec_result" where
  "asn1_d2i_ex_primitive m v inp inlen it tag aclass opt st =
     (case st of (c, k) \<Rightarrow>
      case primitive_type inp inlen it tag opt c of
        (UB, c) \<Rightarrow> (UB, v, inp, (c, k))
      | (Fail e, c) \<Rightarrow> (Fail e, v, inp, (c, k))
      | (Ok (utype, tag), c) \<Rightarrow>
          let (tag, aclass) = (if tag = -1 then (utype, V_ASN1_UNIVERSAL) else (tag, aclass)) in
          (case asn1_check_tlen c inp inlen tag aclass opt of
             (UB, c) \<Rightarrow> (UB, v, inp, (c, k))
           | (Fail _, c) \<Rightarrow> (Fail NESTED_ASN1_ERROR, v, inp, (c, k))
           | (Ok None, c) \<Rightarrow> (Ok False, v, inp, (c, k))
           | (Ok (Some (plen, _, _, cst, p)), c) \<Rightarrow>
               let encoded = (utype = V_ASN1_SEQUENCE \<or> utype = V_ASN1_SET \<or> utype = V_ASN1_OTHER);
                   c = (if utype = V_ASN1_OTHER then None else c) in
               if encoded \<and> utype \<noteq> V_ASN1_OTHER \<and> \<not> cst then (Fail TYPE_NOT_CONSTRUCTED, v, inp, (c, k))
               else if \<not> encoded \<and> cst then (Fail TYPE_NOT_PRIMITIVE, v, inp, (c, k))
               else
                 let cont = (if encoded then inp else p);
                     len = (if encoded then int (length inp - length p) + plen else plen) in
                 (case asn1_ex_c2i (later k m) v cont len utype it of
                    (Ok _, w) \<Rightarrow> (Ok True, w, drop (nat plen) p, (c, k + 3))
                  | (Fail e, w) \<Rightarrow> (Fail e, w, inp, (c, k + 3))
                  | (UB, w) \<Rightarrow> (UB, w, inp, (c, k + 3)))))"


section \<open>Templates\<close>

type_synonym 'x decoding = "'x asn1_value \<Rightarrow> bytes \<Rightarrow> int \<Rightarrow> 'x asn1_item \<Rightarrow> int \<Rightarrow> int \<Rightarrow> bool \<Rightarrow> dec_state \<Rightarrow> 'x dec_result"

text \<open>The error exits that free the field, or the item unless it is combined with its parent.\<close>

definition fail_template ::
    "'x asn1_env \<Rightarrow> asn1_reason \<Rightarrow> 'x asn1_value \<Rightarrow> asn1_template \<Rightarrow> bytes \<Rightarrow> dec_state \<Rightarrow> 'x dec_result" where
  "fail_template env e v tt inp st =
     (case ASN1_template_free env v tt of Ok (w, _) \<Rightarrow> (Fail e, w, inp, st) | _ \<Rightarrow> (UB, v, inp, st))"

definition fail_item ::
    "'x asn1_env \<Rightarrow> asn1_reason \<Rightarrow> 'x asn1_value \<Rightarrow> 'x asn1_item \<Rightarrow> bool \<Rightarrow> bytes \<Rightarrow> dec_state \<Rightarrow> 'x dec_result" where
  "fail_item env e v it combine inp st =
     (if combine then (Fail e, v, inp, st)
      else case ASN1_item_ex_free env v it of Ok (w, _) \<Rightarrow> (Fail e, w, inp, st) | _ \<Rightarrow> (UB, v, inp, st))"

text \<open>
  The elements of a SET OF or SEQUENCE OF. An external type that does not consume anything would keep
  the loop going forever, which is \<open>UB\<close> here.
\<close>

function sk_loop ::
    "'x asn1_env \<Rightarrow> allocator \<Rightarrow> 'x decoding \<Rightarrow> 'x asn1_item \<Rightarrow> 'x asn1_value list \<Rightarrow> bytes \<Rightarrow> int \<Rightarrow> dec_state \<Rightarrow>
     unit asn1_result \<times> 'x asn1_value list \<times> bytes \<times> dec_state" where
  "sk_loop env m rec it acc p len st =
     (if len \<le> 0 then (Ok (), acc, p, st)
      else case asn1_check_eoc p len of
          UB \<Rightarrow> (UB, acc, p, st)
        | Fail e \<Rightarrow> (Fail e, acc, p, st)
        | Ok eoc \<Rightarrow>
            if eoc then (Fail UNEXPECTED_EOC, acc, p, st)
            else (case rec NullP p len it (-1) 0 False st of
                (UB, skfield, q, st) \<Rightarrow> (UB, acc, q, st)
              | (Fail _, skfield, q, st) \<Rightarrow> (Fail NESTED_ASN1_ERROR, acc, q, st)
              | (Ok _, skfield, q, (c, k)) \<Rightarrow>
                  if m k 0 = None then
                    (case ASN1_item_ex_free env skfield it of
                       Ok _ \<Rightarrow> (Fail MALLOC_FAILURE, acc, q, (c, Suc k)) | _ \<Rightarrow> (UB, acc, q, (c, Suc k)))
                  else if length q < length p
                    then sk_loop env m rec it (acc @ [skfield]) q (len - int (length p - length q)) (c, Suc k)
                  else (UB, acc, q, (c, Suc k))))"
  by pat_completeness auto
termination
  by (relation "measure (\<lambda>(env, m, rec, it, acc, p, len, st). nat len)") auto

declare sk_loop.simps [simp del]

text \<open>The stack the elements go to: a new one, or the old one without its elements.\<close>

definition empty_stack :: "'x asn1_env \<Rightarrow> allocator \<Rightarrow> 'x asn1_value \<Rightarrow> 'x asn1_item \<Rightarrow> nat \<Rightarrow> unit asn1_result" where
  "empty_stack env m v it k =
     (case v of
        NullP \<Rightarrow> (case m k 0 of None \<Rightarrow> Fail MALLOC_FAILURE | Some _ \<Rightarrow> Ok ())
      | StackP vs \<Rightarrow> bind_outcome (free_each (asn1_item_combine_free env) it (rev vs)) (\<lambda>_. Ok ())
      | _ \<Rightarrow> UB)"

definition stack_d2i ::
    "'x asn1_env \<Rightarrow> allocator \<Rightarrow> 'x decoding \<Rightarrow> 'x asn1_value \<Rightarrow> bytes \<Rightarrow> int \<Rightarrow> asn1_template \<Rightarrow> bool \<Rightarrow> dec_state \<Rightarrow> 'x dec_result" where
  "stack_d2i env m rec v inp len tt opt st =
     (case st of (c, k) \<Rightarrow>
      let (sktag, skaclass) =
            (if tt_flags tt AND ASN1_TFLG_IMPTAG \<noteq> 0 then (tt_tag tt, tt_flags tt AND ASN1_TFLG_TAG_CLASS)
             else (if tt_flags tt AND ASN1_TFLG_SET_OF \<noteq> 0 then V_ASN1_SET else V_ASN1_SEQUENCE, V_ASN1_UNIVERSAL));
          it = env_item env (tt_item tt) in
      case asn1_check_tlen c inp len sktag skaclass opt of
        (UB, c) \<Rightarrow> (UB, v, inp, (c, k))
      | (Fail _, c) \<Rightarrow> (Fail NESTED_ASN1_ERROR, v, inp, (c, k))
      | (Ok None, c) \<Rightarrow> (Ok False, v, inp, (c, k))
      | (Ok (Some (plen, _, _, _, p)), c) \<Rightarrow>
          (case empty_stack env m v it k of
             UB \<Rightarrow> (UB, v, inp, (c, Suc k))
           | Fail e \<Rightarrow> fail_template env e v tt inp (c, Suc k)
           | Ok _ \<Rightarrow>
               (case sk_loop env m rec it [] p plen (c, Suc k) of
                  (UB, sk, q, st) \<Rightarrow> (UB, StackP sk, inp, st)
                | (Fail e, sk, q, st) \<Rightarrow> fail_template env e (StackP sk) tt inp st
                | (Ok _, sk, q, st) \<Rightarrow> (Ok True, StackP sk, q, st))))"

definition template_noexp_d2i ::
    "'x asn1_env \<Rightarrow> allocator \<Rightarrow> 'x decoding \<Rightarrow> 'x asn1_value \<Rightarrow> bytes \<Rightarrow> int \<Rightarrow> asn1_template \<Rightarrow> bool \<Rightarrow> dec_state \<Rightarrow> 'x dec_result" where
  "template_noexp_d2i env m rec v inp len tt opt st =
     (let flags = tt_flags tt; it = env_item env (tt_item tt) in
      if flags AND ASN1_TFLG_SK_MASK \<noteq> 0 then stack_d2i env m rec v inp len tt opt st
      else
        case (if flags AND ASN1_TFLG_IMPTAG \<noteq> 0
              then rec v inp len it (tt_tag tt) (flags AND ASN1_TFLG_TAG_CLASS) opt st
              else rec v inp len it (-1) (flags AND ASN1_TFLG_COMBINE) opt st) of
          (UB, w, p, st) \<Rightarrow> (UB, w, inp, st)
        | (Fail _, w, p, st) \<Rightarrow> fail_template env NESTED_ASN1_ERROR w tt inp st
        | (Ok True, w, p, st) \<Rightarrow> (Ok True, w, p, st)
        | (Ok False, w, p, st) \<Rightarrow> (Ok False, w, inp, st))"

definition template_ex_d2i ::
    "'x asn1_env \<Rightarrow> allocator \<Rightarrow> 'x decoding \<Rightarrow> 'x asn1_value \<Rightarrow> bytes \<Rightarrow> int \<Rightarrow> asn1_template \<Rightarrow> bool \<Rightarrow> dec_state \<Rightarrow> 'x dec_result" where
  "template_ex_d2i env m rec v inp inlen tt opt st =
     (if tt_flags tt AND ASN1_TFLG_EXPTAG = 0 then template_noexp_d2i env m rec v inp inlen tt opt st
      else
        case st of (c, k) \<Rightarrow>
        (case asn1_check_tlen c inp inlen (tt_tag tt) (tt_flags tt AND ASN1_TFLG_TAG_CLASS) opt of
           (UB, c) \<Rightarrow> (UB, v, inp, (c, k))
         | (Fail _, c) \<Rightarrow> (Fail NESTED_ASN1_ERROR, v, inp, (c, k))
         | (Ok None, c) \<Rightarrow> (Ok False, v, inp, (c, k))
         | (Ok (Some (len, _, _, cst, q)), c) \<Rightarrow>
             if \<not> cst then (Fail EXPLICIT_TAG_NOT_CONSTRUCTED, v, inp, (c, k))
             else (case template_noexp_d2i env m rec v q len tt False (c, k) of
                 (UB, w, p, st) \<Rightarrow> (UB, w, inp, st)
               | (Fail _, w, p, st) \<Rightarrow> (Fail NESTED_ASN1_ERROR, w, inp, st)
               | (Ok _, w, p, st) \<Rightarrow>
                   if len - int (length q - length p) \<noteq> 0
                   then fail_template env EXPLICIT_LENGTH_MISMATCH w tt inp st
                   else (Ok True, w, p, st))))"

section \<open>CHOICE\<close>

text \<open>The alternatives in turn, from number \<open>i\<close>; the number of the first that is there.\<close>

fun try_choices ::
    "'x asn1_env \<Rightarrow> allocator \<Rightarrow> 'x decoding \<Rightarrow> asn1_template list \<Rightarrow> nat \<Rightarrow> 'x asn1_value \<Rightarrow> bytes \<Rightarrow> int \<Rightarrow> dec_state \<Rightarrow>
     nat option asn1_result \<times> 'x asn1_value \<times> bytes \<times> dec_state" where
  "try_choices env m rec [] i v p len st = (Ok None, v, p, st)"
| "try_choices env m rec (tt # tts) i v p len st =
     (case asn1_get_field_ptr v tt of
        Ok f \<Rightarrow>
          (case template_ex_d2i env m rec f p len tt True st of
             (Ok False, f, q, st) \<Rightarrow> try_choices env m rec tts (Suc i) (put_field v tt f) p len st
           | (Ok True, f, q, st) \<Rightarrow> (Ok (Some i), put_field v tt f, q, st)
           | (Fail _, f, q, st) \<Rightarrow> (Fail NESTED_ASN1_ERROR, put_field v tt f, p, st)
           | (UB, f, q, st) \<Rightarrow> (UB, put_field v tt f, p, st))
      | _ \<Rightarrow> (UB, v, p, st))"

text \<open>A choice that holds a value is emptied, one that does not exist is allocated.\<close>

definition ready_choice :: "'x asn1_env \<Rightarrow> allocator \<Rightarrow> 'x asn1_value \<Rightarrow> 'x asn1_item \<Rightarrow> nat \<Rightarrow> 'x new_result" where
  "ready_choice env m v it k =
     (if v \<noteq> NullP then
        (case asn1_get_choice_selector v of
           Ok i \<Rightarrow>
             if 0 \<le> i \<and> i < int (length (it_templates it))
             then (case free_field env (asn1_item_combine_free env) v (it_templates it ! nat i) of
                 Ok (v, _) \<Rightarrow> (case asn1_set_choice_selector v (-1) of Ok v \<Rightarrow> (Ok (), v, k) | _ \<Rightarrow> (UB, v, k))
               | _ \<Rightarrow> (UB, v, k))
             else (Ok (), v, k)
         | _ \<Rightarrow> (UB, v, k))
      else ASN1_item_ex_new env m v it k)"

definition choice_d2i ::
    "'x asn1_env \<Rightarrow> allocator \<Rightarrow> 'x decoding \<Rightarrow> 'x asn1_value \<Rightarrow> bytes \<Rightarrow> int \<Rightarrow> 'x asn1_item \<Rightarrow> int \<Rightarrow> bool \<Rightarrow> bool \<Rightarrow> dec_state \<Rightarrow> 'x dec_result" where
  "choice_d2i env m rec v inp len it tag combine opt st =
     (if tag \<noteq> -1 then fail_item env BAD_TEMPLATE v it combine inp st
      else case call_aux it OP_D2I_PRE v of (v, ok) \<Rightarrow>
        if ok = 0 then fail_item env AUX_ERROR v it combine inp st
        else case st of (c, k) \<Rightarrow>
          (case ready_choice env m v it k of
             (UB, v, k) \<Rightarrow> (UB, v, inp, (c, k))
           | (Fail _, v, k) \<Rightarrow> fail_item env NESTED_ASN1_ERROR v it combine inp (c, k)
           | (Ok _, v, k) \<Rightarrow>
               (case try_choices env m rec (it_templates it) 0 v inp len (c, k) of
                  (UB, v, p, st) \<Rightarrow> (UB, v, inp, st)
                | (Fail e, v, p, st) \<Rightarrow> fail_item env e v it combine inp st
                | (Ok None, v, p, st) \<Rightarrow>
                    if opt then
                      (case ASN1_item_ex_free env v it of Ok (w, _) \<Rightarrow> (Ok False, w, inp, st) | _ \<Rightarrow> (UB, v, inp, st))
                    else fail_item env NO_MATCHING_CHOICE_TYPE v it combine inp st
                | (Ok (Some i), v, p, st) \<Rightarrow>
                    (case asn1_set_choice_selector v (int i) of
                       Ok v \<Rightarrow>
                         (case call_aux it OP_D2I_POST v of (v, ok) \<Rightarrow>
                            if ok = 0 then fail_item env AUX_ERROR v it combine inp st else (Ok True, v, p, st))
                     | _ \<Rightarrow> (UB, v, inp, st)))))"


section \<open>SEQUENCE\<close>

text \<open>The ANY DEFINED BY fields are freed first, while their selectors still hold.\<close>

fun free_adb_fields :: "'x asn1_env \<Rightarrow> asn1_template list \<Rightarrow> 'x asn1_value \<Rightarrow> 'x asn1_value asn1_result" where
  "free_adb_fields env [] v = Ok v"
| "free_adb_fields env (tt # tts) v =
     (if tt_flags tt AND ASN1_TFLG_ADB_MASK \<noteq> 0 then
        (case asn1_do_adb env v tt of
           UB \<Rightarrow> UB
         | Fail _ \<Rightarrow> free_adb_fields env tts v
         | Ok seqtt \<Rightarrow>
             bind_outcome (free_field env (asn1_item_combine_free env) v seqtt) (\<lambda>(v, _). free_adb_fields env tts v))
      else free_adb_fields env tts v)"

text \<open>
  The fields, as long as there is data: the value, the rest of the input and its length, and the
  templates of the fields not tried. The last field must be there when there is data left.
\<close>

fun read_fields ::
    "'x asn1_env \<Rightarrow> allocator \<Rightarrow> 'x decoding \<Rightarrow> asn1_template list \<Rightarrow> 'x asn1_value \<Rightarrow> bytes \<Rightarrow> int \<Rightarrow> dec_state \<Rightarrow>
     (bytes \<times> int \<times> asn1_template list) asn1_result \<times> 'x asn1_value \<times> dec_state" where
  "read_fields env m rec [] v p len st = (Ok (p, len, []), v, st)"
| "read_fields env m rec (tt # tts) v p len st =
     (case asn1_do_adb env v tt of
        UB \<Rightarrow> (UB, v, st)
      | Fail e \<Rightarrow> (Fail e, v, st)
      | Ok seqtt \<Rightarrow>
          (case asn1_get_field_ptr v seqtt of
             Ok f \<Rightarrow>
               if len = 0 then (Ok (p, len, tt # tts), v, st)
               else (case asn1_check_eoc p len of
                   Ok False \<Rightarrow>
                     let isopt = (tts \<noteq> [] \<and> tt_flags seqtt AND ASN1_TFLG_OPTIONAL \<noteq> 0) in
                     (case template_ex_d2i env m rec f p len seqtt isopt st of
                        (UB, f, q, st) \<Rightarrow> (UB, put_field v seqtt f, st)
                      | (Fail e, f, q, st) \<Rightarrow> (Fail e, put_field v seqtt f, st)
                      | (Ok False, f, q, st) \<Rightarrow>
                          (case ASN1_template_free env f seqtt of
                             Ok (f, _) \<Rightarrow> read_fields env m rec tts (put_field v seqtt f) p len st
                           | _ \<Rightarrow> (UB, v, st))
                      | (Ok True, f, q, st) \<Rightarrow>
                          read_fields env m rec tts (put_field v seqtt f) q (len - int (length p - length q)) st)
                 | Ok True \<Rightarrow> (Fail UNEXPECTED_EOC, v, st)
                 | _ \<Rightarrow> (UB, v, st))
           | _ \<Rightarrow> (UB, v, st)))"

text \<open>The fields for which no data is left must be optional; they are freed.\<close>

fun absent_fields :: "'x asn1_env \<Rightarrow> asn1_template list \<Rightarrow> 'x asn1_value \<Rightarrow> unit asn1_result \<times> 'x asn1_value" where
  "absent_fields env [] v = (Ok (), v)"
| "absent_fields env (tt # tts) v =
     (case asn1_do_adb env v tt of
        UB \<Rightarrow> (UB, v)
      | Fail e \<Rightarrow> (Fail e, v)
      | Ok seqtt \<Rightarrow>
          if tt_flags seqtt AND ASN1_TFLG_OPTIONAL \<noteq> 0 then
            (case free_field env (asn1_item_combine_free env) v seqtt of
               Ok (v, _) \<Rightarrow> absent_fields env tts v | _ \<Rightarrow> (UB, v))
          else (Fail FIELD_MISSING, v))"

text \<open>All of a SEQUENCE's contents: the fields and the saved encoding.\<close>

definition read_sequence ::
    "'x asn1_env \<Rightarrow> allocator \<Rightarrow> 'x decoding \<Rightarrow> 'x asn1_value \<Rightarrow> bytes \<Rightarrow> bytes \<Rightarrow> int \<Rightarrow> 'x asn1_item \<Rightarrow> bool \<Rightarrow> dec_state \<Rightarrow> 'x dec_result" where
  "read_sequence env m rec v inp p len it combine st =
     (case free_adb_fields env (it_templates it) v of
        Ok v \<Rightarrow>
          (case read_fields env m rec (it_templates it) v p len st of
             (UB, v, st) \<Rightarrow> (UB, v, inp, st)
           | (Fail e, v, st) \<Rightarrow> fail_item env e v it combine inp st
           | (Ok (p, len, left), v, (c, k)) \<Rightarrow>
               if len \<noteq> 0 then fail_item env SEQUENCE_LENGTH_MISMATCH v it combine inp (c, k)
               else (case absent_fields env left v of
                   (UB, v) \<Rightarrow> (UB, v, inp, (c, k))
                 | (Fail e, v) \<Rightarrow> fail_item env e v it combine inp (c, k)
                 | (Ok _, v) \<Rightarrow>
                     let used = length inp - length p in
                     (case asn1_enc_save (m k used) v inp (int used) it of
                        (UB, v) \<Rightarrow> (UB, v, inp, (c, Suc k))
                      | (Fail e, v) \<Rightarrow> fail_item env AUX_ERROR v it combine inp (c, Suc k)
                      | (Ok _, v) \<Rightarrow>
                          (case call_aux it OP_D2I_POST v of (v, ok) \<Rightarrow>
                             if ok = 0 then fail_item env AUX_ERROR v it combine inp (c, Suc k)
                             else (Ok True, v, p, (c, Suc k))))))
      | _ \<Rightarrow> (UB, v, inp, st))"

definition sequence_d2i ::
    "'x asn1_env \<Rightarrow> allocator \<Rightarrow> 'x decoding \<Rightarrow> 'x asn1_value \<Rightarrow> bytes \<Rightarrow> int \<Rightarrow> 'x asn1_item \<Rightarrow> int \<Rightarrow> int \<Rightarrow> bool \<Rightarrow> bool \<Rightarrow> dec_state \<Rightarrow> 'x dec_result" where
  "sequence_d2i env m rec v inp len it tag aclass combine opt st =
     (case st of (c, k) \<Rightarrow>
      let (tag, aclass) = (if tag = -1 then (V_ASN1_SEQUENCE, V_ASN1_UNIVERSAL) else (tag, aclass)) in
      case asn1_check_tlen c inp len tag aclass opt of
        (UB, c) \<Rightarrow> (UB, v, inp, (c, k))
      | (Fail _, c) \<Rightarrow> fail_item env NESTED_ASN1_ERROR v it combine inp (c, k)
      | (Ok None, c) \<Rightarrow> (Ok False, v, inp, (c, k))
      | (Ok (Some (plen, _, _, cst, p)), c) \<Rightarrow>
          if \<not> cst then fail_item env SEQUENCE_NOT_CONSTRUCTED v it combine inp (c, k)
          else (case (if v = NullP then ASN1_item_ex_new env m v it k else (Ok (), v, k)) of
              (UB, v, k) \<Rightarrow> (UB, v, inp, (c, k))
            | (Fail _, v, k) \<Rightarrow> fail_item env NESTED_ASN1_ERROR v it combine inp (c, k)
            | (Ok _, v, k) \<Rightarrow>
                (case call_aux it OP_D2I_PRE v of (v, ok) \<Rightarrow>
                   if ok = 0 then fail_item env AUX_ERROR v it combine inp (c, k)
                   else read_sequence env m rec v inp p plen it combine (c, k))))"

section \<open>Items\<close>

definition mstring_d2i ::
    "'x asn1_env \<Rightarrow> allocator \<Rightarrow> 'x asn1_value \<Rightarrow> bytes \<Rightarrow> int \<Rightarrow> 'x asn1_item \<Rightarrow> int \<Rightarrow> bool \<Rightarrow> bool \<Rightarrow> dec_state \<Rightarrow> 'x dec_result" where
  "mstring_d2i env m v inp len it tag combine opt st =
     (if tag \<noteq> -1 then fail_item env BAD_TEMPLATE v it combine inp st
      else case st of (c, k) \<Rightarrow>
        (case asn1_check_tlen c inp len (-1) 0 True of
           (Ok (Some (_, otag, oclass, _, _)), c) \<Rightarrow>
             if oclass \<noteq> V_ASN1_UNIVERSAL
             then (if opt then (Ok False, v, inp, (c, k)) else fail_item env MSTRING_NOT_UNIVERSAL v it combine inp (c, k))
             else if ASN1_tag2bit otag AND it_utype it = 0
             then (if opt then (Ok False, v, inp, (c, k)) else fail_item env MSTRING_WRONG_TAG v it combine inp (c, k))
             else asn1_d2i_ex_primitive m v inp len it otag 0 False (c, k)
         | (Fail _, c) \<Rightarrow> fail_item env NESTED_ASN1_ERROR v it combine inp (c, k)
         | (_, c) \<Rightarrow> (UB, v, inp, (c, k))))"

definition extern_d2i :: "'x asn1_value \<Rightarrow> bytes \<Rightarrow> int \<Rightarrow> 'x asn1_item \<Rightarrow> int \<Rightarrow> int \<Rightarrow> bool \<Rightarrow> dec_state \<Rightarrow> 'x dec_result" where
  "extern_d2i v inp len it tag aclass opt st =
     (case (it_ext it, st) of
        (Some ef, (c, k)) \<Rightarrow> (case ex_d2i ef v inp len tag aclass opt c of (r, v, p, c) \<Rightarrow> (r, v, p, (c, k)))
      | (None, _) \<Rightarrow> (UB, v, inp, st))"

text \<open>The argument \<open>aclass\<close> carries the flag \<open>ASN1_TFLG_COMBINE\<close>; \<open>rec\<close> decodes the items one level down.\<close>

definition item_d2i :: "'x asn1_env \<Rightarrow> allocator \<Rightarrow> 'x decoding \<Rightarrow> 'x decoding" where
  "item_d2i env m rec v inp len it tag aclass opt st =
     (let combine = (aclass AND ASN1_TFLG_COMBINE \<noteq> 0);
          aclass = aclass AND NOT ASN1_TFLG_COMBINE;
          len = (if len > INT_MAX div 2 then INT_MAX div 2 else len) in
      case it_itype it of
        ITYPE_PRIMITIVE \<Rightarrow>
          (case it_templates it of
             tt # _ \<Rightarrow>
               if tag \<noteq> -1 \<or> opt then fail_item env ILLEGAL_OPTIONS_ON_ITEM_TEMPLATE v it combine inp st
               else template_ex_d2i env m rec v inp len tt opt st
           | [] \<Rightarrow> asn1_d2i_ex_primitive m v inp len it tag aclass opt st)
      | ITYPE_MSTRING \<Rightarrow> mstring_d2i env m v inp len it tag combine opt st
      | ITYPE_EXTERN \<Rightarrow> extern_d2i v inp len it tag aclass opt st
      | ITYPE_CHOICE \<Rightarrow> choice_d2i env m rec v inp len it tag combine opt st
      | ITYPE_SEQUENCE \<Rightarrow> sequence_d2i env m rec v inp len it tag aclass combine opt st
      | ITYPE_UNKNOWN \<Rightarrow> (Fail NO_REASON, v, inp, st))"

abbreviation (input) ASN1_MAX_CONSTRUCTED_NEST :: nat where "ASN1_MAX_CONSTRUCTED_NEST \<equiv> 30"

text \<open>\<open>asn1_item_ex_d2i\<close> with the number of levels left.\<close>

fun asn1_item_ex_d2i :: "'x asn1_env \<Rightarrow> allocator \<Rightarrow> nat \<Rightarrow> 'x decoding" where
  "asn1_item_ex_d2i env m 0 =
     (\<lambda>v inp len it tag aclass opt st. fail_item env NESTED_TOO_DEEP v it (aclass AND ASN1_TFLG_COMBINE \<noteq> 0) inp st)"
| "asn1_item_ex_d2i env m (Suc n) = item_d2i env m (asn1_item_ex_d2i env m n)"

definition ASN1_item_ex_d2i :: "'x asn1_env \<Rightarrow> allocator \<Rightarrow> 'x decoding" where
  "ASN1_item_ex_d2i env m = asn1_item_ex_d2i env m ASN1_MAX_CONSTRUCTED_NEST"

text \<open>The value read and the rest of the input; \<open>Fail\<close> is the NULL it returns.\<close>

definition ASN1_item_d2i ::
    "'x asn1_env \<Rightarrow> allocator \<Rightarrow> 'x asn1_value \<Rightarrow> bytes \<Rightarrow> int \<Rightarrow> 'x asn1_item \<Rightarrow> ('x asn1_value \<times> bytes) asn1_result" where
  "ASN1_item_d2i env m v inp len it =
     (case ASN1_item_ex_d2i env m v inp len it (-1) 0 False (None, 0) of
        (Ok True, v, p, _) \<Rightarrow> Ok (v, p) | (Ok False, _, _, _) \<Rightarrow> Fail NO_REASON
      | (Fail e, _, _, _) \<Rightarrow> Fail e | (UB, _, _, _) \<Rightarrow> UB)"

end
