(* ===== verification/Asn1_Typ.thy ===== *)
theory Asn1_Typ
  imports Asn1_Encode Asn1_Decode
begin

text \<open>
  The items of the basic types (\<open>tasn_typ.c\<close>) and the operations that go through an item: packing into a
  string (\<open>asn_pack.c\<close>), duplicating (\<open>a_dup.c\<close>) and reading and writing a BIO (\<open>a_d2i_fp.c\<close>, \<open>a_i2d_fp.c\<close>). The
  macros of \<open>asn1t.h\<close> that declare an item are the functions of the first section; a template refers to
  its item by the item's place in \<open>typ_items\<close>. \<open>BIO_read_asn1\<close> and \<open>BIO_write_all\<close> are parameters.
\<close>

section \<open>Items\<close>

definition IMPLEMENT_ASN1_TYPE_ex :: "int \<Rightarrow> int \<Rightarrow> unit asn1_item" where
  "IMPLEMENT_ASN1_TYPE_ex utype ex =
     \<lparr>it_itype = ITYPE_PRIMITIVE, it_utype = utype, it_templates = [], it_aux = None, it_ext = None, it_size = ex\<rparr>"

definition IMPLEMENT_ASN1_MSTRING :: "int \<Rightarrow> unit asn1_item" where
  "IMPLEMENT_ASN1_MSTRING msk =
     \<lparr>it_itype = ITYPE_MSTRING, it_utype = msk, it_templates = [], it_aux = None, it_ext = None, it_size = 0\<rparr>"

definition ASN1_ITEM_TEMPLATE :: "asn1_template \<Rightarrow> unit asn1_item" where
  "ASN1_ITEM_TEMPLATE tt =
     \<lparr>it_itype = ITYPE_PRIMITIVE, it_utype = -1, it_templates = [tt], it_aux = None, it_ext = None, it_size = 0\<rparr>"

definition ASN1_EX_TEMPLATE_TYPE :: "int \<Rightarrow> int \<Rightarrow> nat \<Rightarrow> asn1_template" where
  "ASN1_EX_TEMPLATE_TYPE flags tag item = \<lparr>tt_flags = flags, tt_tag = tag, tt_offset = 0, tt_item = item\<rparr>"

abbreviation (input) B_ASN1_PRINTABLE :: int where "B_ASN1_PRINTABLE \<equiv> 0x13d17"
abbreviation (input) B_ASN1_DISPLAYTEXT :: int where "B_ASN1_DISPLAYTEXT \<equiv> 0x2850"
abbreviation (input) B_ASN1_DIRECTORYSTRING :: int where "B_ASN1_DIRECTORYSTRING \<equiv> 0x2906"

abbreviation (input) V_ASN1_GENERALSTRING :: int where "V_ASN1_GENERALSTRING \<equiv> 27"
abbreviation (input) V_ASN1_VISIBLESTRING :: int where "V_ASN1_VISIBLESTRING \<equiv> 26"

text \<open>In the order of the file, with the name each item has there.\<close>

definition typ_items :: "(string \<times> unit asn1_item) list" where
  "typ_items =
     [(''ASN1_OCTET_STRING'', IMPLEMENT_ASN1_TYPE_ex V_ASN1_OCTET_STRING 0),
      (''ASN1_INTEGER'', IMPLEMENT_ASN1_TYPE_ex V_ASN1_INTEGER 0),
      (''ASN1_ENUMERATED'', IMPLEMENT_ASN1_TYPE_ex V_ASN1_ENUMERATED 0),
      (''ASN1_BIT_STRING'', IMPLEMENT_ASN1_TYPE_ex V_ASN1_BIT_STRING 0),
      (''ASN1_UTF8STRING'', IMPLEMENT_ASN1_TYPE_ex V_ASN1_UTF8STRING 0),
      (''ASN1_PRINTABLESTRING'', IMPLEMENT_ASN1_TYPE_ex V_ASN1_PRINTABLESTRING 0),
      (''ASN1_T61STRING'', IMPLEMENT_ASN1_TYPE_ex V_ASN1_T61STRING 0),
      (''ASN1_IA5STRING'', IMPLEMENT_ASN1_TYPE_ex V_ASN1_IA5STRING 0),
      (''ASN1_GENERALSTRING'', IMPLEMENT_ASN1_TYPE_ex V_ASN1_GENERALSTRING 0),
      (''ASN1_UTCTIME'', IMPLEMENT_ASN1_TYPE_ex V_ASN1_UTCTIME 0),
      (''ASN1_GENERALIZEDTIME'', IMPLEMENT_ASN1_TYPE_ex V_ASN1_GENERALIZEDTIME 0),
      (''ASN1_VISIBLESTRING'', IMPLEMENT_ASN1_TYPE_ex V_ASN1_VISIBLESTRING 0),
      (''ASN1_UNIVERSALSTRING'', IMPLEMENT_ASN1_TYPE_ex V_ASN1_UNIVERSALSTRING 0),
      (''ASN1_BMPSTRING'', IMPLEMENT_ASN1_TYPE_ex V_ASN1_BMPSTRING 0),
      (''ASN1_NULL'', IMPLEMENT_ASN1_TYPE_ex V_ASN1_NULL 0),
      (''ASN1_OBJECT'', IMPLEMENT_ASN1_TYPE_ex V_ASN1_OBJECT 0),
      (''ASN1_ANY'', IMPLEMENT_ASN1_TYPE_ex V_ASN1_ANY 0),
      (''ASN1_SEQUENCE'', IMPLEMENT_ASN1_TYPE_ex V_ASN1_SEQUENCE 0),
      (''ASN1_PRINTABLE'', IMPLEMENT_ASN1_MSTRING B_ASN1_PRINTABLE),
      (''DISPLAYTEXT'', IMPLEMENT_ASN1_MSTRING B_ASN1_DISPLAYTEXT),
      (''DIRECTORYSTRING'', IMPLEMENT_ASN1_MSTRING B_ASN1_DIRECTORYSTRING),
      (''ASN1_BOOLEAN'', IMPLEMENT_ASN1_TYPE_ex V_ASN1_BOOLEAN (-1)),
      (''ASN1_TBOOLEAN'', IMPLEMENT_ASN1_TYPE_ex V_ASN1_BOOLEAN 1),
      (''ASN1_FBOOLEAN'', IMPLEMENT_ASN1_TYPE_ex V_ASN1_BOOLEAN 0),
      (''ASN1_SEQUENCE_ANY'', ASN1_ITEM_TEMPLATE (ASN1_EX_TEMPLATE_TYPE ASN1_TFLG_SEQUENCE_OF 0 16)),
      (''ASN1_SET_ANY'', ASN1_ITEM_TEMPLATE (ASN1_EX_TEMPLATE_TYPE ASN1_TFLG_SET_OF 0 16))]"

text \<open>The environment of those items; the file has no tables of ANY DEFINED BY and counts no references.\<close>

definition typ_env :: "nat \<Rightarrow> unit asn1_env" where
  "typ_env stack =
     \<lparr>env_item = (\<lambda>i. if i < length typ_items then snd (typ_items ! i) else IMPLEMENT_ASN1_TYPE_ex V_ASN1_NULL 0),
      env_adb = (\<lambda>_. \<lparr>adb_offset = 0, adb_tbl = [], adb_default = None, adb_null = None\<rparr>),
      env_refcount_dec = (\<lambda>n. (n - 1, n = 1)),
      env_undef_obj = \<lparr>obj_sn = None, obj_ln = None, obj_nid = 0, obj_length = 0, obj_data = None, obj_flags = 0\<rparr>,
      env_obj2nid = obj_nid, env_stack = stack\<rparr>"

lemma list_all_nth_or: "list_all P (map snd xs) \<Longrightarrow> P d \<Longrightarrow> P (if i < length xs then snd (xs ! i) else d)"
  by (simp add: list_all_length)

section \<open>Packing, duplicating, reading and writing\<close>

text \<open>\<open>ASN1_item_pack\<close> with the string at \<open>out\<close>, when there is one.\<close>

definition ASN1_item_pack :: "'x asn1_env \<Rightarrow> allocator \<Rightarrow> 'x asn1_value \<Rightarrow> 'x asn1_item \<Rightarrow> asn1_string option \<Rightarrow> asn1_string asn1_result" where
  "ASN1_item_pack env m ob it out =
     (case ASN1_item_i2d env m ob PP_ALLOC it of
        UB \<Rightarrow> UB
      | Fail _ \<Rightarrow> Fail ENCODE_ERROR
      | Ok (len, new_data) \<Rightarrow>
          if len \<le> 0 then Fail ENCODE_ERROR
          else bind_outcome
            (case out of Some s \<Rightarrow> Ok s
             | None \<Rightarrow> (case ASN1_STRING_new m of Ok s \<Rightarrow> Ok s | _ \<Rightarrow> Fail MALLOC_FAILURE))
            (\<lambda>ret. Ok (ASN1_STRING_set0 ret new_data len)))"

definition ASN1_item_unpack :: "'x asn1_env \<Rightarrow> allocator \<Rightarrow> asn1_string \<Rightarrow> 'x asn1_item \<Rightarrow> 'x asn1_value asn1_result" where
  "ASN1_item_unpack env m oct it =
     (case ASN1_item_d2i env m NullP (buffer oct) (str_length oct) it of
        UB \<Rightarrow> UB
      | Fail _ \<Rightarrow> Fail DECODE_ERROR
      | Ok (ret, p) \<Rightarrow>
          if int (length (buffer oct) - length p) \<noteq> str_length oct
          then (case ASN1_item_free env ret it of UB \<Rightarrow> UB | _ \<Rightarrow> Fail DECODE_ERROR)
          else Ok ret)"

definition ASN1_item_dup :: "'x asn1_env \<Rightarrow> allocator \<Rightarrow> 'x asn1_item \<Rightarrow> 'x asn1_value \<Rightarrow> 'x asn1_value asn1_result" where
  "ASN1_item_dup env m it x =
     (if x = NullP then Fail NO_REASON
      else case ASN1_item_i2d env m x PP_ALLOC it of
          UB \<Rightarrow> UB
        | Ok (i, Some b) \<Rightarrow> bind_outcome (ASN1_item_d2i env m NullP b i it) (\<lambda>(ret, _). Ok ret)
        | _ \<Rightarrow> Fail MALLOC_FAILURE)"

text \<open>A BIO read as one element of at most \<open>INT_MAX\<close> octets, and written at once.\<close>

definition ASN1_item_d2i_bio ::
    "('b \<Rightarrow> int \<Rightarrow> (bytes \<times> 'b) option) \<Rightarrow> 'x asn1_env \<Rightarrow> allocator \<Rightarrow> 'x asn1_item \<Rightarrow> 'b \<Rightarrow> 'x asn1_value \<Rightarrow> ('x asn1_value \<times> 'b) asn1_result" where
  "ASN1_item_d2i_bio BIO_read_asn1 env m it b x =
     (case BIO_read_asn1 b INT_MAX of
        None \<Rightarrow> Fail NO_REASON
      | Some (d, b) \<Rightarrow> bind_outcome (ASN1_item_d2i env m x d (int (length d)) it) (\<lambda>(ret, _). Ok (ret, b)))"

definition ASN1_item_i2d_bio ::
    "('b \<Rightarrow> bytes \<Rightarrow> bool \<times> 'b) \<Rightarrow> 'x asn1_env \<Rightarrow> allocator \<Rightarrow> 'x asn1_item \<Rightarrow> 'b \<Rightarrow> 'x asn1_value \<Rightarrow> (bool \<times> 'b) asn1_result" where
  "ASN1_item_i2d_bio BIO_write_all env m it out x =
     (case ASN1_item_i2d env m x PP_ALLOC it of
        UB \<Rightarrow> UB
      | Ok (n, Some b) \<Rightarrow> Ok (BIO_write_all out (take (nat n) b))
      | _ \<Rightarrow> Fail MALLOC_FAILURE)"

text \<open>The same over a \<open>FILE\<close>, for which a BIO is made (\<open>BIO_new_fp\<close>, a parameter) and freed.\<close>

definition ASN1_item_d2i_fp ::
    "('f \<Rightarrow> 'b option) \<Rightarrow> ('b \<Rightarrow> int \<Rightarrow> (bytes \<times> 'b) option) \<Rightarrow> 'x asn1_env \<Rightarrow> allocator \<Rightarrow> 'x asn1_item \<Rightarrow> 'f \<Rightarrow> 'x asn1_value \<Rightarrow>
     ('x asn1_value \<times> 'b) asn1_result" where
  "ASN1_item_d2i_fp BIO_new_fp BIO_read_asn1 env m it inp x =
     (case BIO_new_fp inp of None \<Rightarrow> Fail NO_REASON | Some b \<Rightarrow> ASN1_item_d2i_bio BIO_read_asn1 env m it b x)"

definition ASN1_item_i2d_fp ::
    "('f \<Rightarrow> 'b option) \<Rightarrow> ('b \<Rightarrow> bytes \<Rightarrow> bool \<times> 'b) \<Rightarrow> 'x asn1_env \<Rightarrow> allocator \<Rightarrow> 'x asn1_item \<Rightarrow> 'f \<Rightarrow> 'x asn1_value \<Rightarrow> (bool \<times> 'b) asn1_result" where
  "ASN1_item_i2d_fp BIO_new_fp BIO_write_all env m it out x =
     (case BIO_new_fp out of None \<Rightarrow> Fail NO_REASON | Some b \<Rightarrow> ASN1_item_i2d_bio BIO_write_all env m it b x)"

end
