(* ===== verification/Asn1_Parse.thy ===== *)
theory Asn1_Parse
  imports Asn1_Typ
begin

text \<open>
  Where the decoder leaves the input pointer and its header cache. The cache is \<open>right\<close> when it holds the
  header that reading again would find; an operation that succeeds moves the pointer over octets it was
  given, at least one and at most \<open>len\<close>, and leaves no cached header; one that reports an absent value or
  an error leaves the pointer where it was.
\<close>

section \<open>The header cache\<close>

abbreviation (input) LEN_MAX :: int where "LEN_MAX \<equiv> 1073741823"

definition fits :: "bytes \<Rightarrow> int \<Rightarrow> bool" where
  "fits inp len \<longleftrightarrow> 0 \<le> len \<and> len \<le> int (length inp)"

definition right :: "tlc \<Rightarrow> bytes \<Rightarrow> int \<Rightarrow> bool" where
  "right c inp len \<longleftrightarrow> c = None \<or> len \<le> LEN_MAX \<and> (\<exists>h. c = Some h \<and> read_header None inp len = (Ok h, Some h))"

definition moved :: "bytes \<Rightarrow> int \<Rightarrow> bool asn1_result \<Rightarrow> bytes \<Rightarrow> tlc \<Rightarrow> bool" where
  "moved inp len r p c \<longleftrightarrow>
     (case r of
        Ok True \<Rightarrow> (\<exists>n. 0 < n \<and> int n \<le> len \<and> p = drop n inp) \<and> c = None
      | Ok False \<Rightarrow> p = inp \<and> right c inp len
      | _ \<Rightarrow> p = inp)"

lemma right_None [simp]: "right None inp len"
  by (simp add: right_def)

lemma moved_simps [simp]:
  "moved inp len (Ok True) p c \<longleftrightarrow> (\<exists>n. 0 < n \<and> int n \<le> len \<and> p = drop n inp) \<and> c = None"
  "moved inp len (Ok False) p c \<longleftrightarrow> p = inp \<and> right c inp len"
  "moved inp len (Fail e) p c \<longleftrightarrow> p = inp"
  "moved inp len UB p c \<longleftrightarrow> p = inp"
  by (simp_all add: moved_def)

text \<open>Reading a header through a right cache is reading it again.\<close>

lemma read_header_cached: "read_header (Some h) inp len = (Ok h, Some h)"
  by (simp add: read_header_def)

lemma read_header_right:
  assumes "right c inp len"
  shows "read_header c inp len = read_header None inp len"
proof (cases c)
  case (Some h)
  with assms have "read_header None inp len = (Ok h, Some h)" by (simp add: right_def)
  then show ?thesis unfolding Some read_header_cached by simp
qed simp

lemma check_tlen_right: "right c inp len \<Longrightarrow> asn1_check_tlen c inp len exptag cls opt = asn1_check_tlen None inp len exptag cls opt"
  using read_header_right [of c inp len] by (simp add: asn1_check_tlen_def)

lemma read_header_result:
  assumes "read_header None inp len = (Ok (i, plen, ptag, pclass, n), c)" "0 \<le> len"
  shows "2 \<le> n \<and> n \<le> length inp \<and> 0 \<le> plen \<and> plen \<le> LEN_MAX \<and> int n + plen \<le> len \<and> 0 \<le> ptag \<and>
    c = Some (i, plen, ptag, pclass, n)"
proof -
  obtain q where q: "ASN1_get_object inp len = Ok (i, plen, ptag, pclass, q)" "n = length inp - length q"
    "c = Some (i, plen, ptag, pclass, n)"
    using assms(1) by (auto simp: read_header_def Let_def split: outcome.splits if_splits)
  from ASN1_get_object_result [OF q(1) assms(2)] q(2,3) show ?thesis by auto
qed

lemma check_tlen_moved:
  assumes r: "right c inp len" "len \<le> LEN_MAX" "fits inp len"
    and k: "asn1_check_tlen c inp len exptag cls opt = (res, c')"
  shows "(\<forall>plen tag cl cst q. res = Ok (Some (plen, tag, cl, cst, q)) \<longrightarrow>
      (\<exists>n. 2 \<le> n \<and> n \<le> length inp \<and> q = drop n inp \<and> 0 \<le> plen \<and> plen \<le> LEN_MAX \<and> int n + plen \<le> len) \<and> 0 \<le> tag \<and>
      (0 \<le> exptag \<longrightarrow> c' = None) \<and> right c' inp len) \<and>
    (res = Ok None \<longrightarrow> right c' inp len \<and> opt \<and> 0 \<le> exptag)"
proof (cases "read_header None inp len")
  case (Pair h c2)
  note K0 = k [unfolded check_tlen_right [OF r(1)]]
  note K = K0 [unfolded asn1_check_tlen_def Pair]
  show ?thesis
  proof (cases h)
    case (Ok t)
    obtain i plen tag cl n where t: "t = (i, plen, tag, cl, n)" by (cases t) auto
    note H = read_header_result [OF Pair [unfolded Ok t]]
    have R: "right c2 inp len" using Pair [unfolded Ok t] H r(2,3) by (simp add: right_def fits_def)
    show ?thesis using K Ok t H R r(3) by (auto simp: Let_def fits_def split: if_splits)
  qed (use K in auto)
qed


section \<open>Primitive types\<close>

text \<open>What the pointer and the cache of a whole result are.\<close>

definition moves :: "bytes \<Rightarrow> int \<Rightarrow> 'x dec_result \<Rightarrow> bool" where
  "moves inp len R \<longleftrightarrow> (case R of (r, w, p, (c, k)) \<Rightarrow> moved inp len r p c)"

lemma moves_iff [simp]: "moves inp len (r, w, p, (c, k)) \<longleftrightarrow> moved inp len r p c"
  by (simp add: moves_def)

lemma moves_error: "r \<noteq> Ok True \<Longrightarrow> r \<noteq> Ok False \<Longrightarrow> moves inp len (r, w, inp, st)"
  by (cases st; cases r) (auto simp: moved_def)

lemma fail_item_moves: "moves inp len (fail_item env e v it combine inp st)"
  by (auto simp: fail_item_def intro!: moves_error split: outcome.splits)

lemma fail_template_moves: "moves inp len (fail_template env e v tt inp st)"
  by (auto simp: fail_template_def intro!: moves_error split: outcome.splits)

lemma primitive_type_moved:
  assumes r: "right c inp len" "len \<le> LEN_MAX" "fits inp len"
    and ty: "if it_itype it = ITYPE_MSTRING then 0 \<le> tag else 0 \<le> it_utype it \<or> it_utype it \<in> {V_ASN1_ANY, V_ASN1_OTHER}"
    and tag: "tag = -1 \<or> 0 \<le> tag"
    and k: "primitive_type inp len it tag opt c = (Ok (utype, tag'), c')"
  shows "right c' inp len \<and> (tag' = -1 \<or> 0 \<le> tag') \<and> (0 \<le> utype \<or> utype = V_ASN1_OTHER)"
proof -
  define ut where "ut = (if it_itype it = ITYPE_MSTRING then (tag, -1) else (it_utype it, tag))"
  obtain u t where u: "ut = (u, t)" by force
  have ut: "(0 \<le> u \<or> u \<in> {V_ASN1_ANY, V_ASN1_OTHER}) \<and> (t = -1 \<or> 0 \<le> t)"
    using u ty tag by (auto simp: ut_def split: if_splits)
  show ?thesis
  proof (cases "u = V_ASN1_ANY")
    case False
    then have "(utype, tag') = (u, t) \<and> c' = c"
      using k unfolding primitive_type_def ut_def [symmetric] u by (auto split: if_splits)
    then show ?thesis using ut r False by auto
  next
    case True
    obtain res c2 where ck: "asn1_check_tlen c inp len (-1) 0 False = (res, c2)" by force
    note C = check_tlen_moved [OF r ck]
    from k True ck obtain plen v oclass cst q where "res = Ok (Some (plen, v, oclass, cst, q))" "c' = c2" "tag' = t"
      "utype = (if oclass \<noteq> 0 then V_ASN1_OTHER else v)"
      unfolding primitive_type_def ut_def [symmetric] u
      by (auto split: if_splits outcome.splits option.splits)
    with C ut show ?thesis by auto
  qed
qed

lemma primitive_moves:
  assumes r: "right c inp len" "len \<le> LEN_MAX" "fits inp len"
    and ty: "if it_itype it = ITYPE_MSTRING then 0 \<le> tag else 0 \<le> it_utype it \<or> it_utype it \<in> {V_ASN1_ANY, V_ASN1_OTHER}"
    and tag: "tag = -1 \<or> 0 \<le> tag"
  shows "moves inp len (asn1_d2i_ex_primitive m v inp len it tag aclass opt (c, k))"
proof -
  obtain pr c1 where pt: "primitive_type inp len it tag opt c = (pr, c1)" by force
  show ?thesis
  proof (cases pr)
    case (Ok ut)
    obtain utype tag1 where ut: "ut = (utype, tag1)" by force
    note P = primitive_type_moved [OF r ty tag pt [unfolded Ok ut]]
    obtain tag2 aclass2 where t2: "(if tag1 = -1 then (utype, V_ASN1_UNIVERSAL) else (tag1, aclass)) = (tag2, aclass2)" by force
    obtain res c2 where ck: "asn1_check_tlen c1 inp len tag2 aclass2 opt = (res, c2)" by force
    note C = check_tlen_moved [OF _ r(2,3) ck]
    have neg: "tag2 < 0 \<Longrightarrow> utype = V_ASN1_OTHER" using P t2 by (auto split: if_splits)
    note D = asn1_d2i_ex_primitive_def [of m v inp len it tag aclass opt "(c, k)", unfolded prod.case pt Ok ut outcome.case t2 Let_def ck]
    show ?thesis
    proof (cases res)
      case (Ok o')
      show ?thesis
      proof (cases o')
        case None
        then show ?thesis using D Ok C P by simp
      next
        case (Some x)
        obtain plen tg cl cst q where x: "x = (plen, tg, cl, cst, q)" by (cases x) auto
        obtain n where n: "2 \<le> n" "n \<le> length inp" "q = drop n inp" "0 \<le> plen" "int n + plen \<le> len" "0 \<le> tag2 \<longrightarrow> c2 = None"
          using C P Ok Some x by auto
        let ?c3 = "if utype = V_ASN1_OTHER then None else c2"
        have c3: "?c3 = None" using n(6) neg by (auto simp: not_le)
        have go: "moves inp len (Ok True, w, drop (nat plen) q, (?c3, k'))" for w k'
          using n c3 by (auto intro!: exI [of _ "n + nat plen"] simp: add.commute)
        show ?thesis
          unfolding D Ok Some x outcome.case option.case prod.case
          using go by (auto intro!: moves_error split: outcome.splits prod.splits)
      qed
    qed (simp_all add: D)
  qed (simp_all add: asn1_d2i_ex_primitive_def pt)
qed

section \<open>Templates\<close>

text \<open>The decoder of the items the environment holds.\<close>

definition moving :: "'x asn1_env \<Rightarrow> 'x decoding \<Rightarrow> bool" where
  "moving env rec \<longleftrightarrow> (\<forall>v inp len it tag aclass opt c k. it \<in> range (env_item env) \<longrightarrow> right c inp len \<longrightarrow> len \<le> LEN_MAX \<longrightarrow>
     fits inp len \<longrightarrow> tag = -1 \<or> 0 \<le> tag \<longrightarrow> moves inp len (rec v inp len it tag aclass opt (c, k)))"

lemma movingD:
  assumes "moving env rec" "rec v inp len (env_item env i) tag aclass opt (c, k) = (r, w, p, (c', k'))"
    "right c inp len" "len \<le> LEN_MAX" "fits inp len" "tag = -1 \<or> 0 \<le> tag"
  shows "moved inp len r p c'"
  using assms(1) [unfolded moving_def, rule_format, OF rangeI assms(3-6), of v i aclass opt k] assms(2) by simp

lemma sk_loop_moves:
  assumes m: "moving env rec"
  shows "fits p len \<Longrightarrow> len \<le> LEN_MAX \<Longrightarrow>
    sk_loop env m rec (env_item env i) acc p len (None, k) = (Ok (), acc', q, (c', k')) \<Longrightarrow>
    q = drop (nat len) p \<and> c' = None"
proof (induction "nat len" arbitrary: acc p len k rule: less_induct)
  case less
  show ?case
  proof (cases "len \<le> 0")
    case True
    then show ?thesis using less.prems by (simp add: sk_loop.simps)
  next
    case False
    obtain eoc where eoc: "asn1_check_eoc p len = Ok eoc" "\<not> eoc"
      using less.prems(3) False by (auto simp: sk_loop.simps [of env m rec _ acc] split: outcome.splits if_splits)
    obtain r w q1 c1 k1 where R: "rec NullP p len (env_item env i) (-1) 0 False (None, k) = (r, w, q1, (c1, k1))"
      using prod_cases4 by (metis surj_pair)
    obtain b where b: "r = Ok b"
      using less.prems(3) False eoc R
      by (cases r) (auto simp: sk_loop.simps [of env m rec _ acc])
    have l: "length q1 < length p" "m k1 0 \<noteq> None"
      "sk_loop env m rec (env_item env i) (acc @ [w]) q1 (len - int (length p - length q1)) (c1, Suc k1) = (Ok (), acc', q, (c', k'))"
      using less.prems(3) False eoc R b
      by (auto simp: sk_loop.simps [of env m rec _ acc p] split: if_splits outcome.splits)
    have mv: "moved p len (Ok b) q1 c1" using movingD [OF m R _ less.prems(2,1)] b by simp
    with l(1) obtain n where n: "b" "0 < n" "int n \<le> len" "q1 = drop n p" "c1 = None" by (cases b) auto
    have np: "length p - length q1 = n" using n(3,4) less.prems(1) by (auto simp: fits_def)
    have "fits q1 (len - int n)" using less.prems(1) n(3,4) by (auto simp: fits_def)
    from less.hyps [OF _ this _ l(3) [unfolded np n(5)]] n(2,3,4) less.prems(2)
    show ?thesis by (simp add: add.commute nat_diff_distrib)
  qed
qed


text \<open>Tag numbers are not negative; a negative one would leave the header in the cache.\<close>

definition tagged_template :: "asn1_template \<Rightarrow> bool" where
  "tagged_template tt \<longleftrightarrow> (tt_flags tt AND ASN1_TFLG_TAG_MASK \<noteq> 0 \<longrightarrow> 0 \<le> tt_tag tt)"

lemma tag_mask: "flags AND ASN1_TFLG_EXPTAG \<noteq> 0 \<or> flags AND ASN1_TFLG_IMPTAG \<noteq> 0 \<Longrightarrow> flags AND ASN1_TFLG_TAG_MASK \<noteq> (0::int)"
proof
  assume a: "flags AND ASN1_TFLG_EXPTAG \<noteq> 0 \<or> flags AND ASN1_TFLG_IMPTAG \<noteq> 0" "flags AND ASN1_TFLG_TAG_MASK = 0"
  have "flags AND 0x10 = (flags AND 0x18) AND 0x10" "flags AND 8 = (flags AND 0x18) AND 8" by (simp_all add: and.assoc)
  with a show False by simp
qed

lemma stack_moves:
  assumes m: "moving env rec" and tt: "tagged_template tt" and r: "right c inp len" "len \<le> LEN_MAX" "fits inp len"
  shows "moves inp len (stack_d2i env m rec v inp len tt opt (c, k))"
proof -
  obtain sktag skaclass where st: "(if tt_flags tt AND ASN1_TFLG_IMPTAG \<noteq> 0 then (tt_tag tt, tt_flags tt AND ASN1_TFLG_TAG_CLASS)
     else (if tt_flags tt AND ASN1_TFLG_SET_OF \<noteq> 0 then V_ASN1_SET else V_ASN1_SEQUENCE, V_ASN1_UNIVERSAL)) = (sktag, skaclass)" by force
  have pos: "0 \<le> sktag" using tt tag_mask [of "tt_flags tt"] st by (auto simp: tagged_template_def split: if_splits)
  obtain res c2 where ck: "asn1_check_tlen c inp len sktag skaclass opt = (res, c2)" by force
  note C = check_tlen_moved [OF r ck]
  note D = stack_d2i_def [of env m rec v inp len tt opt "(c, k)", unfolded prod.case Let_def st ck]
  show ?thesis
  proof (cases res)
    case (Ok x)
    show ?thesis
    proof (cases x)
      case None
      with C Ok have "right c2 inp len" by simp
      then show ?thesis unfolding D Ok None by simp
    next
      case (Some y)
      obtain plen tg cl cst q where y: "y = (plen, tg, cl, cst, q)" by (cases y) auto
      obtain n where n: "2 \<le> n" "n \<le> length inp" "q = drop n inp" "0 \<le> plen" "plen \<le> LEN_MAX" "int n + plen \<le> len" "c2 = None"
        using C Ok Some y pos by auto
      have f: "fits q plen" using n r(3) by (auto simp: fits_def)
      have go: "moves inp len (Ok True, w, q', (c', k'))"
        if "sk_loop env m rec (env_item env (tt_item tt)) [] q plen (None, k2) = (Ok (), sk, q', (c', k'))" for w q' c' k' sk k2
        using sk_loop_moves [OF m f n(5) that] n by (auto intro!: exI [of _ "n + nat plen"] simp: add.commute)
      show ?thesis
        unfolding D Ok Some y outcome.case option.case prod.case n(7)
        using go by (auto intro!: moves_error fail_template_moves split: outcome.splits prod.splits)
    qed
  qed (simp_all add: D)
qed

lemma template_noexp_moves:
  assumes m: "moving env rec" and tt: "tagged_template tt" and r: "right c inp len" "len \<le> LEN_MAX" "fits inp len"
  shows "moves inp len (template_noexp_d2i env m rec v inp len tt opt (c, k))"
proof (cases "tt_flags tt AND ASN1_TFLG_SK_MASK \<noteq> 0")
  case True
  then show ?thesis using stack_moves [OF assms] by (simp add: template_noexp_d2i_def Let_def)
next
  case False
  let ?it = "env_item env (tt_item tt)"
  define X where "X = (if tt_flags tt AND ASN1_TFLG_IMPTAG \<noteq> 0
     then rec v inp len ?it (tt_tag tt) (tt_flags tt AND ASN1_TFLG_TAG_CLASS) opt (c, k)
     else rec v inp len ?it (-1) (tt_flags tt AND ASN1_TFLG_COMBINE) opt (c, k))"
  have "0 \<le> tt_tag tt" if "tt_flags tt AND ASN1_TFLG_IMPTAG \<noteq> 0" using tt tag_mask that by (auto simp: tagged_template_def)
  then have X: "moves inp len X"
    using m r unfolding X_def moving_def by (auto simp: rangeI)
  obtain res w p c' k' where x: "X = (res, w, p, (c', k'))" by (cases X) auto
  have D: "template_noexp_d2i env m rec v inp len tt opt (c, k) =
      (case X of (UB, w, p, st) \<Rightarrow> (UB, w, inp, st)
        | (Fail _, w, p, st) \<Rightarrow> fail_template env NESTED_ASN1_ERROR w tt inp st
        | (Ok True, w, p, st) \<Rightarrow> (Ok True, w, p, st)
        | (Ok False, w, p, st) \<Rightarrow> (Ok False, w, inp, st))"
    using False by (simp add: template_noexp_d2i_def Let_def X_def)
  show ?thesis
    using X unfolding D x prod.case
    by (cases res) (auto intro: fail_template_moves split: bool.splits)
qed

lemma template_moves:
  assumes m: "moving env rec" and tt: "tagged_template tt" and r: "right c inp len" "len \<le> LEN_MAX" "fits inp len"
  shows "moves inp len (template_ex_d2i env m rec v inp len tt opt (c, k))"
proof (cases "tt_flags tt AND ASN1_TFLG_EXPTAG = 0")
  case True
  then show ?thesis using template_noexp_moves [OF assms] by (simp add: template_ex_d2i_def)
next
  case False
  have pos: "0 \<le> tt_tag tt" using tt tag_mask False by (auto simp: tagged_template_def)
  obtain res c2 where ck: "asn1_check_tlen c inp len (tt_tag tt) (tt_flags tt AND ASN1_TFLG_TAG_CLASS) opt = (res, c2)" by force
  note C = check_tlen_moved [OF r ck]
  note D = template_ex_d2i_def [of env m rec v inp len tt opt "(c, k)", unfolded if_not_P [OF False] prod.case ck]
  show ?thesis
  proof (cases res)
    case (Ok x)
    show ?thesis
    proof (cases x)
      case None
      with C Ok have "right c2 inp len" by simp
      then show ?thesis unfolding D Ok None by simp
    next
      case (Some y)
      obtain plen tg cl cst q where y: "y = (plen, tg, cl, cst, q)" by (cases y) auto
      obtain n where n: "2 \<le> n" "n \<le> length inp" "q = drop n inp" "0 \<le> plen" "plen \<le> LEN_MAX" "int n + plen \<le> len" "c2 = None"
        using C Ok Some y pos by auto
      have f: "fits q plen" using n r(3) by (auto simp: fits_def)
      obtain r2 w p c' k' where N: "template_noexp_d2i env m rec v q plen tt False (None, k) = (r2, w, p, (c', k'))"
        by (metis surj_pair)
      have mv: "moved q plen r2 p c'"
        using template_noexp_moves [OF m tt right_None n(5) f, of m v False k] unfolding N by simp
      show ?thesis
      proof (cases r2)
        case b: (Ok b)
        show ?thesis
        proof (cases b)
          case True
          then obtain j where j: "0 < j" "int j \<le> plen" "p = drop j q" "c' = None" using mv b by auto
          have l: "length q - length p = j" using j f by (auto simp: fits_def)
          show ?thesis
            unfolding D Ok Some y outcome.case option.case prod.case n(7) N b
            using n j l by (auto intro!: moves_error fail_template_moves exI [of _ "n + j"] simp: add.commute)
        next
          case b0: False
          then have p: "p = q" "right c' q plen" using mv b by auto
          show ?thesis
          proof (cases "plen = 0")
            case True
            have "read_header None q plen \<noteq> (Ok h, Some h)" for h
              using read_header_result [of q plen] True by (cases h) auto
            then have "c' = None" using p(2) by (auto simp: right_def)
            then show ?thesis
              unfolding D Ok Some y outcome.case option.case prod.case n(7) N b
              using n p True by (auto intro!: moves_error fail_template_moves exI [of _ n])
          next
            case False
            then show ?thesis
              unfolding D Ok Some y outcome.case option.case prod.case n(7) N b
              using n p by (auto intro!: moves_error fail_template_moves)
          qed
        qed
      qed (use D Ok Some y n(7) N in \<open>auto intro: moves_error\<close>)
    qed
  qed (simp_all add: D)
qed


section \<open>CHOICE and SEQUENCE\<close>

lemma try_choices_moves:
  assumes m: "moving env rec" and l: "len \<le> LEN_MAX" "fits p len"
  shows "\<forall>tt\<in>set tts. tagged_template tt \<Longrightarrow> right c p len \<Longrightarrow>
    try_choices env m rec tts i v p len (c, k) = (res, w, q, (c', k')) \<Longrightarrow>
    (case res of Ok None \<Rightarrow> right c' p len | Ok (Some _) \<Rightarrow> moved p len (Ok True) q c' | _ \<Rightarrow> True)"
proof (induction tts arbitrary: i v c k)
  case (Cons tt tts)
  show ?case
  proof (cases "asn1_get_field_ptr v tt")
    case f: (Ok f)
    obtain r x p1 c1 k1 where T: "template_ex_d2i env m rec f p len tt True (c, k) = (r, x, p1, (c1, k1))" by (metis surj_pair)
    have mv: "moved p len r p1 c1" using template_moves [OF m _ Cons.prems(2) l, of tt m f True k] Cons.prems(1) T by simp
    show ?thesis
    proof (cases r)
      case (Ok b)
      show ?thesis
      proof (cases b)
        case True
        then show ?thesis using Cons.prems(3) f T Ok mv by auto
      next
        case False
        then have R: "right c1 p len" using mv Ok by simp
        show ?thesis using Cons.IH [OF _ R] Cons.prems(1,3) f T Ok False by auto
      qed
    qed (use Cons.prems(3) f T in auto)
  qed (use Cons.prems in auto)
qed auto

lemma choice_moves:
  assumes m: "moving env rec" and tt: "\<forall>tt\<in>set (it_templates it). tagged_template tt"
    and r: "right c inp len" "len \<le> LEN_MAX" "fits inp len"
  shows "moves inp len (choice_d2i env m rec v inp len it tag combine opt (c, k))"
proof (cases "tag = -1")
  case True
  obtain v1 ok where cb: "call_aux it OP_D2I_PRE v = (v1, ok)" by force
  obtain r1 v2 k2 where rc: "ready_choice env m v1 it k = (r1, v2, k2)" by (metis surj_pair)
  obtain res w p c3 k3 where tc: "try_choices env m rec (it_templates it) 0 v2 inp len (c, k2) = (res, w, p, (c3, k3))"
    by (metis surj_pair)
  note T = try_choices_moves [OF m r(2,3) tt r(1) tc]
  have go: "moves inp len (Ok True, w', p, (c3, k3))" if "res = Ok (Some i)" for w' i using T that by simp
  have no: "moves inp len (Ok False, w', inp, (c3, k3))" if "res = Ok None" for w' using T that by simp
  show ?thesis
    unfolding choice_d2i_def True cb rc prod.case
    using go no tc by (auto intro!: moves_error fail_item_moves split: outcome.splits option.splits prod.splits)
qed (simp add: choice_d2i_def fail_item_moves)

text \<open>The templates an ANY DEFINED BY table offers.\<close>

definition tagged_adb :: "asn1_adb \<Rightarrow> bool" where
  "tagged_adb adb \<longleftrightarrow> (\<forall>tt. tt \<in> snd ` set (adb_tbl adb) \<or> adb_default adb = Some tt \<or> adb_null adb = Some tt \<longrightarrow> tagged_template tt)"

lemma do_adb_tagged:
  assumes "asn1_do_adb env v tt = Ok seqtt" "tagged_template tt" "\<forall>i. tagged_adb (env_adb env i)"
  shows "tagged_template seqtt"
proof (cases "tt_flags tt AND ASN1_TFLG_ADB_MASK = 0")
  case True
  then show ?thesis using assms(1,2) by (simp add: asn1_do_adb_def)
next
  case False
  let ?adb = "env_adb env (tt_item tt)"
  have e: "tagged_template e" if "adb_entry x = Ok e" "x = adb_default ?adb \<or> x = adb_null ?adb" for x e
    using that assms(3) unfolding tagged_adb_def adb_entry_def by (auto split: option.splits)
  have m: "tagged_template e" if "map_of (adb_tbl ?adb) s = Some e" for s e
    using map_of_SomeD [OF that] assms(3) unfolding tagged_adb_def by force
  obtain sfld where s: "field_at v (adb_offset ?adb) = Ok sfld"
    using assms(1) False by (auto simp: asn1_do_adb_def Let_def bind_outcome_Ok_iff)
  show ?thesis
  proof (cases "sfld = NullP")
    case True
    then show ?thesis using assms(1) False s e by (simp add: asn1_do_adb_def Let_def)
  next
    case nn: False
    then obtain sel where sel: "adb_selector env tt sfld = Ok sel"
      using assms(1) False s by (auto simp: asn1_do_adb_def Let_def bind_outcome_Ok_iff)
    show ?thesis
      using assms(1) False s nn sel e m
      by (cases "map_of (adb_tbl ?adb) sel") (auto simp: asn1_do_adb_def Let_def)
  qed
qed

lemma read_fields_moves:
  assumes m: "moving env rec" and adb: "\<forall>i. tagged_adb (env_adb env i)"
  shows "\<forall>tt\<in>set tts. tagged_template tt \<Longrightarrow> right c p len \<Longrightarrow> (len = 0 \<Longrightarrow> c = None) \<Longrightarrow> len \<le> LEN_MAX \<Longrightarrow> fits p len \<Longrightarrow>
    read_fields env m rec tts v p len (c, k) = (Ok (q, len', left), w, (c', k')) \<Longrightarrow>
    \<exists>n. q = drop n p \<and> int n + len' = len \<and> 0 \<le> len' \<and> (len' = 0 \<longrightarrow> c' = None)"
proof (induction tts arbitrary: v c p len k)
  case Nil
  then show ?case by (auto simp: fits_def intro: exI [of _ 0])
next
  case (Cons tt tts)
  obtain seqtt where a: "asn1_do_adb env v tt = Ok seqtt" using Cons.prems(6) by (auto split: outcome.splits)
  have tg: "tagged_template seqtt" using do_adb_tagged [OF a _ adb] Cons.prems(1) by simp
  obtain f where f: "asn1_get_field_ptr v seqtt = Ok f" using Cons.prems(6) a by (auto split: outcome.splits)
  show ?case
  proof (cases "len = 0")
    case True
    then show ?thesis using Cons.prems(3,6) a f by (auto intro: exI [of _ 0])
  next
    case False
    have e: "asn1_check_eoc p len = Ok False" using Cons.prems(6) a f False by (auto split: outcome.splits bool.splits)
    let ?opt = "tts \<noteq> [] \<and> tt_flags seqtt AND ASN1_TFLG_OPTIONAL \<noteq> 0"
    obtain r x p1 c1 k1 where T: "template_ex_d2i env m rec f p len seqtt ?opt (c, k) = (r, x, p1, (c1, k1))" by (metis surj_pair)
    have mv: "moved p len r p1 c1" using template_moves [OF m tg Cons.prems(2,4,5), of m f ?opt k] T by simp
    note run = Cons.prems(6) [unfolded read_fields.simps a f outcome.case if_not_P [OF False] e bool.case Let_def T prod.case]
    obtain b where b: "r = Ok b" using run by (cases r) auto
    show ?thesis
    proof (cases b)
      case True
      then obtain n where n: "0 < n" "int n \<le> len" "p1 = drop n p" "c1 = None" using mv b by auto
      have l: "length p - length p1 = n" using n Cons.prems(5) by (auto simp: fits_def)
      have ft: "fits p1 (len - int n)" using n Cons.prems(5) by (auto simp: fits_def)
      have "read_fields env m rec tts (put_field v seqtt x) p1 (len - int n) (None, k1) = (Ok (q, len', left), w, (c', k'))"
        using run b True l n(4) by simp
      from Cons.IH [OF _ right_None _ _ ft this] Cons.prems(1,4) n obtain j where
        "q = drop j p1" "int j + len' = len - int n" "0 \<le> len'" "len' = 0 \<longrightarrow> c' = None" by auto
      then show ?thesis using n by (intro exI [of _ "n + j"]) (auto simp: add.commute)
    next
      case b0: False
      then have R: "right c1 p len" using mv b by simp
      obtain g lg where g: "ASN1_template_free env x seqtt = Ok (g, lg)" using run b b0 by (auto split: outcome.splits)
      have "read_fields env m rec tts (put_field v seqtt g) p len (c1, k1) = (Ok (q, len', left), w, (c', k'))"
        using run b b0 g by simp
      from Cons.IH [OF _ R _ Cons.prems(4,5) this] Cons.prems(1) False show ?thesis by auto
    qed
  qed
qed

lemma read_sequence_moves:
  assumes m: "moving env rec" and adb: "\<forall>i. tagged_adb (env_adb env i)" and tt: "\<forall>tt\<in>set (it_templates it). tagged_template tt"
    and p: "p = drop n inp" "0 < n" "n \<le> length inp" "int n + plen \<le> len" "0 \<le> plen" "plen \<le> LEN_MAX" "fits inp len"
  shows "moves inp len (read_sequence env m rec v inp p plen it combine (None, k))"
proof (cases "free_adb_fields env (it_templates it) v")
  case (Ok v1)
  obtain r w c1 k1 where R: "read_fields env m rec (it_templates it) v1 p plen (None, k) = (r, w, (c1, k1))" by (metis surj_pair)
  have f: "fits p plen" using p by (auto simp: fits_def)
  show ?thesis
  proof (cases r)
    case r: (Ok x)
    obtain q len' left where x: "x = (q, len', left)" by (cases x) auto
    from read_fields_moves [OF m adb tt right_None _ p(6) f R [unfolded r x]]
    obtain j where j: "q = drop j p" "int j + len' = plen" "0 \<le> len'" "len' = 0 \<longrightarrow> c1 = None" by auto
    have go: "moves inp len (Ok True, w', q, (c1, k'))" if "len' = 0" for w' k'
      using j p that by (auto intro!: exI [of _ "n + j"] simp: add.commute)
    show ?thesis
      unfolding read_sequence_def Ok outcome.case R r x prod.case
      using go by (auto intro!: moves_error fail_item_moves simp: Let_def split: outcome.splits prod.splits)
  qed (simp_all add: read_sequence_def Ok R moves_error fail_item_moves)
qed (simp_all add: read_sequence_def moves_error)

lemma sequence_moves:
  assumes m: "moving env rec" and adb: "\<forall>i. tagged_adb (env_adb env i)" and tt: "\<forall>tt\<in>set (it_templates it). tagged_template tt"
    and r: "right c inp len" "len \<le> LEN_MAX" "fits inp len" and tag: "tag = -1 \<or> 0 \<le> tag"
  shows "moves inp len (sequence_d2i env m rec v inp len it tag aclass combine opt (c, k))"
proof -
  obtain tag2 aclass2 where t2: "(if tag = -1 then (V_ASN1_SEQUENCE, V_ASN1_UNIVERSAL) else (tag, aclass)) = (tag2, aclass2)" by force
  have pos: "0 \<le> tag2" using t2 tag by (auto split: if_splits)
  obtain res c2 where ck: "asn1_check_tlen c inp len tag2 aclass2 opt = (res, c2)" by force
  note C = check_tlen_moved [OF r ck]
  note D = sequence_d2i_def [of env m rec v inp len it tag aclass combine opt "(c, k)", unfolded prod.case Let_def t2 ck]
  show ?thesis
  proof (cases res)
    case (Ok x)
    show ?thesis
    proof (cases x)
      case None
      with C Ok have "right c2 inp len" by simp
      then show ?thesis unfolding D Ok None by simp
    next
      case (Some y)
      obtain plen tg cl cst q where y: "y = (plen, tg, cl, cst, q)" by (cases y) auto
      obtain n where n: "2 \<le> n" "n \<le> length inp" "q = drop n inp" "0 \<le> plen" "plen \<le> LEN_MAX" "int n + plen \<le> len" "c2 = None"
        using C Ok Some y pos by auto
      have go: "moves inp len (read_sequence env m rec w inp q plen it combine (None, k'))" for w k'
        using n r(3) by (intro read_sequence_moves [OF m adb tt, of q n]) auto
      show ?thesis
        unfolding D Ok Some y outcome.case option.case prod.case n(7)
        using go by (auto intro!: moves_error fail_item_moves split: outcome.splits prod.splits)
    qed
  qed (simp_all add: D fail_item_moves)
qed


section \<open>Items\<close>

text \<open>
  What the decoder relies on: tag numbers that are not negative, a known underlying type for every
  primitive item, and external types that move the pointer and keep the cache as the code itself does.
\<close>

definition moving_extern :: "'x asn1_item \<Rightarrow> bool" where
  "moving_extern it \<longleftrightarrow> (\<forall>ef v inp len tag aclass opt c r w p c'.
     it_ext it = Some ef \<longrightarrow> right c inp len \<longrightarrow> len \<le> LEN_MAX \<longrightarrow> fits inp len \<longrightarrow>
     ex_d2i ef v inp len tag aclass opt c = (r, w, p, c') \<longrightarrow> moved inp len r p c')"

definition tagged_item :: "'x asn1_item \<Rightarrow> bool" where
  "tagged_item it \<longleftrightarrow> (\<forall>tt\<in>set (it_templates it). tagged_template tt) \<and> moving_extern it \<and>
     (it_itype it = ITYPE_PRIMITIVE \<longrightarrow> it_templates it = [] \<longrightarrow> 0 \<le> it_utype it \<or> it_utype it \<in> {V_ASN1_ANY, V_ASN1_OTHER})"

definition tagged_env :: "'x asn1_env \<Rightarrow> bool" where
  "tagged_env env \<longleftrightarrow> (\<forall>i. tagged_item (env_item env i) \<and> tagged_adb (env_adb env i))"

lemma mstring_moves:
  assumes r: "right c inp len" "len \<le> LEN_MAX" "fits inp len" and it: "it_itype it = ITYPE_MSTRING"
  shows "moves inp len (mstring_d2i env m v inp len it tag combine opt (c, k))"
proof (cases "tag = -1")
  case True
  obtain res c2 where ck: "asn1_check_tlen c inp len (-1) 0 True = (res, c2)" by force
  note C = check_tlen_moved [OF r ck]
  note D = mstring_d2i_def [of env m v inp len it tag combine opt "(c, k)", unfolded True ck prod.case]
  show ?thesis
  proof (cases res)
    case (Ok x)
    show ?thesis
    proof (cases x)
      case None
      then show ?thesis using C Ok by simp
    next
      case (Some y)
      obtain plen otag oclass cst q where y: "y = (plen, otag, oclass, cst, q)" by (cases y) auto
      have R: "right c2 inp len" "0 \<le> otag" using C Ok Some y by auto
      have go: "moves inp len (asn1_d2i_ex_primitive m v inp len it otag 0 False (c2, k))"
        using R it by (intro primitive_moves [OF _ r(2,3)]) auto
      show ?thesis
        unfolding True D Ok Some y prod.case outcome.case option.case using go R by (simp add: fail_item_moves)
    qed
  qed (simp_all add: True D fail_item_moves)
qed (simp add: mstring_d2i_def fail_item_moves)

lemma item_moves:
  assumes m: "moving env rec" and env: "\<forall>i. tagged_adb (env_adb env i)" and it: "tagged_item it"
    and r: "right c inp (min len LEN_MAX)" "fits inp len" and tag: "tag = -1 \<or> 0 \<le> tag"
  shows "moves inp (min len LEN_MAX) (item_d2i env m rec v inp len it tag aclass opt (c, k))"
proof -
  let ?len = "min len LEN_MAX"
  have l: "(if len > INT_MAX div 2 then INT_MAX div 2 else len) = ?len" by simp
  have f: "?len \<le> LEN_MAX" "fits inp ?len" using r(2) by (auto simp: fits_def)
  have tt: "\<forall>tt\<in>set (it_templates it). tagged_template tt" using it by (simp add: tagged_item_def)
  show ?thesis
  proof (cases "it_itype it")
    case ITYPE_PRIMITIVE
    show ?thesis
    proof (cases "it_templates it")
      case Nil
      have "moves inp ?len (asn1_d2i_ex_primitive m v inp ?len it tag (aclass AND NOT ASN1_TFLG_COMBINE) opt (c, k))"
        using it Nil ITYPE_PRIMITIVE tag by (intro primitive_moves r(1) f) (auto simp: tagged_item_def)
      then show ?thesis unfolding item_d2i_def Let_def l by (simp add: ITYPE_PRIMITIVE Nil)
    next
      case (Cons t ts)
      have "moves inp ?len (template_ex_d2i env m rec v inp ?len t opt (c, k))"
        using tt Cons by (intro template_moves [OF m _ r(1) f]) simp
      then show ?thesis unfolding item_d2i_def Let_def l by (cases opt) (simp_all add: ITYPE_PRIMITIVE Cons fail_item_moves)
    qed
  next
    case ITYPE_MSTRING
    show ?thesis using mstring_moves [OF r(1) f ITYPE_MSTRING] unfolding item_d2i_def Let_def l by (simp add: ITYPE_MSTRING)
  next
    case ITYPE_EXTERN
    have "moves inp ?len (extern_d2i v inp ?len it tag (aclass AND NOT ASN1_TFLG_COMBINE) opt (c, k))"
      using it r(1) f unfolding extern_d2i_def tagged_item_def moving_extern_def
      by (auto intro: moves_error split: option.splits prod.splits)
    then show ?thesis unfolding item_d2i_def Let_def l by (simp add: ITYPE_EXTERN)
  next
    case ITYPE_CHOICE
    show ?thesis using choice_moves [OF m tt r(1) f] unfolding item_d2i_def Let_def l by (simp add: ITYPE_CHOICE)
  next
    case ITYPE_SEQUENCE
    show ?thesis using sequence_moves [OF m env tt r(1) f tag] unfolding item_d2i_def Let_def l by (simp add: ITYPE_SEQUENCE)
  next
    case ITYPE_UNKNOWN
    then show ?thesis by (simp add: item_d2i_def Let_def)
  qed
qed

lemma item_ex_moving:
  assumes "tagged_env env"
  shows "moving env (asn1_item_ex_d2i env m n)"
proof (induction n)
  case 0
  then show ?case by (simp add: moving_def fail_item_moves)
next
  case (Suc n)
  show ?case
  proof (unfold moving_def, intro allI impI)
    fix v inp len it and tag :: int and aclass opt c k
    assume a: "it \<in> range (env_item env)" "right c inp len" "len \<le> LEN_MAX" "fits inp len" "tag = -1 \<or> 0 \<le> tag"
    have ti: "tagged_item it" and adb: "\<forall>i. tagged_adb (env_adb env i)" using assms a(1) by (auto simp: tagged_env_def)
    have R: "right c inp (min len LEN_MAX)" using a(2,3) by (simp add: min_absorb1)
    show "moves inp len (asn1_item_ex_d2i env m (Suc n) v inp len it tag aclass opt (c, k))"
      using item_moves [OF Suc adb ti R a(4,5), of m v aclass opt k] a(3) by (simp add: min_absorb1)
  qed
qed

section \<open>Properties\<close>

text \<open>
  C26: The decoder only moves over its input: for every grammar with non-negative tags whose external types keep to the
  same contract, a decoded value
  takes at least one octet and at most the \<open>len\<close> the caller gave (and never more than the length bound),
  what is returned is the rest of the input and no header stays cached; when an optional value is absent
  or the input is rejected the pointer stays, and a header left in the cache is the one at that pointer.
\<close>

theorem d2i_moves:
  assumes "tagged_env env" "tagged_item it" "fits inp len" "right c inp (min len LEN_MAX)" "tag = -1 \<or> 0 \<le> tag"
    and "ASN1_item_ex_d2i env m v inp len it tag aclass opt (c, k) = (r, w, p, (c', k'))"
  shows "case r of
      Ok True \<Rightarrow> (\<exists>n. 0 < n \<and> int n \<le> min len LEN_MAX \<and> p = drop n inp) \<and> c' = None
    | Ok False \<Rightarrow> p = inp \<and> right c' inp (min len LEN_MAX)
    | _ \<Rightarrow> p = inp"
proof -
  have n: "ASN1_item_ex_d2i env m = item_d2i env m (asn1_item_ex_d2i env m 29)"
    unfolding ASN1_item_ex_d2i_def by (simp flip: asn1_item_ex_d2i.simps(2))
  have "\<forall>i. tagged_adb (env_adb env i)" using assms(1) by (simp add: tagged_env_def)
  from item_moves [OF item_ex_moving [OF assms(1)] this assms(2,4,3,5), of m m 29 v aclass opt k] assms(6)
  show ?thesis unfolding n by (simp add: moved_def)
qed


lemma tagged_template_any: "tagged_template (ASN1_EX_TEMPLATE_TYPE flags 0 i)"
  by (simp add: tagged_template_def ASN1_EX_TEMPLATE_TYPE_def)

lemma tagged_typ_items: "list_all tagged_item (map snd typ_items)" "tagged_item (IMPLEMENT_ASN1_TYPE_ex V_ASN1_NULL 0)"
  by (simp_all add: typ_items_def tagged_item_def moving_extern_def IMPLEMENT_ASN1_TYPE_ex_def IMPLEMENT_ASN1_MSTRING_def
      ASN1_ITEM_TEMPLATE_def tagged_template_any)

lemma tagged_typ_env: "tagged_env (typ_env n)"
  using list_all_nth_or [OF tagged_typ_items]
  by (simp add: tagged_env_def typ_env_def tagged_adb_def)

lemma d2i_moves_witness:
  "ASN1_item_ex_d2i (typ_env 9) zero_alloc NullP [4, 1, 5, 9] 4 (env_item (typ_env 9) 0) (-1) 0 False (None, 0) =
     (Ok True, StrP \<lparr>str_length = 1, str_type = V_ASN1_OCTET_STRING, str_data = Some [5, 0], str_flags = 0\<rparr>, [9], (None, 3)) \<and>
   (\<exists>n. 0 < n \<and> int n \<le> 4 \<and> [9] = drop n [4, 1, 5, 9::u8])"
proof
  let ?it = "env_item (typ_env 9) 0"
  show run: "ASN1_item_ex_d2i (typ_env 9) zero_alloc NullP [4, 1, 5, 9] 4 ?it (-1) 0 False (None, 0) =
     (Ok True, StrP \<lparr>str_length = 1, str_type = V_ASN1_OCTET_STRING, str_data = Some [5, 0], str_flags = 0\<rparr>, [9], (None, 3))"
    by code_simp
  have "tagged_item ?it" using tagged_typ_env by (simp add: tagged_env_def)
  from d2i_moves [OF tagged_typ_env this _ _ _ run]
  show "\<exists>n. 0 < n \<and> int n \<le> 4 \<and> [9] = drop n [4, 1, 5, 9::u8]" by (simp add: fits_def)
qed

end
