(* ===== verification/Upb_Table.thy ===== *)
theory Upb_Table
  imports Prelude
begin

text \<open>
  The hash table of the protocol buffer runtime (\<open>upb/table.c\<close>, \<open>upb/internal/table.h\<close>): chained entries
  inside one array, where a colliding entry is moved out of the way when it does not belong to the slot
  (Brent's variation, as in Lua). A pointer to an entry is its index; the table is shared by the tables
  with string and with integer keys, which pass their hash function and their comparison.
  \<open>UB\<close> is an access through NULL or outside the array; \<open>Fail ENDLESS\<close> a walk along the chain that
  has seen more entries than there are, and so never ends. Assertions are compiled out.
\<close>

section \<open>The data\<close>

datatype endless = ENDLESS

type_synonym 'a run = "(endless, 'a) outcome"

text \<open>The key of an empty entry is 0: here \<open>None\<close>.\<close>

record 'k tabent =
  ent_key :: "'k option"
  ent_val :: u64
  ent_next :: "nat option"

record 'k upb_table =
  tb_count :: u64
  tb_mask :: u32
  tb_max_count :: u32
  tb_size_lg2 :: nat
  tb_entries :: "'k tabent list"

type_synonym 'k hashfunc = "'k option \<Rightarrow> u32 run"
type_synonym 'k eqlfunc = "'k option \<Rightarrow> 'k \<Rightarrow> bool run"

text \<open>
  Memory comes from an arena: \<open>a i n\<close> is whether the request number \<open>i\<close>, for \<open>n\<close> octets, is met. An operation
  takes the number of the next request and returns the one after its last.
\<close>

type_synonym arena = "nat \<Rightarrow> nat \<Rightarrow> bool"

abbreviation (input) SIZE_MAX :: u64 where "SIZE_MAX \<equiv> - 1"

definition tabent_size :: nat where
  "tabent_size = 24"

definition upb_table_size :: "'k upb_table \<Rightarrow> nat" where
  "upb_table_size t = (if tb_size_lg2 t = 0 then 0 else 2 ^ tb_size_lg2 t)"

definition upb_tabent_isempty :: "'k tabent \<Rightarrow> bool" where
  "upb_tabent_isempty e \<longleftrightarrow> ent_key e = None"

definition upb_getentry :: "'k upb_table \<Rightarrow> u32 \<Rightarrow> nat" where
  "upb_getentry t hash = unat (hash AND tb_mask t)"

definition isfull :: "'k upb_table \<Rightarrow> bool" where
  "isfull t \<longleftrightarrow> tb_count t = ucast (tb_max_count t)"

section \<open>Making a table\<close>

text \<open>
  \<open>init\<close>: the size is \<open>1 << size_lg2\<close> in \<open>int\<close>, so 31 bits and more overflow. \<open>MAX_LOAD\<close> is 0.85. The table
  is returned with whether its entries could be allocated.
\<close>

definition zero_ent :: "'k tabent" where
  "zero_ent = \<lparr>ent_key = None, ent_val = 0, ent_next = None\<rparr>"

definition init :: "nat \<Rightarrow> arena \<Rightarrow> nat \<Rightarrow> ('k upb_table option \<times> nat) run" where
  "init size_lg2 a k =
     (if size_lg2 > 30 then UB
      else
        let n = (if size_lg2 = 0 then 0 else 2 ^ size_lg2);
            t = \<lparr>tb_count = 0, tb_mask = (if n \<noteq> 0 then of_nat (n - 1) else 0), tb_max_count = of_nat (n * 85 div 100),
                 tb_size_lg2 = size_lg2, tb_entries = []\<rparr> in
        if n * tabent_size > 0 then
          if a k (n * tabent_size) then Ok (Some (t\<lparr>tb_entries := replicate n zero_ent\<rparr>), k + 1) else Ok (None, k + 1)
        else Ok (Some t, k))"

section \<open>Finding\<close>

fun find_loop :: "nat \<Rightarrow> 'k eqlfunc \<Rightarrow> 'k tabent list \<Rightarrow> 'k \<Rightarrow> nat \<Rightarrow> nat option run" where
  "find_loop 0 eql es key e = Fail ENDLESS"
| "find_loop (Suc fuel) eql es key e =
     (if length es \<le> e then UB
      else bind_outcome (eql (ent_key (es ! e)) key) (\<lambda>same.
        if same then Ok (Some e)
        else case ent_next (es ! e) of None \<Rightarrow> Ok None | Some e' \<Rightarrow> find_loop fuel eql es key e'))"

definition findentry :: "'k upb_table \<Rightarrow> 'k \<Rightarrow> u32 \<Rightarrow> 'k eqlfunc \<Rightarrow> nat option run" where
  "findentry t key hash eql =
     (if tb_size_lg2 t = 0 then Ok None
      else
        let e = upb_getentry t hash in
        if length (tb_entries t) \<le> e then UB
        else if upb_tabent_isempty (tb_entries t ! e) then Ok None
        else find_loop (length (tb_entries t)) eql (tb_entries t) key e)"

definition lookup :: "'k upb_table \<Rightarrow> 'k \<Rightarrow> u32 \<Rightarrow> 'k eqlfunc \<Rightarrow> u64 option run" where
  "lookup t key hash eql =
     bind_outcome (findentry t key hash eql) (\<lambda>e. Ok (map_option (\<lambda>e. ent_val (tb_entries t ! e)) e))"

section \<open>Inserting\<close>

text \<open>\<open>emptyent\<close>: the first empty entry after \<open>e\<close>, or else from the start; NULL when there is none.\<close>

fun first_empty :: "'k tabent list \<Rightarrow> nat list \<Rightarrow> nat option" where
  "first_empty es [] = None"
| "first_empty es (e # rest) = (if upb_tabent_isempty (es ! e) then Some e else first_empty es rest)"

definition emptyent :: "'k tabent list \<Rightarrow> nat \<Rightarrow> nat option" where
  "emptyent es e =
     (case first_empty es [e + 1..<length es] of Some i \<Rightarrow> Some i | None \<Rightarrow> first_empty es [0..<length es])"

text \<open>The entry before \<open>goal\<close> on the chain from \<open>e\<close>.\<close>

fun pred_loop :: "nat \<Rightarrow> 'k tabent list \<Rightarrow> nat \<Rightarrow> nat \<Rightarrow> nat run" where
  "pred_loop 0 es goal e = Fail ENDLESS"
| "pred_loop (Suc fuel) es goal e =
     (if length es \<le> e then UB
      else if ent_next (es ! e) = Some goal then Ok e
      else case ent_next (es ! e) of None \<Rightarrow> UB | Some e' \<Rightarrow> pred_loop fuel es goal e')"

definition insert_entry :: "'k upb_table \<Rightarrow> 'k option \<Rightarrow> u64 \<Rightarrow> u32 \<Rightarrow> 'k hashfunc \<Rightarrow> 'k upb_table run" where
  "insert_entry t tabkey val hash hashfunc =
     (let t = t\<lparr>tb_count := tb_count t + 1\<rparr>;
          es = tb_entries t;
          mainpos = upb_getentry t hash;
          ent = \<lparr>ent_key = tabkey, ent_val = val, ent_next = None\<rparr> in
      if length es \<le> mainpos then UB
      else if upb_tabent_isempty (es ! mainpos) then Ok (t\<lparr>tb_entries := es[mainpos := ent]\<rparr>)
      else case emptyent es mainpos of
          None \<Rightarrow> UB
        | Some new_e \<Rightarrow>
            bind_outcome (hashfunc (ent_key (es ! mainpos))) (\<lambda>h.
              let chain = upb_getentry t h in
              if chain = mainpos then
                Ok (t\<lparr>tb_entries :=
                     es[new_e := ent\<lparr>ent_next := ent_next (es ! mainpos)\<rparr>,
                        mainpos := (es ! mainpos)\<lparr>ent_next := Some new_e\<rparr>]\<rparr>)
              else
                let es = es[new_e := es ! mainpos] in
                bind_outcome (pred_loop (length es) es mainpos chain) (\<lambda>chain.
                  Ok (t\<lparr>tb_entries := es[chain := (es ! chain)\<lparr>ent_next := Some new_e\<rparr>, mainpos := ent]\<rparr>))))"

section \<open>Removing\<close>

text \<open>The last entry from \<open>e\<close> on that is not followed by the entry of \<open>key\<close>.\<close>

fun rm_loop :: "nat \<Rightarrow> 'k eqlfunc \<Rightarrow> 'k tabent list \<Rightarrow> 'k \<Rightarrow> nat \<Rightarrow> nat run" where
  "rm_loop 0 eql es key e = Fail ENDLESS"
| "rm_loop (Suc fuel) eql es key e =
     (if length es \<le> e then UB
      else case ent_next (es ! e) of
          None \<Rightarrow> Ok e
        | Some e' \<Rightarrow>
            if length es \<le> e' then UB
            else bind_outcome (eql (ent_key (es ! e')) key) (\<lambda>same.
              if same then Ok e else rm_loop fuel eql es key e'))"

definition rm :: "'k upb_table \<Rightarrow> 'k \<Rightarrow> u32 \<Rightarrow> 'k eqlfunc \<Rightarrow> ('k upb_table \<times> u64 option) run" where
  "rm t key hash eql =
     (let es = tb_entries t;
          chain = upb_getentry t hash;
          t' = t\<lparr>tb_count := tb_count t - 1\<rparr> in
      if length es \<le> chain then UB
      else if upb_tabent_isempty (es ! chain) then Ok (t, None)
      else bind_outcome (eql (ent_key (es ! chain)) key) (\<lambda>same.
        if same then
          case ent_next (es ! chain) of
            Some move \<Rightarrow>
              if length es \<le> move then UB
              else
                let es' = es[chain := es ! move];
                    es' = es'[move := (es' ! move)\<lparr>ent_key := None\<rparr>]
                in Ok (t'\<lparr>tb_entries := es'\<rparr>, Some (ent_val (es ! chain)))
          | None \<Rightarrow>
              Ok (t'\<lparr>tb_entries := es[chain := (es ! chain)\<lparr>ent_key := None\<rparr>]\<rparr>, Some (ent_val (es ! chain)))
        else
          bind_outcome (rm_loop (length es) eql es key chain) (\<lambda>chain.
            case ent_next (es ! chain) of
              None \<Rightarrow> Ok (t, None)
            | Some rm \<Rightarrow>
                let es' = es[rm := (es ! rm)\<lparr>ent_key := None\<rparr>];
                    es' = es'[chain := (es' ! chain)\<lparr>ent_next := ent_next (es' ! rm)\<rparr>]
                in Ok (t'\<lparr>tb_entries := es'\<rparr>, Some (ent_val (es ! rm))))))"

section \<open>Iterating\<close>

function next_loop :: "'k tabent list \<Rightarrow> nat \<Rightarrow> nat \<Rightarrow> u64 run" where
  "next_loop es n i =
     (if n \<le> i then Ok (SIZE_MAX - 1)
      else if length es \<le> i then UB
      else if upb_tabent_isempty (es ! i) then next_loop es n (i + 1)
      else Ok (of_nat i))"
  by pat_completeness auto
termination by (relation "measure (\<lambda>(es, n, i). n - i)") auto

declare next_loop.simps [simp del]

definition table_next :: "'k upb_table \<Rightarrow> u64 \<Rightarrow> u64 run" where
  "table_next t i = next_loop (tb_entries t) (upb_table_size t) (unat (i + 1))"

definition table_begin :: "'k upb_table \<Rightarrow> u64 run" where
  "table_begin t = table_next t (-1)"

text \<open>
  The removal of the entry an iterator is at, in both tables (\<open>upb_strtable_removeiter\<close> and the hash
  part of \<open>upb_inttable_removeiter\<close>): the entry before it is searched for in the whole array.
\<close>

fun prev_search :: "'k tabent list \<Rightarrow> nat \<Rightarrow> nat list \<Rightarrow> nat option" where
  "prev_search es ent [] = None"
| "prev_search es ent (e # rest) = (if ent_next (es ! e) = Some ent then Some e else prev_search es ent rest)"

definition remove_at :: "'k upb_table \<Rightarrow> nat \<Rightarrow> 'k upb_table run" where
  "remove_at t ent =
     (let es = tb_entries t in
      if length es \<le> ent then UB
      else
        let es = (case prev_search es ent [0..<length es] of
                    Some prev \<Rightarrow> es[prev := (es ! prev)\<lparr>ent_next := ent_next (es ! ent)\<rparr>]
                  | None \<Rightarrow> es)
        in Ok (t\<lparr>tb_count := tb_count t - 1,
                 tb_entries := es[ent := (es ! ent)\<lparr>ent_key := None, ent_next := None\<rparr>]\<rparr>))"

end
