(* ===== verification/Upb_Chains.thy ===== *)
theory Upb_Chains
  imports Upb_Table "HOL-Library.Multiset"
begin

text \<open>
  The invariant of the hash table and its effect on every operation: the used entries form one chain
  for each slot that is some key's main position, it starts at that slot and holds exactly the entries
  with that main position. The map of the table is defined without the chains, as what is stored; the
  operations are shown to look it up and to update it.
\<close>

section \<open>Chains\<close>

fun links :: "'k tabent list \<Rightarrow> nat option \<Rightarrow> nat list \<Rightarrow> bool" where
  "links es p [] \<longleftrightarrow> p = None"
| "links es p (i # is) \<longleftrightarrow> p = Some i \<and> i < length es \<and> links es (ent_next (es ! i)) is"

abbreviation used :: "'k tabent list \<Rightarrow> nat \<Rightarrow> bool" where
  "used es i \<equiv> ent_key (es ! i) \<noteq> None"

definition chain_of :: "('k \<Rightarrow> nat) \<Rightarrow> 'k tabent list \<Rightarrow> nat \<Rightarrow> nat list \<Rightarrow> bool" where
  "chain_of pos es p is \<longleftrightarrow> distinct is \<and>
     (\<forall>i\<in>set is. i < length es \<and> (\<exists>k. ent_key (es ! i) = Some k \<and> pos k = p)) \<and>
     (is \<noteq> [] \<longrightarrow> hd is = p \<and> links es (Some p) is)"

definition chained :: "('k \<Rightarrow> nat) \<Rightarrow> 'k tabent list \<Rightarrow> (nat \<Rightarrow> nat list) \<Rightarrow> bool" where
  "chained pos es C \<longleftrightarrow> (\<forall>p. chain_of pos es p (C p)) \<and>
     (\<forall>i k. i < length es \<longrightarrow> ent_key (es ! i) = Some k \<longrightarrow> i \<in> set (C (pos k)))"

lemma links_update: "j \<notin> set is \<Longrightarrow> links (es[j := x]) p is \<longleftrightarrow> links es p is"
  by (induction "is" arbitrary: p) auto

lemma links_append:
  "links es p (xs @ i # ys) \<Longrightarrow> i < length es \<and> links es (Some i) (i # ys)"
  by (induction xs arbitrary: p) auto

lemma links_bound: "links es p is \<Longrightarrow> i \<in> set is \<Longrightarrow> i < length es"
  by (induction "is" arbitrary: p) auto

text \<open>A chain goes on as the entry at some place of it says, as long as those before are the same.\<close>

lemma links_splice:
  "links es p (xs @ b # ys) \<Longrightarrow> length es' = length es \<Longrightarrow> (\<And>i. i \<in> set xs \<Longrightarrow> ent_next (es' ! i) = ent_next (es ! i)) \<Longrightarrow>
   links es' (ent_next (es' ! b)) zs \<Longrightarrow> links es' p (xs @ b # zs)"
  by (induction xs arbitrary: p) auto

lemma chainedD:
  assumes "chained pos es C"
  shows "chain_of pos es p (C p)" "\<And>i k. i < length es \<Longrightarrow> ent_key (es ! i) = Some k \<Longrightarrow> i \<in> set (C (pos k))"
  using assms by (auto simp: chained_def)

lemma chain_ofD:
  assumes "chain_of pos es p is"
  shows "distinct is" "i \<in> set is \<Longrightarrow> i < length es" "i \<in> set is \<Longrightarrow> \<exists>k. ent_key (es ! i) = Some k \<and> pos k = p"
    "is \<noteq> [] \<Longrightarrow> hd is = p" "is \<noteq> [] \<Longrightarrow> links es (Some p) is"
  using assms by (auto simp: chain_of_def)

text \<open>The slot of a used entry tells where its chain is.\<close>

lemma chain_at_head:
  assumes "chained pos es C" "p < length es" "ent_key (es ! p) = Some k" "pos k = p"
  obtains rest where "C p = p # rest"
proof -
  have "p \<in> set (C p)" using chainedD(2) [OF assms(1-3)] assms(4) by simp
  then show ?thesis
    using that chain_ofD(4) [OF chainedD(1) [OF assms(1)], of p] by (cases "C p") auto
qed

lemma chain_not_head:
  assumes "chained pos es C" "\<And>k. ent_key (es ! p) = Some k \<Longrightarrow> pos k \<noteq> p"
  shows "C p = []"
proof (rule ccontr)
  assume n: "C p \<noteq> []"
  then have "hd (C p) = p" by (rule chain_ofD(4) [OF chainedD(1) [OF assms(1)]])
  then have "p \<in> set (C p)" using n by (cases "C p") auto
  then show False using chain_ofD(3) [OF chainedD(1) [OF assms(1)], of p p] assms(2) by auto
qed

lemma chain_unused: "chained pos es C \<Longrightarrow> \<not> used es i \<Longrightarrow> i \<notin> set (C p)"
  using chain_ofD(3) [OF chainedD(1), of pos es C i p] by auto

lemma chain_other:
  assumes "chained pos es C" "ent_key (es ! i) = Some k" "pos k \<noteq> p"
  shows "i \<notin> set (C p)"
  using chain_ofD(3) [OF chainedD(1) [OF assms(1)], of i p] assms(2,3) by auto

lemma chain_disjoint: "chained pos es C \<Longrightarrow> i \<in> set (C p) \<Longrightarrow> i \<in> set (C q) \<Longrightarrow> p = q"
  using chain_ofD(3) [OF chainedD(1), of pos es C i p] chain_ofD(3) [OF chainedD(1), of pos es C i q] by auto

lemma chain_length: "chained pos es C \<Longrightarrow> length (C p) \<le> length es"
proof -
  assume c: "chained pos es C"
  have "set (C p) \<subseteq> {..<length es}" using chain_ofD(2) [OF chainedD(1) [OF c]] by auto
  then have "card (set (C p)) \<le> length es" using card_mono [of "{..<length es}"] by fastforce
  then show ?thesis using distinct_card [OF chain_ofD(1) [OF chainedD(1) [OF c]]] by simp
qed

text \<open>A chain that no change touches stays a chain.\<close>

lemma chain_of_update:
  "chain_of pos es p is \<Longrightarrow> j \<notin> set is \<Longrightarrow> chain_of pos (es[j := x]) p is"
  unfolding chain_of_def by (metis links_update nth_list_update_neq length_list_update)

lemma chain_of_Nil [simp]: "chain_of pos es p []"
  by (simp add: chain_of_def)

section \<open>What a table stores\<close>

definition pairs :: "'k tabent list \<Rightarrow> ('k \<times> u64) list" where
  "pairs es = map (\<lambda>e. (the (ent_key e), ent_val e)) (filter (\<lambda>e. ent_key e \<noteq> None) es)"

definition table_map :: "'k tabent list \<Rightarrow> 'k \<rightharpoonup> u64" where
  "table_map es = map_of (pairs es)"

definition one_each :: "'k tabent list \<Rightarrow> bool" where
  "one_each es \<longleftrightarrow> distinct (map fst (pairs es))"

lemma pairs_simps [simp]:
  "pairs [] = []"
  "ent_key e = None \<Longrightarrow> pairs (e # es) = pairs es"
  "ent_key e = Some k \<Longrightarrow> pairs (e # es) = (k, ent_val e) # pairs es"
  "pairs (es @ es') = pairs es @ pairs es'"
  by (simp_all add: pairs_def)

lemma pairs_empty [simp]: "pairs (replicate n zero_ent) = []"
  by (simp add: pairs_def zero_ent_def)

lemma pairs_entry: "pairs [e] = (case ent_key e of None \<Rightarrow> [] | Some k \<Rightarrow> [(k, ent_val e)])"
  by (simp add: pairs_def split: option.splits)

lemma pairs_Cons: "pairs (e # es) = pairs [e] @ pairs es"
  by (cases "ent_key e") simp_all

lemma in_pairs: "(k, v) \<in> set (pairs es) \<longleftrightarrow> (\<exists>i<length es. ent_key (es ! i) = Some k \<and> ent_val (es ! i) = v)"
  unfolding pairs_def by (fastforce simp: in_set_conv_nth image_iff)

lemma table_map_absent: "table_map es k = None \<longleftrightarrow> (\<forall>i<length es. ent_key (es ! i) \<noteq> Some k)"
proof -
  have "table_map es k = None \<longleftrightarrow> (\<forall>v. (k, v) \<notin> set (pairs es))"
    by (force simp: table_map_def map_of_eq_None_iff)
  then show ?thesis by (auto simp: in_pairs)
qed

lemma table_map_at:
  "one_each es \<Longrightarrow> i < length es \<Longrightarrow> ent_key (es ! i) = Some k \<Longrightarrow> table_map es k = Some (ent_val (es ! i))"
  unfolding table_map_def one_each_def by (rule map_of_is_SomeI) (auto simp: in_pairs)

text \<open>Changing one entry changes what is stored by it alone.\<close>

lemma pairs_update:
  assumes "i < length es"
  shows "mset (pairs (es[i := x])) + mset (pairs [es ! i]) = mset (pairs es) + mset (pairs [x])"
proof -
  have "pairs es = pairs (take i es @ es ! i # drop (Suc i) es)"
    using id_take_nth_drop [OF assms] by simp
  then have es: "pairs es = pairs (take i es) @ pairs [es ! i] @ pairs (drop (Suc i) es)"
    using pairs_Cons [of "es ! i" "drop (Suc i) es"] by simp
  have "pairs (es[i := x]) = pairs (take i es @ x # drop (Suc i) es)"
    by (simp only: upd_conv_take_nth_drop [OF assms])
  then have "pairs (es[i := x]) = pairs (take i es) @ pairs [x] @ pairs (drop (Suc i) es)"
    using pairs_Cons [of x "drop (Suc i) es"] by simp
  then show ?thesis by (simp add: es)
qed

lemma pairs_relink [simp]: "pairs [e\<lparr>ent_next := q\<rparr>] = pairs [e]"
  by (simp add: pairs_def)

lemma pairs_relinked: "i < length es \<Longrightarrow> mset (pairs (es[i := (es ! i)\<lparr>ent_next := q\<rparr>])) = mset (pairs es)"
  using pairs_update [of i es "(es ! i)\<lparr>ent_next := q\<rparr>"] by simp

text \<open>The map of what is stored once a pair has come or gone.\<close>

lemma one_each_mset:
  "mset (pairs es') = add_mset (k, v) (mset (pairs es)) \<Longrightarrow>
   one_each es' \<longleftrightarrow> one_each es \<and> table_map es k = None"
proof -
  assume m: "mset (pairs es') = add_mset (k, v) (mset (pairs es))"
  then have "mset (pairs es') = mset ((k, v) # pairs es)" by simp
  then have "mset (map fst (pairs es')) = mset (map fst ((k, v) # pairs es))" by (simp add: m)
  then have "one_each es' \<longleftrightarrow> distinct (map fst ((k, v) # pairs es))"
    unfolding one_each_def by (rule mset_eq_imp_distinct_iff)
  then show ?thesis by (auto simp: one_each_def table_map_def map_of_eq_None_iff)
qed

lemma table_map_mset:
  assumes "mset (pairs es') = add_mset (k, v) (mset (pairs es))" "one_each es'"
  shows "table_map es' = (table_map es)(k \<mapsto> v)" "table_map es = (table_map es')(k := None)"
proof -
  have es: "one_each es" "table_map es k = None" using one_each_mset [OF assms(1)] assms(2) by auto
  have "set (pairs es') = insert (k, v) (set (pairs es))"
    using arg_cong [OF assms(1), of set_mset] by simp
  then have iff: "table_map es' x = Some y \<longleftrightarrow> (x, y) = (k, v) \<or> table_map es x = Some y" for x y
    using es(1) assms(2) by (auto simp: table_map_def one_each_def)
  then have "table_map es' x = ((table_map es)(k \<mapsto> v)) x" for x
    using es(2) by (cases "table_map es' x"; cases "table_map es x"; cases "x = k") (force+)
  then show *: "table_map es' = (table_map es)(k \<mapsto> v)" by (rule ext)
  show "table_map es = (table_map es')(k := None)"
    using es(2) by (auto simp: * fun_upd_idem)
qed

lemma free_entry: "length (pairs es) < length es \<Longrightarrow> \<exists>i<length es. \<not> used es i"
proof (rule ccontr)
  assume l: "length (pairs es) < length es" and "\<not> (\<exists>i<length es. \<not> used es i)"
  then have "\<forall>e\<in>set es. ent_key e \<noteq> None" by (metis in_set_conv_nth)
  then show False using l by (simp add: pairs_def)
qed

section \<open>Changes that keep the chains\<close>

lemma chainedI:
  assumes "\<And>p. chain_of pos es p (C p)"
    "\<And>i k. i < length es \<Longrightarrow> ent_key (es ! i) = Some k \<Longrightarrow> i \<in> set (C (pos k))"
  shows "chained pos es C"
  using assms by (simp add: chained_def)

text \<open>A key in its own, empty, slot.\<close>

lemma links_same:
  "length es' = length es \<Longrightarrow> (\<And>i. i < length es \<Longrightarrow> ent_next (es' ! i) = ent_next (es ! i)) \<Longrightarrow>
   links es' p is \<longleftrightarrow> links es p is"
  by (induction "is" arbitrary: p) auto

lemma chained_same:
  assumes "length es' = length es" "\<And>i. i < length es \<Longrightarrow> ent_next (es' ! i) = ent_next (es ! i)"
    "\<And>i. i < length es \<Longrightarrow> ent_key (es' ! i) = ent_key (es ! i)"
  shows "chained pos es' C \<longleftrightarrow> chained pos es C"
proof -
  have "chain_of pos es' p is \<longleftrightarrow> chain_of pos es p is" for p "is"
    unfolding chain_of_def using assms links_same [of es' es] by (metis (no_types, lifting))
  then show ?thesis using assms by (simp add: chained_def)
qed

lemma chained_put_free:
  assumes c: "chained pos es C" and m: "m < length es" "\<not> used es m" "pos k = m"
  shows "chained pos (es[m := \<lparr>ent_key = Some k, ent_val = v, ent_next = None\<rparr>]) (C(m := [m]))"
proof (rule chainedI)
  fix p
  show "chain_of pos (es[m := \<lparr>ent_key = Some k, ent_val = v, ent_next = None\<rparr>]) p ((C(m := [m])) p)"
    using chain_of_update [OF chainedD(1) [OF c] chain_unused [OF c m(2)]] m
    by (auto simp: chain_of_def)
next
  fix i k'
  assume i: "i < length (es[m := \<lparr>ent_key = Some k, ent_val = v, ent_next = None\<rparr>])"
    "ent_key (es[m := \<lparr>ent_key = Some k, ent_val = v, ent_next = None\<rparr>] ! i) = Some k'"
  have e: "C m = []" by (rule chain_not_head [OF c]) (use m in auto)
  show "i \<in> set ((C(m := [m])) (pos k'))"
  proof (cases "i = m")
    case False
    then have "i \<in> set (C (pos k'))" using i chainedD(2) [OF c, of i k'] by simp
    then show ?thesis using e by auto
  qed (use i m in auto)
qed

text \<open>A key behind the entry that heads its chain.\<close>

lemma chained_put_behind:
  assumes c: "chained pos es C" and m: "m < length es" "C m = m # rest" "pos k = m"
    and e: "e < length es" "\<not> used es e"
  shows "chained pos (es[e := \<lparr>ent_key = Some k, ent_val = v, ent_next = ent_next (es ! m)\<rparr>,
           m := (es ! m)\<lparr>ent_next := Some e\<rparr>]) (C(m := m # e # rest))" (is "chained pos ?es ?C")
proof (rule chainedI)
  have ne: "e \<notin> set (C p)" for p by (rule chain_unused [OF c e(2)])
  then have em: "e \<noteq> m" "e \<notin> set rest" using m(2) by (metis list.set_intros, metis list.set_intros(2))
  note ch = chainedD(1) [OF c, of m, unfolded m(2)]
  fix p
  show "chain_of pos ?es p (?C p)"
  proof (cases "p = m")
    case True
    have l: "links es (ent_next (es ! m)) rest" using chain_ofD(5) [OF ch] by simp
    have d: "m \<notin> set rest" "distinct rest" using chain_ofD(1) [OF ch] by auto
    have "links ?es (Some m) (m # e # rest)"
      using l d em m(1) e(1) by (simp add: links_update)
    moreover have "\<forall>i\<in>set rest. i < length es \<and> (\<exists>k. ent_key (es ! i) = Some k \<and> pos k = m)"
      "\<exists>k. ent_key (es ! m) = Some k \<and> pos k = m"
      using chain_ofD(2,3) [OF ch] by auto
    ultimately show ?thesis
      using True d em m(1,3) e(1) unfolding chain_of_def by (auto simp: nth_list_update)
  next
    case False
    have "m \<notin> set (C p)" using chain_disjoint [OF c, of m p m] m(2) False by auto
    then show ?thesis using False ne chainedD(1) [OF c, of p] by (simp add: chain_of_update)
  qed
next
  fix i k'
  assume i: "i < length ?es" "ent_key (?es ! i) = Some k'"
  have em: "e \<noteq> m" using chain_unused [OF c e(2), of m] m(2) by auto
  show "i \<in> set (?C (pos k'))"
  proof (cases "i = e")
    case True
    then show ?thesis using i m em e by simp
  next
    case False
    then have "i \<in> set (C (pos k'))"
      using i chainedD(2) [OF c, of i k'] m(1) em by (cases "i = m") auto
    then show ?thesis using m(2) by auto
  qed
qed

text \<open>A key in its slot, after the entry of another chain there has moved.\<close>

lemma chained_put_evict:
  assumes c: "chained pos es C" and m: "m < length es" "pos k = m" "C q = ys @ b # m # zs" "q \<noteq> m"
    and e: "e < length es" "\<not> used es e"
  shows "chained pos (es[e := es ! m, b := (es ! b)\<lparr>ent_next := Some e\<rparr>,
           m := \<lparr>ent_key = Some k, ent_val = v, ent_next = None\<rparr>]) (C(q := ys @ b # e # zs, m := [m]))"
    (is "chained pos ?es ?C")
proof -
  note ch = chainedD(1) [OF c, of q, unfolded m(3)]
  have ne: "e \<notin> set (C p)" for p by (rule chain_unused [OF c e(2)])
  then have en: "e \<notin> set ys" "e \<noteq> b" "e \<noteq> m" "e \<notin> set zs" using ne [of q] unfolding m(3) by auto
  have d: "distinct (ys @ b # m # zs)" by (rule chain_ofD(1) [OF ch])
  obtain km where km: "ent_key (es ! m) = Some km" "pos km = q" using chain_ofD(3) [OF ch, of m] by auto
  have Cm: "C m = []" by (rule chain_not_head [OF c]) (use km m(4) in auto)
  have b: "b < length es" "\<exists>k. ent_key (es ! b) = Some k \<and> pos k = q" using chain_ofD(2,3) [OF ch, of b] by auto
  show ?thesis
  proof (rule chainedI)
    fix p
    consider "p = m" | "p = q" | "p \<noteq> m" "p \<noteq> q" by blast
    then show "chain_of pos ?es p (?C p)"
    proof cases
      case 1
      then show ?thesis using m by (auto simp: chain_of_def)
    next
      case 2
      have all: "\<forall>i\<in>set (ys @ b # m # zs). i < length es \<and> (\<exists>k. ent_key (es ! i) = Some k \<and> pos k = q)"
        using chain_ofD(2,3) [OF ch] by blast
      have l: "links es (Some q) (ys @ b # m # zs)" by (rule chain_ofD(5) [OF ch]) simp
      have "links es (Some m) (m # zs)" using links_append [of es "Some q" "ys @ [b]" m zs] l by simp
      then have "links ?es (Some e) (e # zs)"
        using d en e(1) m(1) by (simp add: links_update)
      moreover have "ent_next (?es ! i) = ent_next (es ! i)" if "i \<in> set ys" for i
      proof -
        have "i \<noteq> e" "i \<noteq> b" "i \<noteq> m" using that d en by auto
        then show ?thesis by simp
      qed
      moreover have "ent_next (?es ! b) = Some e" using d en b(1) by (auto simp: nth_list_update)
      ultimately have "links ?es (Some q) (ys @ b # e # zs)"
        using links_splice [OF l, of ?es "e # zs"] by simp
      moreover have "hd (ys @ b # e # zs) = q" using chain_ofD(4) [OF ch] by (cases ys) auto
      moreover have "\<forall>i\<in>set (ys @ b # e # zs). i < length es \<and> (\<exists>k. ent_key (?es ! i) = Some k \<and> pos k = q)"
        using all d en km b e(1) m(1) by (auto simp: nth_list_update)
      ultimately show ?thesis
        using 2 m(4) d en unfolding chain_of_def by auto
    next
      case 3
      have "m \<notin> set (C p)" "b \<notin> set (C p)"
        using chain_disjoint [OF c, of _ p q] m(3) 3(2) by auto
      then show ?thesis using 3 ne chainedD(1) [OF c, of p] by (simp add: chain_of_update)
    qed
  next
    fix i k'
    assume i: "i < length ?es" "ent_key (?es ! i) = Some k'"
    show "i \<in> set (?C (pos k'))"
    proof (cases "i = m")
      case True
      then show ?thesis using i m by simp
    next
      case im: False
      show ?thesis
      proof (cases "i = e")
        case True
        then show ?thesis using i im km m en b e by (auto simp: nth_list_update)
      next
        case False
        then have "i \<in> set (C (pos k'))"
          using i im chainedD(2) [OF c, of i k'] by (cases "i = b") auto
        then show ?thesis using im m(3) Cm by (auto split: if_splits)
      qed
    qed
  qed
qed

text \<open>The head of a chain is taken out: the next entry takes its place.\<close>

lemma chained_drop_single:
  assumes c: "chained pos es C" and m: "m < length es" "C m = [m]" "ent_key x = None"
  shows "chained pos (es[m := x]) (C(m := []))"
proof (rule chainedI)
  fix p
  show "chain_of pos (es[m := x]) p ((C(m := [])) p)"
  proof (cases "p = m")
    case False
    have "m \<notin> set (C p)" using chain_disjoint [OF c, of m p m] m(2) False by auto
    then show ?thesis using False chainedD(1) [OF c, of p] by (simp add: chain_of_update)
  qed simp
next
  fix i k
  assume i: "i < length (es[m := x])" "ent_key (es[m := x] ! i) = Some k"
  then have "i \<noteq> m" using m by auto
  then show "i \<in> set ((C(m := [])) (pos k))"
    using i chainedD(2) [OF c, of i k] m(2) by (auto split: if_splits)
qed

lemma chained_drop_head:
  assumes c: "chained pos es C" and m: "m < length es" "C m = m # n # rest" and x: "ent_key x = None"
  shows "chained pos (es[m := es ! n, n := x]) (C(m := m # rest))" (is "chained pos ?es ?C")
proof (rule chainedI)
  note ch = chainedD(1) [OF c, of m, unfolded m(2)]
  have d: "m \<noteq> n" "m \<notin> set rest" "n \<notin> set rest" "distinct rest" using chain_ofD(1) [OF ch] by auto
  have n: "n < length es" "\<exists>k. ent_key (es ! n) = Some k \<and> pos k = m" using chain_ofD(2,3) [OF ch, of n] by auto
  fix p
  show "chain_of pos ?es p (?C p)"
  proof (cases "p = m")
    case True
    have "links es (ent_next (es ! n)) rest" using chain_ofD(5) [OF ch] by simp
    then have "links ?es (Some m) (m # rest)" using d m(1) by (simp add: links_update)
    moreover have "\<forall>i\<in>set rest. i < length es \<and> (\<exists>k. ent_key (es ! i) = Some k \<and> pos k = m)"
      using chain_ofD(2,3) [OF ch] by auto
    ultimately show ?thesis using True d m(1) n unfolding chain_of_def by (auto simp: nth_list_update)
  next
    case False
    have "m \<notin> set (C p)" "n \<notin> set (C p)"
      using chain_disjoint [OF c, of _ p m] m(2) False by auto
    then show ?thesis using False chainedD(1) [OF c, of p] by (simp add: chain_of_update)
  qed
next
  have d: "m \<noteq> n" using chain_ofD(1) [OF chainedD(1) [OF c, of m]] m(2) by auto
  have n: "n < length es" "\<exists>k. ent_key (es ! n) = Some k \<and> pos k = m"
    using chain_ofD(2,3) [OF chainedD(1) [OF c, of m], of n] m(2) by auto
  fix i k
  assume i: "i < length ?es" "ent_key (?es ! i) = Some k"
  then have "i \<noteq> n" using x n by auto
  then show "i \<in> set (?C (pos k))"
    using i d n m chainedD(2) [OF c, of i k] by (cases "i = m") auto
qed

text \<open>An entry further down is taken out.\<close>

lemma chained_drop_inner:
  assumes c: "chained pos es C" and r: "C q = ys @ b # r # zs" and x: "ent_key x = None"
  shows "chained pos (es[r := x, b := (es ! b)\<lparr>ent_next := ent_next (es ! r)\<rparr>]) (C(q := ys @ b # zs))"
    (is "chained pos ?es ?C")
proof -
  note ch = chainedD(1) [OF c, of q, unfolded r]
  have d: "distinct (ys @ b # r # zs)" by (rule chain_ofD(1) [OF ch])
  have all: "\<forall>i\<in>set (ys @ b # r # zs). i < length es \<and> (\<exists>k. ent_key (es ! i) = Some k \<and> pos k = q)"
    using chain_ofD(2,3) [OF ch] by blast
  show ?thesis
  proof (rule chainedI)
    fix p
    show "chain_of pos ?es p (?C p)"
    proof (cases "p = q")
      case True
      have l: "links es (Some q) (ys @ b # r # zs)" by (rule chain_ofD(5) [OF ch]) simp
      have "links es (Some r) (r # zs)" using links_append [of es "Some q" "ys @ [b]" r zs] l by simp
      then have "links ?es (ent_next (?es ! b)) zs" using d all by (simp add: links_update)
      moreover have "ent_next (?es ! i) = ent_next (es ! i)" if "i \<in> set ys" for i
      proof -
        have "i \<noteq> r" "i \<noteq> b" using that d by auto
        then show ?thesis by simp
      qed
      ultimately have "links ?es (Some q) (ys @ b # zs)" using links_splice [OF l, of ?es zs] by simp
      moreover have "hd (ys @ b # zs) = q" using chain_ofD(4) [OF ch] by (cases ys) auto
      moreover have "\<forall>i\<in>set (ys @ b # zs). i < length es \<and> (\<exists>k. ent_key (?es ! i) = Some k \<and> pos k = q)"
        using all d by (auto simp: nth_list_update)
      ultimately show ?thesis using True d unfolding chain_of_def by auto
    next
      case False
      have "r \<notin> set (C p)" "b \<notin> set (C p)"
        using chain_disjoint [OF c, of _ p q] r False by auto
      then show ?thesis using False chainedD(1) [OF c, of p] by (simp add: chain_of_update)
    qed
  next
    fix i k
    assume i: "i < length ?es" "ent_key (?es ! i) = Some k"
    have rb: "r \<noteq> b" using d by auto
    then have "i \<noteq> r" using i x all by auto
    then have "i \<in> set (C (pos k))" using i rb chainedD(2) [OF c, of i k] by (cases "i = b") auto
    then show "i \<in> set (?C (pos k))" using \<open>i \<noteq> r\<close> r by auto
  qed
qed

section \<open>Walks along a chain\<close>

text \<open>What a walk from a used slot sees, and that it is all there is of the keys of that slot.\<close>

lemma chain_from:
  assumes c: "chained pos es C" and e: "e < length es" "ent_key (es ! e) = Some k"
  obtains xs zs where "C (pos k) = xs @ e # zs" "links es (Some e) (e # zs)" "length (e # zs) \<le> length es"
    "\<And>i. i \<in> set (e # zs) \<Longrightarrow> i < length es \<and> used es i"
    "\<And>i k'. i < length es \<Longrightarrow> ent_key (es ! i) = Some k' \<Longrightarrow> pos k' = e \<Longrightarrow> pos k = e \<and> i \<in> set (e # zs)"
proof -
  have "e \<in> set (C (pos k))" by (rule chainedD(2) [OF c e])
  then obtain xs zs where C: "C (pos k) = xs @ e # zs" by (meson split_list)
  note ch = chainedD(1) [OF c, of "pos k", unfolded C]
  have l: "links es (Some (pos k)) (xs @ e # zs)" by (rule chain_ofD(5) [OF ch]) simp
  show ?thesis
  proof (rule that [OF C])
    show "links es (Some e) (e # zs)" using links_append [OF l] by simp
    show "length (e # zs) \<le> length es" using chain_length [OF c, of "pos k"] C by simp
    show "i < length es \<and> used es i" if "i \<in> set (e # zs)" for i
      using chain_ofD(2,3) [OF ch, of i] that by auto
    fix i k'
    assume i: "i < length es" "ent_key (es ! i) = Some k'" "pos k' = e"
    have ie: "i \<in> set (C e)" using chainedD(2) [OF c i(1,2)] i(3) by simp
    have "hd (C e) = e" by (rule chain_ofD(4) [OF chainedD(1) [OF c, of e]]) (use ie in auto)
    then have "e \<in> set (C e)" using ie by (cases "C e") auto
    then have pk: "pos k = e" using chain_ofD(3) [OF chainedD(1) [OF c, of e], of e] e(2) by auto
    then have "hd (xs @ e # zs) = e" using chain_ofD(4) [OF ch] by simp
    then have "xs = []" using chain_ofD(1) [OF ch] by (cases xs) auto
    then show "pos k = e \<and> i \<in> set (e # zs)" using pk ie C by simp
  qed
qed

end
