(* ===== verification/Table_Contract.thy ===== *)
theory Table_Contract
  imports Upb_Table
begin

text \<open>
  What the users of a table rely on: each table stands for a finite map, a lookup answers what the map
  says, an insertion of a new key and a removal change the map at that key alone, and there is room for
  so many more keys. Two clients are proved here, once for all tables: inserting a list of pairs,
  as a resize does, and running a sequence of operations.
\<close>

section \<open>Clients\<close>

fun insert_all :: "('t \<Rightarrow> 'k \<Rightarrow> u64 \<Rightarrow> 't run) \<Rightarrow> ('k \<times> u64) list \<Rightarrow> 't \<Rightarrow> 't run" where
  "insert_all ins [] t = Ok t"
| "insert_all ins ((k, v) # ps) t = bind_outcome (ins t k v) (insert_all ins ps)"

datatype 'k table_op = Lookup 'k | Insert 'k u64 | Remove 'k

fun run_ops :: "('t \<Rightarrow> 'k \<Rightarrow> u64 option run) \<Rightarrow> ('t \<Rightarrow> 'k \<Rightarrow> u64 \<Rightarrow> 't run) \<Rightarrow> ('t \<Rightarrow> 'k \<Rightarrow> ('t \<times> u64 option) run) \<Rightarrow>
    'k table_op list \<Rightarrow> 't \<Rightarrow> (u64 option list \<times> 't) run" where
  "run_ops look ins rem [] t = Ok ([], t)"
| "run_ops look ins rem (Lookup k # ops) t =
     bind_outcome (look t k) (\<lambda>r. bind_outcome (run_ops look ins rem ops t) (\<lambda>(rs, t). Ok (r # rs, t)))"
| "run_ops look ins rem (Insert k v # ops) t =
     bind_outcome (ins t k v) (\<lambda>t. run_ops look ins rem ops t)"
| "run_ops look ins rem (Remove k # ops) t =
     bind_outcome (rem t k) (\<lambda>(t, r). bind_outcome (run_ops look ins rem ops t) (\<lambda>(rs, t). Ok (r # rs, t)))"

text \<open>The same operations on the map; \<open>legal\<close> is that no key is inserted twice.\<close>

fun map_ops :: "'k table_op list \<Rightarrow> ('k \<rightharpoonup> u64) \<Rightarrow> u64 option list \<times> ('k \<rightharpoonup> u64)" where
  "map_ops [] m = ([], m)"
| "map_ops (Lookup k # ops) m = (let (rs, m') = map_ops ops m in (m k # rs, m'))"
| "map_ops (Insert k v # ops) m = map_ops ops (m(k \<mapsto> v))"
| "map_ops (Remove k # ops) m = (let (rs, m') = map_ops ops (m(k := None)) in (m k # rs, m'))"

fun legal :: "('k \<Rightarrow> bool) \<Rightarrow> (u64 \<Rightarrow> bool) \<Rightarrow> 'k table_op list \<Rightarrow> ('k \<rightharpoonup> u64) \<Rightarrow> bool" where
  "legal key_ok val_ok [] m \<longleftrightarrow> True"
| "legal key_ok val_ok (Lookup k # ops) m \<longleftrightarrow> legal key_ok val_ok ops m"
| "legal key_ok val_ok (Insert k v # ops) m \<longleftrightarrow> key_ok k \<and> val_ok v \<and> m k = None \<and> legal key_ok val_ok ops (m(k \<mapsto> v))"
| "legal key_ok val_ok (Remove k # ops) m \<longleftrightarrow> legal key_ok val_ok ops (m(k := None))"

section \<open>The contract\<close>

locale map_impl =
  fixes wf :: "'t \<Rightarrow> bool" and abs :: "'t \<Rightarrow> 'k \<rightharpoonup> u64" and fits :: "'t \<Rightarrow> nat \<Rightarrow> bool"
    and key_ok :: "'k \<Rightarrow> bool" and val_ok :: "u64 \<Rightarrow> bool"
    and look :: "'t \<Rightarrow> 'k \<Rightarrow> u64 option run" and ins :: "'t \<Rightarrow> 'k \<Rightarrow> u64 \<Rightarrow> 't run"
    and rem :: "'t \<Rightarrow> 'k \<Rightarrow> ('t \<times> u64 option) run"
  assumes fits_less: "fits t (Suc n) \<Longrightarrow> fits t n"
    and look: "wf t \<Longrightarrow> look t k = Ok (abs t k)"
    and ins: "wf t \<Longrightarrow> fits t (Suc n) \<Longrightarrow> key_ok k \<Longrightarrow> val_ok v \<Longrightarrow> abs t k = None \<Longrightarrow>
      \<exists>t'. ins t k v = Ok t' \<and> wf t' \<and> fits t' n \<and> abs t' = (abs t)(k \<mapsto> v)"
    and rem: "wf t \<Longrightarrow> fits t n \<Longrightarrow>
      \<exists>t'. rem t k = Ok (t', abs t k) \<and> wf t' \<and> fits t' n \<and> abs t' = (abs t)(k := None)"
begin

lemma insert_all_map:
  "wf t \<Longrightarrow> fits t (length ps + n) \<Longrightarrow> distinct (map fst ps) \<Longrightarrow>
   (\<And>k v. (k, v) \<in> set ps \<Longrightarrow> key_ok k \<and> val_ok v \<and> abs t k = None) \<Longrightarrow>
   \<exists>t'. insert_all ins ps t = Ok t' \<and> wf t' \<and> fits t' n \<and> abs t' = abs t ++ map_of ps"
proof (induction ps arbitrary: t)
  case (Cons p ps)
  obtain k v where p: "p = (k, v)" by (cases p)
  obtain t' where t': "ins t k v = Ok t'" "wf t'" "fits t' (length ps + n)" "abs t' = (abs t)(k \<mapsto> v)"
    using ins [OF Cons.prems(1), of "length ps + n" k v] Cons.prems(2) Cons.prems(4) [of k v] p by auto
  have "\<exists>t''. insert_all ins ps t' = Ok t'' \<and> wf t'' \<and> fits t'' n \<and> abs t'' = abs t' ++ map_of ps"
    using Cons.prems(3,4) t' p by (intro Cons.IH) (force simp: image_iff)+
  then obtain t'' where t'': "insert_all ins ps t' = Ok t''" "wf t''" "fits t'' n" "abs t'' = (abs t)(k \<mapsto> v) ++ map_of ps"
    using t'(4) by auto
  have "k \<notin> dom (map_of ps)" using Cons.prems(3) p by (simp add: dom_map_of_conv_image_fst)
  then have "abs t'' = abs t ++ map_of (p # ps)" unfolding t''(4) p by (simp add: map_add_upd_left)
  moreover have "insert_all ins (p # ps) t = Ok t''" using t' t'' p by simp
  ultimately show ?case using t'' by blast
qed simp

text \<open>A sequence of operations answers as the map does.\<close>

lemma run_ops_map:
  "wf t \<Longrightarrow> fits t (length ops) \<Longrightarrow> legal key_ok val_ok ops (abs t) \<Longrightarrow>
   \<exists>rs t'. run_ops look ins rem ops t = Ok (rs, t') \<and> wf t' \<and> map_ops ops (abs t) = (rs, abs t')"
proof (induction ops arbitrary: t)
  case (Cons oper ops)
  have fits: "fits t (Suc (length ops))" "fits t (length ops)" using Cons.prems(2) fits_less by auto
  show ?case
  proof (cases oper)
    case (Lookup k)
    then obtain rs t' where "run_ops look ins rem ops t = Ok (rs, t')" "wf t'" "map_ops ops (abs t) = (rs, abs t')"
      using Cons.IH [OF Cons.prems(1) fits(2)] Cons.prems(3) by auto
    then show ?thesis using Lookup look [OF Cons.prems(1), of k] by simp
  next
    case (Insert k v)
    then obtain t1 where t1: "ins t k v = Ok t1" "wf t1" "fits t1 (length ops)" "abs t1 = (abs t)(k \<mapsto> v)"
      using ins [OF Cons.prems(1) fits(1), of k v] Cons.prems(3) by auto
    have "legal key_ok val_ok ops (abs t1)" using Cons.prems(3) Insert unfolding t1(4) by simp
    then obtain rs t' where "run_ops look ins rem ops t1 = Ok (rs, t')" "wf t'" "map_ops ops (abs t1) = (rs, abs t')"
      using Cons.IH [OF t1(2,3)] by blast
    then show ?thesis using Insert t1(1) unfolding t1(4) by simp
  next
    case (Remove k)
    then obtain t1 where t1: "rem t k = Ok (t1, abs t k)" "wf t1" "fits t1 (length ops)" "abs t1 = (abs t)(k := None)"
      using rem [OF Cons.prems(1) fits(2), of k] by auto
    have "legal key_ok val_ok ops (abs t1)" using Cons.prems(3) Remove unfolding t1(4) by simp
    then obtain rs t' where "run_ops look ins rem ops t1 = Ok (rs, t')" "wf t'" "map_ops ops (abs t1) = (rs, abs t')"
      using Cons.IH [OF t1(2,3)] by blast
    then show ?thesis using Remove t1(1) unfolding t1(4) by simp
  qed
qed simp

end

end
