(* ===== verification/Upb_Refine.thy ===== *)
theory Upb_Refine
  imports Upb_Chains Table_Contract
begin

text \<open>
  The shared table as a finite map. What the table needs of a hash function and a comparison is the
  locale \<open>hash_key\<close>; inside it every operation is shown to end without touching memory outside the
  table, to keep the invariant \<open>table_wf\<close>, and to look up or update the map \<open>table_map\<close>.
\<close>

section \<open>The invariant\<close>

definition main_pos :: "('k \<Rightarrow> u32) \<Rightarrow> 'k upb_table \<Rightarrow> 'k \<Rightarrow> nat" where
  "main_pos hash t k = upb_getentry t (hash k)"

definition load_limit :: "nat \<Rightarrow> nat" where
  "load_limit n = n * 85 div 100"

definition table_shape :: "'k upb_table \<Rightarrow> bool" where
  "table_shape t \<longleftrightarrow> tb_size_lg2 t \<le> 30 \<and> length (tb_entries t) = upb_table_size t \<and>
     tb_mask t = (if upb_table_size t \<noteq> 0 then of_nat (upb_table_size t - 1) else 0) \<and>
     tb_max_count t = of_nat (load_limit (upb_table_size t))"

definition table_wf :: "('k \<Rightarrow> u32) \<Rightarrow> 'k upb_table \<Rightarrow> bool" where
  "table_wf hash t \<longleftrightarrow> table_shape t \<and>
     tb_count t = of_nat (length (pairs (tb_entries t))) \<and>
     length (pairs (tb_entries t)) \<le> load_limit (upb_table_size t) \<and>
     one_each (tb_entries t) \<and> (\<exists>C. chained (main_pos hash t) (tb_entries t) C)"

abbreviation the_map :: "'k upb_table \<Rightarrow> 'k \<rightharpoonup> u64" where
  "the_map t \<equiv> table_map (tb_entries t)"

lemma unat_of_nat_small: "n < 2 ^ LENGTH('a) \<Longrightarrow> unat (of_nat n :: 'a::len word) = n"
  by (simp add: unsigned_of_nat take_bit_nat_eq_self)

lemma table_size_bound: "table_shape t \<Longrightarrow> upb_table_size t \<le> 2 ^ 30"
proof -
  assume "table_shape t"
  then have "(2::nat) ^ tb_size_lg2 t \<le> 2 ^ 30" by (intro power_increasing) (auto simp: table_shape_def)
  then show ?thesis by (simp add: upb_table_size_def)
qed

lemma slot_bound: "table_shape t \<Longrightarrow> tb_size_lg2 t \<noteq> 0 \<Longrightarrow> upb_getentry t h < length (tb_entries t)"
proof -
  assume t: "table_shape t" "tb_size_lg2 t \<noteq> 0"
  let ?n = "upb_table_size t"
  have n: "0 < ?n" "?n \<le> 2 ^ 30" using t(2) table_size_bound [OF t(1)] by (auto simp: upb_table_size_def)
  have "unat (h AND tb_mask t) \<le> unat (tb_mask t)" using word_and_le1 by (simp add: word_le_nat_alt)
  moreover have "unat (tb_mask t) = ?n - 1"
  proof -
    have "tb_mask t = of_nat (?n - 1)" using t(1) n(1) unfolding table_shape_def by simp
    moreover have "unat (of_nat (?n - 1) :: u32) = ?n - 1" by (rule unat_of_nat_small) (use n in simp)
    ultimately show ?thesis by simp
  qed
  ultimately show ?thesis using t(1) n(1) by (simp add: upb_getentry_def table_shape_def)
qed

lemma slot_bound_empty: "table_shape t \<Longrightarrow> tb_size_lg2 t = 0 \<Longrightarrow> tb_entries t = []"
  by (simp add: table_shape_def upb_table_size_def)

lemma table_shape_update:
  "table_shape t \<Longrightarrow> length es = length (tb_entries t) \<Longrightarrow> table_shape (t\<lparr>tb_count := c, tb_entries := es\<rparr>)"
  by (simp add: table_shape_def upb_table_size_def)

lemma upb_table_size_update [simp]:
  "upb_table_size (t\<lparr>tb_count := c\<rparr>) = upb_table_size t" "upb_table_size (t\<lparr>tb_entries := es\<rparr>) = upb_table_size t"
  by (simp_all add: upb_table_size_def)

lemma upb_getentry_update [simp]:
  "upb_getentry (t\<lparr>tb_count := c\<rparr>) h = upb_getentry t h" "upb_getentry (t\<lparr>tb_entries := es\<rparr>) h = upb_getentry t h"
  by (simp_all add: upb_getentry_def)

lemma main_pos_update [simp]:
  "main_pos hash (t\<lparr>tb_count := c\<rparr>) = main_pos hash t" "main_pos hash (t\<lparr>tb_entries := es\<rparr>) = main_pos hash t"
  by (simp_all add: main_pos_def fun_eq_iff)

lemma load_limit_less: "0 < n \<Longrightarrow> load_limit n < n"
  by (simp add: load_limit_def)

text \<open>A table whose entries changed within its limits.\<close>

lemma table_wf_update:
  assumes "table_wf hash t" "length es = length (tb_entries t)" "c = of_nat (length (pairs es))"
    "length (pairs es) \<le> load_limit (upb_table_size t)" "one_each es" "chained (main_pos hash t) es C"
  shows "table_wf hash (t\<lparr>tb_count := c, tb_entries := es\<rparr>)"
  using assms table_shape_update [of t es c] by (auto simp: table_wf_def)

lemma isfull_iff:
  assumes "table_wf hash t"
  shows "isfull t \<longleftrightarrow> length (pairs (tb_entries t)) = load_limit (upb_table_size t)"
proof -
  let ?l = "load_limit (upb_table_size t)" and ?c = "length (pairs (tb_entries t))"
  have l: "?l \<le> 2 ^ 30" "?c \<le> ?l"
    using assms table_size_bound [of t] by (auto simp: table_wf_def load_limit_def)
  have "unat (of_nat ?c :: u64) = ?c" using l by (intro unat_of_nat_small) simp
  moreover have "unat (ucast (of_nat ?l :: u32) :: u64) = ?l"
    using l by (simp add: unsigned_ucast_eq unat_of_nat_small take_bit_nat_eq_self)
  moreover have "isfull t \<longleftrightarrow> unat (of_nat ?c :: u64) = unat (ucast (of_nat ?l :: u32) :: u64)"
    using assms unfolding isfull_def table_wf_def table_shape_def by (metis word_unat_eq_iff)
  ultimately show ?thesis by simp
qed

section \<open>The laws of a kind of key\<close>

locale hash_key =
  fixes hashfunc :: "'k hashfunc" and eql :: "'k eqlfunc" and hash :: "'k \<Rightarrow> u32"
  assumes hashfunc: "hashfunc (Some k) = Ok (hash k)"
    and eql: "eql (Some k) k' = Ok (k = k')"
begin

lemma find_loop_chain:
  "links es (Some e) (e # zs) \<Longrightarrow> (\<And>i. i \<in> set (e # zs) \<Longrightarrow> i < length es \<and> used es i) \<Longrightarrow> length (e # zs) \<le> fuel \<Longrightarrow>
   find_loop fuel eql es key e = Ok (find (\<lambda>i. ent_key (es ! i) = Some key) (e # zs))"
proof (induction zs arbitrary: e fuel)
  case Nil
  then obtain f k where "fuel = Suc f" "ent_key (es ! e) = Some k" by (cases fuel) auto
  then show ?case using Nil by (simp add: eql)
next
  case (Cons z zs)
  obtain f where "fuel = Suc f" using Cons.prems(3) by (cases fuel) auto
  moreover obtain k where "ent_key (es ! e) = Some k" using Cons.prems(2) [of e] by auto
  ultimately have f: "fuel = Suc f" "ent_key (es ! e) = Some k" by simp_all
  have "find_loop f eql es key z = Ok (find (\<lambda>i. ent_key (es ! i) = Some key) (z # zs))"
    by (rule Cons.IH) (use Cons.prems f in auto)
  moreover have "e < length es" using Cons.prems(2) [of e] by simp
  ultimately show ?case using Cons.prems(1) f by (simp add: eql)
qed

text \<open>The search for a key finds its entry, or there is none.\<close>

lemma findentry_result:
  assumes wf: "table_wf hash t"
  obtains i where "findentry t key (hash key) eql = Ok (Some i)" "i < length (tb_entries t)"
      "ent_key (tb_entries t ! i) = Some key" "the_map t key = Some (ent_val (tb_entries t ! i))"
  | "findentry t key (hash key) eql = Ok None" "the_map t key = None"
proof (cases "tb_size_lg2 t = 0")
  case True
  then have "tb_entries t = []" using wf slot_bound_empty by (auto simp: table_wf_def)
  then show ?thesis using that(2) True by (simp add: findentry_def table_map_def)
next
  case False
  let ?es = "tb_entries t" and ?e = "upb_getentry t (hash key)"
  obtain C where c: "chained (main_pos hash t) ?es C" using wf by (auto simp: table_wf_def)
  have e: "?e < length ?es" using wf False slot_bound by (auto simp: table_wf_def)
  show ?thesis
  proof (cases "ent_key (?es ! ?e)")
    case None
    have "C ?e = []" by (rule chain_not_head [OF c]) (use None in auto)
    then have "the_map t key = None"
      using chainedD(2) [OF c] by (fastforce simp: table_map_absent main_pos_def)
    then show ?thesis
      using that(2) None False e by (simp add: findentry_def upb_tabent_isempty_def Let_def)
  next
    case (Some k)
    obtain xs zs where z: "links ?es (Some ?e) (?e # zs)" "length (?e # zs) \<le> length ?es"
      "\<And>i. i \<in> set (?e # zs) \<Longrightarrow> i < length ?es \<and> used ?es i"
      "\<And>i k'. i < length ?es \<Longrightarrow> ent_key (?es ! i) = Some k' \<Longrightarrow> main_pos hash t k' = ?e \<Longrightarrow> i \<in> set (?e # zs)"
      using chain_from [OF c e Some] by metis
    have f: "findentry t key (hash key) eql = Ok (find (\<lambda>i. ent_key (?es ! i) = Some key) (?e # zs))"
      using find_loop_chain [OF z(1,3,2)] False e Some by (simp add: findentry_def upb_tabent_isempty_def Let_def)
    show ?thesis
    proof (cases "find (\<lambda>i. ent_key (?es ! i) = Some key) (?e # zs)")
      case None
      then have "\<forall>i\<in>set (?e # zs). ent_key (?es ! i) \<noteq> Some key" unfolding find_None_iff by blast
      then have "the_map t key = None"
        using z(4) by (force simp: table_map_absent main_pos_def)
      then show ?thesis using that(2) f None by simp
    next
      case found: (Some i)
      then have i: "ent_key (?es ! i) = Some key" "i \<in> set (?e # zs)"
        unfolding find_Some_iff by (auto simp del: set_simps dest: nth_mem)
      then have "i < length ?es" using z(3) by blast
      then show ?thesis
        using that(1) f found i table_map_at [of ?es i key] wf by (simp add: table_wf_def)
    qed
  qed
qed

lemma lookup_map: "table_wf hash t \<Longrightarrow> lookup t key (hash key) eql = Ok (the_map t key)"
  by (rule findentry_result [of t key]) (auto simp: lookup_def)

section \<open>Inserting\<close>

lemma first_empty_Some: "first_empty es is = Some e \<Longrightarrow> e \<in> set is \<and> \<not> used es e"
  by (induction "is") (auto simp: upb_tabent_isempty_def split: if_splits)

lemma first_empty_None: "first_empty es is = None \<Longrightarrow> i \<in> set is \<Longrightarrow> used es i"
  by (induction "is") (auto simp: upb_tabent_isempty_def split: if_splits)

lemma emptyent_free:
  assumes "i < length es" "\<not> used es i"
  obtains e where "emptyent es m = Some e" "e < length es" "\<not> used es e"
proof (cases "first_empty es [m + 1..<length es]")
  case (Some e)
  then show ?thesis using that first_empty_Some [OF Some] by (simp add: emptyent_def)
next
  case None
  then obtain e where "first_empty es [0..<length es] = Some e"
    using first_empty_None [of es "[0..<length es]" i] assms by (cases "first_empty es [0..<length es]") auto
  then show ?thesis using that None first_empty_Some [of es "[0..<length es]" e] by (simp add: emptyent_def)
qed

lemma pred_loop_chain:
  "links es (Some e) (e # ys @ m # zs) \<Longrightarrow> distinct (e # ys @ m # zs) \<Longrightarrow> length (e # ys) \<le> fuel \<Longrightarrow>
   pred_loop fuel es m e = Ok (last (e # ys))"
proof (induction ys arbitrary: e fuel)
  case Nil
  then show ?case by (cases fuel) auto
next
  case (Cons y ys)
  obtain f where f: "fuel = Suc f" using Cons.prems(3) by (cases fuel) auto
  have "pred_loop f es m y = Ok (last (y # ys))"
    by (rule Cons.IH) (use Cons.prems f in auto)
  then show ?case using Cons.prems f by auto
qed

text \<open>
  Inserting a new key into a table that is not full: it stays well formed and its map gains the pair.
\<close>

lemma insert_case:
  assumes wf: "table_wf hash t" and new: "the_map t k = None"
    and room: "length (pairs (tb_entries t)) < load_limit (upb_table_size t)"
    and es: "length es = length (tb_entries t)" "chained (main_pos hash t) es C"
      "mset (pairs es) = add_mset (k, v) (mset (pairs (tb_entries t)))"
  shows "table_wf hash (t\<lparr>tb_count := tb_count t + 1, tb_entries := es\<rparr>)" "table_map es = (the_map t)(k \<mapsto> v)"
proof -
  have one: "one_each es" using one_each_mset [OF es(3)] wf new by (simp add: table_wf_def)
  have len: "length (pairs es) = length (pairs (tb_entries t)) + 1"
    using arg_cong [OF es(3), of size] by simp
  show "table_wf hash (t\<lparr>tb_count := tb_count t + 1, tb_entries := es\<rparr>)"
    using wf room len by (intro table_wf_update [OF wf es(1) _ _ one es(2)]) (auto simp: table_wf_def)
  show "table_map es = (the_map t)(k \<mapsto> v)" by (rule table_map_mset(1) [OF es(3) one])
qed

lemma insert_map:
  assumes wf: "table_wf hash t" and new: "the_map t k = None" and room: "\<not> isfull t"
  obtains es where "insert_entry t (Some k) v (hash k) hashfunc = Ok (t\<lparr>tb_count := tb_count t + 1, tb_entries := es\<rparr>)"
    "table_wf hash (t\<lparr>tb_count := tb_count t + 1, tb_entries := es\<rparr>)" "table_map es = (the_map t)(k \<mapsto> v)"
proof -
  let ?es = "tb_entries t" and ?m = "upb_getentry t (hash k)" and ?pos = "main_pos hash t"
  have r: "length (pairs ?es) < load_limit (upb_table_size t)"
    using wf room isfull_iff [OF wf] by (simp add: table_wf_def)
  then have n: "0 < upb_table_size t" by (cases "upb_table_size t") (auto simp: load_limit_def)
  then have m: "?m < length ?es" using wf slot_bound by (auto simp: table_wf_def upb_table_size_def split: if_splits)
  obtain C where c: "chained ?pos ?es C" using wf by (auto simp: table_wf_def)
  have shape: "length ?es = upb_table_size t" using wf by (simp add: table_wf_def table_shape_def)
  have pm: "?pos k = ?m" by (simp add: main_pos_def)
  let ?new = "\<lparr>ent_key = Some k, ent_val = v, ent_next = None\<rparr>"
  show ?thesis
  proof (cases "ent_key (?es ! ?m)")
    case None
    let ?es' = "?es[?m := ?new]"
    have "mset (pairs ?es') = add_mset (k, v) (mset (pairs ?es))"
      using pairs_update [OF m, of ?new] None by (simp add: pairs_entry)
    then show ?thesis
      using insert_case [OF wf new r _ chained_put_free [OF c m _ pm]] None m that
      by (simp add: insert_entry_def Let_def upb_tabent_isempty_def)
  next
    case (Some km)
    obtain e where e: "emptyent ?es ?m = Some e" "e < length ?es" "\<not> used ?es e"
      using free_entry [of ?es] r load_limit_less [OF n] shape emptyent_free [of _ ?es ?m]
      by (metis less_trans)
    have em: "e \<noteq> ?m" using e(3) Some by auto
    show ?thesis
    proof (cases "upb_getentry t (hash km) = ?m")
      case True
      then obtain rest where C: "C ?m = ?m # rest"
        using chain_at_head [OF c m Some] by (auto simp: main_pos_def)
      let ?es1 = "?es[e := ?new\<lparr>ent_next := ent_next (?es ! ?m)\<rparr>]"
      let ?es' = "?es1[?m := (?es ! ?m)\<lparr>ent_next := Some e\<rparr>]"
      have "mset (pairs ?es1) = add_mset (k, v) (mset (pairs ?es))"
        using pairs_update [OF e(2), of "?new\<lparr>ent_next := ent_next (?es ! ?m)\<rparr>"] e(3) by (simp add: pairs_entry)
      moreover have "mset (pairs ?es') = mset (pairs ?es1)"
        using pairs_relinked [of ?m ?es1 "Some e"] m em by simp
      ultimately have ms: "mset (pairs ?es') = add_mset (k, v) (mset (pairs ?es))" by simp
      have ch: "chained ?pos ?es' (C(?m := ?m # e # rest))"
        using chained_put_behind [OF c m C pm e(2,3), of v] by simp
      show ?thesis
        by (rule that [OF _ insert_case [OF wf new r _ ch ms]])
          (use Some m e True in \<open>simp_all add: insert_entry_def Let_def upb_tabent_isempty_def hashfunc\<close>)
    next
      case False
      define q where "q = upb_getentry t (hash km)"
      obtain xs zs where C: "C q = xs @ ?m # zs" using chain_from [OF c m Some] by (metis main_pos_def q_def)
      note ch = chainedD(1) [OF c, of q, unfolded C]
      have "hd (xs @ ?m # zs) = q" using chain_ofD(4) [OF ch] by simp
      then obtain ys where ys: "xs = q # ys" using False q_def by (cases xs) auto
      have qn: "q \<noteq> ?m" using False q_def by simp
      define b where "b = last (q # ys)"
      have xb: "xs = butlast xs @ [b]" unfolding ys b_def by (rule append_butlast_last_id [symmetric]) simp
      then have C': "C q = butlast xs @ b # ?m # zs" using C by (metis append.assoc append_Cons append_Nil)
      have d: "distinct (xs @ ?m # zs)" by (rule chain_ofD(1) [OF ch])
      have ne: "e \<notin> set (xs @ ?m # zs)" using chain_unused [OF c e(3), of q] C by simp
      have b: "b < length ?es" "b \<noteq> e" "b \<noteq> ?m"
        using chain_ofD(2) [OF ch, of b] ne d xb by (metis in_set_conv_decomp set_append UnCI, metis in_set_conv_decomp set_append UnCI,
          metis distinct.simps(2) distinct_append in_set_conv_decomp disjoint_insert(1) list.set(2))
      let ?es1 = "?es[e := ?es ! ?m]"
      have l: "links ?es1 (Some q) (q # ys @ ?m # zs)"
        using chain_ofD(5) [OF ch] ne by (simp add: ys links_update)
      have "length (q # ys) \<le> length ?es" using chain_length [OF c, of q] C ys by simp
      then have pl: "pred_loop (length ?es) ?es1 ?m q = Ok b"
        using pred_loop_chain [OF l] d by (simp add: ys b_def)
      let ?es2 = "?es1[b := (?es1 ! b)\<lparr>ent_next := Some e\<rparr>]"
      let ?es' = "?es2[?m := ?new]"
      have "mset (pairs ?es1) = mset (pairs ?es) + mset (pairs [?es ! ?m])"
        using pairs_update [OF e(2), of "?es ! ?m"] e(3) by (simp add: pairs_entry)
      moreover have "mset (pairs ?es2) = mset (pairs ?es1)"
        by (rule pairs_relinked) (use b in simp)
      moreover have "mset (pairs ?es') + mset (pairs [?es ! ?m]) = add_mset (k, v) (mset (pairs ?es2))"
        using pairs_update [of ?m ?es2 ?new] m b em by (simp add: pairs_entry)
      ultimately have ms: "mset (pairs ?es') = add_mset (k, v) (mset (pairs ?es))" by simp
      have ch': "chained ?pos ?es' (C(q := butlast xs @ b # e # zs, ?m := [?m]))"
        using chained_put_evict [OF c m pm C' qn e(2,3), of v] b by simp
      show ?thesis
        by (rule that [OF _ insert_case [OF wf new r _ ch' ms]])
          (use Some m e False pl in \<open>simp_all add: insert_entry_def Let_def upb_tabent_isempty_def hashfunc q_def\<close>)
    qed
  qed
qed

section \<open>Removing\<close>

lemma rm_loop_found:
  "links es (Some e) (e # ys @ r # zs) \<Longrightarrow> (\<And>i. i \<in> set (ys @ r # zs) \<Longrightarrow> i < length es \<and> used es i) \<Longrightarrow>
   (\<And>i. i \<in> set ys \<Longrightarrow> ent_key (es ! i) \<noteq> Some key) \<Longrightarrow> ent_key (es ! r) = Some key \<Longrightarrow> length (e # ys) \<le> fuel \<Longrightarrow>
   rm_loop fuel eql es key e = Ok (last (e # ys))"
proof (induction ys arbitrary: e fuel)
  case Nil
  then obtain f where "fuel = Suc f" by (cases fuel) auto
  moreover have "r < length es" "e < length es" "ent_next (es ! e) = Some r" using Nil.prems(1) Nil.prems(2) [of r] by auto
  ultimately show ?case using Nil.prems(4) by (simp add: eql)
next
  case (Cons y ys)
  obtain f where f: "fuel = Suc f" using Cons.prems(5) by (cases fuel) auto
  obtain k where k: "ent_key (es ! y) = Some k" "k \<noteq> key" using Cons.prems(2,3) [of y] by auto
  have "rm_loop f eql es key y = Ok (last (y # ys))"
    by (rule Cons.IH) (use Cons.prems f in auto)
  then show ?case using Cons.prems(1) Cons.prems(2) [of y] f k by (simp add: eql)
qed

lemma rm_loop_missing:
  "links es (Some e) (e # zs) \<Longrightarrow> (\<And>i. i \<in> set zs \<Longrightarrow> i < length es \<and> used es i) \<Longrightarrow>
   (\<And>i. i \<in> set zs \<Longrightarrow> ent_key (es ! i) \<noteq> Some key) \<Longrightarrow> length (e # zs) \<le> fuel \<Longrightarrow>
   \<exists>c. rm_loop fuel eql es key e = Ok c \<and> ent_next (es ! c) = None"
proof (induction zs arbitrary: e fuel)
  case Nil
  then obtain f where "fuel = Suc f" by (cases fuel) auto
  then show ?case using Nil by simp
next
  case (Cons z zs)
  obtain f where f: "fuel = Suc f" using Cons.prems(4) by (cases fuel) auto
  obtain k where k: "ent_key (es ! z) = Some k" "k \<noteq> key" using Cons.prems(2,3) [of z] by auto
  have "\<exists>c. rm_loop f eql es key z = Ok c \<and> ent_next (es ! c) = None"
    by (rule Cons.IH) (use Cons.prems f in auto)
  then show ?case using Cons.prems(1) Cons.prems(2) [of z] f k by (auto simp: eql)
qed

lemma remove_case:
  assumes wf: "table_wf hash t" and es: "length es = length (tb_entries t)" "chained (main_pos hash t) es C"
    "add_mset (k, v) (mset (pairs es)) = mset (pairs (tb_entries t))"
  shows "table_wf hash (t\<lparr>tb_count := tb_count t - 1, tb_entries := es\<rparr>)" 
    "the_map (t\<lparr>tb_count := tb_count t - 1, tb_entries := es\<rparr>) = (the_map t)(k := None)"
    "the_map t k = Some v"
proof -
  have one: "one_each (tb_entries t)" using wf by (simp add: table_wf_def)
  then have one': "one_each es" using one_each_mset [OF es(3) [symmetric]] by simp
  have len: "length (pairs (tb_entries t)) = length (pairs es) + 1"
    using arg_cong [OF es(3), of size] by simp
  show "table_wf hash (t\<lparr>tb_count := tb_count t - 1, tb_entries := es\<rparr>)"
    using wf len by (intro table_wf_update [OF wf es(1) _ _ one' es(2)]) (auto simp: table_wf_def)
  show "the_map (t\<lparr>tb_count := tb_count t - 1, tb_entries := es\<rparr>) = (the_map t)(k := None)"
    using table_map_mset(2) [OF es(3) [symmetric] one] by simp
  show "the_map t k = Some v"
    unfolding table_map_mset(1) [OF es(3) [symmetric] one] by simp
qed

lemma unused_update:
  "i < length es \<Longrightarrow> ent_key (es ! i) = Some k \<Longrightarrow>
   add_mset (k, ent_val (es ! i)) (mset (pairs (es[i := (es ! i)\<lparr>ent_key := None\<rparr>]))) = mset (pairs es)"
  using pairs_update [of i es "(es ! i)\<lparr>ent_key := None\<rparr>"] by (simp add: pairs_entry)

lemma rm_map:
  assumes wf: "table_wf hash t" and size: "tb_size_lg2 t \<noteq> 0"
  obtains t' where "rm t key (hash key) eql = Ok (t', the_map t key)" "table_wf hash t'"
    "the_map t' = (the_map t)(key := None)" "tb_size_lg2 t' = tb_size_lg2 t"
proof -
  let ?es = "tb_entries t" and ?m = "upb_getentry t (hash key)" and ?pos = "main_pos hash t"
  have m: "?m < length ?es" using wf size slot_bound by (auto simp: table_wf_def)
  obtain C where c: "chained ?pos ?es C" using wf by (auto simp: table_wf_def)
  have pm: "?pos key = ?m" by (simp add: main_pos_def)
  show ?thesis
  proof (cases "ent_key (?es ! ?m)")
    case None
    have "C ?m = []" by (rule chain_not_head [OF c]) (use None in auto)
    then have n: "the_map t key = None"
      using chainedD(2) [OF c] pm by (fastforce simp: table_map_absent)
    show ?thesis
      by (rule that [of t])
        (use None m wf n in \<open>simp_all add: rm_def Let_def upb_tabent_isempty_def fun_upd_idem\<close>)
  next
    case (Some km)
    obtain xs zs where z: "C (?pos km) = xs @ ?m # zs" "links ?es (Some ?m) (?m # zs)" "length (?m # zs) \<le> length ?es"
      "\<And>i. i \<in> set (?m # zs) \<Longrightarrow> i < length ?es \<and> used ?es i"
      "\<And>i k'. i < length ?es \<Longrightarrow> ent_key (?es ! i) = Some k' \<Longrightarrow> ?pos k' = ?m \<Longrightarrow> ?pos km = ?m \<and> i \<in> set (?m # zs)"
      using chain_from [OF c m Some] by metis
    show ?thesis
    proof (cases "km = key")
      case True
      then have C: "C ?m = ?m # zs"
        using chain_at_head [OF c m Some] pm z(1) chain_ofD(1) [OF chainedD(1) [OF c, of ?m]]
        by (metis append_Cons append_Nil append_eq_Cons_conv distinct.simps(2) in_set_conv_decomp list.inject)
      show ?thesis
      proof (cases zs)
        case Nil
        let ?es' = "?es[?m := (?es ! ?m)\<lparr>ent_key := None\<rparr>]"
        have nx: "ent_next (?es ! ?m) = None" using z(2) Nil by simp
        have ch: "chained ?pos ?es' (C(?m := []))" by (rule chained_drop_single [OF c m]) (use C Nil in auto)
        have ms: "add_mset (key, ent_val (?es ! ?m)) (mset (pairs ?es')) = mset (pairs ?es)"
          using unused_update [OF m] Some True by simp
        show ?thesis
          by (rule that [OF _ remove_case(1,2) [OF wf _ ch ms]])
            (use m Some True nx remove_case(3) [OF wf _ ch ms] in
              \<open>simp_all add: rm_def Let_def upb_tabent_isempty_def eql\<close>)
      next
        case (Cons n rest)
        have nx: "ent_next (?es ! ?m) = Some n" and n: "n < length ?es" "?m \<noteq> n"
          using z(2) Cons chain_ofD(1) [OF chainedD(1) [OF c, of ?m]] C by auto
        obtain kn where kn: "ent_key (?es ! n) = Some kn" using z(4) [of n] Cons by auto
        let ?es1 = "?es[?m := ?es ! n]"
        let ?es' = "?es1[n := (?es1 ! n)\<lparr>ent_key := None\<rparr>]"
        have ch: "chained ?pos ?es' (C(?m := ?m # rest))"
          by (rule chained_drop_head [OF c m]) (use C Cons in auto)
        have ms: "add_mset (key, ent_val (?es ! ?m)) (mset (pairs ?es')) = mset (pairs ?es)"
        proof -
          have 1: "add_mset (kn, ent_val (?es ! n)) (mset (pairs ?es')) = mset (pairs ?es1)"
            using unused_update [of n ?es1 kn] n kn by simp
          have "add_mset (key, ent_val (?es ! ?m)) (mset (pairs ?es1)) = add_mset (kn, ent_val (?es ! n)) (mset (pairs ?es))"
            using pairs_update [OF m, of "?es ! n"] kn Some True by (simp add: pairs_entry)
          then have "add_mset (kn, ent_val (?es ! n)) (add_mset (key, ent_val (?es ! ?m)) (mset (pairs ?es'))) =
            add_mset (kn, ent_val (?es ! n)) (mset (pairs ?es))"
            unfolding 1 [symmetric] by (simp only: add_mset_commute)
          then show ?thesis by simp
        qed
        show ?thesis
          by (rule that [OF _ remove_case(1,2) [OF wf _ ch ms]])
            (use m n Some True nx remove_case(3) [OF wf _ ch ms] in
              \<open>simp_all add: rm_def Let_def upb_tabent_isempty_def eql\<close>)
      qed
    next
      case False
      show ?thesis
      proof (cases "\<exists>i\<in>set zs. ent_key (?es ! i) = Some key")
        case True
        then obtain ys r rest where y: "zs = ys @ r # rest" "ent_key (?es ! r) = Some key"
          "\<forall>i\<in>set ys. ent_key (?es ! i) \<noteq> Some key"
          using split_list_first_prop [of zs "\<lambda>i. ent_key (?es ! i) = Some key"] by auto
        define b where "b = last (?m # ys)"
        have b: "?m # ys = butlast (?m # ys) @ [b]" unfolding b_def by (rule append_butlast_last_id [symmetric]) simp
        have lp: "rm_loop (length ?es) eql ?es key ?m = Ok b"
          unfolding b_def by (rule rm_loop_found) (use z(2-4) y in auto)
        have Cq: "C (?pos km) = (xs @ butlast (?m # ys)) @ b # r # rest"
          unfolding z(1) y(1) using b by (metis append.assoc append_Cons append_Nil)
        have "links ?es (Some ?m) (butlast (?m # ys) @ b # r # rest)"
          using z(2) b by (metis y(1) append.assoc append_Cons append_Nil)
        then have nx: "ent_next (?es ! b) = Some r" "b < length ?es" "r < length ?es"
          using links_append [of ?es "Some ?m" "butlast (?m # ys)" b "r # rest"] by auto
        have br: "b \<noteq> r" using chain_ofD(1) [OF chainedD(1) [OF c, of "?pos km"]] Cq by auto
        let ?es1 = "?es[r := (?es ! r)\<lparr>ent_key := None\<rparr>]"
        let ?es' = "?es1[b := (?es1 ! b)\<lparr>ent_next := ent_next (?es1 ! r)\<rparr>]"
        have ch: "chained ?pos ?es' (C(?pos km := (xs @ butlast (?m # ys)) @ b # rest))"
          using chained_drop_inner [OF c Cq, of "(?es ! r)\<lparr>ent_key := None\<rparr>"] br nx by simp
        have ms: "add_mset (key, ent_val (?es ! r)) (mset (pairs ?es')) = mset (pairs ?es)"
          using unused_update [OF nx(3) y(2)] pairs_relinked [of b ?es1 "ent_next (?es1 ! r)"] nx(2) by simp
        show ?thesis
          by (rule that [OF _ remove_case(1,2) [OF wf _ ch ms]])
            (use m Some False lp nx br remove_case(3) [OF wf _ ch ms] in
              \<open>simp_all add: rm_def Let_def upb_tabent_isempty_def eql\<close>)
      next
        case none: False
        then obtain b where b: "rm_loop (length ?es) eql ?es key ?m = Ok b" "ent_next (?es ! b) = None"
          using rm_loop_missing [OF z(2) _ _ z(3), of key] z(4) by auto
        have n: "the_map t key = None"
          using z(5) pm none Some False by (force simp: table_map_absent)
        show ?thesis
          by (rule that [of t])
            (use Some False m wf n b in \<open>simp_all add: rm_def Let_def upb_tabent_isempty_def eql fun_upd_idem\<close>)
      qed
    qed
  qed
qed

end

section \<open>A new table and its entries in order\<close>

lemma chained_empty: "chained pos (replicate n zero_ent) (\<lambda>p. [])"
  by (simp add: chained_def zero_ent_def)

text \<open>Up to 30 bits of size a new table is well formed and empty, if its memory could be had.\<close>

lemma init_result:
  fixes hash :: "'k \<Rightarrow> u32"
  assumes "size_lg2 \<le> 30"
  obtains "init size_lg2 a k = (Ok (None, k + 1) :: ('k upb_table option \<times> nat) run)" "size_lg2 \<noteq> 0" "\<not> a k (2 ^ size_lg2 * tabent_size)"
  | t k' where "init size_lg2 a k = Ok (Some t, k')" "table_wf hash t" "tb_size_lg2 t = size_lg2"
      "tb_entries t = replicate (upb_table_size t) zero_ent" "the_map t = Map.empty" "k' \<le> k + 1"
proof (cases "size_lg2 = 0")
  case True
  define t :: "'k upb_table" where
    "t = \<lparr>tb_count = 0, tb_mask = 0, tb_max_count = 0, tb_size_lg2 = 0, tb_entries = []\<rparr>"
  have "table_wf hash t"
    by (auto simp: t_def table_wf_def table_shape_def upb_table_size_def load_limit_def one_each_def chained_def intro: exI [of _ "\<lambda>p. []"])
  then show ?thesis using True by (intro that(2) [of t k]) (auto simp: init_def t_def upb_table_size_def table_map_def)
next
  case False
  let ?n = "2 ^ size_lg2 :: nat"
  define t :: "'k upb_table" where
    "t = \<lparr>tb_count = 0, tb_mask = of_nat (?n - 1), tb_max_count = of_nat (?n * 85 div 100), tb_size_lg2 = size_lg2,
      tb_entries = replicate ?n zero_ent\<rparr>"
  have n: "upb_table_size t = ?n" using False by (simp add: t_def upb_table_size_def)
  have "table_wf hash t"
    using assms n chained_empty [of "main_pos hash t" ?n]
    by (auto simp: table_wf_def table_shape_def load_limit_def one_each_def t_def)
  moreover have "init size_lg2 a k = (if a k (?n * tabent_size) then Ok (Some t, k + 1) else Ok (None, k + 1))"
    using assms False by (simp add: init_def t_def tabent_size_def Let_def)
  ultimately show ?thesis
    using False n that by (cases "a k (?n * tabent_size)") (simp_all add: t_def table_map_def)
qed

lemma index_word: "j < 2 ^ 30 \<Longrightarrow> unat (of_nat j :: u64) = j \<and> unat (of_nat j + 1 :: u64) = Suc j"
proof -
  assume j: "j < 2 ^ 30"
  have "unat (of_nat j :: u64) = j" by (rule unat_of_nat_small) (use j in simp)
  moreover have "unat (of_nat (Suc j) :: u64) = Suc j" by (rule unat_of_nat_small) (use j in simp)
  moreover have "of_nat j + 1 = (of_nat (Suc j) :: u64)" by simp
  ultimately show ?thesis by metis
qed


text \<open>The iteration goes through the used entries in order.\<close>

lemma next_loop_result:
  "next_loop es (length es) i =
     Ok (case filter (used es) [i..<length es] of [] \<Rightarrow> SIZE_MAX - 1 | j # _ \<Rightarrow> of_nat j)"
proof (induction "length es - i" arbitrary: i)
  case 0
  then show ?case by (simp add: next_loop.simps [of es])
next
  case (Suc n)
  then have "i < length es" by simp
  then have "[i..<length es] = i # [Suc i..<length es]" "\<not> length es \<le> i" by (simp_all add: upt_conv_Cons)
  then show ?case
    using Suc.hyps(1) [of "Suc i"] Suc.hyps(2) by (simp add: next_loop.simps [of es "length es" i] upb_tabent_isempty_def)
qed

lemma filter_upt_Cons:
  "filter P [i..<n] = j # js \<Longrightarrow> i \<le> j \<and> j < n \<and> P j \<and> filter P [Suc j..<n] = js"
proof (induction "n - i" arbitrary: i)
  case (Suc m)
  then have "[i..<n] = i # [Suc i..<n]" by (simp add: upt_conv_Cons)
  then show ?case using Suc.hyps(1) [of "Suc i"] Suc.hyps(2) Suc.prems Suc_leD [of i j] by (cases "P i") auto
qed simp

definition pair_at :: "'k tabent list \<Rightarrow> nat \<Rightarrow> 'k \<times> u64" where
  "pair_at es i = (the (ent_key (es ! i)), ent_val (es ! i))"

lemma pairs_in_order: "pairs es = map (pair_at es) (filter (used es) [0..<length es])"
proof -
  have "es = map ((!) es) [0..<length es]" by (simp add: map_nth)
  then have "filter (\<lambda>e. ent_key e \<noteq> None) es = map ((!) es) (filter (used es) [0..<length es])"
    by (metis (mono_tags, lifting) comp_apply filter_cong filter_map)
  then show ?thesis by (simp add: pairs_def pair_at_def)
qed

section \<open>The contract of the shared table\<close>

text \<open>
  A table that has a size is a finite map that takes new keys up to its load limit. (Removing from a table of
  size 0 reads through NULL.)
\<close>

definition sized_wf :: "('k \<Rightarrow> u32) \<Rightarrow> 'k upb_table \<Rightarrow> bool" where
  "sized_wf hash t \<longleftrightarrow> table_wf hash t \<and> tb_size_lg2 t \<noteq> 0"

definition has_room :: "'k upb_table \<Rightarrow> nat \<Rightarrow> bool" where
  "has_room t n \<longleftrightarrow> length (pairs (tb_entries t)) + n \<le> load_limit (upb_table_size t)"

lemma pairs_length_map:
  "one_each es \<Longrightarrow> length (pairs es) = card (dom (table_map es))"
  unfolding one_each_def table_map_def
  by (metis distinct_card dom_map_of_conv_image_fst length_map list.set_map)

lemma load_limit_double: "n \<noteq> 0 \<Longrightarrow> load_limit (2 ^ n) < load_limit (2 ^ (n + 1))"
proof -
  assume "n \<noteq> 0"
  then have "(2::nat) \<le> 2 ^ n" by (cases n) auto
  then show ?thesis unfolding load_limit_def power_add by simp
qed

lemma load_limit_mono: "m \<le> n \<Longrightarrow> load_limit m \<le> load_limit n"
  by (simp add: load_limit_def div_le_mono)

lemma pairs_count: "table_wf hash t \<Longrightarrow> length (pairs (tb_entries t)) = card (dom (the_map t))"
  by (simp add: table_wf_def pairs_length_map)

lemma finite_dom_table_map [simp]: "finite (dom (table_map es))"
  unfolding table_map_def by (rule finite_dom_map_of)

sublocale hash_key \<subseteq> base: map_impl "sized_wf hash" the_map has_room "\<lambda>k. True" "\<lambda>v. True"
  "\<lambda>t k. lookup t k (hash k) eql" "\<lambda>t k v. insert_entry t (Some k) v (hash k) hashfunc" "\<lambda>t k. rm t k (hash k) eql"
proof (unfold_locales, goal_cases)
  case (1 t n)
  then show ?case by (simp add: has_room_def)
next
  case (2 t k)
  then show ?case by (simp add: sized_wf_def lookup_map)
next
  case (3 t n k v)
  then have wf: "table_wf hash t" and nf: "\<not> isfull t"
    using isfull_iff [of hash t] by (auto simp: sized_wf_def has_room_def)
  obtain es where es: "insert_entry t (Some k) v (hash k) hashfunc = Ok (t\<lparr>tb_count := tb_count t + 1, tb_entries := es\<rparr>)"
    "table_wf hash (t\<lparr>tb_count := tb_count t + 1, tb_entries := es\<rparr>)" "table_map es = (the_map t)(k \<mapsto> v)"
    using insert_map [OF wf 3(5) nf] by metis
  have "length (pairs es) = Suc (length (pairs (tb_entries t)))"
    using pairs_length_map [of es] pairs_length_map [of "tb_entries t"] es(2,3) wf 3(5)
    by (auto simp: table_wf_def domIff)
  then show ?case using es 3 by (auto simp: sized_wf_def has_room_def)
next
  case (4 t n k)
  then have wf: "table_wf hash t" "tb_size_lg2 t \<noteq> 0" by (auto simp: sized_wf_def)
  obtain t' where t': "rm t k (hash k) eql = Ok (t', the_map t k)" "table_wf hash t'"
    "the_map t' = (the_map t)(k := None)" "tb_size_lg2 t' = tb_size_lg2 t"
    using rm_map [OF wf] by metis
  have "length (pairs (tb_entries t')) \<le> length (pairs (tb_entries t))"
    using pairs_length_map [of "tb_entries t'"] pairs_length_map [of "tb_entries t"] t'(2,3) wf
    by (auto simp: table_wf_def intro!: card_mono)
  then show ?case using t' 4 by (auto simp: sized_wf_def has_room_def upb_table_size_def)
qed

end
