(* ===== verification/Upb_Hash.thy ===== *)
theory Upb_Hash
  imports Upb_Table
begin

text \<open>
  The hash function of the tables with string keys (\<open>Wyhash\<close> and \<open>_upb_Hash\<close> of \<open>upb/table.c\<close>), on 64-bit
  words, for a little-endian machine. A pointer is the bytes from it to the end of the memory the
  caller has; every read checks that it is inside. The hash is shown to read exactly the \<open>len\<close> bytes it
  is given.
\<close>

section \<open>Loads\<close>

fun le_word :: "bytes \<Rightarrow> u64" where
  "le_word [] = 0"
| "le_word (b # bs) = ucast b OR push_bit 8 (le_word bs)"

definition UnalignedLoad64 :: "bytes \<Rightarrow> u64 run" where
  "UnalignedLoad64 p = (if length p < 8 then UB else Ok (le_word (take 8 p)))"

definition UnalignedLoad32 :: "bytes \<Rightarrow> u64 run" where
  "UnalignedLoad32 p = (if length p < 4 then UB else Ok (le_word (take 4 p)))"

definition byte_at :: "bytes \<Rightarrow> nat \<Rightarrow> u64 run" where
  "byte_at p i = (if length p \<le> i then UB else Ok (ucast (p ! i)))"

section \<open>Mixing\<close>

definition upb_umul128 :: "u64 \<Rightarrow> u64 \<Rightarrow> u64 \<times> u64" where
  "upb_umul128 v0 v1 = (let p = uint v0 * uint v1 in (word_of_int p, word_of_int (p div 2 ^ 64)))"

definition WyhashMix :: "u64 \<Rightarrow> u64 \<Rightarrow> u64" where
  "WyhashMix v0 v1 = (let (low, high) = upb_umul128 v0 v1 in low XOR high)"

text \<open>Two loads at \<open>i\<close> and \<open>i + 8\<close>, mixed with the salt and the state.\<close>

definition mix_at :: "bytes \<Rightarrow> nat \<Rightarrow> u64 \<Rightarrow> u64 \<Rightarrow> u64 run" where
  "mix_at ptr i salt state =
     bind_outcome (UnalignedLoad64 (drop i ptr)) (\<lambda>a.
     bind_outcome (UnalignedLoad64 (drop (i + 8) ptr)) (\<lambda>b.
       Ok (WyhashMix (a XOR salt) (b XOR state))))"

text \<open>The loop over chunks of 64 bytes, entered with more than 64 left.\<close>

function chunks_64 :: "(nat \<Rightarrow> u64) \<Rightarrow> bytes \<Rightarrow> nat \<Rightarrow> u64 \<Rightarrow> u64 \<Rightarrow> (bytes \<times> nat \<times> u64 \<times> u64) run" where
  "chunks_64 salt ptr len current_state duplicated_state =
     (if len \<le> 64 then Ok (ptr, len, current_state, duplicated_state)
      else
        bind_outcome (mix_at ptr 0 (salt 1) current_state) (\<lambda>cs0.
        bind_outcome (mix_at ptr 16 (salt 2) current_state) (\<lambda>cs1.
        bind_outcome (mix_at ptr 32 (salt 3) duplicated_state) (\<lambda>ds0.
        bind_outcome (mix_at ptr 48 (salt 4) duplicated_state) (\<lambda>ds1.
          chunks_64 salt (drop 64 ptr) (len - 64) (cs0 XOR cs1) (ds0 XOR ds1))))))"
  by pat_completeness auto
termination by (relation "measure (\<lambda>(salt, ptr, len, c, d). len)") auto

function chunks_16 :: "(nat \<Rightarrow> u64) \<Rightarrow> bytes \<Rightarrow> nat \<Rightarrow> u64 \<Rightarrow> (bytes \<times> nat \<times> u64) run" where
  "chunks_16 salt ptr len current_state =
     (if len > 16
      then bind_outcome (mix_at ptr 0 (salt 1) current_state) (\<lambda>st. chunks_16 salt (drop 16 ptr) (len - 16) st)
      else Ok (ptr, len, current_state))"
  by pat_completeness auto
termination by (relation "measure (\<lambda>(salt, ptr, len, c). len)") auto

declare chunks_64.simps [simp del] chunks_16.simps [simp del]

text \<open>The last 16 bytes or less.\<close>

definition last_words :: "bytes \<Rightarrow> nat \<Rightarrow> (u64 \<times> u64) run" where
  "last_words ptr len =
     (if len > 8 then
        bind_outcome (UnalignedLoad64 ptr) (\<lambda>a.
        bind_outcome (UnalignedLoad64 (drop (len - 8) ptr)) (\<lambda>b. Ok (a, b)))
      else if len > 3 then
        bind_outcome (UnalignedLoad32 ptr) (\<lambda>a.
        bind_outcome (UnalignedLoad32 (drop (len - 4) ptr)) (\<lambda>b. Ok (a, b)))
      else if len > 0 then
        bind_outcome (byte_at ptr 0) (\<lambda>x.
        bind_outcome (byte_at ptr (len div 2)) (\<lambda>y.
        bind_outcome (byte_at ptr (len - 1)) (\<lambda>z.
          Ok (push_bit 16 x OR push_bit 8 y OR z, 0))))
      else Ok (0, 0))"

definition Wyhash :: "bytes \<Rightarrow> nat \<Rightarrow> u64 \<Rightarrow> (nat \<Rightarrow> u64) \<Rightarrow> u64 run" where
  "Wyhash data len seed salt =
     (let starting_length = (of_nat len :: u64);
          current_state = seed XOR salt 0 in
      bind_outcome
        (if len > 64 then
           bind_outcome (chunks_64 salt data len current_state current_state) (\<lambda>(ptr, len, cs, ds).
             Ok (ptr, len, cs XOR ds))
         else Ok (data, len, current_state))
        (\<lambda>(ptr, len, current_state).
      bind_outcome (chunks_16 salt ptr len current_state) (\<lambda>(ptr, len, current_state).
      bind_outcome (last_words ptr len) (\<lambda>(a, b).
        let w = WyhashMix (a XOR salt 1) (b XOR current_state);
            z = salt 1 XOR starting_length
        in Ok (WyhashMix w z)))))"

definition kWyhashSalt :: "nat \<Rightarrow> u64" where
  "kWyhashSalt i =
     [0x243F6A8885A308D3, 0x13198A2E03707344, 0xA4093822299F31D0, 0x082EFA98EC4E6C89, 0x452821E638D01377] ! i"

definition upb_Hash :: "bytes \<Rightarrow> nat \<Rightarrow> u64 \<Rightarrow> u32 run" where
  "upb_Hash p n seed = bind_outcome (Wyhash p n seed kWyhashSalt) (\<lambda>h. Ok (ucast h))"

definition upb_Hash_NoSeed :: "bytes \<Rightarrow> nat \<Rightarrow> u32 run" where
  "upb_Hash_NoSeed p n = upb_Hash p n 0"

section \<open>It reads the bytes it is given\<close>

text \<open>Bytes behind the \<open>n\<close> that are read do not matter.\<close>

lemma loads_local:
  "i + 8 \<le> length p \<Longrightarrow> \<exists>a. UnalignedLoad64 (drop i p) = Ok a \<and> UnalignedLoad64 (drop i (p @ q)) = Ok a"
  "i + 4 \<le> length p \<Longrightarrow> \<exists>a. UnalignedLoad32 (drop i p) = Ok a \<and> UnalignedLoad32 (drop i (p @ q)) = Ok a"
  "i < length p \<Longrightarrow> \<exists>a. byte_at p i = Ok a \<and> byte_at (p @ q) i = Ok a"
  by (auto simp: UnalignedLoad64_def UnalignedLoad32_def byte_at_def nth_append)

lemma mix_at_local: "i + 16 \<le> length p \<Longrightarrow> \<exists>a. mix_at p i salt st = Ok a \<and> mix_at (p @ q) i salt st = Ok a"
  using loads_local(1) [of i p q] loads_local(1) [of "i + 8" p q] by (auto simp: mix_at_def)

lemma chunks_64_local:
  "\<exists>p' cs ds. chunks_64 salt p (length p) c d = Ok (p', length p', cs, ds) \<and>
     chunks_64 salt (p @ q) (length p) c d = Ok (p' @ q, length p', cs, ds)"
proof (induction "length p" arbitrary: p c d rule: less_induct)
  case less
  show ?case
  proof (cases "length p \<le> 64")
    case True
    then show ?thesis by (simp add: chunks_64.simps)
  next
    case False
    obtain c0 c1 d0 d1 where m:
      "mix_at p 0 (salt 1) c = Ok c0" "mix_at (p @ q) 0 (salt 1) c = Ok c0"
      "mix_at p 16 (salt 2) c = Ok c1" "mix_at (p @ q) 16 (salt 2) c = Ok c1"
      "mix_at p 32 (salt 3) d = Ok d0" "mix_at (p @ q) 32 (salt 3) d = Ok d0"
      "mix_at p 48 (salt 4) d = Ok d1" "mix_at (p @ q) 48 (salt 4) d = Ok d1"
      using mix_at_local [of 0 p "salt 1" c q] mix_at_local [of 16 p "salt 2" c q]
        mix_at_local [of 32 p "salt 3" d q] mix_at_local [of 48 p "salt 4" d q] False by auto
    have "drop 64 (p @ q) = drop 64 p @ q" using False by simp
    then show ?thesis
      using less [of "drop 64 p" "c0 XOR c1" "d0 XOR d1"] False m
      by (simp add: chunks_64.simps [of salt p] chunks_64.simps [of salt "p @ q"])
  qed
qed

lemma chunks_16_local:
  "\<exists>p' cs. length p' \<le> 16 \<and> chunks_16 salt p (length p) c = Ok (p', length p', cs) \<and>
     chunks_16 salt (p @ q) (length p) c = Ok (p' @ q, length p', cs)"
proof (induction "length p" arbitrary: p c rule: less_induct)
  case less
  show ?case
  proof (cases "16 < length p")
    case False
    then show ?thesis by (simp add: chunks_16.simps)
  next
    case True
    obtain c0 where m: "mix_at p 0 (salt 1) c = Ok c0" "mix_at (p @ q) 0 (salt 1) c = Ok c0"
      using mix_at_local [of 0 p "salt 1" c q] True by auto
    have "drop 16 (p @ q) = drop 16 p @ q" using True by simp
    then show ?thesis
      using less [of "drop 16 p" c0] True m
      by (simp add: chunks_16.simps [of salt p] chunks_16.simps [of salt "p @ q"])
  qed
qed

lemma last_words_local:
  "length p \<le> 16 \<Longrightarrow> \<exists>ab. last_words p (length p) = Ok ab \<and> last_words (p @ q) (length p) = Ok ab"
  using loads_local(1) [of 0 p q] loads_local(1) [of "length p - 8" p q] loads_local(2) [of 0 p q]
    loads_local(2) [of "length p - 4" p q] loads_local(3) [of 0 p q] loads_local(3) [of "length p div 2" p q]
    loads_local(3) [of "length p - 1" p q]
  by (auto simp: last_words_def not_less not_le)

lemma wyhash_local:
  "\<exists>h. Wyhash p (length p) seed salt = Ok h \<and> Wyhash (p @ q) (length p) seed salt = Ok h"
proof -
  define c where "c = seed XOR salt 0"
  let ?start = "\<lambda>data. if length p > 64 then
      bind_outcome (chunks_64 salt data (length p) c c) (\<lambda>(ptr, len, cs, ds). Ok (ptr, len, cs XOR ds))
    else Ok (data, length p, c)"
  have "\<exists>p1 c1. ?start p = Ok (p1, length p1, c1) \<and> ?start (p @ q) = Ok (p1 @ q, length p1, c1)"
    using chunks_64_local [of salt p c c q] by auto
  then obtain p1 c1 where s: "?start p = Ok (p1, length p1, c1)" "?start (p @ q) = Ok (p1 @ q, length p1, c1)" by blast
  obtain p2 c2 where t: "length p2 \<le> 16" "chunks_16 salt p1 (length p1) c1 = Ok (p2, length p2, c2)"
    "chunks_16 salt (p1 @ q) (length p1) c1 = Ok (p2 @ q, length p2, c2)"
    using chunks_16_local [of salt p1 c1 q] by blast
  obtain ab where "last_words p2 (length p2) = Ok ab" "last_words (p2 @ q) (length p2) = Ok ab"
    using last_words_local [OF t(1), of q] by blast
  then show ?thesis
    unfolding Wyhash_def Let_def c_def [symmetric] s t bind_outcome.simps prod.case by (cases ab) simp
qed

text \<open>The hash of a string.\<close>

definition string_hash :: "bytes \<Rightarrow> u32" where
  "string_hash s = (case upb_Hash_NoSeed s (length s) of Ok h \<Rightarrow> h | _ \<Rightarrow> 0)"

lemma upb_Hash_NoSeed_local: "upb_Hash_NoSeed (s @ q) (length s) = Ok (string_hash s)"
  using wyhash_local [of s 0 kWyhashSalt q]
  by (auto simp: string_hash_def upb_Hash_NoSeed_def upb_Hash_def)

end
