(* ===== verification/Upb_Strtable.thy ===== *)
theory Upb_Strtable
  imports Upb_Refine Upb_Hash
begin

text \<open>
  The table with string keys (\<open>upb_strtable\<close> of \<open>upb/table.c\<close>). A string view is the list of its bytes; a
  stored key is a copy whose length is kept in 32 bits. An iterator knows the address of its table and
  an index; the table at that address is an argument of the operations on it.
\<close>

section \<open>Keys\<close>

definition strcopy :: "bytes \<Rightarrow> arena \<Rightarrow> nat \<Rightarrow> bytes option \<times> nat" where
  "strcopy k a c = (if a c (length k + 4 + 1) then (Some (take (length k mod 2 ^ 32) k), c + 1) else (None, c + 1))"

definition strhash :: "bytes hashfunc" where
  "strhash key = (case key of None \<Rightarrow> UB | Some s \<Rightarrow> upb_Hash_NoSeed s (length s))"

definition streql :: "bytes eqlfunc" where
  "streql k1 k2 = (case k1 of None \<Rightarrow> UB | Some s \<Rightarrow> Ok (length s = length k2 \<and> (length s = 0 \<or> s = k2)))"

section \<open>Iterators\<close>

record strtable_iter =
  si_t :: "nat option"
  si_index :: u64

definition upb_strtable_begin :: "nat \<Rightarrow> bytes upb_table \<Rightarrow> strtable_iter run" where
  "upb_strtable_begin addr t = bind_outcome (table_begin t) (\<lambda>i. Ok \<lparr>si_t = Some addr, si_index = i\<rparr>)"

definition upb_strtable_next :: "bytes upb_table \<Rightarrow> strtable_iter \<Rightarrow> strtable_iter run" where
  "upb_strtable_next t i = bind_outcome (table_next t (si_index i)) (\<lambda>j. Ok (i\<lparr>si_index := j\<rparr>))"

definition str_tabent :: "bytes upb_table \<Rightarrow> strtable_iter \<Rightarrow> bytes tabent run" where
  "str_tabent t i =
     (if length (tb_entries t) \<le> unat (si_index i) then UB else Ok (tb_entries t ! unat (si_index i)))"

definition upb_strtable_done :: "bytes upb_table \<Rightarrow> strtable_iter \<Rightarrow> bool run" where
  "upb_strtable_done t i =
     (if si_t i = None then Ok True
      else if unat (si_index i) \<ge> upb_table_size t then Ok True
      else bind_outcome (str_tabent t i) (\<lambda>e. Ok (upb_tabent_isempty e)))"

definition upb_strtable_iter_key :: "bytes upb_table \<Rightarrow> strtable_iter \<Rightarrow> bytes run" where
  "upb_strtable_iter_key t i =
     bind_outcome (str_tabent t i) (\<lambda>e. case ent_key e of None \<Rightarrow> UB | Some k \<Rightarrow> Ok k)"

definition upb_strtable_iter_value :: "bytes upb_table \<Rightarrow> strtable_iter \<Rightarrow> u64 run" where
  "upb_strtable_iter_value t i = bind_outcome (str_tabent t i) (\<lambda>e. Ok (ent_val e))"

definition upb_strtable_iter_setdone :: "strtable_iter \<Rightarrow> strtable_iter" where
  "upb_strtable_iter_setdone i = \<lparr>si_t = None, si_index = SIZE_MAX\<rparr>"

definition upb_strtable_iter_isequal ::
    "bytes upb_table \<Rightarrow> bytes upb_table \<Rightarrow> strtable_iter \<Rightarrow> strtable_iter \<Rightarrow> bool run" where
  "upb_strtable_iter_isequal t1 t2 i1 i2 =
     bind_outcome (upb_strtable_done t1 i1) (\<lambda>d1.
     bind_outcome (if d1 then upb_strtable_done t2 i2 else Ok False) (\<lambda>d2.
       Ok (d2 \<or> (si_t i1 = si_t i2 \<and> si_index i1 = si_index i2))))"

text \<open>The other iteration, by an index; the next pair and where it is.\<close>

definition upb_strtable_next2 :: "bytes upb_table \<Rightarrow> u64 \<Rightarrow> (bytes \<times> u64 \<times> u64) option run" where
  "upb_strtable_next2 t iter =
     bind_outcome (table_next t iter) (\<lambda>tab_idx.
       if unat tab_idx < upb_table_size t then
         if length (tb_entries t) \<le> unat tab_idx then UB
         else case ent_key (tb_entries t ! unat tab_idx) of None \<Rightarrow> UB
           | Some k \<Rightarrow> Ok (Some (k, ent_val (tb_entries t ! unat tab_idx), tab_idx))
       else Ok None)"

definition upb_strtable_removeiter :: "bytes upb_table \<Rightarrow> u64 \<Rightarrow> bytes upb_table run" where
  "upb_strtable_removeiter t iter = remove_at t (unat iter)"

section \<open>Making and emptying\<close>

fun bit_length :: "nat \<Rightarrow> nat" where
  "bit_length n = (if n = 0 then 0 else Suc (bit_length (n div 2)))"

declare bit_length.simps [simp del]

definition upb_Log2Ceiling :: "int \<Rightarrow> nat" where
  "upb_Log2Ceiling x = (if x \<le> 1 then 0 else bit_length (nat (x - 1)))"

definition upb_strtable_init :: "u64 \<Rightarrow> arena \<Rightarrow> nat \<Rightarrow> (bytes upb_table option \<times> nat) run" where
  "upb_strtable_init expected_size a c =
     (let need_entries = (expected_size + 1) * 1204 div 1024;
          size_lg2 = upb_Log2Ceiling (sint (ucast need_entries :: u32))
      in init size_lg2 a c)"

definition upb_strtable_clear :: "bytes upb_table \<Rightarrow> bytes upb_table run" where
  "upb_strtable_clear t =
     (if length (tb_entries t) < upb_table_size t then UB
      else Ok (t\<lparr>tb_count := 0,
        tb_entries := replicate (upb_table_size t) zero_ent @ drop (upb_table_size t) (tb_entries t)\<rparr>))"

section \<open>Looking up, inserting and removing\<close>

definition upb_strtable_lookup2 :: "bytes upb_table \<Rightarrow> bytes \<Rightarrow> u64 option run" where
  "upb_strtable_lookup2 t key =
     bind_outcome (upb_Hash_NoSeed key (length key)) (\<lambda>hash. lookup t key hash streql)"

definition upb_strtable_remove2 :: "bytes upb_table \<Rightarrow> bytes \<Rightarrow> (bytes upb_table \<times> u64 option) run" where
  "upb_strtable_remove2 t key =
     bind_outcome (upb_Hash_NoSeed key (length key)) (\<lambda>hash. rm t key hash streql)"

text \<open>
  A resize inserts every pair of the old table into the new one, and does not look at whether that
  succeeded. Insertion and resizing call each other: \<open>ins\<close> is the insertion that the resize calls. The new
  table is never full, so the nesting is one deep; a table that is grown 31 times has no size any more,
  so 32 levels are never used up (\<open>Fail ENDLESS\<close>).
\<close>

type_synonym str_insert = "bytes upb_table \<Rightarrow> bytes \<Rightarrow> u64 \<Rightarrow> arena \<Rightarrow> nat \<Rightarrow> (bool \<times> bytes upb_table \<times> nat) run"

fun resize_loop :: "nat \<Rightarrow> str_insert \<Rightarrow> bytes upb_table \<Rightarrow> strtable_iter \<Rightarrow> bytes upb_table \<Rightarrow> arena \<Rightarrow> nat \<Rightarrow>
    (bytes upb_table \<times> nat) run" where
  "resize_loop 0 ins t i new_table a c = Fail ENDLESS"
| "resize_loop (Suc fuel) ins t i new_table a c =
     bind_outcome (upb_strtable_done t i) (\<lambda>stop.
       if stop then Ok (new_table, c)
       else
         bind_outcome (upb_strtable_iter_key t i) (\<lambda>key.
         bind_outcome (upb_strtable_iter_value t i) (\<lambda>v.
         bind_outcome (ins new_table key v a c) (\<lambda>(_, new_table, c).
         bind_outcome (upb_strtable_next t i) (\<lambda>i. resize_loop fuel ins t i new_table a c)))))"

definition strtable_resize :: "str_insert \<Rightarrow> bytes upb_table \<Rightarrow> nat \<Rightarrow> arena \<Rightarrow> nat \<Rightarrow> (bool \<times> bytes upb_table \<times> nat) run" where
  "strtable_resize ins t size_lg2 a c =
     bind_outcome (init size_lg2 a c) (\<lambda>(new_table, c).
       case new_table of None \<Rightarrow> Ok (False, t, c)
       | Some new_table \<Rightarrow>
           bind_outcome (upb_strtable_begin 0 t) (\<lambda>i.
           bind_outcome (resize_loop (upb_table_size t + 1) ins t i new_table a c) (\<lambda>(new_table, c).
             Ok (True, new_table, c))))"

fun strtable_insert :: "nat \<Rightarrow> str_insert" where
  "strtable_insert 0 t k v a c = Fail ENDLESS"
| "strtable_insert (Suc depth) t k v a c =
     bind_outcome
       (if isfull t then strtable_resize (strtable_insert depth) t (tb_size_lg2 t + 1) a c else Ok (True, t, c))
       (\<lambda>(ok, t, c).
         if \<not> ok then Ok (False, t, c)
         else case strcopy k a c of
             (None, c) \<Rightarrow> Ok (False, t, c)
           | (Some tabkey, c) \<Rightarrow>
               bind_outcome (upb_Hash_NoSeed k (length k)) (\<lambda>hash.
               bind_outcome (insert_entry t (Some tabkey) v hash strhash) (\<lambda>t. Ok (True, t, c))))"

definition upb_strtable_insert :: str_insert where
  "upb_strtable_insert = strtable_insert 32"

definition upb_strtable_resize :: "bytes upb_table \<Rightarrow> nat \<Rightarrow> arena \<Rightarrow> nat \<Rightarrow> (bool \<times> bytes upb_table \<times> nat) run" where
  "upb_strtable_resize = strtable_resize upb_strtable_insert"

definition upb_strtable_count :: "bytes upb_table \<Rightarrow> u64" where
  "upb_strtable_count t = tb_count t"

end
