(* ===== verification/Upb_Strmap.thy ===== *)
theory Upb_Strmap
  imports Upb_Strtable
begin

text \<open>
  The table with string keys is a finite map: lookups, insertions that grow the table and removals answer
  and act as on the map, for any sequence of them. The memory requests are met here; what happens when
  they are not, and what happens in the corners the code does not handle, is shown on concrete tables.
\<close>

interpretation str: hash_key strhash streql string_hash
  using upb_Hash_NoSeed_local [of _ "[]"] by unfold_locales (auto simp: strhash_def streql_def)

definition enough :: arena where
  "enough i n = True"

definition short_key :: "bytes \<Rightarrow> bool" where
  "short_key k \<longleftrightarrow> length k < 2 ^ 32"

definition str_wf :: "bytes upb_table \<Rightarrow> bool" where
  "str_wf t \<longleftrightarrow> table_wf string_hash t \<and> (\<forall>k\<in>dom (the_map t). short_key k)"

definition str_room :: "bytes upb_table \<Rightarrow> nat \<Rightarrow> bool" where
  "str_room t n \<longleftrightarrow> card (dom (the_map t)) + n \<le> load_limit (2 ^ 30)"

section \<open>Looking up and removing\<close>

lemma strtable_lookup: "str_wf t \<Longrightarrow> upb_strtable_lookup2 t k = Ok (the_map t k)"
  using upb_Hash_NoSeed_local [of k "[]"] str.lookup_map [of t k]
  by (simp add: upb_strtable_lookup2_def str_wf_def)

lemma strtable_remove:
  assumes "str_wf t" "tb_size_lg2 t \<noteq> 0"
  obtains t' where "upb_strtable_remove2 t k = Ok (t', the_map t k)" "str_wf t'" "tb_size_lg2 t' = tb_size_lg2 t"
    "the_map t' = (the_map t)(k := None)"
proof -
  obtain t' where "rm t k (string_hash k) streql = Ok (t', the_map t k)" "table_wf string_hash t'"
    "the_map t' = (the_map t)(k := None)" "tb_size_lg2 t' = tb_size_lg2 t"
    using str.rm_map [of t k] assms by (auto simp: str_wf_def)
  then show ?thesis
    using that [of t'] assms upb_Hash_NoSeed_local [of k "[]"] by (simp add: upb_strtable_remove2_def str_wf_def)
qed

section \<open>Inserting into a table that is not full\<close>

lemma strcopy_enough: "short_key k \<Longrightarrow> strcopy k enough c = (Some k, c + 1)"
  by (simp add: strcopy_def enough_def short_key_def)

lemma insert_not_full:
  assumes "\<not> isfull t" "short_key k"
  shows "strtable_insert (Suc d) t k v enough c =
    bind_outcome (insert_entry t (Some k) v (string_hash k) strhash) (\<lambda>t. Ok (True, t, c + 1))"
  using assms upb_Hash_NoSeed_local [of k "[]"] by (simp add: strcopy_enough)

section \<open>Growing\<close>

lemma iter_at:
  assumes t: "table_wf string_hash t" and j: "j < length (tb_entries t)" "ent_key (tb_entries t ! j) = Some k"
    and i: "si_t i = Some a" "si_index i = of_nat j"
  shows "upb_strtable_done t i = Ok False" "upb_strtable_iter_key t i = Ok k"
    "upb_strtable_iter_value t i = Ok (ent_val (tb_entries t ! j))"
    "upb_strtable_next t i = Ok (i\<lparr>si_index :=
       (case filter (used (tb_entries t)) [Suc j..<length (tb_entries t)] of [] \<Rightarrow> SIZE_MAX - 1 | j # _ \<Rightarrow> of_nat j)\<rparr>)"
proof -
  have n: "length (tb_entries t) = upb_table_size t" "upb_table_size t \<le> 2 ^ 30"
    using t table_size_bound [of t] by (auto simp: table_wf_def table_shape_def)
  have uj: "unat (of_nat j :: u64) = j" "unat (of_nat j + 1 :: u64) = Suc j"
    using index_word [of j] j(1) n by simp_all
  show "upb_strtable_done t i = Ok False" "upb_strtable_iter_key t i = Ok k"
    "upb_strtable_iter_value t i = Ok (ent_val (tb_entries t ! j))"
    using uj j i n
    by (simp_all add: upb_strtable_done_def upb_strtable_iter_key_def upb_strtable_iter_value_def str_tabent_def upb_tabent_isempty_def)
  show "upb_strtable_next t i = Ok (i\<lparr>si_index :=
       (case filter (used (tb_entries t)) [Suc j..<length (tb_entries t)] of [] \<Rightarrow> SIZE_MAX - 1 | j # _ \<Rightarrow> of_nat j)\<rparr>)"
    using next_loop_result [of "tb_entries t" "Suc j"] uj i n by (simp add: upb_strtable_next_def table_next_def)
qed

lemma iter_end:
  assumes "table_wf string_hash t" "si_index i = SIZE_MAX - 1"
  shows "upb_strtable_done t i = Ok True"
proof -
  have "upb_table_size t \<le> 2 ^ 30" using assms table_size_bound [of t] by (simp add: table_wf_def)
  moreover have "unat (SIZE_MAX - 1) = 18446744073709551614" by simp
  ultimately show ?thesis using assms(2) by (simp add: upb_strtable_done_def)
qed

text \<open>The loop of a resize inserts the pairs of the old table one after the other.\<close>

lemma resize_loop_all:
  assumes t: "table_wf string_hash t"
  shows "filter (used (tb_entries t)) [i..<length (tb_entries t)] = js \<Longrightarrow> si_t it = Some ad \<Longrightarrow>
    si_index it = (case js of [] \<Rightarrow> SIZE_MAX - 1 | j # _ \<Rightarrow> of_nat j) \<Longrightarrow>
    length js < fuel \<Longrightarrow> sized_wf string_hash nt \<Longrightarrow> has_room nt (length js) \<Longrightarrow>
    distinct (map fst (map (pair_at (tb_entries t)) js)) \<Longrightarrow>
    (\<And>k v. (k, v) \<in> set (map (pair_at (tb_entries t)) js) \<Longrightarrow> short_key k \<and> the_map nt k = None) \<Longrightarrow>
    \<exists>c'. resize_loop fuel (strtable_insert (Suc d)) t it nt enough c =
      bind_outcome (insert_all (\<lambda>t k v. insert_entry t (Some k) v (string_hash k) strhash)
        (map (pair_at (tb_entries t)) js) nt) (\<lambda>nt. Ok (nt, c'))"
proof (induction js arbitrary: i it nt fuel c)
  case Nil
  then obtain f where "fuel = Suc f" by (cases fuel) auto
  then show ?case using iter_end [OF t, of it] Nil by simp
next
  case (Cons j js)
  let ?es = "tb_entries t"
  obtain f where f: "fuel = Suc f" using Cons.prems(4) by (cases fuel) auto
  have j: "j < length ?es" "used ?es j" "filter (used ?es) [Suc j..<length ?es] = js"
    using filter_upt_Cons [OF Cons.prems(1)] by auto
  then obtain k where k: "ent_key (?es ! j) = Some k" by auto
  let ?v = "ent_val (?es ! j)"
  have kv: "pair_at ?es j = (k, ?v)" by (simp add: pair_at_def k)
  have sk: "short_key k" "the_map nt k = None" using Cons.prems(8) [of k ?v] kv by auto
  have nf: "\<not> isfull nt"
    using Cons.prems(5,6) isfull_iff [of string_hash nt] by (auto simp: sized_wf_def has_room_def)
  obtain nt1 where nt1: "insert_entry nt (Some k) ?v (string_hash k) strhash = Ok nt1" "sized_wf string_hash nt1"
    "has_room nt1 (length js)" "the_map nt1 = (the_map nt)(k \<mapsto> ?v)"
    using str.base.ins [of nt "length js" k ?v] Cons.prems(5,6) sk(2) by auto
  let ?it = "it\<lparr>si_index := (case js of [] \<Rightarrow> SIZE_MAX - 1 | j # _ \<Rightarrow> of_nat j)\<rparr>"
  note at = iter_at [OF t j(1) k Cons.prems(2), unfolded j(3)]
  have "\<exists>c'. resize_loop f (strtable_insert (Suc d)) t ?it nt1 enough (c + 1) =
      bind_outcome (insert_all (\<lambda>t k v. insert_entry t (Some k) v (string_hash k) strhash)
        (map (pair_at ?es) js) nt1) (\<lambda>nt. Ok (nt, c'))"
  proof (rule Cons.IH [OF j(3)])
    fix k' v'
    assume at': "(k', v') \<in> set (map (pair_at ?es) js)"
    then have "k' \<in> set (map fst (map (pair_at ?es) js))" by (metis fst_conv image_eqI list.set_map)
    then have "k' \<noteq> k" using Cons.prems(7) kv by auto
    with at' show "short_key k' \<and> the_map nt1 k' = None" using Cons.prems(8) [of k' v'] nt1(4) by auto
  qed (use Cons.prems f nt1 in auto)
  moreover have "strtable_insert (Suc d) nt k ?v enough c = Ok (True, nt1, c + 1)"
    using insert_not_full [OF nf sk(1)] nt1(1) by simp
  ultimately show ?case
    using at Cons.prems(3) nt1(1) kv by (simp only: f resize_loop.simps) simp
qed

lemma resize_map:
  assumes t: "str_wf t" and lg2: "lg2 \<noteq> 0" "lg2 \<le> 30" and room: "length (pairs (tb_entries t)) + n \<le> load_limit (2 ^ lg2)"
  obtains nt c' where "strtable_resize (strtable_insert (Suc d)) t lg2 enough c = Ok (True, nt, c')"
    "sized_wf string_hash nt" "has_room nt n" "the_map nt = the_map t"
proof -
  let ?es = "tb_entries t" and ?js = "filter (used (tb_entries t)) [0..<length (tb_entries t)]"
  have wf: "table_wf string_hash t" using t by (simp add: str_wf_def)
  then have one: "one_each ?es" and size: "length ?es = upb_table_size t" by (auto simp: table_wf_def table_shape_def)
  obtain nt0 c0 where nt0: "init lg2 enough c = Ok (Some nt0, c0)" "table_wf string_hash nt0" "tb_size_lg2 nt0 = lg2"
    "tb_entries nt0 = replicate (upb_table_size nt0) zero_ent" "the_map nt0 = Map.empty"
    using init_result [OF lg2(2), where hash = string_hash and k = c and a = enough] unfolding enough_def by metis
  have nsize: "upb_table_size nt0 = 2 ^ lg2" using nt0(3) lg2 by (simp add: upb_table_size_def)
  have nwf: "sized_wf string_hash nt0" "has_room nt0 (length (pairs ?es) + n)"
    using nt0 lg2 room nsize by (auto simp: sized_wf_def has_room_def)
  have ps: "pairs ?es = map (pair_at ?es) ?js" by (rule pairs_in_order)
  then have len: "length ?js = length (pairs ?es)" by simp
  define it where "it = \<lparr>si_t = Some (0::nat), si_index = (case ?js of [] \<Rightarrow> SIZE_MAX - 1 | j # _ \<Rightarrow> of_nat j)\<rparr>"
  have it: "upb_strtable_begin 0 t = Ok it"
    using next_loop_result [of ?es 0] size by (simp add: upb_strtable_begin_def table_begin_def table_next_def it_def)
  have room_less: "has_room nt0 (length ?js)" using nwf(2) len by (simp add: has_room_def)
  have fuel: "length ?js < upb_table_size t + 1" using length_filter_le [of "used ?es" "[0..<length ?es]"] size by simp
  have fresh: "short_key k \<and> the_map nt0 k = None" if "(k, v) \<in> set (map (pair_at ?es) ?js)" for k v
  proof -
    have "(k, v) \<in> set (pairs ?es)" unfolding ps by (rule that)
    then have "the_map t k = Some v" using one by (simp add: table_map_def one_each_def)
    then have "k \<in> dom (the_map t)" by auto
    then show ?thesis using t nt0(5) by (simp add: str_wf_def)
  qed
  have "\<exists>c'. resize_loop (upb_table_size t + 1) (strtable_insert (Suc d)) t it nt0 enough c0 =
      bind_outcome (insert_all (\<lambda>t k v. insert_entry t (Some k) v (string_hash k) strhash) (map (pair_at ?es) ?js) nt0) (\<lambda>nt. Ok (nt, c'))"
    by (rule resize_loop_all [OF wf refl _ _ fuel nwf(1) room_less one [unfolded one_each_def ps] fresh])
      (simp_all add: it_def)
  then obtain c' where loop: "resize_loop (upb_table_size t + 1) (strtable_insert (Suc d)) t it nt0 enough c0 =
      bind_outcome (insert_all (\<lambda>t k v. insert_entry t (Some k) v (string_hash k) strhash) (pairs ?es) nt0) (\<lambda>nt. Ok (nt, c'))"
    unfolding ps by blast
  obtain nt where nt: "insert_all (\<lambda>t k v. insert_entry t (Some k) v (string_hash k) strhash) (pairs ?es) nt0 = Ok nt"
    "sized_wf string_hash nt" "has_room nt n" "the_map nt = the_map t"
    using str.base.insert_all_map [OF nwf] one nt0(5) by (auto simp: one_each_def table_map_def)
  show ?thesis
  proof (rule that)
    show "strtable_resize (strtable_insert (Suc d)) t lg2 enough c = Ok (True, nt, c')"
      unfolding strtable_resize_def nt0(1) bind_outcome.simps prod.case option.case it loop nt(1) by simp
  qed (use nt in simp_all)
qed

section \<open>Inserting\<close>

text \<open>Whether the table had to grow or not, there is a table with the same map and room for the key.\<close>

lemma grown_if_full:
  assumes t: "str_wf t" and room: "str_room t (Suc n)"
  obtains t1 c1 where "(if isfull t then strtable_resize (strtable_insert (Suc d)) t (tb_size_lg2 t + 1) enough c
      else Ok (True, t, c)) = Ok (True, t1, c1)" "sized_wf string_hash t1" "has_room t1 1" "the_map t1 = the_map t"
proof -
  let ?n = "tb_size_lg2 t"
  have wf: "table_wf string_hash t" using t by (simp add: str_wf_def)
  show ?thesis
  proof (cases "isfull t")
    case True
    then have full: "length (pairs (tb_entries t)) = load_limit (upb_table_size t)" using isfull_iff [OF wf] by simp
    have "?n \<noteq> 30"
      using full room pairs_count [OF wf] by (auto simp: str_room_def upb_table_size_def)
    then have "?n < 30" using wf by (simp add: table_wf_def table_shape_def)
    moreover have "load_limit (upb_table_size t) + 1 \<le> load_limit (2 ^ (?n + 1))"
      using load_limit_double [of ?n] by (cases "?n = 0") (simp_all add: upb_table_size_def load_limit_def)
    ultimately obtain nt c' where "strtable_resize (strtable_insert (Suc d)) t (?n + 1) enough c = Ok (True, nt, c')"
      "sized_wf string_hash nt" "has_room nt 1" "the_map nt = the_map t"
      using resize_map [OF t, of "?n + 1" 1 d c] full by auto
    then show ?thesis using that [of nt c'] True by simp
  next
    case False
    then have "length (pairs (tb_entries t)) < load_limit (upb_table_size t)"
      using isfull_iff [OF wf] wf by (simp add: table_wf_def)
    then have "sized_wf string_hash t" "has_room t 1"
      using wf by (auto simp: sized_wf_def has_room_def upb_table_size_def load_limit_def split: if_splits)
    then show ?thesis using that [of t c] False by simp
  qed
qed

lemma strtable_insert_map:
  assumes t: "str_wf t" and new: "the_map t k = None" "short_key k" and room: "str_room t (Suc n)"
  obtains t' c' where "upb_strtable_insert t k v enough c = Ok (True, t', c')" "str_wf t'" "tb_size_lg2 t' \<noteq> 0"
    "str_room t' n" "the_map t' = (the_map t)(k \<mapsto> v)"
proof -
  obtain t1 c1 where t1: "(if isfull t then strtable_resize (strtable_insert (Suc 30)) t (tb_size_lg2 t + 1) enough c
      else Ok (True, t, c)) = Ok (True, t1, c1)" "sized_wf string_hash t1" "has_room t1 1" "the_map t1 = the_map t"
    using grown_if_full [OF t room] .
  obtain t' where t': "insert_entry t1 (Some k) v (string_hash k) strhash = Ok t'" "sized_wf string_hash t'"
    "the_map t' = (the_map t)(k \<mapsto> v)"
    using str.base.ins [of t1 0 k v] t1 new(1) by auto
  have "strtable_insert (Suc (Suc 30)) t k v enough c = Ok (True, t', c1 + 1)"
    unfolding strtable_insert.simps t1(1)
    using strcopy_enough [OF new(2), of c1] upb_Hash_NoSeed_local [of k "[]"] t'(1) by simp
  then have "upb_strtable_insert t k v enough c = Ok (True, t', c1 + 1)"
    by (simp add: upb_strtable_insert_def numeral_eq_Suc del: strtable_insert.simps)
  moreover have "str_room t' n" using room new(1) by (simp add: str_room_def t'(3) domIff)
  moreover have "str_wf t'" using t t' new(2) by (auto simp: str_wf_def sized_wf_def split: if_splits)
  ultimately show ?thesis using that t' by (auto simp: sized_wf_def)
qed

section \<open>The contract\<close>

text \<open>An insertion whose failure would end the run.\<close>

definition str_put :: "bytes upb_table \<Rightarrow> bytes \<Rightarrow> u64 \<Rightarrow> bytes upb_table run" where
  "str_put t k v = bind_outcome (upb_strtable_insert t k v enough 0) (\<lambda>(ok, t, c). if ok then Ok t else Fail ENDLESS)"

definition str_map_wf :: "bytes upb_table \<Rightarrow> bool" where
  "str_map_wf t \<longleftrightarrow> str_wf t \<and> tb_size_lg2 t \<noteq> 0"

interpretation strtab: map_impl str_map_wf the_map str_room short_key "\<lambda>v. True"
  upb_strtable_lookup2 str_put upb_strtable_remove2
proof (unfold_locales, goal_cases)
  case (1 t n)
  then show ?case by (simp add: str_room_def)
next
  case (2 t k)
  then show ?case by (simp add: str_map_wf_def strtable_lookup)
next
  case (3 t n k v)
  then have "str_wf t" by (simp add: str_map_wf_def)
  then show ?case
    using strtable_insert_map [OF _ 3(5,3,2), of v 0] by (fastforce simp: str_put_def str_map_wf_def)
next
  case (4 t n k)
  then obtain t' where t': "upb_strtable_remove2 t k = Ok (t', the_map t k)" "str_wf t'" "tb_size_lg2 t' = tb_size_lg2 t"
    "the_map t' = (the_map t)(k := None)"
    using strtable_remove [of t k] by (auto simp: str_map_wf_def)
  have "card (dom (the_map t')) \<le> card (dom (the_map t))" unfolding t'(4) by (intro card_mono) auto
  then show ?case using t' 4 by (auto simp: str_map_wf_def str_room_def)
qed

section \<open>Making a table\<close>

lemma bit_length_le: "n < 2 ^ k \<Longrightarrow> bit_length n \<le> k"
proof (induction k arbitrary: n)
  case (Suc k)
  then show ?case using Suc.IH [of "n div 2"] by (simp add: bit_length.simps [of n] less_mult_imp_div_less)
qed (simp add: bit_length.simps)

lemma bit_length_pos: "0 < n \<Longrightarrow> 0 < bit_length n"
  by (simp add: bit_length.simps)

lemma small_int: "m \<le> 2 ^ 30 \<Longrightarrow> sint (ucast (of_nat m :: u64) :: u32) = int m"
  by (simp add: sint_uint unsigned_of_nat take_bit_nat_eq_self signed_take_bit_int_eq_self)

lemma Log2Ceiling_nat: "1 < m \<Longrightarrow> upb_Log2Ceiling (int m) = bit_length (m - 1)"
  by (simp add: upb_Log2Ceiling_def nat_diff_distrib)

lemma strtable_init_map:
  assumes n: "1 \<le> n" "n < 2 ^ 29"
  obtains t c' where "upb_strtable_init (of_nat n) enough c = Ok (Some t, c')" "str_map_wf t" "the_map t = Map.empty"
proof -
  let ?need = "(n + 1) * 1204 div 1024"
  have need: "1 < ?need" "?need \<le> 2 ^ 30" using n by (auto simp: div_le_mono)
  have "((of_nat n + 1) * 1204 div 1024 :: u64) = of_nat ?need"
  proof -
    have "(of_nat n + 1) * 1204 = (of_nat ((n + 1) * 1204) :: u64)"
      by (simp only: of_nat_mult of_nat_add of_nat_1 of_nat_numeral)
    moreover have "unat (of_nat ((n + 1) * 1204) :: u64) = (n + 1) * 1204"
      by (rule unat_of_nat_small) (use n in simp)
    ultimately have "unat ((of_nat n + 1) * 1204 div 1024 :: u64) = ?need" by (simp only: unat_div) simp
    then have "of_nat (unat ((of_nat n + 1) * 1204 div 1024 :: u64)) = (of_nat ?need :: u64)" by (rule arg_cong)
    then show ?thesis by (simp only: of_nat_unat ucast_id)
  qed
  moreover have "sint (ucast (of_nat ?need :: u64) :: u32) = int ?need"
    by (rule small_int) (use need in simp)
  moreover have "upb_Log2Ceiling (int ?need) = bit_length (?need - 1)"
    by (rule Log2Ceiling_nat) (use need in simp)
  ultimately have i: "upb_strtable_init (of_nat n) enough c = init (bit_length (?need - 1)) enough c"
    by (simp only: upb_strtable_init_def Let_def)
  have lg2: "bit_length (?need - 1) \<le> 30" "bit_length (?need - 1) \<noteq> 0"
    using bit_length_le [of "?need - 1" 30] bit_length_pos [of "?need - 1"] need by auto
  obtain t c' where "init (bit_length (?need - 1)) enough c = Ok (Some t, c')" "table_wf string_hash t"
    "tb_size_lg2 t = bit_length (?need - 1)" "the_map t = Map.empty"
    using init_result [OF lg2(1), where hash = string_hash and k = c and a = enough] unfolding enough_def by metis
  then show ?thesis using that i lg2(2) by (simp add: str_map_wf_def str_wf_def)
qed

section \<open>Iterating\<close>

text \<open>The loop the header gives for going through a table, from \<open>UPB_STRTABLE_BEGIN\<close>.\<close>

fun str_collect :: "nat \<Rightarrow> bytes upb_table \<Rightarrow> u64 \<Rightarrow> (bytes \<times> u64) list run" where
  "str_collect 0 t iter = Fail ENDLESS"
| "str_collect (Suc fuel) t iter =
     bind_outcome (upb_strtable_next2 t iter) (\<lambda>r. case r of None \<Rightarrow> Ok []
       | Some (k, v, iter) \<Rightarrow> bind_outcome (str_collect fuel t iter) (\<lambda>ps. Ok ((k, v) # ps)))"

lemma str_collect_from:
  assumes t: "table_wf hash t"
  shows "filter (used (tb_entries t)) [unat (iter + 1)..<length (tb_entries t)] = js \<Longrightarrow> length js < fuel \<Longrightarrow>
    str_collect fuel t iter = Ok (map (pair_at (tb_entries t)) js)"
proof (induction js arbitrary: iter fuel)
  case Nil
  have n: "length (tb_entries t) = upb_table_size t" "upb_table_size t \<le> 2 ^ 30"
    using t table_size_bound [of t] by (auto simp: table_wf_def table_shape_def)
  obtain f where "fuel = Suc f" using Nil.prems(2) by (cases fuel) auto
  moreover have "upb_strtable_next2 t iter = Ok None"
    using next_loop_result [of "tb_entries t" "unat (iter + 1)"] Nil.prems n
    by (simp add: upb_strtable_next2_def table_next_def)
  ultimately show ?case by simp
next
  case (Cons j js)
  let ?es = "tb_entries t"
  have n: "length ?es = upb_table_size t" "upb_table_size t \<le> 2 ^ 30"
    using t table_size_bound [of t] by (auto simp: table_wf_def table_shape_def)
  obtain f where f: "fuel = Suc f" using Cons.prems(2) by (cases fuel) auto
  have j: "j < length ?es" "used ?es j" "filter (used ?es) [Suc j..<length ?es] = js"
    using filter_upt_Cons [OF Cons.prems(1)] by auto
  then obtain k where k: "ent_key (?es ! j) = Some k" by auto
  have uj: "unat (of_nat j :: u64) = j" and uj1: "unat (of_nat j + 1 :: u64) = Suc j"
    using index_word [of j] j(1) n by simp_all
  have "upb_strtable_next2 t iter = Ok (Some (k, ent_val (?es ! j), of_nat j))"
    using next_loop_result [of ?es "unat (iter + 1)"] Cons.prems(1) n j k uj
    by (simp add: upb_strtable_next2_def table_next_def)
  moreover have "str_collect f t (of_nat j) = Ok (map (pair_at ?es) js)"
    by (rule Cons.IH) (use uj1 j(3) Cons.prems(2) f in auto)
  ultimately show ?case by (simp add: f pair_at_def k)
qed

section \<open>What the string table promises\<close>

text \<open>
  C27: A table with string keys made for at least one and fewer than \<open>2 ^ 29\<close> keys, with an arena that never refuses
  memory, answers every sequence of at most 900000000 lookups, insertions of new keys (shorter than \<open>2 ^ 32\<close> octets) and
  removals as a finite map does, starting from the empty one, growing as it must; it never reads outside its entries
  and every operation returns. Outside these conditions it can fail: \<open>strtable_resize_loses\<close>, \<open>remove_from_size_0\<close> and
  \<open>init_overflow\<close>.
\<close>

theorem strtable_refines_map:
  assumes "1 \<le> n" "n < 2 ^ 29" "length ops \<le> 900000000" "legal short_key (\<lambda>v. True) ops Map.empty"
  shows "\<exists>t c' t'. upb_strtable_init (of_nat n) enough c = Ok (Some t, c') \<and>
    run_ops upb_strtable_lookup2 str_put upb_strtable_remove2 ops t = Ok (fst (map_ops ops Map.empty), t') \<and>
    the_map t' = snd (map_ops ops Map.empty)"
proof -
  obtain t c' where t: "upb_strtable_init (of_nat n) enough c = Ok (Some t, c')" "str_map_wf t" "the_map t = Map.empty"
    using strtable_init_map [OF assms(1,2)] .
  have room: "str_room t (length ops)" using assms(3) by (simp add: str_room_def t(3) load_limit_def)
  have "\<exists>rs t'. run_ops upb_strtable_lookup2 str_put upb_strtable_remove2 ops t = Ok (rs, t') \<and> str_map_wf t' \<and>
      map_ops ops (the_map t) = (rs, the_map t')"
    by (rule strtab.run_ops_map [OF t(2) room]) (use assms(4) t(3) in simp)
  then show ?thesis using t by auto
qed

lemma strtable_refines_map_witness:
  "\<exists>t c' t'. upb_strtable_init (of_nat 4) enough 0 = Ok (Some t, c') \<and>
    run_ops upb_strtable_lookup2 str_put upb_strtable_remove2
      [Insert [104, 105] 7, Lookup [104, 105], Remove [104, 105], Insert [] 9, Lookup [104, 105], Lookup []] t =
        Ok ([Some 7, Some 7, None, Some 9], t') \<and> the_map t' = [[] \<mapsto> 9]"
  using strtable_refines_map [of 4 "[Insert [104, 105] 7, Lookup [104, 105], Remove [104, 105], Insert [] 9, Lookup [104, 105], Lookup []]" 0]
  by (simp add: short_key_def fun_upd_idem)

text \<open>
  C28: Going through a table by \<open>upb_strtable_next2\<close> yields every key of the map once, with its value.
\<close>

theorem strtable_iterates:
  assumes "str_wf t"
  shows "\<exists>ps. str_collect (upb_table_size t + 1) t (-1) = Ok ps \<and> distinct (map fst ps) \<and> map_of ps = the_map t"
proof -
  have wf: "table_wf string_hash t" using assms by (simp add: str_wf_def)
  let ?js = "filter (used (tb_entries t)) [0..<length (tb_entries t)]"
  have "length ?js < upb_table_size t + 1"
    using length_filter_le [of "used (tb_entries t)" "[0..<length (tb_entries t)]"] wf
    by (simp add: table_wf_def table_shape_def)
  then have "str_collect (upb_table_size t + 1) t (-1) = Ok (map (pair_at (tb_entries t)) ?js)"
    by (intro str_collect_from [OF wf]) simp_all
  then have "str_collect (upb_table_size t + 1) t (-1) = Ok (pairs (tb_entries t))"
    unfolding pairs_in_order .
  then show ?thesis using wf unfolding table_wf_def one_each_def table_map_def by blast
qed

lemma strtable_iterates_witness:
  "\<exists>t t' c ps. upb_strtable_init (of_nat 4) enough 0 = Ok (Some t, c) \<and> str_put t [104] 5 = Ok t' \<and>
    str_collect (upb_table_size t' + 1) t' (-1) = Ok ps \<and> distinct (map fst ps) \<and> map_of ps = [[104] \<mapsto> 5]"
proof -
  obtain t c where t: "upb_strtable_init (of_nat 4) enough 0 = Ok (Some t, c)" "str_map_wf t" "the_map t = Map.empty"
    using strtable_init_map [of 4 0] by auto
  obtain t' where t': "str_put t [104] 5 = Ok t'" "str_map_wf t'" "the_map t' = [[104] \<mapsto> 5]"
    using strtab.ins [OF t(2), of 0 "[104]" 5] t(3) by (auto simp: str_room_def load_limit_def short_key_def)
  show ?thesis using t t' strtable_iterates [of t'] by (auto simp: str_map_wf_def)
qed

text \<open>
  A resize that reports success with all its memory keeps the map, whatever size it was asked for, as
  long as the pairs fit under the load limit of that size.
\<close>

theorem strtable_resize_same:
  assumes "str_wf t" "lg2 \<noteq> 0" "lg2 \<le> 30" "card (dom (the_map t)) \<le> load_limit (2 ^ lg2)"
  shows "\<exists>t' c'. upb_strtable_resize t lg2 enough c = Ok (True, t', c') \<and> str_wf t' \<and> the_map t' = the_map t"
proof -
  have "length (pairs (tb_entries t)) + 0 \<le> load_limit (2 ^ lg2)"
    using assms(1,4) pairs_count [of string_hash t] by (simp add: str_wf_def)
  from resize_map [OF assms(1-3) this, of 31 c]
  obtain nt c' where "strtable_resize (strtable_insert (Suc 31)) t lg2 enough c = Ok (True, nt, c')"
    "sized_wf string_hash nt" "the_map nt = the_map t" .
  then show ?thesis
    using assms(1) by (auto simp: upb_strtable_resize_def upb_strtable_insert_def str_wf_def sized_wf_def numeral_eq_Suc
      simp del: strtable_insert.simps)
qed

lemma strtable_resize_same_witness:
  "\<exists>t t1 t2 c c2. upb_strtable_init (of_nat 4) enough 0 = Ok (Some t, c) \<and> str_put t [104] 5 = Ok t1 \<and>
    upb_strtable_resize t1 1 enough 0 = Ok (True, t2, c2) \<and> the_map t2 = [[104] \<mapsto> 5]"
proof -
  obtain t c where t: "upb_strtable_init (of_nat 4) enough 0 = Ok (Some t, c)" "str_map_wf t" "the_map t = Map.empty"
    using strtable_init_map [of 4 0] by auto
  obtain t' where t': "str_put t [104] 5 = Ok t'" "str_map_wf t'" "the_map t' = [[104] \<mapsto> 5]"
    using strtab.ins [OF t(2), of 0 "[104]" 5] t(3) by (auto simp: str_room_def load_limit_def short_key_def)
  show ?thesis
    using t t' strtable_resize_same [of t' 1 0] by (auto simp: str_map_wf_def load_limit_def)
qed

section \<open>What the code does not handle\<close>

text \<open>Memory for the first request and for no other.\<close>

definition only_first :: arena where
  "only_first i n \<longleftrightarrow> i = 0"

lemma resize_loop_fails:
  assumes t: "table_wf string_hash t" and full: "\<not> isfull nt"
  shows "filter (used (tb_entries t)) [i..<length (tb_entries t)] = js \<Longrightarrow> si_t it = Some ad \<Longrightarrow>
    si_index it = (case js of [] \<Rightarrow> SIZE_MAX - 1 | j # _ \<Rightarrow> of_nat j) \<Longrightarrow> length js < fuel \<Longrightarrow> 0 < c \<Longrightarrow>
    \<exists>c'. resize_loop fuel (strtable_insert (Suc d)) t it nt only_first c = Ok (nt, c')"
proof (induction js arbitrary: i it fuel c)
  case Nil
  then obtain f where "fuel = Suc f" by (cases fuel) auto
  then show ?case using iter_end [OF t, of it] Nil by simp
next
  case (Cons j js)
  obtain f where f: "fuel = Suc f" using Cons.prems(4) by (cases fuel) auto
  have j: "j < length (tb_entries t)" "used (tb_entries t) j" "filter (used (tb_entries t)) [Suc j..<length (tb_entries t)] = js"
    using filter_upt_Cons [OF Cons.prems(1)] by auto
  then obtain k where k: "ent_key (tb_entries t ! j) = Some k" by auto
  note at = iter_at [OF t j(1) k Cons.prems(2), unfolded j(3)]
  have "strtable_insert (Suc d) nt k (ent_val (tb_entries t ! j)) only_first c = Ok (False, nt, c + 1)"
    using full Cons.prems(5) by (simp add: strcopy_def only_first_def)
  moreover have "\<exists>c'. resize_loop f (strtable_insert (Suc d)) t
      (it\<lparr>si_index := (case js of [] \<Rightarrow> SIZE_MAX - 1 | j # _ \<Rightarrow> of_nat j)\<rparr>) nt only_first (c + 1) = Ok (nt, c')"
    by (rule Cons.IH [OF j(3)]) (use Cons.prems f in auto)
  ultimately show ?case using at Cons.prems(3) by (simp only: f resize_loop.simps) simp
qed

text \<open>
  C29: The resize of a table does not notice that the keys could not be copied: with memory for the new
  entries alone it reports success and leaves an empty table, whatever was in the old one.
\<close>

theorem strtable_resize_loses:
  assumes "str_wf t" "lg2 \<noteq> 0" "lg2 \<le> 30"
  shows "\<exists>t' c'. upb_strtable_resize t lg2 only_first 0 = Ok (True, t', c') \<and> the_map t' = Map.empty"
proof -
  let ?es = "tb_entries t" and ?js = "filter (used (tb_entries t)) [0..<length (tb_entries t)]"
  have wf: "table_wf string_hash t" using assms(1) by (simp add: str_wf_def)
  then have size: "length ?es = upb_table_size t" by (simp add: table_wf_def table_shape_def)
  obtain nt c0 where nt: "init lg2 only_first 0 = Ok (Some nt, c0)" "table_wf string_hash nt" "tb_size_lg2 nt = lg2"
    "tb_entries nt = replicate (upb_table_size nt) zero_ent" "the_map nt = Map.empty"
    using init_result [OF assms(3), where hash = string_hash and k = 0 and a = only_first] unfolding only_first_def by metis
  have "c0 = 1" using nt(1) assms(2,3) by (simp add: init_def tabent_size_def only_first_def Let_def)
  have "(2::nat) \<le> 2 ^ lg2" using assms(2) by (cases lg2) auto
  then have full: "\<not> isfull nt"
    using nt(3,4) assms(2) isfull_iff [OF nt(2)] by (simp add: load_limit_def upb_table_size_def)
  define it where "it = \<lparr>si_t = Some (0::nat), si_index = (case ?js of [] \<Rightarrow> SIZE_MAX - 1 | j # _ \<Rightarrow> of_nat j)\<rparr>"
  have it: "upb_strtable_begin 0 t = Ok it"
    using next_loop_result [of ?es 0] size by (simp add: upb_strtable_begin_def table_begin_def table_next_def it_def)
  have fuel: "length ?js < upb_table_size t + 1" using length_filter_le [of "used ?es" "[0..<length ?es]"] size by simp
  have "\<exists>c'. resize_loop (upb_table_size t + 1) (strtable_insert (Suc 31)) t it nt only_first c0 = Ok (nt, c')"
    by (rule resize_loop_fails [OF wf full refl _ _ fuel]) (simp_all add: it_def \<open>c0 = 1\<close>)
  then obtain c' where "resize_loop (upb_table_size t + 1) (strtable_insert (Suc 31)) t it nt only_first c0 = Ok (nt, c')"
    by blast
  then have "strtable_resize (strtable_insert (Suc 31)) t lg2 only_first 0 = Ok (True, nt, c')"
    unfolding strtable_resize_def nt(1) bind_outcome.simps prod.case option.case it by simp
  then show ?thesis
    using nt(5) by (auto simp: upb_strtable_resize_def upb_strtable_insert_def numeral_eq_Suc simp del: strtable_insert.simps)
qed

lemma strtable_resize_loses_witness:
  "\<exists>t t1 t2 c c2. upb_strtable_init (of_nat 4) enough 0 = Ok (Some t, c) \<and> str_put t [104] 5 = Ok t1 \<and>
    the_map t1 = [[104] \<mapsto> 5] \<and> upb_strtable_resize t1 3 only_first 0 = Ok (True, t2, c2) \<and> the_map t2 = Map.empty"
proof -
  obtain t c where t: "upb_strtable_init (of_nat 4) enough 0 = Ok (Some t, c)" "str_map_wf t" "the_map t = Map.empty"
    using strtable_init_map [of 4 0] by auto
  obtain t' where t': "str_put t [104] 5 = Ok t'" "str_map_wf t'" "the_map t' = [[104] \<mapsto> 5]"
    using strtab.ins [OF t(2), of 0 "[104]" 5] t(3) by (auto simp: str_room_def load_limit_def short_key_def)
  show ?thesis
    using t t' strtable_resize_loses [of t' 3] by (auto simp: str_map_wf_def)
qed

text \<open>A removal from a table made for no key reads through NULL.\<close>

lemma remove_from_size_0:
  "\<exists>t. upb_strtable_init 0 a c = Ok (Some t, c) \<and> upb_strtable_remove2 t k = UB"
  using upb_Hash_NoSeed_local [of k "[]"]
  by (simp add: upb_strtable_init_def upb_Log2Ceiling_def init_def upb_strtable_remove2_def rm_def)

text \<open>The number of entries is cut to an \<open>int\<close>: made for \<open>2 ^ 31\<close> keys, a table has no entry at all.\<close>

lemma init_overflow:
  "\<exists>t. upb_strtable_init (2 ^ 31) a c = Ok (Some t, c) \<and> tb_size_lg2 t = 0 \<and> upb_strtable_remove2 t k = UB"
  using upb_Hash_NoSeed_local [of k "[]"]
  by (simp add: upb_strtable_init_def upb_Log2Ceiling_def init_def upb_strtable_remove2_def rm_def)

text \<open>Made for 3483 keys, a table has to grow before it holds them.\<close>

lemma init_too_small:
  "\<exists>t c. upb_strtable_init 3483 enough 0 = Ok (Some t, c) \<and> tb_max_count t = 3481"
  by (simp add: upb_strtable_init_def upb_Log2Ceiling_def init_def enough_def tabent_size_def bit_length.simps)

end
