(* ===== verification/Upb_Inttable.thy ===== *)
theory Upb_Inttable
  imports Upb_Refine
begin

text \<open>
  The table with integer keys (\<open>upb_inttable\<close> of \<open>upb/table.c\<close>): small keys are kept in an array, the others
  in the hash table. The array is what its memory holds, which is the size rounded as the code's multiplication
  rounds it; an access beyond it is \<open>UB\<close>.
\<close>

section \<open>The data\<close>

record upb_inttable =
  it_t :: "u64 upb_table"
  it_array :: "u64 list"
  it_array_size :: u64
  it_array_count :: u64

text \<open>A key of the hash part; 0 is the empty key.\<close>

definition tabkey_num :: "u64 option \<Rightarrow> u64" where
  "tabkey_num k = (case k of None \<Rightarrow> 0 | Some n \<Rightarrow> n)"

definition intkey :: "u64 \<Rightarrow> u64 option" where
  "intkey key = (if key = 0 then None else Some key)"

definition upb_inthash :: "u64 \<Rightarrow> u32" where
  "upb_inthash key = ucast key"

definition inthash :: "u64 hashfunc" where
  "inthash key = Ok (upb_inthash (tabkey_num key))"

definition inteql :: "u64 eqlfunc" where
  "inteql k1 k2 = Ok (tabkey_num k1 = k2)"

definition upb_arrhas :: "u64 \<Rightarrow> bool" where
  "upb_arrhas v \<longleftrightarrow> v \<noteq> -1"

section \<open>Finding a value\<close>

text \<open>Where the value of a key is: in the array or in an entry of the hash part.\<close>

datatype place = In_Array nat | In_Hash nat

definition array_get :: "upb_inttable \<Rightarrow> u64 \<Rightarrow> u64 run" where
  "array_get t key = (if length (it_array t) \<le> unat key then UB else Ok (it_array t ! unat key))"

definition inttable_val :: "upb_inttable \<Rightarrow> u64 \<Rightarrow> place option run" where
  "inttable_val t key =
     (if key < it_array_size t then
        bind_outcome (array_get t key) (\<lambda>v. Ok (if upb_arrhas v then Some (In_Array (unat key)) else None))
      else
        bind_outcome (findentry (it_t t) key (upb_inthash key) inteql) (\<lambda>e. Ok (map_option In_Hash e)))"

definition val_at :: "upb_inttable \<Rightarrow> place \<Rightarrow> u64" where
  "val_at t p = (case p of In_Array i \<Rightarrow> it_array t ! i | In_Hash i \<Rightarrow> ent_val (tb_entries (it_t t) ! i))"

definition upb_inttable_lookup :: "upb_inttable \<Rightarrow> u64 \<Rightarrow> u64 option run" where
  "upb_inttable_lookup t key = bind_outcome (inttable_val t key) (\<lambda>p. Ok (map_option (val_at t) p))"

definition upb_inttable_count :: "upb_inttable \<Rightarrow> u64" where
  "upb_inttable_count t = tb_count (it_t t) + it_array_count t"

definition upb_inttable_replace :: "upb_inttable \<Rightarrow> u64 \<Rightarrow> u64 \<Rightarrow> (bool \<times> upb_inttable) run" where
  "upb_inttable_replace t key val =
     bind_outcome (inttable_val t key) (\<lambda>p. Ok
       (case p of None \<Rightarrow> (False, t)
        | Some (In_Array i) \<Rightarrow> (True, t\<lparr>it_array := (it_array t)[i := val]\<rparr>)
        | Some (In_Hash i) \<Rightarrow>
            (True, t\<lparr>it_t := (it_t t)\<lparr>tb_entries := (tb_entries (it_t t))[i := (tb_entries (it_t t) ! i)\<lparr>ent_val := val\<rparr>]\<rparr>\<rparr>)))"

section \<open>Making a table\<close>

text \<open>
  Whether it succeeded and the table, \<open>None\<close> when its fields are not all set. The array has at least one
  element, so key 0 is never in the hash part. The octets requested for it may wrap around.
\<close>

definition upb_inttable_sizedinit :: "u64 \<Rightarrow> nat \<Rightarrow> arena \<Rightarrow> nat \<Rightarrow> (bool \<times> upb_inttable option \<times> nat) run" where
  "upb_inttable_sizedinit asize hsize_lg2 a c =
     bind_outcome (init hsize_lg2 a c) (\<lambda>(h, c).
       case h of None \<Rightarrow> Ok (False, None, c)
       | Some h \<Rightarrow>
           let array_size = max 1 asize;
               array_bytes = array_size * 8;
               t = \<lparr>it_t = h, it_array = [], it_array_size = array_size, it_array_count = 0\<rparr> in
           if a c (unat array_bytes)
           then Ok (True, Some (t\<lparr>it_array := replicate (unat array_bytes div 8) (-1)\<rparr>), c + 1)
           else Ok (False, Some t, c + 1))"

definition upb_inttable_init :: "arena \<Rightarrow> nat \<Rightarrow> (bool \<times> upb_inttable option \<times> nat) run" where
  "upb_inttable_init a c = upb_inttable_sizedinit 0 4 a c"

section \<open>Inserting and removing\<close>

fun int_resize_loop :: "nat \<Rightarrow> u64 upb_table \<Rightarrow> u64 \<Rightarrow> u64 upb_table \<Rightarrow> u64 upb_table run" where
  "int_resize_loop 0 t i new_table = Fail ENDLESS"
| "int_resize_loop (Suc fuel) t i new_table =
     (if unat i < upb_table_size t then
        if length (tb_entries t) \<le> unat i then UB
        else
          let e = tb_entries t ! unat i;
              key = tabkey_num (ent_key e) in
          bind_outcome (insert_entry new_table (ent_key e) (ent_val e) (upb_inthash key) inthash) (\<lambda>new_table.
          bind_outcome (table_next t i) (\<lambda>i. int_resize_loop fuel t i new_table))
      else Ok new_table)"

definition upb_inttable_insert :: "upb_inttable \<Rightarrow> u64 \<Rightarrow> u64 \<Rightarrow> arena \<Rightarrow> nat \<Rightarrow> (bool \<times> upb_inttable \<times> nat) run" where
  "upb_inttable_insert t key val a c =
     (if key < it_array_size t then
        if length (it_array t) \<le> unat key then UB
        else Ok (True, t\<lparr>it_array_count := it_array_count t + 1, it_array := (it_array t)[unat key := val]\<rparr>, c)
      else
        bind_outcome
          (if isfull (it_t t) then
             bind_outcome (init (tb_size_lg2 (it_t t) + 1) a c) (\<lambda>(new_table, c).
               case new_table of None \<Rightarrow> Ok (False, t, c)
               | Some new_table \<Rightarrow>
                   bind_outcome (table_begin (it_t t)) (\<lambda>i.
                   bind_outcome (int_resize_loop (upb_table_size (it_t t) + 1) (it_t t) i new_table) (\<lambda>h.
                     Ok (True, t\<lparr>it_t := h\<rparr>, c))))
           else Ok (True, t, c))
          (\<lambda>(ok, t, c).
            if \<not> ok then Ok (False, t, c)
            else bind_outcome (insert_entry (it_t t) (intkey key) val (upb_inthash key) inthash) (\<lambda>h.
              Ok (True, t\<lparr>it_t := h\<rparr>, c))))"

definition upb_inttable_remove :: "upb_inttable \<Rightarrow> u64 \<Rightarrow> (upb_inttable \<times> u64 option) run" where
  "upb_inttable_remove t key =
     (if key < it_array_size t then
        bind_outcome (array_get t key) (\<lambda>v.
          if upb_arrhas v
          then Ok (t\<lparr>it_array_count := it_array_count t - 1, it_array := (it_array t)[unat key := -1]\<rparr>, Some v)
          else Ok (t, None))
      else
        bind_outcome (rm (it_t t) key (upb_inthash key) inteql) (\<lambda>(h, v). Ok (t\<lparr>it_t := h\<rparr>, v)))"

section \<open>Iterating\<close>

text \<open>The array part of an iteration: the next index below the size whose element is set.\<close>

function array_next :: "upb_inttable \<Rightarrow> nat \<Rightarrow> nat option run" where
  "array_next t i =
     (if unat (it_array_size t) \<le> i then Ok None
      else if length (it_array t) \<le> i then UB
      else if upb_arrhas (it_array t ! i) then Ok (Some i)
      else array_next t (i + 1))"
  by pat_completeness auto
termination by (relation "measure (\<lambda>(t, i). unat (it_array_size t) - i)") auto

declare array_next.simps [simp del]

record inttable_iter =
  ii_t :: "nat option"
  ii_index :: u64
  ii_array_part :: bool

definition upb_inttable_next :: "upb_inttable \<Rightarrow> inttable_iter \<Rightarrow> inttable_iter run" where
  "upb_inttable_next t iter =
     (if ii_array_part iter then
        bind_outcome (array_next t (unat (ii_index iter + 1))) (\<lambda>i. case i of
          Some i \<Rightarrow> Ok (iter\<lparr>ii_index := of_nat i\<rparr>)
        | None \<Rightarrow>
            bind_outcome (table_begin (it_t t)) (\<lambda>j. Ok (iter\<lparr>ii_array_part := False, ii_index := j\<rparr>)))
      else bind_outcome (table_next (it_t t) (ii_index iter)) (\<lambda>j. Ok (iter\<lparr>ii_index := j\<rparr>)))"

definition upb_inttable_begin :: "nat \<Rightarrow> upb_inttable \<Rightarrow> inttable_iter run" where
  "upb_inttable_begin addr t = upb_inttable_next t \<lparr>ii_t = Some addr, ii_index = -1, ii_array_part = True\<rparr>"

definition int_tabent :: "upb_inttable \<Rightarrow> inttable_iter \<Rightarrow> u64 tabent run" where
  "int_tabent t i =
     (if length (tb_entries (it_t t)) \<le> unat (ii_index i) then UB else Ok (tb_entries (it_t t) ! unat (ii_index i)))"

definition upb_inttable_done :: "upb_inttable \<Rightarrow> inttable_iter \<Rightarrow> bool run" where
  "upb_inttable_done t i =
     (if ii_t i = None then Ok True
      else if ii_array_part i then
        if it_array_size t \<le> ii_index i then Ok True
        else bind_outcome (array_get t (ii_index i)) (\<lambda>v. Ok (\<not> upb_arrhas v))
      else if unat (ii_index i) \<ge> upb_table_size (it_t t) then Ok True
      else bind_outcome (int_tabent t i) (\<lambda>e. Ok (upb_tabent_isempty e)))"

definition upb_inttable_iter_key :: "upb_inttable \<Rightarrow> inttable_iter \<Rightarrow> u64 run" where
  "upb_inttable_iter_key t i =
     (if ii_array_part i then Ok (ii_index i)
      else bind_outcome (int_tabent t i) (\<lambda>e. Ok (tabkey_num (ent_key e))))"

definition upb_inttable_iter_value :: "upb_inttable \<Rightarrow> inttable_iter \<Rightarrow> u64 run" where
  "upb_inttable_iter_value t i =
     (if ii_array_part i then array_get t (ii_index i)
      else bind_outcome (int_tabent t i) (\<lambda>e. Ok (ent_val e)))"

definition upb_inttable_iter_setdone :: "inttable_iter \<Rightarrow> inttable_iter" where
  "upb_inttable_iter_setdone i = \<lparr>ii_t = None, ii_index = SIZE_MAX, ii_array_part = False\<rparr>"

definition upb_inttable_iter_isequal ::
    "upb_inttable \<Rightarrow> upb_inttable \<Rightarrow> inttable_iter \<Rightarrow> inttable_iter \<Rightarrow> bool run" where
  "upb_inttable_iter_isequal t1 t2 i1 i2 =
     bind_outcome (upb_inttable_done t1 i1) (\<lambda>d1.
     bind_outcome (if d1 then upb_inttable_done t2 i2 else Ok False) (\<lambda>d2.
       Ok (d2 \<or> (ii_t i1 = ii_t i2 \<and> ii_index i1 = ii_index i2 \<and> ii_array_part i1 = ii_array_part i2))))"

text \<open>
  The iteration by an index: \<open>intptr_t i\<close> is compared with the unsigned size, so -1 is not below it and the
  array part is not entered from the start.
\<close>

definition upb_inttable_next2 :: "upb_inttable \<Rightarrow> u64 \<Rightarrow> (u64 \<times> u64 \<times> u64) option run" where
  "upb_inttable_next2 t i =
     bind_outcome
       (if i < it_array_size t then array_next t (unat (i + 1)) else Ok None)
       (\<lambda>r. case r of
          Some j \<Rightarrow> Ok (Some (of_nat j, it_array t ! j, of_nat j))
        | None \<Rightarrow>
            let i = (if i < it_array_size t then it_array_size t else i) in
            bind_outcome (table_next (it_t t) (if i = -1 then -1 else i - it_array_size t)) (\<lambda>tab_idx.
              if unat tab_idx < upb_table_size (it_t t) then
                if length (tb_entries (it_t t)) \<le> unat tab_idx then UB
                else
                  let ent = tb_entries (it_t t) ! unat tab_idx
                  in Ok (Some (tabkey_num (ent_key ent), ent_val ent, tab_idx + it_array_size t))
              else Ok None))"

definition upb_inttable_removeiter :: "upb_inttable \<Rightarrow> u64 \<Rightarrow> upb_inttable run" where
  "upb_inttable_removeiter t i =
     (if i < it_array_size t then
        if length (it_array t) \<le> unat i then UB
        else Ok (t\<lparr>it_array_count := it_array_count t - 1, it_array := (it_array t)[unat i := -1]\<rparr>)
      else
        bind_outcome (remove_at (it_t t) (unat (i - it_array_size t))) (\<lambda>h. Ok (t\<lparr>it_t := h\<rparr>)))"

section \<open>Compacting\<close>

definition is_pow2 :: "u64 \<Rightarrow> bool" where
  "is_pow2 v \<longleftrightarrow> v = 0 \<or> v AND (v - 1) = 0"

fun shift_count :: "nat \<Rightarrow> nat" where
  "shift_count v = (if v div 2 = 0 then 0 else Suc (shift_count (v div 2)))"

declare shift_count.simps [simp del]

abbreviation (input) UPB_MAXARRSIZE :: nat where "UPB_MAXARRSIZE \<equiv> 16"

definition log2ceil :: "u64 \<Rightarrow> nat" where
  "log2ceil v =
     (let ret = shift_count (unat v);
          ret = (if is_pow2 v then ret else ret + 1)
      in min UPB_MAXARRSIZE ret)"

text \<open>How many keys each bucket has and the largest key of each.\<close>

fun count_keys :: "nat \<Rightarrow> upb_inttable \<Rightarrow> inttable_iter \<Rightarrow> u64 list \<Rightarrow> u64 list \<Rightarrow> (u64 list \<times> u64 list) run" where
  "count_keys 0 t i counts maxs = Fail ENDLESS"
| "count_keys (Suc fuel) t i counts maxs =
     bind_outcome (upb_inttable_done t i) (\<lambda>stop.
       if stop then Ok (counts, maxs)
       else
         bind_outcome (upb_inttable_iter_key t i) (\<lambda>key.
           let bucket = log2ceil key in
           bind_outcome (upb_inttable_next t i) (\<lambda>i.
             count_keys fuel t i (counts[bucket := counts ! bucket + 1]) (maxs[bucket := max (maxs ! bucket) key]))))"

text \<open>The largest power of two with \<open>MIN_DENSITY\<close> (0.1) of its keys in use, and how many keys are then in the array.\<close>

fun array_part :: "u64 list \<Rightarrow> nat \<Rightarrow> u64 \<Rightarrow> nat \<times> u64" where
  "array_part counts 0 arr_count = (0, arr_count)"
| "array_part counts (Suc lg2) arr_count =
     (if counts ! Suc lg2 = 0 then array_part counts lg2 arr_count
      else if unat arr_count * 10 \<ge> 2 ^ Suc lg2 then (Suc lg2, arr_count)
      else array_part counts lg2 (arr_count - counts ! Suc lg2))"

fun reinsert_loop :: "nat \<Rightarrow> upb_inttable \<Rightarrow> inttable_iter \<Rightarrow> upb_inttable \<Rightarrow> arena \<Rightarrow> nat \<Rightarrow> (upb_inttable \<times> nat) run" where
  "reinsert_loop 0 t i new_t a c = Fail ENDLESS"
| "reinsert_loop (Suc fuel) t i new_t a c =
     bind_outcome (upb_inttable_done t i) (\<lambda>stop.
       if stop then Ok (new_t, c)
       else
         bind_outcome (upb_inttable_iter_key t i) (\<lambda>k.
         bind_outcome (upb_inttable_iter_value t i) (\<lambda>v.
         bind_outcome (upb_inttable_insert new_t k v a c) (\<lambda>(_, new_t, c).
         bind_outcome (upb_inttable_next t i) (\<lambda>i. reinsert_loop fuel t i new_t a c)))))"

text \<open>
  The hash part is given \<open>hash_count / MAX_LOAD + 1\<close> entries, computed in \<open>double\<close> and truncated. A new table
  that was not set up is used all the same, which is \<open>UB\<close>.
\<close>

definition hash_part_size :: "u64 \<Rightarrow> u64" where
  "hash_part_size hash_count = (if hash_count \<noteq> 0 then of_nat (unat hash_count * 100 div 85 + 1) else 0)"

definition upb_inttable_compact :: "upb_inttable \<Rightarrow> arena \<Rightarrow> nat \<Rightarrow> (upb_inttable \<times> nat) run" where
  "upb_inttable_compact t a c =
     (let fuel = length (it_array t) + length (tb_entries (it_t t)) + 1;
          zeros = replicate (UPB_MAXARRSIZE + 1) 0 in
      bind_outcome (upb_inttable_begin 0 t) (\<lambda>i.
      bind_outcome (count_keys fuel t i zeros zeros) (\<lambda>(counts, maxs).
        let (size_lg2, arr_count) = array_part counts UPB_MAXARRSIZE (upb_inttable_count t);
            arr_size = maxs ! size_lg2 + 1;
            hash_count = upb_inttable_count t - arr_count;
            hashsize_lg2 = log2ceil (hash_part_size hash_count) in
        bind_outcome (upb_inttable_sizedinit arr_size hashsize_lg2 a c) (\<lambda>(_, new_t, c).
          case new_t of None \<Rightarrow> UB
          | Some new_t \<Rightarrow> reinsert_loop fuel t i new_t a c))))"

end
