(* ===== verification/Upb_Intmap.thy ===== *)
theory Upb_Intmap
  imports Upb_Inttable
begin

text \<open>
  The table with integer keys is a finite map, whatever part a key is kept in: lookups, insertions,
  replacements, removals, iteration and compacting act on the map. Keys and corners the code does not handle are
  shown on concrete tables.
\<close>

interpretation int: hash_key inthash inteql upb_inthash
  by unfold_locales (simp_all add: inthash_def inteql_def tabkey_num_def)

definition all_memory :: arena where
  "all_memory i n = True"

section \<open>The map of a table\<close>

definition array_map :: "u64 list \<Rightarrow> u64 \<rightharpoonup> u64" where
  "array_map arr k = (if unat k < length arr \<and> upb_arrhas (arr ! unat k) then Some (arr ! unat k) else None)"

definition int_map :: "upb_inttable \<Rightarrow> u64 \<rightharpoonup> u64" where
  "int_map t k = (if k < it_array_size t then array_map (it_array t) k else the_map (it_t t) k)"

definition set_count :: "u64 list \<Rightarrow> nat" where
  "set_count arr = length (filter upb_arrhas arr)"

definition int_wf :: "upb_inttable \<Rightarrow> bool" where
  "int_wf t \<longleftrightarrow> table_wf upb_inthash (it_t t) \<and> 1 \<le> it_array_size t \<and> length (it_array t) = unat (it_array_size t) \<and>
     it_array_count t = of_nat (set_count (it_array t)) \<and> (\<forall>k\<in>dom (the_map (it_t t)). it_array_size t \<le> k \<and> the_map (it_t t) k \<noteq> Some (-1))"

definition int_room :: "upb_inttable \<Rightarrow> nat \<Rightarrow> bool" where
  "int_room t n \<longleftrightarrow> card (dom (the_map (it_t t))) + n \<le> load_limit (2 ^ 30)"

definition int_map_wf :: "upb_inttable \<Rightarrow> bool" where
  "int_map_wf t \<longleftrightarrow> int_wf t \<and> tb_size_lg2 (it_t t) \<noteq> 0"

lemma array_index: "int_wf t \<Longrightarrow> k < it_array_size t \<longleftrightarrow> unat k < length (it_array t)"
  by (simp add: int_wf_def word_less_nat_alt)

lemma set_count_update:
  "i < length arr \<Longrightarrow> set_count (arr[i := v]) + (if upb_arrhas (arr ! i) then 1 else 0) =
   set_count arr + (if upb_arrhas v then 1 else 0)"
proof -
  assume i: "i < length arr"
  have "arr = take i arr @ arr ! i # drop (Suc i) arr" by (rule id_take_nth_drop [OF i])
  then have "set_count arr = set_count (take i arr @ arr ! i # drop (Suc i) arr)" by simp
  moreover have "set_count (arr[i := v]) = set_count (take i arr @ v # drop (Suc i) arr)"
    by (simp only: upd_conv_take_nth_drop [OF i])
  ultimately show ?thesis by (simp add: set_count_def)
qed

lemma array_map_update:
  "unat k < length arr \<Longrightarrow> array_map (arr[unat k := v]) = (array_map arr)(k := (if upb_arrhas v then Some v else None))"
  by (auto simp: array_map_def fun_eq_iff nth_list_update dest: unsigned_word_eqI)

lemma int_map_array_update:
  assumes "int_wf t" "k < it_array_size t"
  shows "int_map (t\<lparr>it_array_count := c, it_array := (it_array t)[unat k := v]\<rparr>) =
    (int_map t)(k := (if upb_arrhas v then Some v else None))"
  using assms array_map_update [of k "it_array t" v] by (auto simp: int_map_def fun_eq_iff array_index)

section \<open>Looking up and removing\<close>

lemma inttable_lookup: "int_wf t \<Longrightarrow> upb_inttable_lookup t k = Ok (int_map t k)"
proof (cases "k < it_array_size t")
  case True
  assume "int_wf t"
  then show ?thesis
    using True array_index [of t k]
    by (auto simp: upb_inttable_lookup_def inttable_val_def array_get_def int_map_def array_map_def val_at_def)
next
  case False
  assume "int_wf t"
  then have wf: "table_wf upb_inthash (it_t t)" by (simp add: int_wf_def)
  show ?thesis
    by (rule int.findentry_result [OF wf, of k])
      (use False in \<open>auto simp: upb_inttable_lookup_def inttable_val_def int_map_def val_at_def\<close>)
qed

lemma inttable_remove:
  assumes wf: "int_wf t" and size: "tb_size_lg2 (it_t t) \<noteq> 0"
  obtains t' where "upb_inttable_remove t k = Ok (t', int_map t k)" "int_wf t'"
    "tb_size_lg2 (it_t t') = tb_size_lg2 (it_t t)" "int_map t' = (int_map t)(k := None)"
    "dom (the_map (it_t t')) \<subseteq> dom (the_map (it_t t))"
proof (cases "k < it_array_size t")
  case True
  then have i: "unat k < length (it_array t)" using array_index [OF wf] by simp
  let ?t = "t\<lparr>it_array_count := it_array_count t - 1, it_array := (it_array t)[unat k := -1]\<rparr>"
  show ?thesis
  proof (cases "upb_arrhas (it_array t ! unat k)")
    case has: True
    have c: "set_count (it_array t) = Suc (set_count ((it_array t)[unat k := -1]))"
      using set_count_update [OF i, of "-1"] has by (simp add: upb_arrhas_def)
    have "int_wf ?t" using wf by (simp add: int_wf_def c)
    then show ?thesis
      using that [of ?t] True i has int_map_array_update [OF wf True, where c = "it_array_count t - 1" and v = "-1"]
      by (simp add: upb_inttable_remove_def array_get_def upb_arrhas_def int_map_def array_map_def)
  next
    case False
    then have "int_map t k = None" using True by (simp add: int_map_def array_map_def)
    then show ?thesis
      using that [of t] True i False wf by (simp add: upb_inttable_remove_def array_get_def fun_upd_idem)
  qed
next
  case False
  have h: "table_wf upb_inthash (it_t t)" using wf by (simp add: int_wf_def)
  obtain h' where h': "rm (it_t t) k (upb_inthash k) inteql = Ok (h', the_map (it_t t) k)" "table_wf upb_inthash h'"
    "the_map h' = (the_map (it_t t))(k := None)" "tb_size_lg2 h' = tb_size_lg2 (it_t t)"
    using int.rm_map [OF h size] by metis
  have "int_map (t\<lparr>it_t := h'\<rparr>) = (int_map t)(k := None)" using False h'(3) by (auto simp: int_map_def fun_eq_iff)
  then show ?thesis
    using that [of "t\<lparr>it_t := h'\<rparr>"] False wf h'
    by (auto simp: upb_inttable_remove_def int_wf_def int_map_def split: if_splits)
qed

section \<open>Inserting\<close>

lemma int_resize_loop_all:
  assumes t: "table_wf upb_inthash t"
  shows "filter (used (tb_entries t)) [i..<length (tb_entries t)] = js \<Longrightarrow>
    iter = (case js of [] \<Rightarrow> SIZE_MAX - 1 | j # _ \<Rightarrow> of_nat j) \<Longrightarrow> length js < fuel \<Longrightarrow>
    int_resize_loop fuel t iter nt =
      insert_all (\<lambda>t k v. insert_entry t (Some k) v (upb_inthash k) inthash) (map (pair_at (tb_entries t)) js) nt"
proof (induction js arbitrary: i iter fuel nt)
  case Nil
  obtain f where "fuel = Suc f" using Nil.prems(3) by (cases fuel) auto
  moreover have "upb_table_size t \<le> 2 ^ 30" using t table_size_bound [of t] by (simp add: table_wf_def)
  moreover have "unat (SIZE_MAX - 1) = 18446744073709551614" by simp
  ultimately show ?case using Nil.prems(2) by simp
next
  case (Cons j js)
  let ?es = "tb_entries t"
  have n: "length ?es = upb_table_size t" "upb_table_size t \<le> 2 ^ 30"
    using t table_size_bound [of t] by (auto simp: table_wf_def table_shape_def)
  obtain f where f: "fuel = Suc f" using Cons.prems(3) by (cases fuel) auto
  have j: "j < length ?es" "used ?es j" "filter (used ?es) [Suc j..<length ?es] = js"
    using filter_upt_Cons [OF Cons.prems(1)] by auto
  then obtain k where k: "ent_key (?es ! j) = Some k" by auto
  have uj: "unat (of_nat j :: u64) = j" "unat (of_nat j + 1 :: u64) = Suc j"
    using index_word [of j] j(1) n by simp_all
  have nx: "table_next t iter = Ok (case js of [] \<Rightarrow> SIZE_MAX - 1 | j # _ \<Rightarrow> of_nat j)"
    using next_loop_result [of ?es "Suc j"] j(3) uj n Cons.prems(2) by (simp add: table_next_def)
  have "int_resize_loop f t (case js of [] \<Rightarrow> SIZE_MAX - 1 | j # _ \<Rightarrow> of_nat j) nt' =
      insert_all (\<lambda>t k v. insert_entry t (Some k) v (upb_inthash k) inthash) (map (pair_at ?es) js) nt'" for nt'
    by (rule Cons.IH [OF j(3) refl]) (use Cons.prems(3) f in simp)
  moreover have "pair_at ?es j = (k, ent_val (?es ! j))" by (simp add: pair_at_def k)
  ultimately show ?case
    using Cons.prems(2) uj j(1) n nx by (simp add: f k tabkey_num_def)
qed

text \<open>The hash part before the key goes in: itself or a table of twice the size with the same map.\<close>

lemma int_grown:
  assumes wf: "table_wf upb_inthash t" and room: "card (dom (the_map t)) + Suc n \<le> load_limit (2 ^ 30)"
    and full: "isfull t"
  obtains nt0 c' i nt where "init (tb_size_lg2 t + 1) all_memory c = Ok (Some nt0, c')" "table_begin t = Ok i"
    "int_resize_loop (upb_table_size t + 1) t i nt0 = Ok nt" "sized_wf upb_inthash nt" "has_room nt 1" "the_map nt = the_map t"
proof -
  let ?n = "tb_size_lg2 t" and ?es = "tb_entries t" and ?js = "filter (used (tb_entries t)) [0..<length (tb_entries t)]"
  have count: "length (pairs ?es) = card (dom (the_map t))" by (rule pairs_count [OF wf])
  have lim: "length (pairs ?es) = load_limit (upb_table_size t)" using isfull_iff [OF wf] full by simp
  have one: "one_each ?es" and size: "length ?es = upb_table_size t" using wf by (auto simp: table_wf_def table_shape_def)
  have "?n \<noteq> 30" using lim room count by (auto simp: upb_table_size_def)
  then have n: "?n < 30" using wf by (simp add: table_wf_def table_shape_def)
  then have n1: "?n + 1 \<le> 30" by simp
  obtain nt0 c' where nt0: "init (?n + 1) all_memory c = Ok (Some nt0, c')" "table_wf upb_inthash nt0"
    "tb_size_lg2 nt0 = ?n + 1" "tb_entries nt0 = replicate (upb_table_size nt0) zero_ent" "the_map nt0 = Map.empty"
    using init_result [OF n1, where hash = upb_inthash and k = c and a = all_memory] unfolding all_memory_def by metis
  have "load_limit (upb_table_size t) + 1 \<le> load_limit (2 ^ (?n + 1))"
    using load_limit_double [of ?n] by (cases "?n = 0") (simp_all add: upb_table_size_def load_limit_def)
  then have nwf: "sized_wf upb_inthash nt0" "has_room nt0 (length (pairs ?es) + 1)"
    using nt0 lim by (auto simp: sized_wf_def has_room_def upb_table_size_def)
  define i :: u64 where "i = (case ?js of [] \<Rightarrow> SIZE_MAX - 1 | j # _ \<Rightarrow> of_nat j)"
  have start: "table_begin t = Ok i"
    using next_loop_result [of ?es 0] size by (simp add: table_begin_def table_next_def i_def)
  have "length ?js < upb_table_size t + 1" using length_filter_le [of "used ?es" "[0..<length ?es]"] size by simp
  then have "int_resize_loop (upb_table_size t + 1) t i nt0 =
      insert_all (\<lambda>t k v. insert_entry t (Some k) v (upb_inthash k) inthash) (map (pair_at ?es) ?js) nt0"
    by (intro int_resize_loop_all [OF wf refl]) (simp_all add: i_def)
  then have loop: "int_resize_loop (upb_table_size t + 1) t i nt0 =
      insert_all (\<lambda>t k v. insert_entry t (Some k) v (upb_inthash k) inthash) (pairs ?es) nt0"
    unfolding pairs_in_order .
  obtain nt where "insert_all (\<lambda>t k v. insert_entry t (Some k) v (upb_inthash k) inthash) (pairs ?es) nt0 = Ok nt"
    "sized_wf upb_inthash nt" "has_room nt 1" "the_map nt = the_map t"
    using int.base.insert_all_map [OF nwf] one nt0(5) by (auto simp: one_each_def table_map_def)
  then show ?thesis using that nt0(1) start loop by simp
qed

lemma inttable_insert:
  assumes wf: "int_wf t" and new: "int_map t k = None" "v \<noteq> -1" and room: "int_room t (Suc n)"
  obtains t' c' where "upb_inttable_insert t k v all_memory c = Ok (True, t', c')" "int_wf t'"
    "tb_size_lg2 (it_t t) \<noteq> 0 \<Longrightarrow> tb_size_lg2 (it_t t') \<noteq> 0"
    "int_room t' n" "int_map t' = (int_map t)(k \<mapsto> v)" "it_array_size t' = it_array_size t"
proof (cases "k < it_array_size t")
  case True
  then have i: "unat k < length (it_array t)" using array_index [OF wf] by simp
  have "\<not> upb_arrhas (it_array t ! unat k)" using new(1) True i by (simp add: int_map_def array_map_def split: if_splits)
  then have c: "set_count ((it_array t)[unat k := v]) = Suc (set_count (it_array t))"
    using set_count_update [OF i, of v] new(2) by (simp add: upb_arrhas_def)
  let ?t = "t\<lparr>it_array_count := it_array_count t + 1, it_array := (it_array t)[unat k := v]\<rparr>"
  have "int_wf ?t" using wf by (simp add: int_wf_def c)
  then show ?thesis
    using that [of ?t] True i room int_map_array_update [OF wf True, where c = "it_array_count t + 1" and v = v] new(2)
    by (simp add: upb_inttable_insert_def upb_arrhas_def int_room_def)
next
  case False
  let ?h = "it_t t"
  have h: "table_wf upb_inthash ?h" using wf by (simp add: int_wf_def)
  have k: "intkey k = Some k" "the_map ?h k = None" "it_array_size t \<le> k"
    using False wf new(1) by (auto simp: intkey_def int_wf_def int_map_def word_le_nat_alt word_less_nat_alt)
  obtain h1 c1 where h1: "sized_wf upb_inthash h1" "has_room h1 1" "the_map h1 = the_map ?h"
    "\<And>h' . insert_entry h1 (Some k) v (upb_inthash k) inthash = Ok h' \<Longrightarrow>
      upb_inttable_insert t k v all_memory c = Ok (True, t\<lparr>it_t := h'\<rparr>, c1)"
  proof (cases "isfull ?h")
    case True
    obtain nt0 c' i nt where "init (tb_size_lg2 ?h + 1) all_memory c = Ok (Some nt0, c')" "table_begin ?h = Ok i"
      "int_resize_loop (upb_table_size ?h + 1) ?h i nt0 = Ok nt" "sized_wf upb_inthash nt" "has_room nt 1"
      "the_map nt = the_map ?h"
      by (rule int_grown [OF h _ True]) (use room in \<open>auto simp: int_room_def\<close>)
    then show ?thesis
      using that [of nt c'] True False k(1) by (simp add: upb_inttable_insert_def del: int_resize_loop.simps)
  next
    case nf: False
    then have "length (pairs (tb_entries ?h)) < load_limit (upb_table_size ?h)"
      using isfull_iff [OF h] h by (simp add: table_wf_def)
    then have "sized_wf upb_inthash ?h" "has_room ?h 1"
      using h by (auto simp: sized_wf_def has_room_def upb_table_size_def load_limit_def split: if_splits)
    then show ?thesis using that [of ?h c] nf False k(1) by (simp add: upb_inttable_insert_def)
  qed
  obtain h' where h': "insert_entry h1 (Some k) v (upb_inthash k) inthash = Ok h'" "sized_wf upb_inthash h'"
    "the_map h' = (the_map ?h)(k \<mapsto> v)"
    using int.base.ins [of h1 0 k v] h1(1-3) k(2) by auto
  let ?t = "t\<lparr>it_t := h'\<rparr>"
  have "int_wf ?t" using wf h' k(3) new(2) by (auto simp: int_wf_def sized_wf_def split: if_splits)
  moreover have "int_map ?t = (int_map t)(k \<mapsto> v)" using False h'(3) by (auto simp: int_map_def fun_eq_iff)
  moreover have "int_room ?t n" using room k(2) by (simp add: int_room_def h'(3) domIff)
  ultimately show ?thesis using that [of ?t c1] h1(4) [OF h'(1)] h'(2) by (simp add: sized_wf_def)
qed

section \<open>The contract\<close>

definition int_put :: "upb_inttable \<Rightarrow> u64 \<Rightarrow> u64 \<Rightarrow> upb_inttable run" where
  "int_put t k v = bind_outcome (upb_inttable_insert t k v all_memory 0) (\<lambda>(ok, t, c). if ok then Ok t else Fail ENDLESS)"

interpretation inttab: map_impl int_map_wf int_map int_room "\<lambda>k. True" "\<lambda>v. v \<noteq> -1"
  upb_inttable_lookup int_put upb_inttable_remove
proof (unfold_locales, goal_cases)
  case (1 t n)
  then show ?case by (simp add: int_room_def)
next
  case (2 t k)
  then show ?case by (simp add: int_map_wf_def inttable_lookup)
next
  case (3 t n k v)
  then have wf: "int_wf t" "tb_size_lg2 (it_t t) \<noteq> 0" by (auto simp: int_map_wf_def)
  obtain t' c' where "upb_inttable_insert t k v all_memory 0 = Ok (True, t', c')" "int_wf t'"
    "tb_size_lg2 (it_t t') \<noteq> 0" "int_room t' n" "int_map t' = (int_map t)(k \<mapsto> v)"
    using inttable_insert [OF wf(1) 3(5) 3(4) 3(2), of 0] wf(2) by metis
  then show ?case by (simp add: int_put_def int_map_wf_def)
next
  case (4 t n k)
  then have wf: "int_wf t" "tb_size_lg2 (it_t t) \<noteq> 0" by (auto simp: int_map_wf_def)
  obtain t' where t': "upb_inttable_remove t k = Ok (t', int_map t k)" "int_wf t'"
    "tb_size_lg2 (it_t t') = tb_size_lg2 (it_t t)" "int_map t' = (int_map t)(k := None)"
    "dom (the_map (it_t t')) \<subseteq> dom (the_map (it_t t))"
    using inttable_remove [OF wf, of k] by metis
  have "card (dom (the_map (it_t t'))) \<le> card (dom (the_map (it_t t)))" using t'(5) by (intro card_mono) auto
  then show ?case using t' 4 wf by (auto simp: int_map_wf_def int_room_def)
qed

section \<open>Making a table\<close>

lemma set_count_empty [simp]: "set_count (replicate n (-1)) = 0"
  by (simp add: set_count_def upb_arrhas_def)

lemma array_map_empty [simp]: "array_map (replicate n (-1)) = Map.empty"
  by (rule ext) (simp add: array_map_def upb_arrhas_def)

lemma sizedinit_map:
  assumes "unat asize < 2 ^ 61" "hsize \<le> 30"
  obtains t c' where "upb_inttable_sizedinit asize hsize all_memory c = Ok (True, Some t, c')" "int_wf t"
    "int_map t = Map.empty" "tb_size_lg2 (it_t t) = hsize" "it_array_size t = max 1 asize" "the_map (it_t t) = Map.empty"
proof -
  obtain h c' where h: "init hsize all_memory c = Ok (Some h, c')" "table_wf upb_inthash h" "tb_size_lg2 h = hsize"
    "the_map h = Map.empty"
    using init_result [OF assms(2), where hash = upb_inthash and k = c and a = all_memory] unfolding all_memory_def by metis
  have m: "unat (max 1 asize) < 2 ^ 61" "1 \<le> max 1 asize" using assms(1) by (auto simp: max_def)
  then have "unat (max 1 asize * 8) = unat (max 1 asize) * 8"
    using unat_mult_lem [of "max 1 asize" "8 :: u64"] by simp
  then have b: "unat (max 1 asize * 8) div 8 = unat (max 1 asize)" by simp
  let ?t = "\<lparr>it_t = h, it_array = replicate (unat (max 1 asize)) (-1), it_array_size = max 1 asize, it_array_count = 0\<rparr>"
  have "upb_inttable_sizedinit asize hsize all_memory c = Ok (True, Some ?t, c' + 1)"
    using h(1) b by (simp add: upb_inttable_sizedinit_def all_memory_def Let_def)
  moreover have "int_wf ?t" using h m(2) by (simp add: int_wf_def)
  moreover have "int_map ?t = Map.empty" using h(4) by (auto simp: int_map_def fun_eq_iff)
  ultimately show ?thesis using that h by simp
qed

section \<open>Iterating\<close>

definition array_pairs :: "u64 list \<Rightarrow> (u64 \<times> u64) list" where
  "array_pairs arr = map (\<lambda>j. (of_nat j, arr ! j)) (filter (\<lambda>j. upb_arrhas (arr ! j)) [0..<length arr])"

definition int_pairs :: "upb_inttable \<Rightarrow> (u64 \<times> u64) list" where
  "int_pairs t = array_pairs (it_array t) @ pairs (tb_entries (it_t t))"

text \<open>What is still to come when the iterator is at \<open>i\<close>.\<close>

fun yields :: "upb_inttable \<Rightarrow> inttable_iter \<Rightarrow> (u64 \<times> u64) list \<Rightarrow> bool" where
  "yields t i [] \<longleftrightarrow> upb_inttable_done t i = Ok True"
| "yields t i ((k, v) # ps) \<longleftrightarrow> upb_inttable_done t i = Ok False \<and> upb_inttable_iter_key t i = Ok k \<and>
     upb_inttable_iter_value t i = Ok v \<and> (\<exists>i'. upb_inttable_next t i = Ok i' \<and> yields t i' ps)"

lemma array_next_result:
  "length (it_array t) = unat (it_array_size t) \<Longrightarrow> array_next t i =
     Ok (case filter (\<lambda>j. upb_arrhas (it_array t ! j)) [i..<length (it_array t)] of [] \<Rightarrow> None | j # _ \<Rightarrow> Some j)"
proof (induction "length (it_array t) - i" arbitrary: i)
  case 0
  then show ?case by (simp add: array_next.simps [of t])
next
  case (Suc n)
  then have "i < length (it_array t)" by simp
  then have "[i..<length (it_array t)] = i # [Suc i..<length (it_array t)]" "\<not> length (it_array t) \<le> i"
    by (simp_all add: upt_conv_Cons)
  then show ?case using Suc.hyps(1) [of "Suc i"] Suc.hyps(2) Suc.prems by (simp add: array_next.simps [of t i])
qed

lemma yields_hash:
  assumes wf: "table_wf upb_inthash (it_t t)"
  shows "filter (used (tb_entries (it_t t))) [m..<length (tb_entries (it_t t))] = js \<Longrightarrow>
    yields t \<lparr>ii_t = Some ad, ii_index = (case js of [] \<Rightarrow> SIZE_MAX - 1 | j # _ \<Rightarrow> of_nat j), ii_array_part = False\<rparr>
      (map (pair_at (tb_entries (it_t t))) js)"
proof (induction js arbitrary: m)
  case Nil
  have "upb_table_size (it_t t) \<le> 2 ^ 30" using wf table_size_bound [of "it_t t"] by (simp add: table_wf_def)
  moreover have "unat (SIZE_MAX - 1) = 18446744073709551614" by simp
  ultimately show ?case by (simp add: upb_inttable_done_def)
next
  case (Cons j js)
  let ?es = "tb_entries (it_t t)"
  have n: "length ?es = upb_table_size (it_t t)" "upb_table_size (it_t t) \<le> 2 ^ 30"
    using wf table_size_bound [of "it_t t"] by (auto simp: table_wf_def table_shape_def)
  have j: "j < length ?es" "used ?es j" "filter (used ?es) [Suc j..<length ?es] = js"
    using filter_upt_Cons [OF Cons.prems] by auto
  then obtain k where k: "ent_key (?es ! j) = Some k" by auto
  have uj: "unat (of_nat j :: u64) = j" "unat (of_nat j + 1 :: u64) = Suc j"
    using index_word [of j] j(1) n by simp_all
  show ?case
    using Cons.IH [OF j(3)] next_loop_result [of ?es "Suc j"] j n uj k
    by (simp add: pair_at_def upb_inttable_done_def upb_inttable_iter_key_def upb_inttable_iter_value_def int_tabent_def
        upb_tabent_isempty_def tabkey_num_def upb_inttable_next_def table_next_def)
qed

lemma yields_array:
  assumes wf: "int_wf t"
  shows "filter (\<lambda>j. upb_arrhas (it_array t ! j)) [m..<length (it_array t)] = j # js \<Longrightarrow>
    yields t \<lparr>ii_t = Some ad, ii_index = of_nat j, ii_array_part = True\<rparr>
      (map (\<lambda>j. (of_nat j, it_array t ! j)) (j # js) @ pairs (tb_entries (it_t t)))"
proof (induction js arbitrary: m j)
  have len: "length (it_array t) = unat (it_array_size t)" using wf by (simp add: int_wf_def)
  have h: "table_wf upb_inthash (it_t t)" using wf by (simp add: int_wf_def)
  have n: "length (tb_entries (it_t t)) = upb_table_size (it_t t)" using h by (simp add: table_wf_def table_shape_def)
  have at: "upb_inttable_done t i = Ok False" "upb_inttable_iter_key t i = Ok (of_nat j)"
    "upb_inttable_iter_value t i = Ok (it_array t ! j)" "unat (of_nat j + 1 :: u64) = Suc j"
    if "i = \<lparr>ii_t = Some ad, ii_index = of_nat j, ii_array_part = True\<rparr>" "j < length (it_array t)" "upb_arrhas (it_array t ! j)"
    for i j
  proof -
    have b: "Suc j \<le> unat (it_array_size t)" using that(2) len by simp
    have "unat (it_array_size t) < 2 ^ LENGTH(64)" by (rule unsigned_less)
    then have u: "unat (of_nat j :: u64) = j" "unat (of_nat (Suc j) :: u64) = Suc j"
      using b by (auto intro!: unat_of_nat_small simp del: of_nat_Suc)
    then show "unat (of_nat j + 1 :: u64) = Suc j" by (simp add: add.commute)
    show "upb_inttable_done t i = Ok False" "upb_inttable_iter_key t i = Ok (of_nat j)"
      "upb_inttable_iter_value t i = Ok (it_array t ! j)"
      using that u(1) b
      by (simp_all add: upb_inttable_done_def upb_inttable_iter_key_def upb_inttable_iter_value_def array_get_def word_le_nat_alt)
  qed
  {
    case (Nil m j)
    let ?js = "filter (used (tb_entries (it_t t))) [0..<length (tb_entries (it_t t))]"
    have j: "j < length (it_array t)" "upb_arrhas (it_array t ! j)"
      "filter (\<lambda>j. upb_arrhas (it_array t ! j)) [Suc j..<length (it_array t)] = []"
      using filter_upt_Cons [OF Nil] by auto
    have "yields t \<lparr>ii_t = Some ad, ii_index = (case ?js of [] \<Rightarrow> SIZE_MAX - 1 | j # _ \<Rightarrow> of_nat j), ii_array_part = False\<rparr>
        (pairs (tb_entries (it_t t)))"
      unfolding pairs_in_order by (rule yields_hash [OF h refl])
    then show ?case
      using at [OF refl j(1,2)] j(3) array_next_result [OF len, of "Suc j"] next_loop_result [of "tb_entries (it_t t)" 0] n
      by (simp add: upb_inttable_next_def table_begin_def table_next_def)
  next
    case (Cons j' js m j)
    have j: "j < length (it_array t)" "upb_arrhas (it_array t ! j)"
      "filter (\<lambda>j. upb_arrhas (it_array t ! j)) [Suc j..<length (it_array t)] = j' # js"
      using filter_upt_Cons [OF Cons.prems] by auto
    show ?case
      using at [OF refl j(1,2)] j(3) array_next_result [OF len, of "Suc j"] Cons.IH [OF j(3)]
      by (simp add: upb_inttable_next_def)
  }
qed

lemma yields_all:
  assumes wf: "int_wf t"
  obtains i where "upb_inttable_begin ad t = Ok i" "yields t i (int_pairs t)"
proof -
  have len: "length (it_array t) = unat (it_array_size t)" using wf by (simp add: int_wf_def)
  have h: "table_wf upb_inthash (it_t t)" using wf by (simp add: int_wf_def)
  have n: "length (tb_entries (it_t t)) = upb_table_size (it_t t)" using h by (simp add: table_wf_def table_shape_def)
  show ?thesis
  proof (cases "filter (\<lambda>j. upb_arrhas (it_array t ! j)) [0..<length (it_array t)]")
    case Nil
    let ?js = "filter (used (tb_entries (it_t t))) [0..<length (tb_entries (it_t t))]"
    let ?i = "\<lparr>ii_t = Some ad, ii_index = (case ?js of [] \<Rightarrow> SIZE_MAX - 1 | j # _ \<Rightarrow> of_nat j), ii_array_part = False\<rparr>"
    have "yields t ?i (pairs (tb_entries (it_t t)))" unfolding pairs_in_order by (rule yields_hash [OF h refl])
    moreover have "upb_inttable_begin ad t = Ok ?i"
      using Nil array_next_result [OF len, of 0] next_loop_result [of "tb_entries (it_t t)" 0] n
      by (simp add: upb_inttable_begin_def upb_inttable_next_def table_begin_def table_next_def)
    ultimately show ?thesis using that Nil by (simp add: int_pairs_def array_pairs_def)
  next
    case (Cons j js)
    then have "upb_inttable_begin ad t = Ok \<lparr>ii_t = Some ad, ii_index = of_nat j, ii_array_part = True\<rparr>"
      using array_next_result [OF len, of 0] by (simp add: upb_inttable_begin_def upb_inttable_next_def)
    then show ?thesis using that yields_array [OF wf Cons] Cons by (simp add: int_pairs_def array_pairs_def)
  qed
qed

lemma in_array_pairs:
  assumes "length arr < 2 ^ 64"
  shows "(k, v) \<in> set (array_pairs arr) \<longleftrightarrow> array_map arr k = Some v"
proof
  assume "(k, v) \<in> set (array_pairs arr)"
  then obtain j where j: "j < length arr" "upb_arrhas (arr ! j)" "k = of_nat j" "v = arr ! j" by (auto simp: array_pairs_def)
  then have "unat k = j" using assms by (auto intro: unat_of_nat_small)
  then show "array_map arr k = Some v" using j by (simp add: array_map_def)
next
  assume "array_map arr k = Some v"
  then have "unat k < length arr" "upb_arrhas (arr ! unat k)" "v = arr ! unat k" by (auto simp: array_map_def split: if_splits)
  then show "(k, v) \<in> set (array_pairs arr)" by (auto simp: array_pairs_def intro!: image_eqI [of _ _ "unat k"])
qed

lemma int_pairs_map:
  assumes wf: "int_wf t"
  shows "distinct (map fst (int_pairs t))" "map_of (int_pairs t) = int_map t"
proof -
  have "unat (it_array_size t) < 2 ^ LENGTH(64)" by (rule unsigned_less)
  then have len: "length (it_array t) < 2 ^ 64" using wf by (simp add: int_wf_def)
  have inj: "inj_on (of_nat :: nat \<Rightarrow> u64) {..<length (it_array t)}"
  proof (rule inj_onI)
    fix x y assume "x \<in> {..<length (it_array t)}" "y \<in> {..<length (it_array t)}" "(of_nat x :: u64) = of_nat y"
    moreover have "unat (of_nat z :: u64) = z" if "z \<in> {..<length (it_array t)}" for z
      by (rule unat_of_nat_small) (use that len in simp)
    ultimately show "x = y" by metis
  qed
  have d1: "distinct (map fst (array_pairs (it_array t)))"
    using inj by (auto simp: array_pairs_def distinct_map comp_def intro: inj_on_subset)
  have d2: "distinct (map fst (pairs (tb_entries (it_t t))))" using wf by (simp add: int_wf_def table_wf_def one_each_def)
  have small: "k < it_array_size t" if "k \<in> fst ` set (array_pairs (it_array t))" for k
    using that in_array_pairs [OF len] wf by (auto simp: array_map_def array_index split: if_splits)
  have large: "it_array_size t \<le> k" if "k \<in> fst ` set (pairs (tb_entries (it_t t)))" for k
  proof -
    have "k \<in> dom (the_map (it_t t))" using that by (simp add: table_map_def dom_map_of_conv_image_fst)
    then show ?thesis using wf by (auto simp: int_wf_def)
  qed
  show d: "distinct (map fst (int_pairs t))"
    using d1 d2 small large by (fastforce simp: int_pairs_def)
  show "map_of (int_pairs t) = int_map t"
  proof
    fix k
    show "map_of (int_pairs t) k = int_map t k"
    proof (cases "k < it_array_size t")
      case True
      then have "map_of (pairs (tb_entries (it_t t))) k = None"
        using large [of k] by (force simp: map_of_eq_None_iff)
      moreover have "map_of (array_pairs (it_array t)) k = array_map (it_array t) k"
        using in_array_pairs [OF len, of k] d1 by (cases "array_map (it_array t) k") (auto simp: map_of_eq_None_iff)
      ultimately show ?thesis using True by (simp add: int_pairs_def int_map_def map_add_def split: option.splits)
    next
      case False
      then have "map_of (array_pairs (it_array t)) k = None"
        using small [of k] by (force simp: map_of_eq_None_iff)
      then show ?thesis using False by (simp add: int_pairs_def int_map_def map_add_def table_map_def split: option.splits)
    qed
  qed
qed

section \<open>Compacting\<close>

lemma log2ceil_le: "log2ceil v \<le> 16"
  by (simp add: log2ceil_def Let_def)

lemma count_keys_result:
  "yields t i ps \<Longrightarrow> length ps < fuel \<Longrightarrow> length counts = 17 \<Longrightarrow> length maxs = 17 \<Longrightarrow>
   (\<And>m. m \<in> set maxs \<Longrightarrow> unat m < b) \<Longrightarrow> (\<And>k v. (k, v) \<in> set ps \<Longrightarrow> unat k < b) \<Longrightarrow>
   \<exists>counts' maxs'. count_keys fuel t i counts maxs = Ok (counts', maxs') \<and> length maxs' = 17 \<and>
     (\<forall>m\<in>set maxs'. unat m < b)"
proof (induction ps arbitrary: i fuel counts maxs)
  case Nil
  then obtain f where "fuel = Suc f" by (cases fuel) auto
  then show ?case using Nil by simp
next
  case (Cons p ps)
  obtain k v where p: "p = (k, v)" by (cases p)
  obtain f where f: "fuel = Suc f" using Cons.prems(2) by (cases fuel) auto
  obtain i' where i': "upb_inttable_next t i = Ok i'" "yields t i' ps" using Cons.prems(1) p by auto
  let ?b = "log2ceil k"
  have b: "?b < length maxs" using log2ceil_le [of k] Cons.prems(4) by simp
  have "unat m < b" if "m \<in> set (maxs[?b := max (maxs ! ?b) k])" for m
  proof -
    have "m \<in> set maxs \<or> m = max (maxs ! ?b) k" using that set_update_subset_insert [of maxs ?b] by blast
    then show ?thesis using Cons.prems(5) [of m] Cons.prems(5) [of "maxs ! ?b"] Cons.prems(6) [of k v] p b by (auto simp: max_def)
  qed
  then have "\<exists>counts' maxs'. count_keys f t i' (counts[?b := counts ! ?b + 1]) (maxs[?b := max (maxs ! ?b) k]) = Ok (counts', maxs') \<and>
      length maxs' = 17 \<and> (\<forall>m\<in>set maxs'. unat m < b)"
    by (intro Cons.IH [OF i'(2)]) (use Cons.prems f in auto)
  then show ?case using Cons.prems(1) p f i'(1) by (simp add: Let_def)
qed

lemma reinsert_loop_map:
  "yields t i ps \<Longrightarrow> length ps < fuel \<Longrightarrow> int_wf nt \<Longrightarrow> int_room nt (length ps) \<Longrightarrow> distinct (map fst ps) \<Longrightarrow>
   (\<And>k v. (k, v) \<in> set ps \<Longrightarrow> int_map nt k = None \<and> v \<noteq> -1) \<Longrightarrow>
   \<exists>nt' c'. reinsert_loop fuel t i nt all_memory c = Ok (nt', c') \<and> int_wf nt' \<and> int_map nt' = int_map nt ++ map_of ps"
proof (induction ps arbitrary: i fuel nt c)
  case Nil
  then obtain f where "fuel = Suc f" by (cases fuel) auto
  then show ?case using Nil by simp
next
  case (Cons p ps)
  obtain k v where p: "p = (k, v)" by (cases p)
  obtain f where f: "fuel = Suc f" using Cons.prems(2) by (cases fuel) auto
  obtain i' where i': "upb_inttable_next t i = Ok i'" "yields t i' ps" using Cons.prems(1) p by auto
  have kv: "int_map nt k = None" "v \<noteq> -1" using Cons.prems(6) [of k v] p by auto
  obtain nt1 c1 where nt1: "upb_inttable_insert nt k v all_memory c = Ok (True, nt1, c1)" "int_wf nt1"
    "int_room nt1 (length ps)" "int_map nt1 = (int_map nt)(k \<mapsto> v)"
    using inttable_insert [OF Cons.prems(3) kv, of "length ps" c] Cons.prems(4) by (metis length_Cons)
  have "int_map nt1 k' = None \<and> v' \<noteq> -1" if "(k', v') \<in> set ps" for k' v'
  proof -
    have "k' \<in> set (map fst ps)" using that by (metis fst_conv image_eqI list.set_map)
    then have "k' \<noteq> k" using Cons.prems(5) p by auto
    then show ?thesis using Cons.prems(6) [of k' v'] that nt1(4) by simp
  qed
  then have "\<exists>nt' c'. reinsert_loop f t i' nt1 all_memory c1 = Ok (nt', c') \<and> int_wf nt' \<and> int_map nt' = int_map nt1 ++ map_of ps"
    by (intro Cons.IH [OF i'(2) _ nt1(2,3)]) (use Cons.prems f in auto)
  then obtain nt' c' where r: "reinsert_loop f t i' nt1 all_memory c1 = Ok (nt', c')" "int_wf nt'"
    "int_map nt' = (int_map nt)(k \<mapsto> v) ++ map_of ps"
    unfolding nt1(4) by blast
  have "k \<notin> dom (map_of ps)" using Cons.prems(5) p by (simp add: dom_map_of_conv_image_fst)
  then have "int_map nt' = int_map nt ++ map_of (p # ps)" unfolding r(3) p by (simp add: map_add_upd_left)
  moreover have "reinsert_loop fuel t i nt all_memory c = Ok (nt', c')"
    using Cons.prems(1) p f i'(1) nt1(1) r(1) by simp
  ultimately show ?case using r(2) by blast
qed

lemma array_part_le: "array_part counts n c = (l, a) \<Longrightarrow> l \<le> n"
  by (induction counts n c rule: array_part.induct) (auto split: if_splits)

lemma int_pairs_length:
  assumes wf: "int_wf t"
  shows "length (int_pairs t) = card (dom (int_map t))"
    "length (int_pairs t) < length (it_array t) + length (tb_entries (it_t t)) + 1"
proof -
  have "card (set (map fst (int_pairs t))) = length (map fst (int_pairs t))"
    by (rule distinct_card [OF int_pairs_map(1) [OF wf]])
  moreover have "dom (int_map t) = set (map fst (int_pairs t))"
    unfolding int_pairs_map(2) [OF wf, symmetric] by (simp add: dom_map_of_conv_image_fst)
  ultimately show "length (int_pairs t) = card (dom (int_map t))" by simp
  show "length (int_pairs t) < length (it_array t) + length (tb_entries (it_t t)) + 1"
    using length_filter_le [of "\<lambda>j. upb_arrhas (it_array t ! j)" "[0..<length (it_array t)]"]
      length_filter_le [of "\<lambda>e. ent_key e \<noteq> None" "tb_entries (it_t t)"]
    by (simp add: int_pairs_def array_pairs_def pairs_def le_imp_less_Suc add_le_mono)
qed

lemma int_map_value: "int_wf t \<Longrightarrow> int_map t k = Some v \<Longrightarrow> v \<noteq> -1"
  by (auto simp: int_wf_def int_map_def array_map_def upb_arrhas_def split: if_splits)

section \<open>What the integer table promises\<close>

text \<open>
  C30: As long as no request for memory is refused, a table with integer keys answers every sequence of at most
  900000000 lookups, insertions of new keys (with values other than the mark of an empty element) and removals as a finite map
  does, starting from the empty one. (When memory is refused, an insertion can lose keys, see
  \<open>strtable_resize_loses\<close> for the other table.)
\<close>

theorem inttable_refines_map:
  assumes "length ops \<le> 900000000" "legal (\<lambda>k. True) (\<lambda>v. v \<noteq> -1) ops Map.empty"
  shows "\<exists>t c' t'. upb_inttable_init all_memory c = Ok (True, Some t, c') \<and>
    run_ops upb_inttable_lookup int_put upb_inttable_remove ops t = Ok (fst (map_ops ops Map.empty), t') \<and>
    int_map t' = snd (map_ops ops Map.empty)"
proof -
  obtain t c' where t: "upb_inttable_init all_memory c = Ok (True, Some t, c')" "int_wf t" "int_map t = Map.empty"
    "tb_size_lg2 (it_t t) = 4" "the_map (it_t t) = Map.empty"
    unfolding upb_inttable_init_def by (rule sizedinit_map [of 0 4 c]) auto
  have room: "int_room t (length ops)" using assms(1) by (simp add: int_room_def t(5) load_limit_def)
  have "\<exists>rs t'. run_ops upb_inttable_lookup int_put upb_inttable_remove ops t = Ok (rs, t') \<and> int_map_wf t' \<and>
      map_ops ops (int_map t) = (rs, int_map t')"
    by (rule inttab.run_ops_map [OF _ room]) (use assms(2) t in \<open>simp_all add: int_map_wf_def\<close>)
  then show ?thesis using t by auto
qed

lemma inttable_refines_map_witness:
  "\<exists>t c' t'. upb_inttable_init all_memory 0 = Ok (True, Some t, c') \<and>
    run_ops upb_inttable_lookup int_put upb_inttable_remove
      [Insert 0 7, Insert 16 1, Insert 32 2, Lookup 16, Remove 16, Lookup 32, Lookup 16] t =
        Ok ([Some 1, Some 1, Some 2, None], t') \<and> int_map t' = [0 \<mapsto> 7, 32 \<mapsto> 2]"
  using inttable_refines_map [of "[Insert 0 7, Insert 16 1, Insert 32 2, Lookup 16, Remove 16, Lookup 32, Lookup 16]" 0]
  by (simp add: fun_upd_twist fun_upd_idem)

text \<open>
  C31: Compacting a table, which moves keys between the array and the hash part and chooses both sizes anew,
  keeps its map: no key is lost or changed, as long as the keys are below \<open>2 ^ 60\<close> and memory is to be had.
\<close>

theorem inttable_compact_same:
  assumes wf: "int_wf t" and keys: "\<forall>k\<in>dom (int_map t). unat k < 2 ^ 60" and count: "card (dom (int_map t)) \<le> 900000000"
  shows "\<exists>t' c'. upb_inttable_compact t all_memory c = Ok (t', c') \<and> int_wf t' \<and> int_map t' = int_map t"
proof -
  let ?fuel = "length (it_array t) + length (tb_entries (it_t t)) + 1" and ?z = "replicate 17 (0::u64)"
  obtain i where i: "upb_inttable_begin 0 t = Ok i" "yields t i (int_pairs t)" using yields_all [OF wf] .
  note len = int_pairs_length [OF wf]
  have in_map: "int_map t k = Some v" if "(k, v) \<in> set (int_pairs t)" for k v
    using that int_pairs_map [OF wf] by (metis map_of_is_SomeI)
  have "unat k < 2 ^ 60" if "(k, v) \<in> set (int_pairs t)" for k v using in_map [OF that] keys by auto
  then obtain counts maxs where c: "count_keys ?fuel t i ?z ?z = Ok (counts, maxs)" "length maxs = 17"
    "\<forall>m\<in>set maxs. unat m < 2 ^ 60"
    using count_keys_result [OF i(2) len(2), of ?z ?z "2 ^ 60"] by auto
  obtain l n where l: "array_part counts 16 (upb_inttable_count t) = (l, n)" "l \<le> 16"
    using array_part_le [of counts 16] by (metis surj_pair)
  have m: "unat (maxs ! l) < 2 ^ 60" using c(2,3) l(2) by (simp add: nth_mem)
  have "unat (maxs ! l + 1) \<le> unat (maxs ! l) + 1" by (simp add: unat_word_ariths(1))
  then have size: "unat (maxs ! l + 1) < 2 ^ 61" using m by simp
  define hs where "hs = hash_part_size (upb_inttable_count t - n)"
  obtain nt c' where nt: "upb_inttable_sizedinit (maxs ! l + 1) (log2ceil hs) all_memory c = Ok (True, Some nt, c')"
    "int_wf nt" "int_map nt = Map.empty" "the_map (it_t nt) = Map.empty"
    by (rule sizedinit_map [OF size, of "log2ceil hs" c]) (use log2ceil_le [of hs] in auto)
  have room: "int_room nt (length (int_pairs t))" using count len(1) nt(4) by (simp add: int_room_def load_limit_def)
  have "\<exists>nt' c''. reinsert_loop ?fuel t i nt all_memory c' = Ok (nt', c'') \<and> int_wf nt' \<and>
      int_map nt' = int_map nt ++ map_of (int_pairs t)"
    by (rule reinsert_loop_map [OF i(2) len(2) nt(2) room int_pairs_map(1) [OF wf]])
      (use in_map int_map_value [OF wf] nt(3) in auto)
  then obtain nt' c'' where r: "reinsert_loop ?fuel t i nt all_memory c' = Ok (nt', c'')" "int_wf nt'" "int_map nt' = int_map t"
    using nt(3) int_pairs_map(2) [OF wf] by auto
  have "upb_inttable_compact t all_memory c = Ok (nt', c'')"
    using i(1) c(1) l(1) nt(1) r(1) unfolding upb_inttable_compact_def Let_def
    by (simp add: hs_def del: count_keys.simps reinsert_loop.simps)
  then show ?thesis using r by blast
qed

lemma int_table_with:
  assumes "v \<noteq> -1"
  obtains t c t' where "upb_inttable_init all_memory 0 = Ok (True, Some t, c)" "int_put t k v = Ok t'" "int_map_wf t'"
    "int_map t' = [k \<mapsto> v]"
proof -
  obtain t c where t: "upb_inttable_init all_memory 0 = Ok (True, Some t, c)" "int_wf t" "int_map t = Map.empty"
    "tb_size_lg2 (it_t t) = 4" "the_map (it_t t) = Map.empty"
    unfolding upb_inttable_init_def by (rule sizedinit_map [of 0 4 0]) auto
  have "int_map_wf t" "int_room t (Suc 0)" using t by (auto simp: int_map_wf_def int_room_def load_limit_def)
  then obtain t' where "int_put t k v = Ok t'" "int_map_wf t'" "int_map t' = (int_map t)(k \<mapsto> v)"
    using inttab.ins [where t = t and n = 0 and k = k and v = v] assms t(3) by auto
  then show ?thesis using that t by simp
qed

lemma inttable_compact_same_witness:
  "\<exists>t c t1 t2 c2. upb_inttable_init all_memory 0 = Ok (True, Some t, c) \<and> int_put t 5 7 = Ok t1 \<and>
    upb_inttable_compact t1 all_memory 0 = Ok (t2, c2) \<and> int_map t2 = [5 \<mapsto> 7]"
proof -
  obtain t c t1 where t: "upb_inttable_init all_memory 0 = Ok (True, Some t, c)" "int_put t 5 7 = Ok t1" "int_map_wf t1"
    "int_map t1 = [5 \<mapsto> 7]"
    by (rule int_table_with [of 7 5]) auto
  then show ?thesis using inttable_compact_same [of t1 0] by (auto simp: int_map_wf_def)
qed

lemma array_pairs_ascend:
  assumes "length arr < 2 ^ 64"
  shows "sorted_wrt (<) (map fst (array_pairs arr))" "\<forall>k\<in>fst ` set (array_pairs arr). unat k < length arr"
proof -
  have u: "unat (of_nat j :: u64) = j" if "j < length arr" for j
    by (rule unat_of_nat_small) (use that assms in simp)
  have "sorted_wrt (\<lambda>i j. i < j) (filter (\<lambda>j. upb_arrhas (arr ! j)) [0..<length arr])"
    by (rule sorted_wrt_filter) (simp add: sorted_wrt_upt)
  then have "sorted_wrt (\<lambda>i j. (of_nat i :: u64) < of_nat j) (filter (\<lambda>j. upb_arrhas (arr ! j)) [0..<length arr])"
    by (rule sorted_wrt_mono_rel [rotated]) (auto simp: word_less_nat_alt u)
  then show "sorted_wrt (<) (map fst (array_pairs arr))" by (simp add: array_pairs_def sorted_wrt_map comp_def)
  show "\<forall>k\<in>fst ` set (array_pairs arr). unat k < length arr" by (auto simp: array_pairs_def u)
qed

text \<open>
  C32: Going through a well-formed table with the iterator yields every key of its map once, with its value: first those of
  the array, in ascending order, then those of the hash part, which are all above; then the iterator says it is done.
\<close>

theorem inttable_iterates:
  assumes wf: "int_wf t"
  shows "\<exists>i as hs. upb_inttable_begin ad t = Ok i \<and> yields t i (as @ hs) \<and> distinct (map fst (as @ hs)) \<and>
    map_of (as @ hs) = int_map t \<and> sorted_wrt (<) (map fst as) \<and> (\<forall>k\<in>fst ` set as. k < it_array_size t) \<and>
    (\<forall>k\<in>fst ` set hs. it_array_size t \<le> k)"
proof -
  let ?as = "array_pairs (it_array t)" and ?hs = "pairs (tb_entries (it_t t))"
  obtain i where i: "upb_inttable_begin ad t = Ok i" "yields t i (?as @ ?hs)"
    using yields_all [OF wf, of ad] unfolding int_pairs_def by blast
  have len: "length (it_array t) = unat (it_array_size t)" using wf by (simp add: int_wf_def)
  have "unat (it_array_size t) < 2 ^ LENGTH(64)" by (rule unsigned_less)
  then have "length (it_array t) < 2 ^ 64" using len by simp
  note as = array_pairs_ascend [OF this]
  have hs: "\<forall>k\<in>fst ` set ?hs. it_array_size t \<le> k"
    using wf unfolding int_wf_def table_map_def dom_map_of_conv_image_fst by blast
  show ?thesis
    by (rule exI [of _ i], rule exI [of _ ?as], rule exI [of _ ?hs])
      (use i as hs int_pairs_map [OF wf] len in \<open>simp add: int_pairs_def word_less_nat_alt\<close>)
qed

lemma inttable_iterates_witness:
  "\<exists>t c t1 i as hs. upb_inttable_init all_memory 0 = Ok (True, Some t, c) \<and> int_put t 5 7 = Ok t1 \<and>
    upb_inttable_begin 0 t1 = Ok i \<and> yields t1 i (as @ hs) \<and> distinct (map fst (as @ hs)) \<and> map_of (as @ hs) = [5 \<mapsto> 7]"
proof -
  obtain t c t1 where t: "upb_inttable_init all_memory 0 = Ok (True, Some t, c)" "int_put t 5 7 = Ok t1" "int_map_wf t1"
    "int_map t1 = [5 \<mapsto> 7]"
    by (rule int_table_with [of 7 5]) auto
  have "int_wf t1" using t(3) by (simp add: int_map_wf_def)
  from inttable_iterates [OF this, of 0] show ?thesis using t by fastforce
qed

text \<open>Replacing the value of a key changes that value alone, and a key that is not there stays absent.\<close>

lemma inttable_replace:
  assumes wf: "int_wf t" and v: "v \<noteq> -1"
  obtains t' where "upb_inttable_replace t k v = Ok (int_map t k \<noteq> None, t')" "int_wf t'"
    "int_map t' = (if int_map t k = None then int_map t else (int_map t)(k \<mapsto> v))"
proof (cases "k < it_array_size t")
  case True
  then have i: "unat k < length (it_array t)" using array_index [OF wf] by simp
  show ?thesis
  proof (cases "upb_arrhas (it_array t ! unat k)")
    case has: True
    let ?t = "t\<lparr>it_array := (it_array t)[unat k := v]\<rparr>"
    have "set_count ((it_array t)[unat k := v]) = set_count (it_array t)"
      using set_count_update [OF i, of v] has v by (simp add: upb_arrhas_def)
    then have "int_wf ?t" using wf by (simp add: int_wf_def)
    moreover have "int_map ?t = (int_map t)(k \<mapsto> v)"
      using int_map_array_update [OF wf True, where c = "it_array_count t" and v = v] v by (simp add: upb_arrhas_def)
    ultimately show ?thesis
      using that [of ?t] True i has
      by (simp add: upb_inttable_replace_def inttable_val_def array_get_def int_map_def array_map_def)
  next
    case False
    then show ?thesis
      using that [of t] True i wf
      by (simp add: upb_inttable_replace_def inttable_val_def array_get_def int_map_def array_map_def)
  qed
next
  case False
  let ?h = "it_t t"
  have h: "table_wf upb_inthash ?h" using wf by (simp add: int_wf_def)
  show ?thesis
  proof (rule int.findentry_result [OF h, of k])
    fix i
    assume i: "findentry ?h k (upb_inthash k) inteql = Ok (Some i)" "i < length (tb_entries ?h)"
      "ent_key (tb_entries ?h ! i) = Some k" "the_map ?h k = Some (ent_val (tb_entries ?h ! i))"
    let ?es = "(tb_entries ?h)[i := (tb_entries ?h ! i)\<lparr>ent_val := v\<rparr>]"
    let ?t = "t\<lparr>it_t := ?h\<lparr>tb_entries := ?es\<rparr>\<rparr>"
    obtain C where C: "chained (main_pos upb_inthash ?h) (tb_entries ?h) C" using h by (auto simp: table_wf_def)
    have ch: "chained (main_pos upb_inthash ?h) ?es C"
      by (rule chained_same [THEN iffD2, OF _ _ _ C]) (use i(2) in \<open>auto simp: nth_list_update\<close>)
    define es0 where "es0 = (tb_entries ?h)[i := zero_ent]"
    have es0: "mset (pairs (tb_entries ?h)) = add_mset (k, ent_val (tb_entries ?h ! i)) (mset (pairs es0))"
      using pairs_update [OF i(2), of zero_ent] i(3) by (simp add: pairs_entry zero_ent_def es0_def)
    have "mset (pairs ?es) + {#(k, ent_val (tb_entries ?h ! i))#} = mset (pairs (tb_entries ?h)) + {#(k, v)#}"
      using pairs_update [OF i(2), of "(tb_entries ?h ! i)\<lparr>ent_val := v\<rparr>"] i(3) by (simp add: pairs_entry)
    then have es1: "mset (pairs ?es) = add_mset (k, v) (mset (pairs es0))"
      unfolding es0 by (simp add: add_mset_commute)
    have one: "one_each (tb_entries ?h)" using h by (simp add: table_wf_def)
    then have one': "one_each ?es" using one_each_mset [OF es0] one_each_mset [OF es1] by simp
    have map: "table_map ?es = (the_map ?h)(k \<mapsto> v)"
      using table_map_mset(1) [OF es1 one'] table_map_mset(1) [OF es0 one] by simp
    have "length (pairs ?es) = length (pairs (tb_entries ?h))"
      using arg_cong [OF es0, of size] arg_cong [OF es1, of size] by simp
    then have "table_wf upb_inthash (?h\<lparr>tb_count := tb_count ?h, tb_entries := ?es\<rparr>)"
      by (intro table_wf_update [OF h _ _ _ one' ch]) (use h in \<open>simp_all add: table_wf_def\<close>)
    then have "int_wf ?t" using wf map v False i(4) by (auto simp: int_wf_def split: if_splits)
    moreover have "int_map ?t = (int_map t)(k \<mapsto> v)" using False map by (auto simp: int_map_def fun_eq_iff)
    ultimately show thesis
      using that [of ?t] False i by (simp add: upb_inttable_replace_def inttable_val_def int_map_def)
  next
    assume "findentry ?h k (upb_inthash k) inteql = Ok None" "the_map ?h k = None"
    then show thesis
      using that [of t] False wf by (simp add: upb_inttable_replace_def inttable_val_def int_map_def)
  qed
qed

text \<open>
  A replacement says whether the key was there; if it was, the map changes at that key alone, and if it was not
  nothing changes. The table stays well formed.
\<close>

theorem inttable_replace_map:
  assumes "int_wf t" "v \<noteq> -1"
  shows "\<exists>t'. upb_inttable_replace t k v = Ok (int_map t k \<noteq> None, t') \<and> int_wf t' \<and>
    int_map t' = (if int_map t k = None then int_map t else (int_map t)(k \<mapsto> v))"
  using inttable_replace [OF assms, of k] by metis

lemma inttable_replace_map_witness:
  "\<exists>t c t1 t2. upb_inttable_init all_memory 0 = Ok (True, Some t, c) \<and> int_put t 20 7 = Ok t1 \<and>
    upb_inttable_replace t1 20 8 = Ok (True, t2) \<and> int_map t2 = [20 \<mapsto> 8]"
proof -
  obtain t c t1 where t: "upb_inttable_init all_memory 0 = Ok (True, Some t, c)" "int_put t 20 7 = Ok t1" "int_map_wf t1"
    "int_map t1 = [20 \<mapsto> 7]"
    by (rule int_table_with [of 7 20]) auto
  then show ?thesis using inttable_replace_map [of t1 8 20] by (auto simp: int_map_wf_def)
qed

section \<open>What the code does not handle\<close>

text \<open>
  C33: The iteration by index, started at \<open>UPB_INTTABLE_BEGIN\<close>, never looks at the array part: with nothing in the
  hash part it ends at once, whatever keys the table has. (The index -1 is compared with an unsigned size.)
\<close>

theorem next2_skips_array:
  assumes "int_wf t" "the_map (it_t t) = Map.empty"
  shows "upb_inttable_next2 t (-1) = Ok None"
proof -
  let ?es = "tb_entries (it_t t)"
  have h: "table_wf upb_inthash (it_t t)" using assms(1) by (simp add: int_wf_def)
  have n: "length ?es = upb_table_size (it_t t)" "upb_table_size (it_t t) \<le> 2 ^ 30"
    using h table_size_bound [of "it_t t"] by (auto simp: table_wf_def table_shape_def)
  have "pairs ?es = []"
    using assms(2) pairs_count [OF h] by simp
  then have "filter (used ?es) [0..<length ?es] = []" unfolding pairs_in_order by simp
  then have "table_next (it_t t) (-1) = Ok (SIZE_MAX - 1)"
    using next_loop_result [of ?es 0] n by (simp add: table_next_def)
  moreover have "\<not> (-1 :: u64) < it_array_size t" by (simp add: not_less)
  moreover have "unat (SIZE_MAX - 1) = 18446744073709551614" by simp
  ultimately show ?thesis using n by (simp add: upb_inttable_next2_def)
qed

lemma next2_skips_array_witness:
  "\<exists>t c t1. upb_inttable_init all_memory 0 = Ok (True, Some t, c) \<and> int_put t 0 7 = Ok t1 \<and>
    int_map t1 = [0 \<mapsto> 7] \<and> upb_inttable_next2 t1 (-1) = Ok None"
proof -
  obtain t c where t: "upb_inttable_init all_memory 0 = Ok (True, Some t, c)" "int_wf t" "int_map t = Map.empty"
    "it_array_size t = 1" "the_map (it_t t) = Map.empty"
    unfolding upb_inttable_init_def by (rule sizedinit_map [of 0 4 0]) auto
  have i: "0 < length (it_array t)" using t(2,4) by (simp add: int_wf_def)
  let ?t = "t\<lparr>it_array_count := it_array_count t + 1, it_array := (it_array t)[unat (0::u64) := 7]\<rparr>"
  have put: "int_put t 0 7 = Ok ?t" using t(4) i by (simp add: int_put_def upb_inttable_insert_def)
  have map: "int_map ?t = [0 \<mapsto> 7]"
    using int_map_array_update [OF t(2), where k = 0 and c = "it_array_count t + 1" and v = 7] t(3,4) by (simp add: upb_arrhas_def)
  have "\<not> upb_arrhas (it_array t ! 0)" using fun_cong [OF t(3), of 0] i t(4) by (simp add: int_map_def array_map_def split: if_splits)
  then have "int_wf ?t" using t(2) set_count_update [OF i, of 7] by (simp add: int_wf_def upb_arrhas_def)
  then show ?thesis using next2_skips_array [of ?t] t(1,5) put map by auto
qed

definition two_colliding :: "upb_inttable run" where
  "two_colliding =
     bind_outcome (upb_inttable_sizedinit 0 2 all_memory 0) (\<lambda>(_, t, _). case t of None \<Rightarrow> UB | Some t \<Rightarrow>
     bind_outcome (int_put t 4 1) (\<lambda>t. int_put t 8 2))"

text \<open>
  Removing through the iterator the entry that heads its chain loses the rest of the chain: of two keys with
  one main position the second is no longer found, though the table still counts it.
\<close>

lemma removeiter_loses_chain:
  "bind_outcome two_colliding (\<lambda>t. bind_outcome (upb_inttable_removeiter t 1) (\<lambda>t'.
     bind_outcome (upb_inttable_lookup t 8) (\<lambda>before. bind_outcome (upb_inttable_lookup t' 8) (\<lambda>after.
       Ok (before, after, upb_inttable_count t'))))) = Ok (Some 2, None, 1)"
  by code_simp

text \<open>
  A compaction that leaves no key for the hash part gives it no entries; removing a key that is not in the array
  then reads through NULL, although looking it up does not.
\<close>

lemma no_hash_part: "log2ceil (hash_part_size 0) = 0"
  by (simp add: log2ceil_def hash_part_size_def is_pow2_def shift_count.simps Let_def)

lemma remove_without_hash:
  assumes "int_wf t" "tb_size_lg2 (it_t t) = 0" "it_array_size t \<le> k"
  shows "upb_inttable_remove t k = UB" "upb_inttable_lookup t k = Ok None"
proof -
  have "tb_entries (it_t t) = []"
    using assms slot_bound_empty [of "it_t t"] by (auto simp: int_wf_def table_wf_def)
  then show "upb_inttable_remove t k = UB" "upb_inttable_lookup t k = Ok None"
    using assms by (auto simp: upb_inttable_remove_def rm_def upb_inttable_lookup_def inttable_val_def findentry_def not_less)
qed

end
