(* ===== verification/Upb_Bits.thy ===== *)
theory Upb_Bits
  imports Upb_Hash
begin

text \<open>
  Words as bytes in memory, least significant byte first: the bits of a loaded word, and storing a word so that
  it loads again.
\<close>

lemma bit_le_word:
  "bit (le_word bs) n \<longleftrightarrow> n < 64 \<and> n div 8 < length bs \<and> bit (bs ! (n div 8)) (n mod 8)"
proof (induction bs arbitrary: n)
  case (Cons b bs)
  show ?case
  proof (cases "n < 8")
    case True
    then show ?thesis by (simp add: bit_simps)
  next
    case False
    then obtain m where m: "n = 8 + m" using le_Suc_ex [of 8 n] by auto
    have "(8 + m) div 8 = Suc (m div 8)" by simp
    moreover have "\<not> bit b n" using False bit_imp_le_length [of b n] by auto
    ultimately show ?thesis using Cons [of m] by (auto simp: bit_simps m simp del: div_add_self1)
  qed
qed simp

text \<open>The \<open>n\<close> bytes of a word in memory.\<close>

definition le_bytes :: "nat \<Rightarrow> u64 \<Rightarrow> bytes" where
  "le_bytes n w = map (\<lambda>k. ucast (drop_bit (8 * k) w)) [0..<n]"

lemma length_le_bytes [simp]: "length (le_bytes n w) = n"
  by (simp add: le_bytes_def)

lemma le_word_le_bytes: "n \<le> 8 \<Longrightarrow> le_word (le_bytes n w) = take_bit (8 * n) w"
proof (rule bit_word_eqI)
  fix k :: nat assume n: "n \<le> 8" and k: "k < LENGTH(64)"
  have "k div 8 < n \<longleftrightarrow> k < 8 * n" by (simp add: div_less_iff_less_mult mult.commute)
  moreover have "8 * (k div 8) + k mod 8 = k" by simp
  ultimately show "bit (le_word (le_bytes n w)) k = bit (take_bit (8 * n) w) k"
    using k by (auto simp: bit_le_word le_bytes_def bit_simps)
qed

lemma le_word_le_bytes8 [simp]: "le_word (le_bytes 8 w) = w"
  using le_word_le_bytes [of 8 w] take_bit_length_eq [of w] by simp

lemma le_bytes_inj: "n \<le> 8 \<Longrightarrow> le_bytes n v = le_bytes n w \<Longrightarrow> take_bit (8 * n) v = take_bit (8 * n) w"
  by (metis le_word_le_bytes)

end
