(* ===== verification/Upb_Utf8.thy ===== *)
theory Upb_Utf8
  imports Upb_Bits
begin

text \<open>
  Validation of UTF-8: the portable validator (\<open>utf8_range/naive.c\<close>) and the check of string fields that
  skips ASCII first (\<open>upb/internal/decode.h\<close>, built without SSE and NEON). The validator is shown to accept
  exactly the concatenations of encoded Unicode scalar values, and to point at the first octet of the first
  sequence that is none.
\<close>

section \<open>The validator\<close>

text \<open>\<open>(signed char)b <= (signed char)0xBF\<close>\<close>

definition cont_byte :: "u8 \<Rightarrow> bool" where
  "cont_byte b \<longleftrightarrow> sint b \<le> sint (0xBF :: u8)"

definition data_at :: "bytes \<Rightarrow> nat \<Rightarrow> u8 run" where
  "data_at data i = (if length data \<le> i then UB else Ok (data ! i))"

definition three_bytes :: "u8 \<Rightarrow> u8 \<Rightarrow> bool" where
  "three_bytes byte1 byte2 \<longleftrightarrow>
     byte1 = 0xE0 \<and> byte2 \<ge> 0xA0 \<or> byte1 \<ge> 0xE1 \<and> byte1 \<le> 0xEC \<or>
     byte1 = 0xED \<and> byte2 \<le> 0x9F \<or> byte1 \<ge> 0xEE \<and> byte1 \<le> 0xEF"

definition four_bytes :: "u8 \<Rightarrow> u8 \<Rightarrow> bool" where
  "four_bytes byte1 byte2 \<longleftrightarrow>
     byte1 = 0xF0 \<and> byte2 \<ge> 0x90 \<or> byte1 \<ge> 0xF1 \<and> byte1 \<le> 0xF3 \<or> byte1 = 0xF4 \<and> byte2 \<le> 0x8F"

text \<open>The choice of \<open>bytes\<close> in the loop body; \<open>None\<close> is the \<open>return err_pos\<close>.\<close>

definition long_sequence :: "bytes \<Rightarrow> int \<Rightarrow> u8 \<Rightarrow> nat option run" where
  "long_sequence data len byte1 =
     (if len \<ge> 3 then
        bind_outcome (data_at data 1) (\<lambda>byte2.
        bind_outcome (data_at data 2) (\<lambda>byte3.
          if cont_byte byte2 \<and> cont_byte byte3 \<and> three_bytes byte1 byte2 then Ok (Some 3)
          else if len \<ge> 4 then
            bind_outcome (data_at data 3) (\<lambda>byte4.
              if cont_byte byte2 \<and> cont_byte byte3 \<and> cont_byte byte4 \<and> four_bytes byte1 byte2 then Ok (Some 4)
              else Ok None)
          else Ok None))
      else Ok None)"

definition sequence_bytes :: "bytes \<Rightarrow> int \<Rightarrow> nat option run" where
  "sequence_bytes data len =
     bind_outcome (data_at data 0) (\<lambda>byte1.
       if byte1 \<le> 0x7F then Ok (Some 1)
       else if len \<ge> 2 \<and> byte1 \<ge> 0xC2 \<and> byte1 \<le> 0xDF then
         bind_outcome (data_at data 1) (\<lambda>byte2.
           if cont_byte byte2 then Ok (Some 2) else long_sequence data len byte1)
       else long_sequence data len byte1)"

lemma sequence_bytes_pos: "sequence_bytes data len = Ok (Some n) \<Longrightarrow> 0 < n \<and> data \<noteq> []"
  by (auto simp: sequence_bytes_def long_sequence_def data_at_def bind_outcome_Ok_iff split: if_splits)

text \<open>The loop; each round takes at least one octet, and the counter must stay an \<open>int\<close>.\<close>

function utf8_loop :: "bytes \<Rightarrow> int \<Rightarrow> int \<Rightarrow> int run" where
  "utf8_loop data len err_pos =
     (if len = 0 then Ok 0
      else
        case sequence_bytes data len of
          Ok (Some bytes) \<Rightarrow>
            if err_pos + int bytes > INT_MAX then UB
            else utf8_loop (drop bytes data) (len - int bytes) (err_pos + int bytes)
        | Ok None \<Rightarrow> Ok err_pos
        | Fail e \<Rightarrow> Fail e
        | UB \<Rightarrow> UB)"
  by pat_completeness auto
termination
proof (relation "measure (\<lambda>(data, len, err_pos). length data)")
  fix data len err_pos and x :: "nat option" and bytes
  assume "sequence_bytes data len = Ok x" "x = Some bytes"
  with sequence_bytes_pos [of data len bytes]
  show "((drop bytes data, len - int bytes, err_pos + int bytes), data, len, err_pos) \<in> measure (\<lambda>(data, len, err_pos). length data)"
    by auto
qed simp

declare utf8_loop.simps [simp del]

definition utf8_naive :: "bytes \<Rightarrow> int \<Rightarrow> int run" where
  "utf8_naive data len = utf8_loop data len 1"

section \<open>The check of string fields\<close>

definition utf8_range2 :: "bytes \<Rightarrow> int \<Rightarrow> int run" where
  "utf8_range2 data len = utf8_naive data len"

text \<open>The two loops over ASCII: what is left of the input and of its length at \<open>non_ascii\<close>, or \<open>None\<close>.\<close>

fun ascii_bytes :: "bytes \<Rightarrow> nat \<Rightarrow> (bytes \<times> nat) option run" where
  "ascii_bytes ptr 0 = Ok None"
| "ascii_bytes ptr (Suc n) =
     bind_outcome (data_at ptr 0) (\<lambda>b. if b AND 0x80 \<noteq> 0 then Ok (Some (ptr, Suc n)) else ascii_bytes (drop 1 ptr) n)"

function ascii_words :: "bytes \<Rightarrow> nat \<Rightarrow> (bytes \<times> nat) option run" where
  "ascii_words ptr n =
     (if n \<ge> 8 then
        bind_outcome (UnalignedLoad64 ptr) (\<lambda>data.
          if data AND 0x8080808080808080 \<noteq> 0 then Ok (Some (ptr, n)) else ascii_words (drop 8 ptr) (n - 8))
      else ascii_bytes ptr n)"
  by pat_completeness auto
termination by (relation "measure snd") auto

declare ascii_words.simps [simp del]

definition decode_verifyutf8_inl :: "bytes \<Rightarrow> int \<Rightarrow> bool run" where
  "decode_verifyutf8_inl ptr len =
     bind_outcome (ascii_words ptr (nat len)) (\<lambda>rest.
       case rest of
         None \<Rightarrow> Ok True
       | Some (p, n) \<Rightarrow> bind_outcome (utf8_range2 p (int n)) (\<lambda>r. Ok (r = 0)))"

section \<open>UTF-8\<close>

text \<open>Unicode scalar values and their encoding, by the arithmetic of the Unicode standard (Table 3-6).\<close>

definition scalar_value :: "nat \<Rightarrow> bool" where
  "scalar_value c \<longleftrightarrow> c < 0xD800 \<or> 0xE000 \<le> c \<and> c < 0x110000"

definition utf8_code :: "nat \<Rightarrow> nat list" where
  "utf8_code c =
     (if c < 0x80 then [c]
      else if c < 0x800 then [0xC0 + c div 64, 0x80 + c mod 64]
      else if c < 0x10000 then [0xE0 + c div 4096, 0x80 + c div 64 mod 64, 0x80 + c mod 64]
      else [0xF0 + c div 262144, 0x80 + c div 4096 mod 64, 0x80 + c div 64 mod 64, 0x80 + c mod 64])"

definition utf8_char :: "nat \<Rightarrow> bytes" where
  "utf8_char c = map of_nat (utf8_code c)"

definition utf8_text :: "nat list \<Rightarrow> bytes" where
  "utf8_text cs = concat (map utf8_char cs)"

section \<open>One sequence\<close>

definition cont_oct :: "nat \<Rightarrow> bool" where
  "cont_oct b \<longleftrightarrow> 0x80 \<le> b \<and> b < 0xC0"

lemma cont_byte_iff: "cont_byte b \<longleftrightarrow> cont_oct (unat b)"
proof -
  have "cont_byte b \<longleftrightarrow> 128 \<le> uint b \<and> uint b < 192"
    by (induct b rule: u8_check) code_simp
  then show ?thesis
    using le_unat_u8 [of 128 b] le_unat_u8 [of 192 b] by (simp add: cont_oct_def not_le [symmetric])
qed

lemma u8_le_iff: "(b::u8) \<le> of_nat n \<longleftrightarrow> unat b \<le> n" "of_nat n \<le> b \<longleftrightarrow> n \<le> unat b" if "n < 256" for n
  using that by (auto simp: word_le_nat_alt unat_of_nat)

lemma unat_byte [simp]: "n < 256 \<Longrightarrow> unat (of_nat n :: u8) = n"
  by (simp add: unat_of_nat)

lemma byte_eq: "(b::u8) = 0xE0 \<longleftrightarrow> unat b = 0xE0" "b = 0xED \<longleftrightarrow> unat b = 0xED"
  "b = 0xF0 \<longleftrightarrow> unat b = 0xF0" "b = 0xF4 \<longleftrightarrow> unat b = 0xF4"
  by (induct b rule: u8_check, code_simp)+

definition three_octs :: "nat \<Rightarrow> nat \<Rightarrow> bool" where
  "three_octs a b \<longleftrightarrow> 0xE0 \<le> a \<and> a < 0xF0 \<and> (a = 0xE0 \<longrightarrow> 0xA0 \<le> b) \<and> (a = 0xED \<longrightarrow> b < 0xA0)"

definition four_octs :: "nat \<Rightarrow> nat \<Rightarrow> bool" where
  "four_octs a b \<longleftrightarrow> 0xF0 \<le> a \<and> a < 0xF5 \<and> (a = 0xF0 \<longrightarrow> 0x90 \<le> b) \<and> (a = 0xF4 \<longrightarrow> b < 0x90)"

lemma byte_classes: "three_bytes b b2 \<longleftrightarrow> three_octs (unat b) (unat b2)"
  "four_bytes b b2 \<longleftrightarrow> four_octs (unat b) (unat b2)"
proof -
  have "three_bytes b b2 \<longleftrightarrow> unat b = 0xE0 \<and> 0xA0 \<le> unat b2 \<or> 0xE1 \<le> unat b \<and> unat b \<le> 0xEC \<or>
     unat b = 0xED \<and> unat b2 \<le> 0x9F \<or> 0xEE \<le> unat b \<and> unat b \<le> 0xEF"
    "four_bytes b b2 \<longleftrightarrow> unat b = 0xF0 \<and> 0x90 \<le> unat b2 \<or> 0xF1 \<le> unat b \<and> unat b \<le> 0xF3 \<or>
     unat b = 0xF4 \<and> unat b2 \<le> 0x8F"
    unfolding three_bytes_def four_bytes_def word_le_nat_alt byte_eq by simp_all
  then show "three_bytes b b2 \<longleftrightarrow> three_octs (unat b) (unat b2)" "four_bytes b b2 \<longleftrightarrow> four_octs (unat b) (unat b2)"
    unfolding three_octs_def four_octs_def by presburger+
qed

text \<open>The decision on the first octets as numbers.\<close>

definition sequence_len :: "nat \<Rightarrow> nat \<Rightarrow> nat \<Rightarrow> nat \<Rightarrow> nat option" where
  "sequence_len a b c d =
     (if a < 0x80 then Some 1
      else if 0xC2 \<le> a \<and> a < 0xE0 \<and> cont_oct b then Some 2
      else if cont_oct b \<and> cont_oct c \<and> three_octs a b then Some 3
      else if cont_oct b \<and> cont_oct c \<and> cont_oct d \<and> four_octs a b then Some 4
      else None)"

definition oct :: "bytes \<Rightarrow> nat \<Rightarrow> nat" where
  "oct data i = (if i < length data then unat (data ! i) else 0)"

definition first_sequence :: "bytes \<Rightarrow> nat option" where
  "first_sequence data = sequence_len (oct data 0) (oct data 1) (oct data 2) (oct data 3)"

lemma low_digit: "x = k * 64 + r \<Longrightarrow> r < 64 \<Longrightarrow> x mod 64 = (r::nat)"
  by simp

lemma top_digit: "y div 64 = k \<Longrightarrow> y < k * 64 + m \<Longrightarrow> y mod 64 < (m::nat)"
  using div_mult_mod_eq [of y 64] by linarith

lemma low_octs: "a < 0xE0 \<Longrightarrow> \<not> three_octs a b \<and> \<not> four_octs a b"
  by (simp add: three_octs_def four_octs_def)

lemma sequence_len_code:
  assumes "sequence_len a b c d = Some n"
  shows "\<exists>x. scalar_value x \<and> utf8_code x = take n [a, b, c, d]"
proof -
  consider "n = 1" "a < 0x80" | "n = 2" "0xC2 \<le> a" "a < 0xE0" "0x80 \<le> b" "b < 0xC0"
    | "n = 3" "0x80 \<le> b" "b < 0xC0" "0x80 \<le> c" "c < 0xC0" "0xE0 \<le> a" "a < 0xF0" "a = 0xE0 \<longrightarrow> 0xA0 \<le> b" "a = 0xED \<longrightarrow> b < 0xA0"
    | "n = 4" "0x80 \<le> b" "b < 0xC0" "0x80 \<le> c" "c < 0xC0" "0x80 \<le> d" "d < 0xC0" "0xF0 \<le> a" "a < 0xF5"
        "a = 0xF0 \<longrightarrow> 0x90 \<le> b" "a = 0xF4 \<longrightarrow> b < 0x90"
    using assms by (auto simp: sequence_len_def cont_oct_def three_octs_def four_octs_def split: if_splits)
  then show ?thesis
  proof cases
    case 1
    then show ?thesis by (intro exI [of _ a]) (simp add: scalar_value_def utf8_code_def)
  next
    case 2
    then obtain p q where pq: "a = 0xC0 + p" "b = 0x80 + q" using le_Suc_ex [of "0xC0" a] le_Suc_ex [of "0x80" b] by auto
    show ?thesis by (intro exI [of _ "p * 64 + q"]) (use 2 pq in \<open>simp add: scalar_value_def utf8_code_def\<close>)
  next
    case 3
    then obtain p q r where pq: "a = 0xE0 + p" "b = 0x80 + q" "c = 0x80 + r" by (metis le_Suc_ex)
    let ?x = "p * 4096 + q * 64 + r"
    have sv: "scalar_value ?x" using 3 pq by (cases rule: linorder_cases [of p 13]) (auto simp: scalar_value_def)
    have x: "0x800 \<le> ?x" "?x < 0x10000" "?x div 4096 = p" "?x div 64 = p * 64 + q" using 3 pq by linarith+
    have m: "?x mod 64 = r" "(p * 64 + q) mod 64 = q" 
      using 3 pq low_digit [of ?x "p * 64 + q" r] low_digit [of "p * 64 + q" p q] by simp_all
    show ?thesis using sv x m 3 pq by (intro exI [of _ ?x]) (simp add: utf8_code_def)
  next
    case 4
    then obtain p q r t where pq: "a = 0xF0 + p" "b = 0x80 + q" "c = 0x80 + r" "d = 0x80 + t" by (metis le_Suc_ex)
    let ?x = "p * 262144 + q * 4096 + r * 64 + t"
    have sv: "scalar_value ?x" using 4 pq by (simp add: scalar_value_def) linarith
    have x: "0x10000 \<le> ?x" "?x div 262144 = p" "?x div 4096 = p * 64 + q" "?x div 64 = p * 4096 + q * 64 + r" using 4 pq by linarith+
    have m: "?x mod 64 = t" "(p * 4096 + q * 64 + r) mod 64 = r" "(p * 64 + q) mod 64 = q"
      using 4 pq low_digit [of ?x "p * 4096 + q * 64 + r" t] low_digit [of "p * 4096 + q * 64 + r" "p * 64 + q" r]
        low_digit [of "p * 64 + q" p q] by simp_all
    show ?thesis using sv x m 4 pq by (intro exI [of _ ?x]) (simp add: utf8_code_def)
  qed
qed

lemma code_sequence_len:
  assumes "scalar_value x"
  shows "(utf8_code x = [a] \<longrightarrow> sequence_len a b c d = Some 1) \<and> (utf8_code x = [a, b] \<longrightarrow> sequence_len a b c d = Some 2) \<and>
    (utf8_code x = [a, b, c] \<longrightarrow> sequence_len a b c d = Some 3) \<and> (utf8_code x = [a, b, c, d] \<longrightarrow> sequence_len a b c d = Some 4)"
proof -
  have "x < 0x110000" using assms by (auto simp: scalar_value_def)
  then consider "x < 0x80" | "0x80 \<le> x" "x < 0x800" | "0x800 \<le> x" "x < 0x10000" | "0x10000 \<le> x" "x < 0x110000"
    by linarith
  then show ?thesis
  proof cases
    case 1
    then show ?thesis by (auto simp: utf8_code_def sequence_len_def cont_oct_def three_octs_def four_octs_def)
  next
    case 2
    then show ?thesis by (auto simp: utf8_code_def sequence_len_def cont_oct_def three_octs_def four_octs_def)
  next
    case 3
    moreover have "x div 64 mod 64 < 32" if "x div 4096 = 13"
      using that assms top_digit [of "x div 64" 13 32] by (auto simp: scalar_value_def div_mult2_eq [symmetric])
    ultimately show ?thesis by (auto simp: utf8_code_def sequence_len_def cont_oct_def three_octs_def four_octs_def)
  next
    case 4
    moreover have "x div 4096 mod 64 < 16" if "x div 262144 = 4"
      using that 4 top_digit [of "x div 4096" 4 16] by (auto simp: div_mult2_eq [symmetric])
    ultimately show ?thesis by (auto simp: utf8_code_def sequence_len_def cont_oct_def three_octs_def four_octs_def)
  qed
qed

lemma utf8_code_bytes: "scalar_value x \<Longrightarrow> b \<in> set (utf8_code x) \<Longrightarrow> b < 256"
  by (auto simp: utf8_code_def scalar_value_def split: if_splits)

lemma sequence_bytes_first:
  assumes "data \<noteq> []"
  shows "sequence_bytes data (int (length data)) = Ok (first_sequence data)"
proof -
  obtain a r where d: "data = a # r" using assms by (cases data) auto
  have len: "int (length data) \<ge> 2 \<longleftrightarrow> 1 < length data" "int (length data) \<ge> 3 \<longleftrightarrow> 2 < length data"
    "int (length data) \<ge> 4 \<longleftrightarrow> 3 < length data"
    by auto
  have at: "data_at data i = Ok (data ! i)" if "i < length data" for i
    using that by (simp add: data_at_def)
  have head: "data ! 0 = a" "oct data 0 = unat a" by (auto simp: d oct_def)
  have long: "long_sequence data (int (length data)) a =
      Ok (if unat a < 0xE0 then None else first_sequence data)" if "0x80 \<le> unat a"
  proof -
    consider "length data \<le> 2" | "length data = 3" | "length data > 3" by linarith
    then show ?thesis
    proof cases
      case 1
      then show ?thesis using that assms
        by (simp add: long_sequence_def first_sequence_def sequence_len_def head oct_def cont_oct_def)
    next
      case 2
      then show ?thesis using that
        by (simp add: long_sequence_def at first_sequence_def sequence_len_def head oct_def cont_byte_iff byte_classes)
          (auto simp: cont_oct_def three_octs_def)
    next
      case 3
      then show ?thesis using that
        by (simp add: long_sequence_def at first_sequence_def sequence_len_def head oct_def cont_byte_iff byte_classes)
          (use low_octs [of "unat a"] in auto)
    qed
  qed
  show ?thesis
  proof (cases "length data = 1")
    case True
    then show ?thesis using long assms
      by (simp add: sequence_bytes_def at head word_le_nat_alt first_sequence_def sequence_len_def)
        (auto simp: oct_def cont_oct_def)
  next
    case False
    then have "1 < length data" using assms by (cases "length data") auto
    then show ?thesis using long assms
      by (simp add: sequence_bytes_def at head word_le_nat_alt first_sequence_def sequence_len_def cont_byte_iff oct_def [of data "Suc 0"])
        (use low_octs [of "unat a"] in auto)
  qed
qed

lemma first_sequence_length: "data \<noteq> [] \<Longrightarrow> first_sequence data = Some n \<Longrightarrow> n \<le> length data \<and> 1 \<le> n \<and> n \<le> 4"
  by (auto simp: first_sequence_def sequence_len_def oct_def cont_oct_def Suc_le_eq split: if_splits)

lemma take_octs: "n \<le> length data \<Longrightarrow> n \<le> 4 \<Longrightarrow> take n [oct data 0, oct data 1, oct data 2, oct data 3] = map unat (take n data)"
  by (rule nth_equalityI) (auto simp: oct_def nth_Cons less_Suc_eq numeral_eq_Suc split: nat.splits)

lemma first_sequence_char:
  assumes "data \<noteq> []" "first_sequence data = Some n"
  shows "\<exists>x. scalar_value x \<and> utf8_char x = take n data"
proof -
  obtain x where x: "scalar_value x" "utf8_code x = take n [oct data 0, oct data 1, oct data 2, oct data 3]"
    using sequence_len_code [OF assms(2) [unfolded first_sequence_def]] by blast
  with first_sequence_length [OF assms] take_octs [of n data] have "utf8_code x = map unat (take n data)" by metis
  then have "utf8_char x = take n data" by (simp add: utf8_char_def o_def)
  with x show ?thesis by blast
qed

lemma unat_utf8_char: "scalar_value x \<Longrightarrow> map unat (utf8_char x) = utf8_code x"
  by (auto simp: utf8_char_def utf8_code_bytes intro!: map_idI)

lemma utf8_code_cases:
  obtains a where "utf8_code x = [a]" | a b where "utf8_code x = [a, b]" | a b c where "utf8_code x = [a, b, c]"
  | a b c d where "utf8_code x = [a, b, c, d]"
  by (cases "x < 128"; cases "x < 2048"; cases "x < 65536") (auto simp: utf8_code_def)

lemma char_first_sequence:
  assumes "scalar_value x"
  shows "first_sequence (utf8_char x @ r) = Some (length (utf8_char x))"
proof -
  have o: "oct (utf8_char x @ r) i = utf8_code x ! i" if "i < length (utf8_code x)" for i
  proof -
    have "length (utf8_char x) = length (utf8_code x)" by (simp add: utf8_char_def)
    with that show ?thesis
      using nth_map [of i "utf8_char x" unat] by (simp add: oct_def nth_append unat_utf8_char [OF assms])
  qed
  have l: "length (utf8_char x) = length (utf8_code x)" by (simp add: utf8_char_def)
  note c = code_sequence_len [OF assms, of "oct (utf8_char x @ r) 0" "oct (utf8_char x @ r) 1" "oct (utf8_char x @ r) 2" "oct (utf8_char x @ r) 3"]
  have o': "0 < length (utf8_code x) \<Longrightarrow> oct (utf8_char x @ r) 0 = utf8_code x ! 0" "1 < length (utf8_code x) \<Longrightarrow> oct (utf8_char x @ r) 1 = utf8_code x ! 1"
    "2 < length (utf8_code x) \<Longrightarrow> oct (utf8_char x @ r) 2 = utf8_code x ! 2" "3 < length (utf8_code x) \<Longrightarrow> oct (utf8_char x @ r) 3 = utf8_code x ! 3"
    by (rule o; simp)+
  show ?thesis
    using c o' by (cases x rule: utf8_code_cases) (simp_all add: first_sequence_def l)
qed

lemma utf8_char_not_Nil [simp]: "utf8_char x \<noteq> []"
  by (simp add: utf8_char_def utf8_code_def)

section \<open>Texts\<close>

definition utf8_valid :: "bytes \<Rightarrow> bool" where
  "utf8_valid data \<longleftrightarrow> (\<exists>cs. list_all scalar_value cs \<and> data = utf8_text cs)"

lemma utf8_text_simps [simp]: "utf8_text [] = []" "utf8_text (c # cs) = utf8_char c @ utf8_text cs"
  by (simp_all add: utf8_text_def)

lemma char_first: "scalar_value c \<Longrightarrow> scalar_value c' \<Longrightarrow> utf8_char c @ r = utf8_char c' @ r' \<Longrightarrow> utf8_char c = utf8_char c' \<and> r = r'"
  using char_first_sequence [of c r] char_first_sequence [of c' r'] by (metis append_eq_append_conv option.inject)

lemma utf8_valid_char: "scalar_value c \<Longrightarrow> utf8_valid (utf8_char c @ r) \<longleftrightarrow> utf8_valid r"
proof
  assume c: "scalar_value c" and "utf8_valid (utf8_char c @ r)"
  then obtain cs where cs: "list_all scalar_value cs" "utf8_char c @ r = utf8_text cs" by (auto simp: utf8_valid_def)
  then obtain c' cs' where cs': "cs = c' # cs'" by (cases cs) auto
  with cs c char_first [of c c' r "utf8_text cs'"] show "utf8_valid r"
    by (auto simp: utf8_valid_def)
next
  assume "scalar_value c" "utf8_valid r"
  then show "utf8_valid (utf8_char c @ r)"
    by (auto simp: utf8_valid_def intro: exI [of _ "c # _"])
qed

lemma utf8_valid_text: "list_all scalar_value cs \<Longrightarrow> utf8_valid (utf8_text cs @ r) \<longleftrightarrow> utf8_valid r"
  by (induction cs) (auto simp: utf8_valid_char)

lemma utf8_valid_first: "data \<noteq> [] \<Longrightarrow> utf8_valid data \<Longrightarrow> first_sequence data \<noteq> None"
proof -
  assume "data \<noteq> []" "utf8_valid data"
  then obtain cs where cs: "list_all scalar_value cs" "data = utf8_text cs" "cs \<noteq> []"
    by (metis utf8_valid_def utf8_text_simps(1))
  then obtain c cs' where "cs = c # cs'" by (cases cs) auto
  with cs show ?thesis using char_first_sequence [of c "utf8_text cs'"] by auto
qed

text \<open>The loop stops at the longest prefix that is a text.\<close>

lemma utf8_loop_stops:
  assumes "e + int (length data) \<le> INT_MAX"
  shows "\<exists>cs rest. list_all scalar_value cs \<and> data = utf8_text cs @ rest \<and> (rest \<noteq> [] \<longrightarrow> first_sequence rest = None) \<and>
    utf8_loop data (int (length data)) e = Ok (if rest = [] then 0 else e + int (length (utf8_text cs)))"
  using assms
proof (induction "length data" arbitrary: data e rule: less_induct)
  case less
  show ?case
  proof (cases "data = []")
    case True
    then show ?thesis by (intro exI [of _ "[]"]) (simp add: utf8_loop.simps)
  next
    case False
    note step = sequence_bytes_first [OF False]
    show ?thesis
    proof (cases "first_sequence data")
      case None
      with False step show ?thesis
        by (intro exI [of _ "[]"] exI [of _ data]) (simp add: utf8_loop.simps [of data])
    next
      case (Some n)
      note n = first_sequence_length [OF False Some]
      obtain x where x: "scalar_value x" "utf8_char x = take n data" using first_sequence_char [OF False Some] by blast
      have rec: "utf8_loop data (int (length data)) e = utf8_loop (drop n data) (int (length (drop n data))) (e + int n)"
        using n Some step less.prems False by (subst utf8_loop.simps) (simp add: of_nat_diff)
      have l: "length (drop n data) < length data" using n by auto
      have p: "e + int n + int (length (drop n data)) \<le> INT_MAX" using n less.prems by (simp add: of_nat_diff)
      obtain cs rest where cs: "list_all scalar_value cs" "drop n data = utf8_text cs @ rest" "rest \<noteq> [] \<longrightarrow> first_sequence rest = None"
        "utf8_loop (drop n data) (int (length (drop n data))) (e + int n) = Ok (if rest = [] then 0 else e + int n + int (length (utf8_text cs)))"
        using less.hyps [OF l p] by blast
      have "data = utf8_text (x # cs) @ rest" using x cs(2) by (metis append_assoc append_take_drop_id utf8_text_simps(2))
      moreover have "length (utf8_text (x # cs)) = n + length (utf8_text cs)" using x n by simp
      ultimately show ?thesis
        using x cs rec by (intro exI [of _ "x # cs"] exI [of _ rest]) auto
    qed
  qed
qed

text \<open>
  C39: The portable validator is exact: within the memory it is given it answers 0 for the inputs that are the
  UTF-8 encoding of some text of Unicode scalar values, and otherwise the position, counted from 1, after the
  longest prefix that is such an encoding, where no encoded character begins.
\<close>

theorem utf8_naive_exact:
  assumes "int (length data) < INT_MAX"
  shows "\<exists>r. utf8_naive data (int (length data)) = Ok r \<and> (r = 0 \<longleftrightarrow> utf8_valid data) \<and>
    (r \<noteq> 0 \<longrightarrow> (\<exists>cs rest. list_all scalar_value cs \<and> data = utf8_text cs @ rest \<and> r = 1 + int (length (utf8_text cs)) \<and>
       rest \<noteq> [] \<and> \<not> (\<exists>c tail. scalar_value c \<and> rest = utf8_char c @ tail)))"
proof -
  have l: "1 + int (length data) \<le> INT_MAX" using assms by simp
  obtain cs rest where cs: "list_all scalar_value cs" "data = utf8_text cs @ rest" "rest \<noteq> [] \<longrightarrow> first_sequence rest = None"
    "utf8_naive data (int (length data)) = Ok (if rest = [] then 0 else 1 + int (length (utf8_text cs)))"
    using utf8_loop_stops [of 1 data] l unfolding utf8_naive_def by blast
  have "utf8_valid data \<longleftrightarrow> rest = []"
    using cs(1-3) utf8_valid_text [of cs rest] utf8_valid_first [of rest] by (auto simp: utf8_valid_def intro: exI [of _ "[]"])
  moreover have "\<not> (\<exists>c tail. scalar_value c \<and> rest = utf8_char c @ tail)" if "rest \<noteq> []"
    using that cs(3) char_first_sequence by auto
  ultimately show ?thesis using cs(1,2,4) by auto
qed

lemma utf8_naive_exact_witness:
  "(\<exists>r. utf8_naive [0xE2, 0x82, 0xAC, 0xC0] 4 = Ok r \<and> (r = 0 \<longleftrightarrow> utf8_valid [0xE2, 0x82, 0xAC, 0xC0])) \<and>
    utf8_naive [0xE2, 0x82, 0xAC, 0xC0] 4 = Ok 4"
proof -
  have "utf8_naive [0xE2, 0x82, 0xAC, 0xC0] 4 = Ok 4" by code_simp
  then show ?thesis using utf8_naive_exact [of "[0xE2, 0x82, 0xAC, 0xC0]"] by auto
qed

section \<open>Text with ASCII skipped\<close>

lemma ascii_byte: "(b::u8) AND 0x80 = 0 \<Longrightarrow> scalar_value (unat b) \<and> utf8_char (unat b) = [b]"
proof -
  assume "b AND 0x80 = 0"
  then have "unat b < 128" using le_unat_u8 [of 128 b] by (simp add: byte_bit7 not_le [symmetric])
  then show ?thesis by (simp add: scalar_value_def utf8_char_def utf8_code_def)
qed

lemma utf8_valid_ascii: "list_all (\<lambda>b. b AND 0x80 = 0) xs \<Longrightarrow> utf8_valid (xs @ r) \<longleftrightarrow> utf8_valid r"
proof (induction xs)
  case (Cons b xs)
  then show ?case using ascii_byte [of b] utf8_valid_char [of "unat b" "xs @ r"] by simp
qed simp

text \<open>The mask finds a byte with its top bit set anywhere in the word.\<close>

lemma bit_mask: "n < 64 \<Longrightarrow> bit (0x8080808080808080 :: u64) n \<longleftrightarrow> n mod 8 = 7"
proof -
  have "list_all (\<lambda>n. bit (0x8080808080808080 :: u64) n \<longleftrightarrow> n mod 8 = 7) [0..<64]" by code_simp
  then show "n < 64 \<Longrightarrow> ?thesis" by (simp add: list_all_iff)
qed

lemma le_word_mask:
  assumes "length bs = 8"
  shows "le_word bs AND 0x8080808080808080 = 0 \<longleftrightarrow> list_all (\<lambda>b. b AND 0x80 = 0) bs"
proof -
  have top: "(b::u8) AND 0x80 = 0 \<longleftrightarrow> \<not> bit b 7" for b
    by (induct b rule: u8_check) code_simp
  have "le_word bs AND 0x8080808080808080 = 0 \<longleftrightarrow> (\<forall>n<64. \<not> (bit (le_word bs) n \<and> n mod 8 = 7))"
    using bit_mask bit_imp_le_length [where 'a = 64] by (simp add: bit_eq_iff [of _ 0] bit_and_iff)
  also have "\<dots> \<longleftrightarrow> (\<forall>i<8. \<not> bit (bs ! i) 7)"
  proof (intro iffI allI impI)
    fix i :: nat assume "\<forall>n<64. \<not> (bit (le_word bs) n \<and> n mod 8 = 7)" "i < 8"
    moreover from this have "8 * i + 7 < 64" by simp
    ultimately have "\<not> (bit (le_word bs) (8 * i + 7) \<and> (8 * i + 7) mod 8 = 7)" by blast
    with \<open>i < 8\<close> assms show "\<not> bit (bs ! i) 7" by (simp add: bit_le_word)
  next
    fix n :: nat assume "\<forall>i<8. \<not> bit (bs ! i) 7" "n < 64"
    then show "\<not> (bit (le_word bs) n \<and> n mod 8 = 7)" by (auto simp: bit_le_word)
  qed
  finally show ?thesis using assms by (auto simp: top list_all_length)
qed

lemma ascii_bytes_result:
  "length ptr = n \<Longrightarrow> \<exists>xs r. ascii_bytes ptr n = Ok r \<and> list_all (\<lambda>b. b AND 0x80 = 0) xs \<and>
     (r = None \<and> ptr = xs \<or> (\<exists>q. r = Some (q, length q) \<and> ptr = xs @ q))"
proof (induction ptr n rule: ascii_bytes.induct)
  case (2 ptr n)
  then obtain b q where p: "ptr = b # q" by (cases ptr) auto
  show ?case
  proof (cases "b AND 0x80 = 0")
    case True
    with 2 p obtain xs r where "ascii_bytes q n = Ok r" "list_all (\<lambda>b. b AND 0x80 = 0) xs"
      "r = None \<and> q = xs \<or> (\<exists>q'. r = Some (q', length q') \<and> q = xs @ q')"
      by (auto simp: data_at_def)
    with True p show ?thesis by (intro exI [of _ "b # xs"]) (auto simp: data_at_def)
  next
    case False
    with p 2 show ?thesis by (intro exI [of _ "[]"]) (auto simp: data_at_def)
  qed
qed simp

lemma ascii_words_result:
  "length ptr = n \<Longrightarrow> \<exists>xs r. ascii_words ptr n = Ok r \<and> list_all (\<lambda>b. b AND 0x80 = 0) xs \<and>
     (r = None \<and> ptr = xs \<or> (\<exists>q. r = Some (q, length q) \<and> ptr = xs @ q))"
proof (induction ptr n rule: ascii_words.induct)
  case (1 ptr n)
  show ?case
  proof (cases "n \<ge> 8")
    case False
    with 1 ascii_bytes_result [of ptr n] show ?thesis by (simp add: ascii_words.simps [of ptr])
  next
    case True
    note load = UnalignedLoad64_def [of ptr]
    show ?thesis
    proof (cases "le_word (take 8 ptr) AND 0x8080808080808080 = 0")
      case False
      with True 1 load show ?thesis
        by (intro exI [of _ "[]"]) (auto simp: ascii_words.simps [of ptr])
    next
      case mask: True
      with 1 True load obtain xs r where r: "ascii_words (drop 8 ptr) (n - 8) = Ok r" "list_all (\<lambda>b. b AND 0x80 = 0) xs"
        "r = None \<and> drop 8 ptr = xs \<or> (\<exists>q'. r = Some (q', length q') \<and> drop 8 ptr = xs @ q')"
        by auto
      have "list_all (\<lambda>b. b AND 0x80 = 0) (take 8 ptr)" using mask le_word_mask [of "take 8 ptr"] True 1 by simp
      moreover have "ptr = take 8 ptr @ drop 8 ptr" by simp
      moreover have "ascii_words ptr n = Ok r" using r(1) mask True 1 load by (simp add: ascii_words.simps [of ptr])
      moreover have "r = None \<and> ptr = take 8 ptr @ xs \<or> (\<exists>q. r = Some (q, length q) \<and> ptr = (take 8 ptr @ xs) @ q)"
        using r(3) by (metis append_assoc append_take_drop_id)
      ultimately show ?thesis using r(2)
        by (intro exI [of _ "take 8 ptr @ xs"] exI [of _ r]) simp
    qed
  qed
qed

text \<open>
  C40: The check of a string field, which skips ASCII eight bytes at a time and hands the rest to the validator,
  says whether the field is the UTF-8 encoding of some text, and reads nothing outside it.
\<close>

theorem verifyutf8_exact:
  assumes "int (length data) < INT_MAX"
  shows "decode_verifyutf8_inl data (int (length data)) = Ok (utf8_valid data)"
proof -
  obtain xs r where r: "ascii_words data (length data) = Ok r" "list_all (\<lambda>b. b AND 0x80 = 0) xs"
    "r = None \<and> data = xs \<or> (\<exists>q. r = Some (q, length q) \<and> data = xs @ q)"
    using ascii_words_result [of data] by blast
  then consider "r = None" "data = xs" | q where "r = Some (q, length q)" "data = xs @ q" by blast
  then show ?thesis
  proof cases
    case 1
    with r utf8_valid_ascii [of xs "[]"] show ?thesis by (simp add: decode_verifyutf8_inl_def utf8_valid_def exI [of _ "[]"])
  next
    case 2
    then have "int (length q) < INT_MAX" using assms by simp
    then obtain e where e: "utf8_range2 q (int (length q)) = Ok e" "e = 0 \<longleftrightarrow> utf8_valid q"
      using utf8_naive_exact [of q] by (auto simp: utf8_range2_def)
    have "nat (int (length data)) = length data" by simp
    then show ?thesis
      using 2 r(1,2) e utf8_valid_ascii [of xs q] by (simp add: decode_verifyutf8_inl_def del: nat_int)
  qed
qed

lemma verifyutf8_exact_witness: "decode_verifyutf8_inl [104, 0xC3, 0xA9] 3 = Ok True \<and> decode_verifyutf8_inl [0xC0, 0x80] 2 = Ok False"
proof -
  have "decode_verifyutf8_inl [104, 0xC3, 0xA9] 3 = Ok (utf8_valid [104, 0xC3, 0xA9])"
    using verifyutf8_exact [of "[104, 0xC3, 0xA9]"] by simp
  moreover have "decode_verifyutf8_inl [104, 0xC3, 0xA9] 3 = Ok True \<and> decode_verifyutf8_inl [0xC0, 0x80] 2 = Ok False"
    by code_simp
  ultimately show ?thesis by simp
qed

end
