(* ===== verification/Upb_Array.thy ===== *)
theory Upb_Array
  imports Upb_Table
begin

text \<open>
  Arrays of repeated fields (\<open>upb/array.c\<close>, the array part of \<open>upb/msg.c\<close> and \<open>upb/msg_internal.h\<close>): elements of
  1 to 16 bytes in one piece of arena memory that grows by doubling. An element is a list of bytes; every
  access to the memory checks that it is inside. The operations are shown to implement those of a list.
\<close>

section \<open>Memory\<close>

text \<open>
  Memory from the arena: request number \<open>c\<close> for \<open>n\<close> bytes is refused or met, with whatever the memory holds.
  A reallocation keeps the old bytes as far as they fit.
\<close>

type_synonym storage = "nat \<Rightarrow> nat \<Rightarrow> bytes option"

definition storage_ok :: "storage \<Rightarrow> bool" where
  "storage_ok m \<longleftrightarrow> (\<forall>c n bs. m c n = Some bs \<longrightarrow> length bs = n)"

definition storage_realloc :: "storage \<Rightarrow> nat \<Rightarrow> bytes \<Rightarrow> nat \<Rightarrow> bytes option" where
  "storage_realloc m c old n =
     map_option (\<lambda>bs. take (min (length old) n) old @ drop (min (length old) n) bs) (m c n)"

definition read_mem :: "bytes \<Rightarrow> nat \<Rightarrow> nat \<Rightarrow> bytes run" where
  "read_mem d off n = (if off + n \<le> length d then Ok (take n (drop off d)) else UB)"

definition write_mem :: "bytes \<Rightarrow> nat \<Rightarrow> bytes \<Rightarrow> bytes run" where
  "write_mem d off bs =
     (if off + length bs \<le> length d then Ok (take off d @ bs @ drop (off + length bs) d) else UB)"

section \<open>The array\<close>

text \<open>The tagged pointer \<open>data\<close> is the memory it points to and the tag.\<close>

record upb_array =
  ar_data :: bytes
  ar_lg2 :: nat
  ar_len :: u64
  ar_size :: u64

datatype ctype = CType_Bool | CType_Float | CType_Int32 | CType_UInt32 | CType_Enum | CType_Message
  | CType_Double | CType_Int64 | CType_UInt64 | CType_String | CType_Bytes

fun CTypeo_sizelg2 :: "ctype \<Rightarrow> nat" where
  "CTypeo_sizelg2 CType_Bool = 0"
| "CTypeo_sizelg2 CType_Float = 2"
| "CTypeo_sizelg2 CType_Int32 = 2"
| "CTypeo_sizelg2 CType_UInt32 = 2"
| "CTypeo_sizelg2 CType_Enum = 2"
| "CTypeo_sizelg2 CType_Message = 3"
| "CTypeo_sizelg2 CType_Double = 3"
| "CTypeo_sizelg2 CType_Int64 = 3"
| "CTypeo_sizelg2 CType_UInt64 = 3"
| "CTypeo_sizelg2 CType_String = 4"
| "CTypeo_sizelg2 CType_Bytes = 4"

definition upb_Array_struct :: nat where
  "upb_Array_struct = 32"

definition upb_Array_New_inl :: "storage \<Rightarrow> nat \<Rightarrow> u64 \<Rightarrow> nat \<Rightarrow> upb_array option \<times> nat" where
  "upb_Array_New_inl m c init_size elem_size_lg2 =
     (let bytes = of_nat upb_Array_struct + push_bit elem_size_lg2 init_size in
      case m c (unat bytes) of
        None \<Rightarrow> (None, c + 1)
      | Some mem \<Rightarrow>
          (Some \<lparr>ar_data = drop upb_Array_struct mem, ar_lg2 = elem_size_lg2, ar_len = 0, ar_size = init_size\<rparr>, c + 1))"

definition upb_Array_New :: "storage \<Rightarrow> nat \<Rightarrow> ctype \<Rightarrow> upb_array option \<times> nat" where
  "upb_Array_New m c type = upb_Array_New_inl m c 4 (CTypeo_sizelg2 type)"

definition upb_Array_Size :: "upb_array \<Rightarrow> u64" where
  "upb_Array_Size arr = ar_len arr"

definition upb_Array_Get :: "upb_array \<Rightarrow> u64 \<Rightarrow> bytes run" where
  "upb_Array_Get arr i = read_mem (ar_data arr) (unat (push_bit (ar_lg2 arr) i)) (2 ^ ar_lg2 arr)"

text \<open>The value is a union of 16 bytes, of which the first ones are copied.\<close>

definition upb_Array_Set :: "upb_array \<Rightarrow> u64 \<Rightarrow> bytes \<Rightarrow> upb_array run" where
  "upb_Array_Set arr i val =
     bind_outcome (read_mem val 0 (2 ^ ar_lg2 arr)) (\<lambda>bs.
     bind_outcome (write_mem (ar_data arr) (unat (push_bit (ar_lg2 arr) i)) bs) (\<lambda>d. Ok (arr\<lparr>ar_data := d\<rparr>)))"

text \<open>\<open>while (new_size < min_size) new_size *= 2\<close>; a product that wraps to 0 never ends.\<close>

fun double_loop :: "nat \<Rightarrow> u64 \<Rightarrow> u64 \<Rightarrow> u64 run" where
  "double_loop 0 new_size min_size = Fail ENDLESS"
| "double_loop (Suc fuel) new_size min_size =
     (if new_size < min_size then double_loop fuel (new_size * 2) min_size else Ok new_size)"

declare double_loop.simps [simp del]

definition upb_array_realloc :: "storage \<Rightarrow> nat \<Rightarrow> upb_array \<Rightarrow> u64 \<Rightarrow> (bool \<times> upb_array \<times> nat) run" where
  "upb_array_realloc m c arr min_size =
     bind_outcome (double_loop 65 (max (ar_size arr) 4) min_size) (\<lambda>new_size.
       let old_bytes = push_bit (ar_lg2 arr) (ar_size arr);
           new_bytes = push_bit (ar_lg2 arr) new_size in
       if length (ar_data arr) < unat old_bytes then UB
       else
         case storage_realloc m c (take (unat old_bytes) (ar_data arr)) (unat new_bytes) of
           None \<Rightarrow> Ok (False, arr, c + 1)
         | Some mem \<Rightarrow> Ok (True, arr\<lparr>ar_data := mem, ar_size := new_size\<rparr>, c + 1))"

definition upb_array_reserve :: "storage \<Rightarrow> nat \<Rightarrow> upb_array \<Rightarrow> u64 \<Rightarrow> (bool \<times> upb_array \<times> nat) run" where
  "upb_array_reserve m c arr n =
     (if ar_size arr < n then upb_array_realloc m c arr n else Ok (True, arr, c))"

definition upb_Array_Resize :: "storage \<Rightarrow> nat \<Rightarrow> upb_array \<Rightarrow> u64 \<Rightarrow> (bool \<times> upb_array \<times> nat) run" where
  "upb_Array_Resize m c arr n =
     bind_outcome (upb_array_reserve m c arr n) (\<lambda>(ok, arr, c).
       if \<not> ok then Ok (False, arr, c) else Ok (True, arr\<lparr>ar_len := n\<rparr>, c))"

definition upb_Array_Append :: "storage \<Rightarrow> nat \<Rightarrow> upb_array \<Rightarrow> bytes \<Rightarrow> (bool \<times> upb_array \<times> nat) run" where
  "upb_Array_Append m c arr val =
     bind_outcome (upb_Array_Resize m c arr (ar_len arr + 1)) (\<lambda>(ok, arr, c).
       if \<not> ok then Ok (False, arr, c)
       else bind_outcome (upb_Array_Set arr (ar_len arr - 1) val) (\<lambda>arr. Ok (True, arr, c)))"

definition upb_Array_Move :: "upb_array \<Rightarrow> u64 \<Rightarrow> u64 \<Rightarrow> u64 \<Rightarrow> upb_array run" where
  "upb_Array_Move arr dst_idx src_idx count =
     bind_outcome (read_mem (ar_data arr) (unat (push_bit (ar_lg2 arr) src_idx)) (unat (push_bit (ar_lg2 arr) count))) (\<lambda>bs.
     bind_outcome (write_mem (ar_data arr) (unat (push_bit (ar_lg2 arr) dst_idx)) bs) (\<lambda>d. Ok (arr\<lparr>ar_data := d\<rparr>)))"

definition upb_Array_Insert :: "storage \<Rightarrow> nat \<Rightarrow> upb_array \<Rightarrow> u64 \<Rightarrow> u64 \<Rightarrow> (bool \<times> upb_array \<times> nat) run" where
  "upb_Array_Insert m c arr i count =
     (let oldsize = ar_len arr in
      bind_outcome (upb_Array_Resize m c arr (ar_len arr + count)) (\<lambda>(ok, arr, c).
        if \<not> ok then Ok (False, arr, c)
        else bind_outcome (upb_Array_Move arr (i + count) i (oldsize - i)) (\<lambda>arr. Ok (True, arr, c))))"

definition upb_Array_Delete :: "upb_array \<Rightarrow> u64 \<Rightarrow> u64 \<Rightarrow> upb_array run" where
  "upb_Array_Delete arr i count =
     (let end = i + count in
      bind_outcome (upb_Array_Move arr i end (ar_len arr - end)) (\<lambda>arr. Ok (arr\<lparr>ar_len := ar_len arr - count\<rparr>)))"

text \<open>The accessors that make the array of a field when there is none.\<close>

definition getorcreate_array :: "storage \<Rightarrow> nat \<Rightarrow> upb_array option \<Rightarrow> nat \<Rightarrow> upb_array option \<times> nat" where
  "getorcreate_array m c arr_ptr elem_size_lg2 =
     (case arr_ptr of Some arr \<Rightarrow> (Some arr, c) | None \<Rightarrow> upb_Array_New_inl m c 4 elem_size_lg2)"

definition upb_Array_Append_fallback ::
    "storage \<Rightarrow> nat \<Rightarrow> upb_array option \<Rightarrow> bytes \<Rightarrow> nat \<Rightarrow> (bool \<times> upb_array option \<times> nat) run" where
  "upb_Array_Append_fallback m c arr_ptr val elem_size_lg2 =
     (case getorcreate_array m c arr_ptr elem_size_lg2 of
        (None, c) \<Rightarrow> Ok (False, arr_ptr, c)
      | (Some arr, c) \<Rightarrow>
          let elems = ar_len arr in
          bind_outcome (upb_Array_Resize m c arr (elems + 1)) (\<lambda>(ok, arr, c).
            if \<not> ok then Ok (False, Some arr, c)
            else
              bind_outcome (read_mem val 0 (2 ^ elem_size_lg2)) (\<lambda>bs.
              bind_outcome (write_mem (ar_data arr) (unat (push_bit elem_size_lg2 elems)) bs) (\<lambda>d.
                Ok (True, Some (arr\<lparr>ar_data := d\<rparr>), c)))))"

definition upb_Array_Append_accessor2 ::
    "storage \<Rightarrow> nat \<Rightarrow> upb_array option \<Rightarrow> nat \<Rightarrow> bytes \<Rightarrow> (bool \<times> upb_array option \<times> nat) run" where
  "upb_Array_Append_accessor2 m c arr_ptr elem_size_lg2 val =
     (case arr_ptr of
        None \<Rightarrow> upb_Array_Append_fallback m c arr_ptr val elem_size_lg2
      | Some arr \<Rightarrow>
          if ar_len arr = ar_size arr then upb_Array_Append_fallback m c arr_ptr val elem_size_lg2
          else
            bind_outcome (read_mem val 0 (2 ^ elem_size_lg2)) (\<lambda>bs.
            bind_outcome (write_mem (ar_data arr) (unat (ar_len arr * 2 ^ elem_size_lg2)) bs) (\<lambda>d.
              Ok (True, Some (arr\<lparr>ar_data := d, ar_len := ar_len arr + 1\<rparr>), c))))"

definition upb_Array_Resize_fallback ::
    "storage \<Rightarrow> nat \<Rightarrow> upb_array option \<Rightarrow> u64 \<Rightarrow> nat \<Rightarrow> (bool \<times> upb_array option \<times> nat) run" where
  "upb_Array_Resize_fallback m c arr_ptr n elem_size_lg2 =
     (case getorcreate_array m c arr_ptr elem_size_lg2 of
        (None, c) \<Rightarrow> Ok (False, arr_ptr, c)
      | (Some arr, c) \<Rightarrow> bind_outcome (upb_Array_Resize m c arr n) (\<lambda>(ok, arr, c). Ok (ok, Some arr, c)))"

definition upb_Array_Resize_accessor2 ::
    "storage \<Rightarrow> nat \<Rightarrow> upb_array option \<Rightarrow> u64 \<Rightarrow> nat \<Rightarrow> (bool \<times> upb_array option \<times> nat) run" where
  "upb_Array_Resize_accessor2 m c arr_ptr n elem_size_lg2 =
     (case arr_ptr of
        None \<Rightarrow> upb_Array_Resize_fallback m c arr_ptr n elem_size_lg2
      | Some arr \<Rightarrow>
          if ar_size arr < n then upb_Array_Resize_fallback m c arr_ptr n elem_size_lg2
          else Ok (True, Some (arr\<lparr>ar_len := n\<rparr>), c))"

section \<open>Elements in memory\<close>

definition chunk :: "nat \<Rightarrow> bytes \<Rightarrow> nat \<Rightarrow> bytes" where
  "chunk e d i = take e (drop (i * e) d)"

definition elements :: "upb_array \<Rightarrow> bytes list" where
  "elements arr = map (chunk (2 ^ ar_lg2 arr) (ar_data arr)) [0..<unat (ar_len arr)]"

lemma length_elements [simp]: "length (elements arr) = unat (ar_len arr)"
  by (simp add: elements_def)

lemma nth_elements: "i < unat (ar_len arr) \<Longrightarrow> elements arr ! i = chunk (2 ^ ar_lg2 arr) (ar_data arr) i"
  by (simp add: elements_def)

text \<open>The largest array the theorems speak of: no byte count reaches \<open>2 ^ 62\<close>.\<close>

definition array_wf :: "upb_array \<Rightarrow> bool" where
  "array_wf arr \<longleftrightarrow> ar_lg2 arr \<le> 4 \<and> ar_len arr \<le> ar_size arr \<and> unat (ar_size arr) \<le> 2 ^ 57 \<and>
     length (ar_data arr) = unat (ar_size arr) * 2 ^ ar_lg2 arr"

text \<open>\<open>k\<close> elements replaced from \<open>t\<close> on.\<close>

lemma chunk_splice:
  assumes "length bs = k * e" "(t + k) * e \<le> length d"
  shows "chunk e (take (t * e) d @ bs @ drop (t * e + length bs) d) i =
    (if t \<le> i \<and> i < t + k then chunk e bs (i - t) else chunk e d i)"
proof -
  have te: "t * e \<le> length d" using assms(2) by (simp add: distrib_right)
  consider "i < t" | "t \<le> i" "i < t + k" | "t + k \<le> i" by linarith
  then show ?thesis
  proof cases
    case 1
    then have "i * e + e \<le> t * e" by (metis Suc_leI mult_Suc mult_le_mono1 add.commute)
    then have "e \<le> t * e - i * e" "e \<le> length d - i * e" using te by linarith+
    with 1 te show ?thesis by (simp add: chunk_def drop_take)
  next
    case 2
    then obtain j where j: "i = t + j" "j < k" using le_Suc_ex [of t i] by auto
    then have "j * e + e \<le> length bs" using assms(1) by (metis Suc_leI mult_Suc mult_le_mono1 add.commute)
    with j te show ?thesis by (simp add: chunk_def distrib_right min_def)
  next
    case 3
    then obtain j where j: "i = t + k + j" using le_Suc_ex [of "t + k" i] by auto
    with te assms show ?thesis by (simp add: chunk_def distrib_right min_def add.commute add.left_commute)
  qed
qed

lemma chunk_take: "(i + 1) * e \<le> n \<Longrightarrow> chunk e (take n d) i = chunk e d i"
  by (simp add: chunk_def min_def drop_take)

lemma chunk_sub: "(i + 1) * e \<le> n * e \<Longrightarrow> chunk e (take (n * e) (drop (s * e) d)) i = chunk e d (s + i)"
  by (simp add: chunk_def min_def drop_take distrib_right add.commute)

lemma unat_push: "unat (i :: u64) \<le> 2 ^ 59 \<Longrightarrow> k \<le> 4 \<Longrightarrow> unat (push_bit k i) = unat i * 2 ^ k"
proof -
  assume i: "unat i \<le> 2 ^ 59" and k: "k \<le> 4"
  have "unat i * 2 ^ k \<le> 2 ^ 59 * 2 ^ 4"
    using i k by (intro mult_mono power_increasing) auto
  then have "unat i * 2 ^ k < 2 ^ 64" by simp
  then show "unat (push_bit k i) = unat i * 2 ^ k"
    unfolding unsigned_push_bit_eq by (simp add: push_bit_eq_mult take_bit_nat_eq_self_iff)
qed

lemma wf_bytes: "array_wf arr \<Longrightarrow> unat (i :: u64) \<le> unat (ar_size arr) \<Longrightarrow> unat (push_bit (ar_lg2 arr) i) = unat i * 2 ^ ar_lg2 arr"
  by (rule unat_push) (auto simp: array_wf_def)

lemma wf_len: "array_wf arr \<Longrightarrow> unat (ar_len arr) \<le> unat (ar_size arr)"
  by (simp add: array_wf_def word_le_nat_alt)

lemma chunk_fits: "i < n \<Longrightarrow> i * e + e \<le> n * (e::nat)"
  by (metis Suc_leI mult_Suc mult_le_mono1 add.commute)

lemma array_get: "array_wf arr \<Longrightarrow> i < ar_len arr \<Longrightarrow> upb_Array_Get arr i = Ok (elements arr ! unat i)"
  using wf_bytes [of arr i] wf_len [of arr] chunk_fits [of "unat i" "unat (ar_size arr)" "2 ^ ar_lg2 arr"]
  by (simp add: upb_Array_Get_def read_mem_def nth_elements chunk_def word_less_nat_alt array_wf_def)

text \<open>Writing \<open>k\<close> elements over those from \<open>t\<close> on.\<close>

lemma write_elements:
  assumes "array_wf arr" "length bs = k * 2 ^ ar_lg2 arr" "unat t + k \<le> unat (ar_size arr)"
  shows "\<exists>d. write_mem (ar_data arr) (unat (push_bit (ar_lg2 arr) (t :: u64))) bs = Ok d \<and> length d = length (ar_data arr) \<and>
    (\<forall>i. chunk (2 ^ ar_lg2 arr) d i =
      (if unat t \<le> i \<and> i < unat t + k then chunk (2 ^ ar_lg2 arr) bs (i - unat t) else chunk (2 ^ ar_lg2 arr) (ar_data arr) i))"
proof -
  have fits: "(unat t + k) * 2 ^ ar_lg2 arr \<le> length (ar_data arr)"
    using assms(1,3) unfolding array_wf_def by (metis mult_le_mono1)
  have t: "unat (push_bit (ar_lg2 arr) t) = unat t * 2 ^ ar_lg2 arr" using assms(1,3) by (intro wf_bytes) auto
  show ?thesis
    using chunk_splice [OF assms(2) fits] fits unfolding t write_mem_def
    by (auto simp: assms(2) distrib_right)
qed

lemma array_set:
  assumes "array_wf arr" "i < ar_len arr" "length v \<ge> 2 ^ ar_lg2 arr"
  shows "\<exists>arr'. upb_Array_Set arr i v = Ok arr' \<and> array_wf arr' \<and> ar_lg2 arr' = ar_lg2 arr \<and>
    elements arr' = (elements arr)[unat i := take (2 ^ ar_lg2 arr) v]"
proof -
  let ?e = "2 ^ ar_lg2 arr" and ?v = "take (2 ^ ar_lg2 arr) v"
  have "unat i + 1 \<le> unat (ar_size arr)" using assms wf_len [of arr] by (simp add: word_less_nat_alt)
  then obtain d where d: "write_mem (ar_data arr) (unat (push_bit (ar_lg2 arr) i)) ?v = Ok d" "length d = length (ar_data arr)"
    "\<forall>j. chunk ?e d j = (if unat i \<le> j \<and> j < unat i + 1 then chunk ?e ?v (j - unat i) else chunk ?e (ar_data arr) j)"
    using write_elements [OF assms(1), of ?v 1 i] assms(3) by auto
  have "elements (arr\<lparr>ar_data := d\<rparr>) = (elements arr)[unat i := ?v]"
    using d(3) by (intro nth_equalityI) (auto simp: nth_elements nth_list_update elements_def chunk_def)
  moreover have "array_wf (arr\<lparr>ar_data := d\<rparr>)" using assms(1) d(2) by (simp add: array_wf_def)
  ultimately show ?thesis using d(1) assms(3) by (auto simp: upb_Array_Set_def read_mem_def)
qed

lemma array_move:
  assumes "array_wf arr" "unat src + unat k \<le> unat (ar_size arr)" "unat dst + unat k \<le> unat (ar_size arr)"
  shows "\<exists>d. upb_Array_Move arr (dst :: u64) src k = Ok (arr\<lparr>ar_data := d\<rparr>) \<and> length d = length (ar_data arr) \<and>
    (\<forall>i. chunk (2 ^ ar_lg2 arr) d i =
      (if unat dst \<le> i \<and> i < unat dst + unat k then chunk (2 ^ ar_lg2 arr) (ar_data arr) (unat src + (i - unat dst))
       else chunk (2 ^ ar_lg2 arr) (ar_data arr) i))"
proof -
  let ?e = "2 ^ ar_lg2 arr" and ?bs = "take (unat k * 2 ^ ar_lg2 arr) (drop (unat src * 2 ^ ar_lg2 arr) (ar_data arr))"
  have fits: "(unat src + unat k) * ?e \<le> length (ar_data arr)"
    using assms(1,2) unfolding array_wf_def by (metis mult_le_mono1)
  then have rd: "read_mem (ar_data arr) (unat (push_bit (ar_lg2 arr) src)) (unat (push_bit (ar_lg2 arr) k)) = Ok ?bs"
    using wf_bytes [OF assms(1), of src] wf_bytes [OF assms(1), of k] assms(2) by (simp add: read_mem_def distrib_right)
  have len: "length ?bs = unat k * ?e" using fits by (simp add: distrib_right)
  obtain d where d: "write_mem (ar_data arr) (unat (push_bit (ar_lg2 arr) dst)) ?bs = Ok d" "length d = length (ar_data arr)"
    "\<forall>i. chunk ?e d i = (if unat dst \<le> i \<and> i < unat dst + unat k then chunk ?e ?bs (i - unat dst) else chunk ?e (ar_data arr) i)"
    using write_elements [OF assms(1) len assms(3)] by blast
  have "chunk ?e ?bs (i - unat dst) = chunk ?e (ar_data arr) (unat src + (i - unat dst))" if "unat dst \<le> i" "i < unat dst + unat k" for i
  proof -
    have "(i - unat dst + 1) * ?e \<le> unat k * ?e" using that by (intro mult_right_mono) auto
    then show ?thesis by (rule chunk_sub)
  qed
  then show ?thesis using rd d by (auto simp: upb_Array_Move_def)
qed

section \<open>Growing\<close>

lemma double_loop_ends:
  assumes "0 < unat k" "unat n \<le> 2 ^ 56" "unat n \<le> unat k * 2 ^ f" "unat k \<le> 2 ^ 57"
  shows "\<exists>r. double_loop (Suc f) k n = Ok r \<and> n \<le> r \<and> k \<le> r \<and> unat r \<le> 2 ^ 57"
  using assms
proof (induction f arbitrary: k)
  case 0
  then show ?case by (auto simp: double_loop.simps word_less_nat_alt word_le_nat_alt)
next
  case (Suc f)
  show ?case
  proof (cases "k < n")
    case False
    with Suc.prems show ?thesis by (auto simp: double_loop.simps word_less_nat_alt word_le_nat_alt)
  next
    case True
    have k2: "unat (k * 2) = unat k * 2" using True Suc.prems(2,4) by (subst unat_mult_lem [THEN iffD1]) (auto simp: word_less_nat_alt)
    moreover have "unat k * 2 \<le> 2 ^ 57" using True Suc.prems(2) by (simp add: word_less_nat_alt)
    ultimately obtain r where "double_loop (Suc f) (k * 2) n = Ok r" "n \<le> r" "k * 2 \<le> r" "unat r \<le> 2 ^ 57"
      using Suc.IH [of "k * 2"] Suc.prems by auto
    with True k2 show ?thesis by (auto simp: double_loop.simps(2) [of "Suc f"] word_le_nat_alt)
  qed
qed

text \<open>
  A resize to at most \<open>2 ^ 56\<close> elements keeps those that stay, or fails and changes nothing when the memory is refused.
\<close>

lemma Suc_64: "Suc 64 = 65"
  by simp

lemma array_realloc:
  assumes "array_wf arr" "storage_ok m" "unat n \<le> 2 ^ 56"
  obtains (met) r d where "upb_array_realloc m c arr n = Ok (True, arr\<lparr>ar_data := d, ar_size := r\<rparr>, c + 1)"
      "array_wf (arr\<lparr>ar_data := d, ar_size := r\<rparr>)" "n \<le> r"
      "\<And>i. i < unat (ar_size arr) \<Longrightarrow> chunk (2 ^ ar_lg2 arr) d i = chunk (2 ^ ar_lg2 arr) (ar_data arr) i"
    | (refused) b where "m c b = None" "upb_array_realloc m c arr n = Ok (False, arr, c + 1)"
proof -
  let ?k = "max (ar_size arr) 4" and ?e = "2 ^ ar_lg2 arr"
  have size: "unat (ar_size arr) \<le> 2 ^ 57" and lg2: "ar_lg2 arr \<le> 4" and len: "length (ar_data arr) = unat (ar_size arr) * ?e"
    using assms(1) by (auto simp: array_wf_def)
  have k: "unat ?k = max (unat (ar_size arr)) 4" by (simp add: max_def word_le_nat_alt)
  have "0 < unat ?k" "unat ?k \<le> 2 ^ 57" using k size by simp_all
  moreover have "unat n \<le> unat ?k * 2 ^ 64"
  proof -
    have "unat n \<le> 4 * 2 ^ 64" using assms(3) by simp
    also have "\<dots> \<le> unat ?k * 2 ^ 64" using k by (intro mult_right_mono) auto
    finally show ?thesis .
  qed
  ultimately obtain r where r: "double_loop 65 ?k n = Ok r" "n \<le> r" "?k \<le> r" "unat r \<le> 2 ^ 57"
    using double_loop_ends [of ?k n 64, unfolded Suc_64] assms(3) by blast
  have bytes: "unat (push_bit (ar_lg2 arr) (ar_size arr)) = unat (ar_size arr) * ?e"
    "unat (push_bit (ar_lg2 arr) r) = unat r * ?e"
    using unat_push [of "ar_size arr"] unat_push [of r] r(4) size lg2 by auto
  have le: "ar_size arr \<le> r" using r(3) by simp
  then have le': "unat (ar_size arr) * ?e \<le> unat r * ?e" by (simp add: word_le_nat_alt)
  show ?thesis
  proof (cases "m c (unat r * ?e)")
    case None
    show ?thesis by (rule refused [OF None]) (simp add: upb_array_realloc_def r(1) bytes len storage_realloc_def None)
  next
    case (Some bs)
    then have bs: "length bs = unat r * ?e" using assms(2) by (simp add: storage_ok_def)
    let ?d = "ar_data arr @ drop (length (ar_data arr)) bs"
    show ?thesis
    proof (rule met)
      show "upb_array_realloc m c arr n = Ok (True, arr\<lparr>ar_data := ?d, ar_size := r\<rparr>, c + 1)"
        using le' by (simp add: upb_array_realloc_def r(1) bytes len storage_realloc_def Some Let_def min_absorb1)
      show "array_wf (arr\<lparr>ar_data := ?d, ar_size := r\<rparr>)"
        using assms(1) bs le le' len r(4) by (auto simp: array_wf_def)
      show "n \<le> r" by (rule r(2))
      show "chunk ?e ?d i = chunk ?e (ar_data arr) i" if "i < unat (ar_size arr)" for i
        using chunk_fits [OF that, of ?e] len by (simp add: chunk_def)
    qed
  qed
qed

lemma array_resize:
  assumes "array_wf arr" "storage_ok m" "unat n \<le> 2 ^ 56"
  obtains (met) arr' c' where "upb_Array_Resize m c arr n = Ok (True, arr', c')" "array_wf arr'" "ar_lg2 arr' = ar_lg2 arr" "ar_len arr' = n"
      "\<And>i. i < unat (ar_len arr) \<Longrightarrow> chunk (2 ^ ar_lg2 arr) (ar_data arr') i = elements arr ! i"
    | (refused) b where "m c b = None" "upb_Array_Resize m c arr n = Ok (False, arr, c + 1)"
proof (cases "ar_size arr < n")
  case False
  show ?thesis
    by (rule met [of "arr\<lparr>ar_len := n\<rparr>" c])
      (use False assms(1) in \<open>auto simp: upb_Array_Resize_def upb_array_reserve_def array_wf_def nth_elements\<close>)
next
  case True
  show ?thesis
  proof (cases rule: array_realloc [OF assms, of c])
    case (1 r d)
    have "upb_Array_Resize m c arr n = Ok (True, arr\<lparr>ar_data := d, ar_size := r, ar_len := n\<rparr>, c + 1)"
      using True 1 by (simp add: upb_Array_Resize_def upb_array_reserve_def)
    then show ?thesis
    proof (rule met)
      show "array_wf (arr\<lparr>ar_data := d, ar_size := r, ar_len := n\<rparr>)" using 1(2,3) by (simp add: array_wf_def)
      show "chunk (2 ^ ar_lg2 arr) (ar_data (arr\<lparr>ar_data := d, ar_size := r, ar_len := n\<rparr>)) i = elements arr ! i"
        if "i < unat (ar_len arr)" for i
        using that 1(4) [of i] wf_len [OF assms(1)] by (simp add: nth_elements)
    qed simp_all
  next
    case (2 b)
    then show ?thesis using True by (intro refused) (simp_all add: upb_Array_Resize_def upb_array_reserve_def)
  qed
qed

section \<open>The operations of a list\<close>

lemma unat_add1: "unat (k :: u64) < 2 ^ 57 \<Longrightarrow> unat (k + 1) = unat k + 1"
  by (subst unat_add_lem [THEN iffD1]) auto

lemma unat_plus: "unat (j :: u64) \<le> 2 ^ 57 \<Longrightarrow> unat k \<le> 2 ^ 57 \<Longrightarrow> unat (j + k) = unat j + unat k"
  by (subst unat_add_lem [THEN iffD1]) auto

lemma array_append:
  assumes "array_wf arr" "storage_ok m" "unat (ar_len arr) < 2 ^ 56" "length v = 2 ^ ar_lg2 arr"
  obtains (met) arr' c' where "upb_Array_Append m c arr v = Ok (True, arr', c')" "array_wf arr'" "ar_lg2 arr' = ar_lg2 arr"
      "elements arr' = elements arr @ [v]"
    | (refused) b where "m c b = None" "upb_Array_Append m c arr v = Ok (False, arr, c + 1)"
proof -
  have n: "unat (ar_len arr + 1) = unat (ar_len arr) + 1" using assms(3) by (intro unat_add1) simp
  then have le: "unat (ar_len arr + 1) \<le> 2 ^ 56" using assms(3) by simp
  show ?thesis
  proof (cases rule: array_resize [OF assms(1,2) le, of c])
    case (1 arr1 c')
    have last: "unat (ar_len arr1 - 1) = unat (ar_len arr)" "ar_len arr1 - 1 < ar_len arr1"
      using 1(4) n by (simp_all add: word_less_nat_alt)
    obtain arr' where arr': "upb_Array_Set arr1 (ar_len arr1 - 1) v = Ok arr'" "array_wf arr'" "ar_lg2 arr' = ar_lg2 arr1"
      "elements arr' = (elements arr1)[unat (ar_len arr) := v]"
      using array_set [OF 1(2) last(2), of v] assms(4) 1(3) last(1) by auto
    have l: "length (elements arr1) = unat (ar_len arr) + 1" using 1(4) n by simp
    have "elements arr' = elements arr @ [v]"
    proof (rule nth_equalityI)
      show "length (elements arr') = length (elements arr @ [v])" unfolding arr'(4) using l by simp
      fix i assume "i < length (elements arr')"
      then have "i < unat (ar_len arr) + 1" unfolding arr'(4) using l by simp
      then show "elements arr' ! i = (elements arr @ [v]) ! i"
        unfolding arr'(4) using l 1(3,5) by (auto simp: nth_list_update nth_append nth_elements)
    qed
    then show ?thesis using 1 arr' by (intro met [of arr' c']) (auto simp: upb_Array_Append_def)
  next
    case (2 b)
    then show ?thesis by (intro refused) (simp_all add: upb_Array_Append_def)
  qed
qed

lemma array_delete:
  assumes "array_wf arr" "unat i + unat k \<le> unat (ar_len arr)"
  shows "\<exists>arr'. upb_Array_Delete arr i k = Ok arr' \<and> array_wf arr' \<and> ar_lg2 arr' = ar_lg2 arr \<and>
    elements arr' = take (unat i) (elements arr) @ drop (unat i + unat k) (elements arr)"
proof -
  have "unat (ar_len arr) \<le> 2 ^ 57" using wf_len [OF assms(1)] assms(1) by (auto simp: array_wf_def)
  then have e: "unat (i + k) = unat i + unat k" using assms(2) by (intro unat_plus) auto
  then have r: "unat (ar_len arr - (i + k)) = unat (ar_len arr) - (unat i + unat k)" "unat (ar_len arr - k) = unat (ar_len arr) - unat k"
    using assms(2) by (simp_all add: unat_sub word_le_nat_alt)
  have p: "unat i + unat k + (unat (ar_len arr) - (unat i + unat k)) \<le> unat (ar_size arr)"
    "unat i + (unat (ar_len arr) - (unat i + unat k)) \<le> unat (ar_size arr)"
    using assms(2) wf_len [OF assms(1)] by linarith+
  obtain d where d: "upb_Array_Move arr i (i + k) (ar_len arr - (i + k)) = Ok (arr\<lparr>ar_data := d\<rparr>)" "length d = length (ar_data arr)"
    "\<forall>j. chunk (2 ^ ar_lg2 arr) d j = (if unat i \<le> j \<and> j < unat i + (unat (ar_len arr) - (unat i + unat k))
       then chunk (2 ^ ar_lg2 arr) (ar_data arr) (unat i + unat k + (j - unat i)) else chunk (2 ^ ar_lg2 arr) (ar_data arr) j)"
    using array_move [OF assms(1), of "i + k" "ar_len arr - (i + k)" i, unfolded e r, OF p] by blast
  let ?arr = "arr\<lparr>ar_data := d, ar_len := ar_len arr - k\<rparr>"
  have "elements ?arr = take (unat i) (elements arr) @ drop (unat i + unat k) (elements arr)"
  proof (rule nth_equalityI)
    show "length (elements ?arr) = length (take (unat i) (elements arr) @ drop (unat i + unat k) (elements arr))"
      using assms(2) r(2) by simp
    fix j assume "j < length (elements ?arr)"
    then have j: "j < unat (ar_len arr) - unat k" using r(2) by simp
    show "elements ?arr ! j = (take (unat i) (elements arr) @ drop (unat i + unat k) (elements arr)) ! j"
    proof (cases "j < unat i")
      case True
      then show ?thesis using j d(3) assms(2) r(2) by (simp add: nth_append nth_elements)
    next
      case False
      then obtain q where q: "j = unat i + q" using le_Suc_ex [of "unat i" j] by auto
      then show ?thesis using j d(3) assms(2) r(2) by (simp add: nth_append nth_elements min_absorb1)
    qed
  qed
  moreover have "array_wf ?arr"
    using assms d(2) r(2) by (auto simp: array_wf_def word_le_nat_alt)
  ultimately show ?thesis using d(1) by (auto simp: upb_Array_Delete_def Let_def)
qed

text \<open>An insertion opens a gap for \<open>k\<close> elements whose contents are not set.\<close>

lemma array_insert:
  assumes "array_wf arr" "storage_ok m" "unat (ar_len arr) + unat k \<le> 2 ^ 56" "i \<le> ar_len arr"
  obtains (met) arr' c' gap where "upb_Array_Insert m c arr i k = Ok (True, arr', c')" "array_wf arr'" "ar_lg2 arr' = ar_lg2 arr"
      "length gap = unat k" "elements arr' = take (unat i) (elements arr) @ gap @ drop (unat i) (elements arr)"
    | (refused) b where "m c b = None" "upb_Array_Insert m c arr i k = Ok (False, arr, c + 1)"
proof -
  let ?n = "ar_len arr + k"
  have n: "unat ?n = unat (ar_len arr) + unat k" using assms(3) by (intro unat_plus) auto
  have i: "unat i \<le> unat (ar_len arr)" using assms(4) by (simp add: word_le_nat_alt)
  have ik: "unat (i + k) = unat i + unat k" using assms(3) i by (intro unat_plus) auto
  have r: "unat (ar_len arr - i) = unat (ar_len arr) - unat i" using assms(4) by (simp add: unat_sub)
  have le: "unat ?n \<le> 2 ^ 56" using n assms(3) by simp
  show ?thesis
  proof (cases rule: array_resize [OF assms(1,2) le, of c])
    case (1 arr1 c')
    note res = 1
    have fits: "unat (ar_len arr) + unat k \<le> unat (ar_size arr1)" using wf_len [OF 1(2)] 1(4) n by simp
    obtain d where d: "upb_Array_Move arr1 (i + k) i (ar_len arr - i) = Ok (arr1\<lparr>ar_data := d\<rparr>)" "length d = length (ar_data arr1)"
      "\<forall>j. chunk (2 ^ ar_lg2 arr1) d j = (if unat i + unat k \<le> j \<and> j < unat i + unat k + (unat (ar_len arr) - unat i)
         then chunk (2 ^ ar_lg2 arr1) (ar_data arr1) (unat i + (j - (unat i + unat k))) else chunk (2 ^ ar_lg2 arr1) (ar_data arr1) j)"
      using array_move [OF 1(2), of i "ar_len arr - i" "i + k", unfolded ik r] fits i by auto
    let ?arr = "arr1\<lparr>ar_data := d\<rparr>"
    let ?gap = "map (chunk (2 ^ ar_lg2 arr1) d) [unat i..<unat i + unat k]"
    have "elements ?arr = take (unat i) (elements arr) @ ?gap @ drop (unat i) (elements arr)"
    proof (rule nth_equalityI)
      show "length (elements ?arr) = length (take (unat i) (elements arr) @ ?gap @ drop (unat i) (elements arr))"
        using 1(4) n i by simp
      fix j assume "j < length (elements ?arr)"
      then have j: "j < unat (ar_len arr) + unat k" "j < unat (ar_len arr1)" using 1(4) n by simp_all
      consider "j < unat i" | q where "j = unat i + q" "q < unat k" | q where "j = unat i + unat k + q"
        by (metis add.assoc le_Suc_ex nat_add_left_cancel_less not_less)
      then show "elements ?arr ! j = (take (unat i) (elements arr) @ ?gap @ drop (unat i) (elements arr)) ! j"
      proof cases
        case 1
        then show ?thesis using j i d(3) res(3,5) by (simp add: nth_append nth_elements [of j ?arr])
      next
        case (2 q)
        have "elements ?arr ! j = chunk (2 ^ ar_lg2 arr1) d j" using j(2) by (simp add: nth_elements)
        with 2 show ?thesis using j i by (simp add: nth_append min_absorb1)
      next
        case (3 q)
        have "elements ?arr ! j = chunk (2 ^ ar_lg2 arr1) d j" using j(2) by (simp add: nth_elements)
        with 3 show ?thesis using j i d(3) res(3) res(5) [of "unat i + q"] by (simp add: nth_append min_absorb1)
      qed
    qed
    moreover have "array_wf ?arr" using 1(2) d(2) by (simp add: array_wf_def)
    ultimately show ?thesis using 1 d(1) by (intro met [of ?arr c' ?gap]) (simp_all add: upb_Array_Insert_def Let_def)
  next
    case (2 b)
    then show ?thesis by (intro refused) (simp_all add: upb_Array_Insert_def Let_def)
  qed
qed

section \<open>Sequences of operations\<close>

text \<open>What a client does with an array, and the same on a list; an inserted element is set at once.\<close>

datatype array_op = AppendOp bytes | SetOp nat bytes | InsertOp nat bytes | DeleteOp nat nat

fun array_step :: "storage \<Rightarrow> nat \<Rightarrow> array_op \<Rightarrow> upb_array \<Rightarrow> (bool \<times> upb_array \<times> nat) run" where
  "array_step m c (AppendOp v) arr = upb_Array_Append m c arr v"
| "array_step m c (SetOp i v) arr = bind_outcome (upb_Array_Set arr (of_nat i) v) (\<lambda>arr. Ok (True, arr, c))"
| "array_step m c (InsertOp i v) arr =
     bind_outcome (upb_Array_Insert m c arr (of_nat i) 1) (\<lambda>(ok, arr, c).
       if \<not> ok then Ok (False, arr, c)
       else bind_outcome (upb_Array_Set arr (of_nat i) v) (\<lambda>arr. Ok (True, arr, c)))"
| "array_step m c (DeleteOp i k) arr = bind_outcome (upb_Array_Delete arr (of_nat i) (of_nat k)) (\<lambda>arr. Ok (True, arr, c))"

fun list_step :: "array_op \<Rightarrow> bytes list \<Rightarrow> bytes list" where
  "list_step (AppendOp v) xs = xs @ [v]"
| "list_step (SetOp i v) xs = xs[i := v]"
| "list_step (InsertOp i v) xs = take i xs @ v # drop i xs"
| "list_step (DeleteOp i k) xs = take i xs @ drop (i + k) xs"

fun step_ok :: "nat \<Rightarrow> array_op \<Rightarrow> bytes list \<Rightarrow> bool" where
  "step_ok e (AppendOp v) xs \<longleftrightarrow> length v = e"
| "step_ok e (SetOp i v) xs \<longleftrightarrow> length v = e \<and> i < length xs"
| "step_ok e (InsertOp i v) xs \<longleftrightarrow> length v = e \<and> i \<le> length xs"
| "step_ok e (DeleteOp i k) xs \<longleftrightarrow> i + k \<le> length xs"

fun steps_ok :: "nat \<Rightarrow> array_op list \<Rightarrow> bytes list \<Rightarrow> bool" where
  "steps_ok e [] xs \<longleftrightarrow> True"
| "steps_ok e (a # as) xs \<longleftrightarrow> step_ok e a xs \<and> steps_ok e as (list_step a xs)"

text \<open>The number of operations done before one is refused its memory, and the array then.\<close>

fun run_array :: "storage \<Rightarrow> nat \<Rightarrow> array_op list \<Rightarrow> upb_array \<Rightarrow> (nat \<times> upb_array) run" where
  "run_array m c [] arr = Ok (0, arr)"
| "run_array m c (a # as) arr =
     bind_outcome (array_step m c a arr) (\<lambda>(ok, arr, c).
       if ok then bind_outcome (run_array m c as arr) (\<lambda>(n, arr). Ok (Suc n, arr)) else Ok (0, arr))"

lemma unat_index: "i \<le> 2 ^ 57 \<Longrightarrow> unat (of_nat i :: u64) = i"
  by (simp add: unat_of_nat)

lemma array_step_list:
  assumes "array_wf arr" "storage_ok m" "unat (ar_len arr) < 2 ^ 56" "step_ok (2 ^ ar_lg2 arr) a (elements arr)"
  obtains (met) arr' c' where "array_step m c a arr = Ok (True, arr', c')" "array_wf arr'" "ar_lg2 arr' = ar_lg2 arr"
      "elements arr' = list_step a (elements arr)"
    | (refused) b c' where "m c b = None" "array_step m c a arr = Ok (False, arr, c')"
proof (cases a)
  case (AppendOp v)
  then have v: "length v = 2 ^ ar_lg2 arr" using assms(4) by simp
  show ?thesis
    by (cases rule: array_append [OF assms(1-3) v, of c]) (auto simp: AppendOp intro: met refused)
next
  case (SetOp i v)
  then have i: "i < unat (ar_len arr)" "length v = 2 ^ ar_lg2 arr" using assms(4) by auto
  then have u: "unat (of_nat i :: u64) = i" using assms(3) by (intro unat_index) auto
  then have "of_nat i < ar_len arr" using i by (simp add: word_less_nat_alt)
  from array_set [OF assms(1) this, of v] i u show ?thesis by (auto simp: SetOp intro: met)
next
  case (InsertOp i v)
  then have i: "i \<le> unat (ar_len arr)" "length v = 2 ^ ar_lg2 arr" using assms(4) by auto
  then have u: "unat (of_nat i :: u64) = i" using assms(3) by (intro unat_index) auto
  then have le: "of_nat i \<le> ar_len arr" using i by (simp add: word_le_nat_alt)
  have one: "unat (ar_len arr) + unat (1 :: u64) \<le> 2 ^ 56" using assms(3) by simp
  show ?thesis
  proof (cases rule: array_insert [OF assms(1,2) one le, of c])
    case (1 arr1 c' gap)
    have len: "unat (ar_len arr1) = unat (ar_len arr) + 1" using 1(4) i u arg_cong [OF 1(5), of length] by simp
    then have "of_nat i < ar_len arr1" using i u by (simp add: word_less_nat_alt)
    from array_set [OF 1(2) this, of v] i 1(3) u obtain arr' where arr': "upb_Array_Set arr1 (of_nat i) v = Ok arr'" "array_wf arr'"
      "ar_lg2 arr' = ar_lg2 arr1" "elements arr' = (elements arr1)[i := v]" by auto
    obtain g where "gap = [g]" using 1(4) by (auto simp: length_Suc_conv)
    then have "elements arr' = list_step a (elements arr)"
      unfolding arr'(4) 1(5) u InsertOp using i by (simp add: list_update_append)
    then show ?thesis using 1 arr' by (intro met [of arr' c']) (simp_all add: InsertOp)
  next
    case (2 b)
    then show ?thesis by (intro refused) (simp_all add: InsertOp)
  qed
next
  case (DeleteOp i k)
  then have i: "i + k \<le> unat (ar_len arr)" using assms(4) by auto
  then have u: "unat (of_nat i :: u64) = i" "unat (of_nat k :: u64) = k" using assms(3) by (auto intro: unat_index)
  then have "unat (of_nat i :: u64) + unat (of_nat k :: u64) \<le> unat (ar_len arr)" using i by simp
  from array_delete [OF assms(1) this] u show ?thesis by (auto simp: DeleteOp intro: met)
qed

lemma list_step_length: "step_ok e a xs \<Longrightarrow> length (list_step a xs) \<le> Suc (length xs)"
  by (cases a) auto

text \<open>
  C37: An array is a list: any sequence of appending, setting, inserting and deleting elements acts on it as on the list of its
  elements, however often the memory has to grow and move, and stays inside the memory. When memory is refused the
  array is the one before the operation that needed it. Every element can be read back.
\<close>

theorem array_refines_list:
  assumes "array_wf arr" "storage_ok m" "unat (ar_len arr) + length ops < 2 ^ 56" "steps_ok (2 ^ ar_lg2 arr) ops (elements arr)"
  shows "\<exists>n arr'. run_array m c ops arr = Ok (n, arr') \<and> array_wf arr' \<and> n \<le> length ops \<and>
    elements arr' = fold list_step (take n ops) (elements arr) \<and> (n < length ops \<longrightarrow> (\<exists>c b. m c b = None)) \<and>
    (\<forall>i < ar_len arr'. upb_Array_Get arr' i = Ok (elements arr' ! unat i))"
  using assms(1,3,4)
proof (induction ops arbitrary: arr c)
  case Nil
  then show ?case using array_get by auto
next
  case (Cons a as)
  have len: "unat (ar_len arr) < 2 ^ 56" using Cons.prems(2) by simp
  have ok: "step_ok (2 ^ ar_lg2 arr) a (elements arr)" using Cons.prems(3) by simp
  show ?case
  proof (cases rule: array_step_list [OF Cons.prems(1) assms(2) len ok, of c])
    case (1 arr1 c')
    have "unat (ar_len arr1) \<le> Suc (unat (ar_len arr))"
      using list_step_length [OF ok] arg_cong [OF 1(4), of length] by simp
    then have "unat (ar_len arr1) + length as < 2 ^ 56" "steps_ok (2 ^ ar_lg2 arr1) as (elements arr1)"
      using Cons.prems(2,3) 1(3,4) by simp_all
    from Cons.IH [OF 1(2) this, of c'] obtain n arr' where r: "run_array m c' as arr1 = Ok (n, arr')" "array_wf arr'" "n \<le> length as"
      "elements arr' = fold list_step (take n as) (elements arr1)" "n < length as \<longrightarrow> (\<exists>c b. m c b = None)"
      "\<forall>i < ar_len arr'. upb_Array_Get arr' i = Ok (elements arr' ! unat i)" by blast
    then show ?thesis using 1 by (intro exI [of _ "Suc n"] exI [of _ arr']) simp
  next
    case (2 b c')
    then show ?thesis using Cons.prems(1) array_get by (intro exI [of _ 0] exI [of _ arr]) auto
  qed
qed

text \<open>A new array is empty and well formed.\<close>

lemma array_new:
  assumes "storage_ok m"
  shows "upb_Array_New m c t = (None, c + 1) \<or>
    (\<exists>arr. upb_Array_New m c t = (Some arr, c + 1) \<and> array_wf arr \<and> elements arr = [] \<and> ar_lg2 arr = CTypeo_sizelg2 t)"
proof -
  have "CTypeo_sizelg2 t \<le> 4" by (cases t) auto
  moreover have "unat (of_nat upb_Array_struct + push_bit (CTypeo_sizelg2 t) (4 :: u64)) = 32 + 4 * 2 ^ CTypeo_sizelg2 t"
    by (cases t) (simp_all add: upb_Array_struct_def push_bit_eq_mult)
  ultimately show ?thesis using assms
    by (auto simp: upb_Array_New_def upb_Array_New_inl_def storage_ok_def Let_def array_wf_def elements_def upb_Array_struct_def
      split: option.splits)
qed

definition zero_storage :: storage where
  "zero_storage c n = Some (replicate n 0)"

lemma array_refines_list_witness:
  "\<exists>arr n arr'. upb_Array_New zero_storage 0 CType_Bool = (Some arr, 1) \<and>
    run_array zero_storage 1 [AppendOp [7], AppendOp [8], InsertOp 1 [9], SetOp 0 [1], DeleteOp 1 1] arr = Ok (n, arr') \<and>
    elements arr' = [[1], [8]]"
proof -
  have ok: "storage_ok zero_storage" by (simp add: storage_ok_def zero_storage_def)
  obtain arr where arr: "upb_Array_New zero_storage 0 CType_Bool = (Some arr, 1)" "array_wf arr" "elements arr = []" "ar_lg2 arr = 0"
    using array_new [OF ok, of 0 CType_Bool] by (auto simp: upb_Array_New_def upb_Array_New_inl_def zero_storage_def Let_def)
  define ops where "ops = [AppendOp [7], AppendOp [8], InsertOp 1 [9], SetOp 0 [1], DeleteOp 1 1]"
  have "unat (ar_len arr) + length ops < 2 ^ 56" using arg_cong [OF arr(3), of length] by (simp add: ops_def)
  moreover have "steps_ok (2 ^ ar_lg2 arr) ops (elements arr)" using arr(3,4) by (simp add: ops_def)
  ultimately obtain n arr' where r: "run_array zero_storage 1 ops arr = Ok (n, arr')" "n \<le> length ops"
    "elements arr' = fold list_step (take n ops) []" "n < length ops \<longrightarrow> (\<exists>c b. zero_storage c b = None)"
    using array_refines_list [OF arr(2) ok, of ops 1] unfolding arr(3) by blast
  then have "n = length ops" by (auto simp: zero_storage_def)
  then have "elements arr' = [[1], [8]]" using r(3) by (simp add: ops_def)
  with arr r show ?thesis unfolding ops_def by blast
qed

end
