(* ===== verification/Upb_Message.thy ===== *)
theory Upb_Message
  imports Upb_Array Upb_Strmap Upb_Bits
begin

text \<open>
  The part of a message that is not in its layout (\<open>upb/msg.c\<close>): unknown fields and extensions share one piece of
  memory, the unknown bytes growing from its start and the extension records from its end, and it is
  reallocated when they meet. Sizes and offsets are 32-bit words, as in the code. The operations are
  shown to act on a byte string and a finite map independently of each other.
\<close>

section \<open>The data\<close>

text \<open>
  \<open>mi_mem\<close> is the whole allocation, with the 12 bytes of the header that are kept in the other fields. An
  extension record is 24 bytes: the address of the extension's description and 16 bytes of data.
\<close>

record msg_internal =
  mi_size :: u32
  mi_unknown_end :: u32
  mi_ext_begin :: u32
  mi_mem :: bytes

definition overhead :: nat where
  "overhead = 12"

definition sizeof_ext :: nat where
  "sizeof_ext = 24"

text \<open>\<open>1 << _upb_Log2Ceiling(x)\<close>, in \<open>int\<close>.\<close>

definition upb_Log2CeilingSize :: "u64 \<Rightarrow> nat run" where
  "upb_Log2CeilingSize x =
     (let lg2 = upb_Log2Ceiling (sint (ucast x :: u32)) in if lg2 > 30 then UB else Ok (2 ^ lg2))"

definition u32_of :: "nat \<Rightarrow> u32" where
  "u32_of n = of_nat n"

definition realloc_internal :: "storage \<Rightarrow> nat \<Rightarrow> msg_internal option \<Rightarrow> u64 \<Rightarrow> (bool \<times> msg_internal option \<times> nat) run" where
  "realloc_internal m c msg need =
     (case msg of
        None \<Rightarrow>
          bind_outcome (upb_Log2CeilingSize (need + of_nat overhead)) (\<lambda>lg.
            let n = max 128 lg in
            case m c n of
              None \<Rightarrow> Ok (False, msg, c + 1)
            | Some mem \<Rightarrow>
                Ok (True, Some \<lparr>mi_size = u32_of n, mi_unknown_end = u32_of overhead, mi_ext_begin = u32_of n, mi_mem = mem\<rparr>, c + 1))
      | Some i \<Rightarrow>
          if ucast (mi_ext_begin i - mi_unknown_end i) < need then
            bind_outcome (upb_Log2CeilingSize (ucast (mi_size i) + need)) (\<lambda>new_size.
              let ext_bytes = unat (mi_size i) - unat (mi_ext_begin i);
                  new_ext_begin = new_size - ext_bytes in
              case storage_realloc m c (mi_mem i) new_size of
                None \<Rightarrow> Ok (False, msg, c + 1)
              | Some mem \<Rightarrow>
                  bind_outcome
                    (if ext_bytes = 0 then Ok mem
                     else bind_outcome (read_mem mem (unat (mi_ext_begin i)) ext_bytes) (write_mem mem new_ext_begin))
                    (\<lambda>mem. Ok (True, Some (i\<lparr>mi_ext_begin := u32_of new_ext_begin, mi_size := u32_of new_size, mi_mem := mem\<rparr>), c + 1)))
          else Ok (True, msg, c))"

definition upb_Message_AddUnknown :: "storage \<Rightarrow> nat \<Rightarrow> msg_internal option \<Rightarrow> bytes \<Rightarrow> (bool \<times> msg_internal option \<times> nat) run" where
  "upb_Message_AddUnknown m c msg data =
     bind_outcome (realloc_internal m c msg (of_nat (length data))) (\<lambda>(ok, msg, c).
       if \<not> ok then Ok (False, msg, c)
       else
         case msg of None \<Rightarrow> UB
         | Some i \<Rightarrow>
             bind_outcome (write_mem (mi_mem i) (unat (mi_unknown_end i)) data) (\<lambda>mem.
               Ok (True, Some (i\<lparr>mi_mem := mem, mi_unknown_end := mi_unknown_end i + u32_of (length data)\<rparr>), c)))"

definition upb_Message_DiscardUnknown_shallow :: "msg_internal option \<Rightarrow> msg_internal option" where
  "upb_Message_DiscardUnknown_shallow = map_option (\<lambda>i. i\<lparr>mi_unknown_end := u32_of overhead\<rparr>)"

text \<open>The unknown bytes; NULL with length 0 is the empty string.\<close>

definition upb_Message_GetUnknown :: "msg_internal option \<Rightarrow> bytes run" where
  "upb_Message_GetUnknown msg =
     (case msg of None \<Rightarrow> Ok []
      | Some i \<Rightarrow> read_mem (mi_mem i) overhead (unat (mi_unknown_end i) - overhead))"

text \<open>The offset of the extension records and their number.\<close>

definition upb_Message_Getexts :: "msg_internal option \<Rightarrow> nat \<times> nat" where
  "upb_Message_Getexts msg =
     (case msg of None \<Rightarrow> (0, 0)
      | Some i \<Rightarrow> (unat (mi_ext_begin i), unat (mi_size i - mi_ext_begin i) div sizeof_ext))"

definition ext_address :: "bytes \<Rightarrow> nat \<Rightarrow> u64 run" where
  "ext_address mem off = bind_outcome (read_mem mem off 8) (\<lambda>bs. Ok (le_word bs))"

fun getext_loop :: "bytes \<Rightarrow> nat \<Rightarrow> u64 \<Rightarrow> nat list \<Rightarrow> nat option run" where
  "getext_loop mem base e [] = Ok None"
| "getext_loop mem base e (i # is) =
     bind_outcome (ext_address mem (base + i * sizeof_ext)) (\<lambda>a.
       if a = e then Ok (Some (base + i * sizeof_ext)) else getext_loop mem base e is)"

definition upb_Message_Getext :: "msg_internal option \<Rightarrow> u64 \<Rightarrow> nat option run" where
  "upb_Message_Getext msg e =
     (case msg of None \<Rightarrow> Ok None
      | Some i \<Rightarrow> (case upb_Message_Getexts msg of (base, n) \<Rightarrow> getext_loop (mi_mem i) base e [0..<n]))"

text \<open>The first record moves to the place of the one that is cleared.\<close>

definition upb_Message_Clearext :: "msg_internal option \<Rightarrow> u64 \<Rightarrow> msg_internal option run" where
  "upb_Message_Clearext msg e =
     (case msg of None \<Rightarrow> Ok None
      | Some i \<Rightarrow>
          bind_outcome (upb_Message_Getext msg e) (\<lambda>ext.
            case ext of None \<Rightarrow> Ok msg
            | Some off \<Rightarrow>
                bind_outcome (read_mem (mi_mem i) (unat (mi_ext_begin i)) sizeof_ext) (\<lambda>base.
                bind_outcome (write_mem (mi_mem i) off base) (\<lambda>mem.
                  Ok (Some (i\<lparr>mi_mem := mem, mi_ext_begin := mi_ext_begin i + u32_of sizeof_ext\<rparr>))))))"

text \<open>The offset of the record, \<open>None\<close> for NULL.\<close>

definition upb_Message_GetOrCreateExtension ::
    "storage \<Rightarrow> nat \<Rightarrow> msg_internal option \<Rightarrow> u64 \<Rightarrow> (nat option \<times> msg_internal option \<times> nat) run" where
  "upb_Message_GetOrCreateExtension m c msg e =
     bind_outcome (upb_Message_Getext msg e) (\<lambda>ext.
       case ext of Some off \<Rightarrow> Ok (Some off, msg, c)
       | None \<Rightarrow>
           bind_outcome (realloc_internal m c msg (of_nat sizeof_ext)) (\<lambda>(ok, msg, c).
             if \<not> ok then Ok (None, msg, c)
             else
               case msg of None \<Rightarrow> UB
               | Some i \<Rightarrow>
                   let off = unat (mi_ext_begin i - u32_of sizeof_ext) in
                   bind_outcome (write_mem (mi_mem i) off (le_bytes 8 e @ replicate 16 0)) (\<lambda>mem.
                     Ok (Some off, Some (i\<lparr>mi_mem := mem, mi_ext_begin := mi_ext_begin i - u32_of sizeof_ext\<rparr>), c))))"

definition upb_Message_ExtensionCount :: "msg_internal option \<Rightarrow> nat" where
  "upb_Message_ExtensionCount msg = snd (upb_Message_Getexts msg)"

text \<open>What a client does through the pointer to a record: read and write its data.\<close>

definition ext_data :: "msg_internal option \<Rightarrow> nat \<Rightarrow> bytes run" where
  "ext_data msg off = (case msg of None \<Rightarrow> UB | Some i \<Rightarrow> read_mem (mi_mem i) (off + 8) 16)"

definition set_ext_data :: "msg_internal option \<Rightarrow> nat \<Rightarrow> bytes \<Rightarrow> msg_internal option run" where
  "set_ext_data msg off v =
     (case msg of None \<Rightarrow> UB
      | Some i \<Rightarrow> bind_outcome (write_mem (mi_mem i) (off + 8) v) (\<lambda>mem. Ok (Some (i\<lparr>mi_mem := mem\<rparr>))))"

section \<open>The layout of the memory\<close>

text \<open>Header, unknown bytes, gap and extension records, whose addresses are \<open>map fst rs\<close>.\<close>

definition ext_record :: "u64 \<times> bytes \<Rightarrow> bytes" where
  "ext_record r = le_bytes 8 (fst r) @ snd r"

definition records :: "(u64 \<times> bytes) list \<Rightarrow> bytes" where
  "records rs = concat (map ext_record rs)"

definition record_ok :: "u64 \<times> bytes \<Rightarrow> bool" where
  "record_ok r \<longleftrightarrow> length (snd r) = 16"

definition layout :: "bytes \<Rightarrow> bytes \<Rightarrow> bytes \<Rightarrow> (u64 \<times> bytes) list \<Rightarrow> msg_internal \<Rightarrow> bool" where
  "layout H U G rs i \<longleftrightarrow> mi_mem i = H @ U @ G @ records rs \<and> list_all record_ok rs \<and> length H = overhead \<and>
     unat (mi_unknown_end i) = length (H @ U) \<and> unat (mi_ext_begin i) = length (H @ U @ G) \<and>
     unat (mi_size i) = length (mi_mem i)"

lemma records_simps [simp]: "records [] = []" "records (r # rs) = ext_record r @ records rs" "records (rs @ qs) = records rs @ records qs"
  by (simp_all add: records_def)

lemma length_ext_record [simp]: "record_ok r \<Longrightarrow> length (ext_record r) = 24"
  by (simp add: ext_record_def record_ok_def)

lemma length_records [simp]: "list_all record_ok rs \<Longrightarrow> length (records rs) = 24 * length rs"
  by (induction rs) auto

lemma ext_address_at: "length P = off \<Longrightarrow> record_ok r \<Longrightarrow> ext_address (P @ ext_record r @ Q) off = Ok (fst r)"
  by (simp add: ext_address_def read_mem_def ext_record_def record_ok_def)

lemma getext_loop_result:
  assumes "mem = P @ records rs" "length P = base" "list_all record_ok rs" "qs = drop k rs"
  shows "getext_loop mem base e [k..<length rs] =
    Ok (case dropWhile (\<lambda>r. fst r \<noteq> e) qs of [] \<Rightarrow> None
        | _ # rest \<Rightarrow> Some (base + (length rs - Suc (length rest)) * sizeof_ext))"
  using assms(4)
proof (induction qs arbitrary: k)
  case Nil
  then show ?case by simp
next
  case (Cons q qs)
  then have k: "k < length rs" by (metis drop_eq_Nil list.distinct(1) not_less)
  then have q: "q = rs ! k" "qs = drop (Suc k) rs" using Cons.prems by (simp_all add: Cons_nth_drop_Suc [symmetric])
  have mem: "mem = (P @ records (take k rs)) @ ext_record q @ records qs"
    using assms(1) id_take_nth_drop [OF k] q by (metis append_assoc records_simps(2,3))
  have "list_all record_ok (take k rs)" "record_ok q"
    using assms(3) q k by (auto simp: list_all_length)
  then have "ext_address mem (base + k * sizeof_ext) = Ok (fst q)"
    unfolding mem using assms(2) k by (intro ext_address_at) (auto simp: sizeof_ext_def)
  moreover have "length rs - Suc (length qs) = k" using k q by simp
  ultimately show ?case using Cons.IH [OF q(2)] k by (simp add: upt_conv_Cons)
qed

lemma getext_layout:
  assumes "layout H U G rs i"
  shows "upb_Message_Getext (Some i) e =
    Ok (case dropWhile (\<lambda>r. fst r \<noteq> e) rs of [] \<Rightarrow> None
        | _ # rest \<Rightarrow> Some (length (H @ U @ G) + (length rs - Suc (length rest)) * sizeof_ext))"
proof -
  have l: "unat (mi_size i) = length (H @ U @ G) + 24 * length rs" "unat (mi_ext_begin i) = length (H @ U @ G)"
    using assms by (auto simp: layout_def)
  then have "unat (mi_size i - mi_ext_begin i) = 24 * length rs" by (simp add: unat_sub word_le_nat_alt)
  then have "upb_Message_Getexts (Some i) = (length (H @ U @ G), length rs)"
    using l by (simp add: upb_Message_Getexts_def sizeof_ext_def)
  then show ?thesis
    using getext_loop_result [of "mi_mem i" "H @ U @ G" rs "length (H @ U @ G)" rs 0 e] assms
    by (simp add: upb_Message_Getext_def layout_def)
qed

text \<open>Of the records with different addresses, the one of \<open>e\<close> and its place.\<close>

lemma getext_absent: "layout H U G rs i \<Longrightarrow> e \<notin> fst ` set rs \<Longrightarrow> upb_Message_Getext (Some i) e = Ok None"
proof -
  assume l: "layout H U G rs i" and e: "e \<notin> fst ` set rs"
  then have d: "dropWhile (\<lambda>r. fst r \<noteq> e) rs = []" by (auto simp: image_iff)
  show ?thesis using getext_layout [OF l, of e] unfolding d by simp
qed

lemma getext_present:
  assumes "layout H U G (r1 @ (e, d) # r2) i" "e \<notin> fst ` set r1"
  shows "upb_Message_Getext (Some i) e = Ok (Some (length (H @ U @ G @ records r1)))"
proof -
  have d: "dropWhile (\<lambda>r. fst r \<noteq> e) (r1 @ (e, d) # r2) = (e, d) # r2"
    using assms(2) by (subst dropWhile_append2) (auto simp: image_iff)
  have "list_all record_ok r1" using assms(1) by (auto simp: layout_def)
  then show ?thesis using getext_layout [OF assms(1), of e] unfolding d by (simp add: sizeof_ext_def)
qed

section \<open>Growing\<close>

lemma bit_length_bounds: "0 < n \<Longrightarrow> n < 2 ^ bit_length n \<and> 2 ^ bit_length n \<le> 2 * n"
proof (induction n rule: bit_length.induct)
  case (1 n)
  show ?case
  proof (cases "n = 1")
    case True
    then show ?thesis by (simp add: bit_length.simps [of "Suc 0"] bit_length.simps [of 0])
  next
    case False
    then have "0 < n div 2" using 1(2) by simp
    with 1 have "n div 2 < 2 ^ bit_length (n div 2)" "2 ^ bit_length (n div 2) \<le> 2 * (n div 2)" by auto
    moreover have "n = 2 * (n div 2) + n mod 2" "n mod 2 < 2" by simp_all
    ultimately have "n < 2 * 2 ^ bit_length (n div 2)" "2 ^ bit_length (n div 2) \<le> n" by linarith+
    then show ?thesis using 1(2) by (simp add: bit_length.simps [of n])
  qed
qed

lemma Log2CeilingSize_bounds:
  assumes "1 < unat x" "unat x \<le> 2 ^ 30"
  shows "\<exists>p. upb_Log2CeilingSize x = Ok p \<and> unat x \<le> p \<and> p < 2 * unat x \<and> p \<le> 2 ^ 30"
proof -
  let ?b = "bit_length (unat x - 1)"
  have x: "sint (ucast x :: u32) = int (unat x)" using small_int [of "unat x"] assms(2) by simp
  have b: "unat x - 1 < 2 ^ ?b" "2 ^ ?b \<le> 2 * (unat x - 1)" using bit_length_bounds [of "unat x - 1"] assms(1) by auto
  then have "(2::nat) ^ ?b < 2 ^ 31" using assms(2) by (intro le_less_trans [OF b(2)]) simp
  then have "?b < 31" by (rule power_less_imp_less_exp [rotated]) simp
  then have "?b \<le> 30" by simp
  moreover have "upb_Log2Ceiling (sint (ucast x :: u32)) = ?b"
    unfolding x by (rule Log2Ceiling_nat [OF assms(1)])
  ultimately show ?thesis
    using b assms(1) power_increasing [of ?b 30 "2::nat"] by (auto simp: upb_Log2CeilingSize_def Let_def)
qed

text \<open>
  The memory grows to less than twice what is needed, keeps the unknown bytes and the records, and has a gap of
  \<open>need\<close> bytes then; a refused request changes nothing.
\<close>

lemma unat_u32_of [simp]: "n < 2 ^ 32 \<Longrightarrow> unat (u32_of n) = n"
  by (simp add: u32_of_def unat_of_nat)

lemma realloc_first:
  assumes "storage_ok m" "unat need \<le> 2 ^ 29"
  obtains (met) i H G where "realloc_internal m c None need = Ok (True, Some i, c + 1)" "layout H [] G [] i" "unat need \<le> length G"
      "unat (mi_size i) \<le> max 128 (2 * (unat need + overhead))"
    | (refused) b where "m c b = None" "realloc_internal m c None need = Ok (False, None, c + 1)"
proof -
  have n: "unat (need + of_nat overhead) = unat need + 12"
    using assms(2) by (simp add: overhead_def) (subst unat_add_lem [THEN iffD1]; simp)
  then obtain p where p: "upb_Log2CeilingSize (need + of_nat overhead) = Ok p" "unat need + 12 \<le> p" "p < 2 * (unat need + 12)" "p \<le> 2 ^ 30"
    using Log2CeilingSize_bounds [of "need + of_nat overhead"] assms(2) by auto
  let ?n = "max 128 p"
  show ?thesis
  proof (cases "m c ?n")
    case None
    then show ?thesis using p(1) by (intro refused) (simp_all add: realloc_internal_def)
  next
    case (Some mem)
    then have mem: "length mem = ?n" using assms(1) by (simp add: storage_ok_def)
    let ?i = "\<lparr>mi_size = u32_of ?n, mi_unknown_end = u32_of overhead, mi_ext_begin = u32_of ?n, mi_mem = mem\<rparr>"
    show ?thesis
    proof (rule met [of ?i "take 12 mem" "drop 12 mem"])
      show "realloc_internal m c None need = Ok (True, Some ?i, c + 1)"
        using p(1) Some by (simp add: realloc_internal_def Let_def)
      show "layout (take 12 mem) [] (drop 12 mem) [] ?i" using mem p(4) by (simp add: layout_def overhead_def)
      show "unat need \<le> length (drop 12 mem)" using mem p(2) by simp
      show "unat (mi_size ?i) \<le> max 128 (2 * (unat need + overhead))" using p(3,4) by (auto simp: overhead_def)
    qed
  qed
qed

lemma layout_sizes:
  assumes "layout H U G rs i"
  shows "length (mi_mem i) = unat (mi_size i)" "unat (mi_unknown_end i) = length H + length U"
    "unat (mi_ext_begin i) = length H + length U + length G" "length H = 12"
    "unat (mi_size i) = 12 + length U + length G + 24 * length rs" "length (records rs) = 24 * length rs"
    "mi_mem i = H @ U @ G @ records rs" "list_all record_ok rs"
  using assms by (auto simp: layout_def overhead_def)

lemma unat_ucast_u32_u64: "unat (ucast (w :: u32) :: u64) = unat w"
proof -
  have "unat w < 2 ^ LENGTH(32)" by (rule unsigned_less)
  then have "unat w < 2 ^ 64" by simp
  then show ?thesis by (simp add: unsigned_ucast_eq take_bit_nat_eq_self_iff)
qed

lemma gap_size: "layout H U G rs i \<Longrightarrow> unat (ucast (mi_ext_begin i - mi_unknown_end i) :: u64) = length G"
proof -
  assume l: "layout H U G rs i"
  note z = layout_sizes [OF l]
  have "unat (mi_ext_begin i - mi_unknown_end i) = length G" using z by (simp add: unat_sub word_le_nat_alt)
  then show ?thesis by (simp add: unat_ucast_u32_u64)
qed

lemma realloc_more:
  assumes l: "layout H U G rs i" and m: "storage_ok m" and size: "unat (mi_size i) + unat need \<le> 2 ^ 30"
  obtains (met) i' G' c' where "realloc_internal m c (Some i) need = Ok (True, Some i', c')" "layout H U G' rs i'" "unat need \<le> length G'"
      "unat (mi_size i') \<le> max (unat (mi_size i)) (4 * (overhead + length U + 24 * length rs + unat need))"
    | (refused) b where "m c b = None" "realloc_internal m c (Some i) need = Ok (False, Some i, c + 1)"
proof (cases "length G < unat need")
  case False
  then have "realloc_internal m c (Some i) need = Ok (True, Some i, c)"
    using gap_size [OF l] by (simp add: realloc_internal_def word_less_nat_alt)
  then show ?thesis by (rule met [OF _ l]) (use False in auto)
next
  case True
  note z = layout_sizes [OF l]
  have "unat (ucast (mi_size i) + need :: u64) = unat (mi_size i) + unat need"
    using size by (subst unat_add_lem [THEN iffD1]) (auto simp: unat_ucast_u32_u64)
  then obtain p where p: "upb_Log2CeilingSize (ucast (mi_size i) + need) = Ok p" "unat (mi_size i) + unat need \<le> p"
    "p < 2 * (unat (mi_size i) + unat need)" "p \<le> 2 ^ 30"
    using Log2CeilingSize_bounds [of "ucast (mi_size i) + need"] size True z(5) by auto
  have gap: "ucast (mi_ext_begin i - mi_unknown_end i) < need" using gap_size [OF l] True by (simp add: word_less_nat_alt)
  let ?e = "unat (mi_size i) - unat (mi_ext_begin i)"
  have e: "?e = 24 * length rs" using z by simp
  show ?thesis
  proof (cases "m c p")
    case None
    then have "storage_realloc m c (mi_mem i) p = None" by (simp add: storage_realloc_def)
    then show ?thesis by (intro refused [OF None]) (simp add: realloc_internal_def gap p(1) Let_def)
  next
    case (Some bs)
    then have bs: "length bs = p" using m by (simp add: storage_ok_def)
    let ?mem = "mi_mem i @ drop (length (mi_mem i)) bs"
    have re: "storage_realloc m c (mi_mem i) p = Some ?mem"
      using p(2) z(1) Some by (simp add: storage_realloc_def)
    have len: "length ?mem = p" using bs p(2) z(1) by simp
    define K where "K = take (p - ?e) ?mem"
    define D where "D = drop (length H + length U) K"
    have K: "K = H @ U @ D" "length K = p - ?e" "length D = p - ?e - (length H + length U)"
      using z(4,5,7) p(2) e len by (simp_all add: K_def D_def)
    have rd: "read_mem ?mem (unat (mi_ext_begin i)) ?e = Ok (records rs)"
      using z p(2) len e by (simp add: read_mem_def)
    have wr: "write_mem ?mem (p - ?e) (records rs) = Ok (K @ records rs)"
      using len p(2) z(6) e by (simp add: write_mem_def K_def)
    let ?i = "i\<lparr>mi_ext_begin := u32_of (p - ?e), mi_size := u32_of p, mi_mem := K @ records rs\<rparr>"
    have nil: "?mem = K @ records rs" if "?e = 0" using that e len by (simp add: K_def)
    have "realloc_internal m c (Some i) need = Ok (True, Some ?i, c + 1)"
      using rd wr nil by (simp only: realloc_internal_def option.case gap if_True p(1) bind_outcome.simps Let_def re) auto
    moreover have "layout H U D rs ?i"
      unfolding layout_def using z p(2,4) e K by (simp add: overhead_def)
    ultimately show ?thesis
    proof (rule met)
      show "unat need \<le> length D" using K(3) e p(2) z(4,5) by simp
      show "unat (mi_size ?i) \<le> max (unat (mi_size i)) (4 * (overhead + length U + 24 * length rs + unat need))"
        using p(3,4) True z(5) by (simp add: overhead_def)
    qed
  qed
qed

section \<open>The operations on a byte string and a map\<close>

text \<open>
  A message stands for its unknown bytes and its map of extensions; \<open>tot\<close> bounds all the bytes that were ever
  added, and with them the memory.
\<close>

definition message_abs :: "msg_internal option \<Rightarrow> bytes \<Rightarrow> (u64 \<rightharpoonup> bytes) \<Rightarrow> nat \<Rightarrow> bool" where
  "message_abs msg U f tot \<longleftrightarrow>
     (case msg of None \<Rightarrow> U = [] \<and> f = Map.empty
      | Some i \<Rightarrow> \<exists>H G rs. layout H U G rs i \<and> distinct (map fst rs) \<and> f = map_of rs \<and>
          unat (mi_size i) \<le> max 128 (4 * tot) \<and> overhead + length U + 24 * length rs \<le> tot)"

lemma message_absI:
  "layout H U G rs i \<Longrightarrow> distinct (map fst rs) \<Longrightarrow> f = map_of rs \<Longrightarrow> unat (mi_size i) \<le> max 128 (4 * tot) \<Longrightarrow>
    overhead + length U + 24 * length rs \<le> tot \<Longrightarrow> message_abs (Some i) U f tot"
  unfolding message_abs_def by auto

datatype msg_op = AddUnknown bytes | DiscardUnknown | SetExt u64 bytes | ClearExt u64

fun msg_step :: "storage \<Rightarrow> nat \<Rightarrow> msg_op \<Rightarrow> msg_internal option \<Rightarrow> (bool \<times> msg_internal option \<times> nat) run" where
  "msg_step m c (AddUnknown d) msg = upb_Message_AddUnknown m c msg d"
| "msg_step m c DiscardUnknown msg = Ok (True, upb_Message_DiscardUnknown_shallow msg, c)"
| "msg_step m c (SetExt e v) msg =
     bind_outcome (upb_Message_GetOrCreateExtension m c msg e) (\<lambda>(off, msg, c).
       case off of None \<Rightarrow> Ok (False, msg, c)
       | Some off \<Rightarrow> bind_outcome (set_ext_data msg off v) (\<lambda>msg. Ok (True, msg, c)))"
| "msg_step m c (ClearExt e) msg = bind_outcome (upb_Message_Clearext msg e) (\<lambda>msg. Ok (True, msg, c))"

fun abs_step :: "msg_op \<Rightarrow> bytes \<times> (u64 \<rightharpoonup> bytes) \<Rightarrow> bytes \<times> (u64 \<rightharpoonup> bytes)" where
  "abs_step (AddUnknown d) (U, f) = (U @ d, f)"
| "abs_step DiscardUnknown (U, f) = ([], f)"
| "abs_step (SetExt e v) (U, f) = (U, f(e \<mapsto> v))"
| "abs_step (ClearExt e) (U, f) = (U, f(e := None))"

fun op_cost :: "msg_op \<Rightarrow> nat" where
  "op_cost (AddUnknown d) = length d"
| "op_cost (SetExt e v) = 24"
| "op_cost _ = 0"

fun op_wf :: "msg_op \<Rightarrow> bool" where
  "op_wf (SetExt e v) \<longleftrightarrow> length v = 16"
| "op_wf _ \<longleftrightarrow> True"

text \<open>Room for \<open>need\<close> more bytes.\<close>

lemma realloc_abs:
  assumes abs: "message_abs msg U f tot" and m: "storage_ok m" and bound: "overhead \<le> tot" "tot + unat need \<le> 2 ^ 26"
  obtains (met) i H G rs c' where "realloc_internal m c msg need = Ok (True, Some i, c')" "layout H U G rs i" "distinct (map fst rs)"
      "f = map_of rs" "unat need \<le> length G" "unat (mi_size i) \<le> max 128 (4 * (tot + unat need))" "overhead + length U + 24 * length rs \<le> tot"
    | (refused) b where "m c b = None" "realloc_internal m c msg need = Ok (False, msg, c + 1)"
proof (cases msg)
  case None
  then have none: "U = []" "f = Map.empty" using abs by (auto simp: message_abs_def)
  have b: "unat need \<le> 2 ^ 29" using bound by simp
  show ?thesis
  proof (cases rule: realloc_first [OF m b, of c])
    case (1 i H G)
    then show ?thesis using None none bound by (intro met [of i _ H G "[]"]) auto
  next
    case (2 b)
    then show ?thesis using None by (intro refused) auto
  qed
next
  case (Some i)
  then obtain H G rs where l: "layout H U G rs i" "distinct (map fst rs)" "f = map_of rs" "unat (mi_size i) \<le> max 128 (4 * tot)"
    "overhead + length U + 24 * length rs \<le> tot" using abs by (auto simp: message_abs_def)
  then have b: "unat (mi_size i) + unat need \<le> 2 ^ 30" using bound by auto
  show ?thesis
  proof (cases rule: realloc_more [OF l(1) m b, of c])
    case (1 i' G' c')
    have "unat (mi_size i') \<le> max 128 (4 * (tot + unat need))"
      using 1(4) l(4,5) unfolding le_max_iff_disj by auto
    then show ?thesis using 1 Some l by (intro met [of i' c' H G' rs]) auto
  next
    case (2 b)
    then show ?thesis using Some by (intro refused) auto
  qed
qed

lemma step_AddUnknown:
  assumes abs: "message_abs msg U f tot" and m: "storage_ok m" and bound: "overhead \<le> tot" "tot + length d \<le> 2 ^ 26"
  obtains (met) msg' c' where "upb_Message_AddUnknown m c msg d = Ok (True, msg', c')" "message_abs msg' (U @ d) f (tot + length d)"
    | (refused) b c' where "m c b = None" "upb_Message_AddUnknown m c msg d = Ok (False, msg, c')"
proof -
  have need: "unat (of_nat (length d) :: u64) = length d" using bound by (simp add: unat_of_nat)
  have b: "tot + unat (of_nat (length d) :: u64) \<le> 2 ^ 26" using bound need by simp
  show ?thesis
  proof (cases rule: realloc_abs [OF abs m bound(1) b, of c])
    case (1 i H G rs c')
    note z = layout_sizes [OF 1(2)]
    have fits: "length d \<le> length G" using 1(5) need by simp
    have sz: "unat (mi_unknown_end i) + length d < 2 ^ 32" using z(2,4,5) 1(6) fits bound need by (auto simp: max_def split: if_splits)
    let ?i = "i\<lparr>mi_mem := H @ U @ d @ drop (length d) G @ records rs, mi_unknown_end := mi_unknown_end i + u32_of (length d)\<rparr>"
    have "write_mem (mi_mem i) (unat (mi_unknown_end i)) d = Ok (H @ U @ d @ drop (length d) G @ records rs)"
      using z(2,7) fits by (simp add: write_mem_def)
    then have "upb_Message_AddUnknown m c msg d = Ok (True, Some ?i, c')"
      using 1(1) by (simp add: upb_Message_AddUnknown_def)
    moreover have "unat (mi_unknown_end i + u32_of (length d)) = unat (mi_unknown_end i) + length d"
      using sz by (subst unat_add_lem [THEN iffD1]) auto
    then have "layout H (U @ d) (drop (length d) G) rs ?i"
      using 1(2) fits by (simp add: layout_def)
    then have "message_abs (Some ?i) (U @ d) f (tot + length d)"
      using 1(3,4,6,7) need by (intro message_absI) auto
    ultimately show ?thesis by (rule met)
  next
    case (2 b)
    then show ?thesis by (intro refused) (auto simp: upb_Message_AddUnknown_def)
  qed
qed

lemma step_Discard:
  assumes "message_abs msg U f tot"
  shows "message_abs (upb_Message_DiscardUnknown_shallow msg) [] f tot"
proof (cases msg)
  case None
  then show ?thesis using assms by (simp add: message_abs_def upb_Message_DiscardUnknown_shallow_def)
next
  case (Some i)
  then obtain H G rs where l: "layout H U G rs i" "distinct (map fst rs)" "f = map_of rs" "unat (mi_size i) \<le> max 128 (4 * tot)"
    "overhead + length U + 24 * length rs \<le> tot" using assms by (auto simp: message_abs_def)
  then have "layout H [] (U @ G) rs (i\<lparr>mi_unknown_end := u32_of overhead\<rparr>)"
    by (auto simp: layout_def overhead_def)
  then have "message_abs (Some (i\<lparr>mi_unknown_end := u32_of overhead\<rparr>)) [] f tot"
    using l by (intro message_absI) auto
  then show ?thesis using Some by (simp add: upb_Message_DiscardUnknown_shallow_def)
qed

text \<open>Setting the data of the record at a place.\<close>

lemma set_ext_data_layout:
  assumes l: "layout H U G (r1 @ (e, d) # r2) i" and v: "length v = 16"
  shows "\<exists>i'. set_ext_data (Some i) (length (H @ U @ G @ records r1)) v = Ok (Some i') \<and> layout H U G (r1 @ (e, v) # r2) i' \<and> mi_size i' = mi_size i"
proof -
  note z = layout_sizes [OF l]
  have d: "length d = 16" and ok: "list_all record_ok r1" "list_all record_ok r2" using z(8) by (auto simp: record_ok_def)
  have mem: "mi_mem i = (H @ U @ G @ records r1 @ le_bytes 8 e) @ d @ records r2" using z(7) by (simp add: ext_record_def)
  have "write_mem (mi_mem i) (length (H @ U @ G @ records r1) + 8) v = Ok ((H @ U @ G @ records r1 @ le_bytes 8 e) @ v @ records r2)"
    unfolding mem using v d by (simp add: write_mem_def)
  moreover have "layout H U G (r1 @ (e, v) # r2) (i\<lparr>mi_mem := (H @ U @ G @ records r1 @ le_bytes 8 e) @ v @ records r2\<rparr>)"
    using z v d ok l by (simp add: layout_def ext_record_def record_ok_def)
  ultimately show ?thesis by (auto simp: set_ext_data_def)
qed

lemma map_of_split: "distinct (map fst (r1 @ (e, d) # r2)) \<Longrightarrow> map_of (r1 @ (e, v) # r2) = (map_of (r1 @ (e, d) # r2))(e \<mapsto> v)"
proof -
  assume "distinct (map fst (r1 @ (e, d) # r2))"
  then have "e \<notin> dom (map_of r1)" by (auto simp: dom_map_of_conv_image_fst)
  then show ?thesis by (auto simp: map_add_def fun_eq_iff split: option.split)
qed

lemma split_at:
  assumes "e \<in> fst ` set rs" "distinct (map fst rs)"
  obtains r1 d r2 where "rs = r1 @ (e, d) # r2" "e \<notin> fst ` set r1" "e \<notin> fst ` set r2"
proof -
  obtain d where "(e, d) \<in> set rs" using assms(1) by auto
  then obtain r1 r2 where "rs = r1 @ (e, d) # r2" using split_list by metis
  with assms(2) show ?thesis by (intro that) (auto simp: image_iff)
qed

lemma step_SetExt:
  assumes abs: "message_abs msg U f tot" and m: "storage_ok m" and bound: "overhead \<le> tot" "tot + 24 \<le> 2 ^ 26" and v: "length v = 16"
  obtains (met) msg' c' where "msg_step m c (SetExt e v) msg = Ok (True, msg', c')" "message_abs msg' U (f(e \<mapsto> v)) (tot + 24)"
    | (refused) b c' where "m c b = None" "msg_step m c (SetExt e v) msg = Ok (False, msg, c')"
proof (cases "e \<in> dom f")
  case True
  then obtain i where i: "msg = Some i" using abs by (cases msg) (auto simp: message_abs_def)
  obtain H G rs where l: "layout H U G rs i" "distinct (map fst rs)" "f = map_of rs" "unat (mi_size i) \<le> max 128 (4 * tot)"
    "overhead + length U + 24 * length rs \<le> tot" using abs i by (auto simp: message_abs_def)
  have "e \<in> fst ` set rs" using True l(3) by (simp add: dom_map_of_conv_image_fst)
  then obtain r1 d r2 where r: "rs = r1 @ (e, d) # r2" "e \<notin> fst ` set r1" using split_at l(2) by metis
  note at = getext_present [OF l(1) [unfolded r(1)] r(2)]
  obtain i' where i': "set_ext_data (Some i) (length (H @ U @ G @ records r1)) v = Ok (Some i')" "layout H U G (r1 @ (e, v) # r2) i'"
    "mi_size i' = mi_size i"
    using set_ext_data_layout [OF l(1) [unfolded r(1)] v] by blast
  have "msg_step m c (SetExt e v) msg = Ok (True, Some i', c)"
    using at i'(1) by (simp add: i upb_Message_GetOrCreateExtension_def)
  moreover have "message_abs (Some i') U (f(e \<mapsto> v)) (tot + 24)"
  proof (rule message_absI [OF i'(2)])
    show "f(e \<mapsto> v) = map_of (r1 @ (e, v) # r2)" using map_of_split [of r1 e d r2 v] l(2,3) unfolding r(1) by metis
    show "unat (mi_size i') \<le> max 128 (4 * (tot + 24))" using i'(3) l(4) unfolding le_max_iff_disj by auto
  qed (use l(2,5) r(1) in auto)
  ultimately show ?thesis by (rule met)
next
  case False
  have b: "tot + unat (of_nat sizeof_ext :: u64) \<le> 2 ^ 26" using bound by (simp add: sizeof_ext_def)
  have none: "upb_Message_Getext msg e = Ok None"
  proof (cases msg)
    case None
    then show ?thesis by (simp add: upb_Message_Getext_def)
  next
    case (Some i)
    then obtain H G rs where l: "layout H U G rs i" "f = map_of rs" using abs by (auto simp: message_abs_def)
    then have "e \<notin> fst ` set rs" using False by (simp add: dom_map_of_conv_image_fst)
    then show ?thesis using getext_absent [OF l(1)] Some by simp
  qed
  show ?thesis
  proof (cases rule: realloc_abs [OF abs m bound(1) b, of c])
    case (1 i H G rs c')
    note z = layout_sizes [OF 1(2)]
    have G: "24 \<le> length G" using 1(5) by (simp add: sizeof_ext_def)
    let ?off = "unat (mi_ext_begin i - u32_of sizeof_ext)" and ?K = "take (length G - 24) G"
    have off: "?off = length (H @ U @ ?K)" using z(3) G by (simp add: sizeof_ext_def unat_sub word_le_nat_alt)
    have mem: "mi_mem i = (H @ U @ ?K) @ drop (length G - 24) G @ records rs" using z(7) by simp
    let ?i = "i\<lparr>mi_mem := (H @ U @ ?K) @ (le_bytes 8 e @ replicate 16 0) @ records rs, mi_ext_begin := mi_ext_begin i - u32_of sizeof_ext\<rparr>"
    have wr: "write_mem (mi_mem i) ?off (le_bytes 8 e @ replicate 16 0) = Ok ((H @ U @ ?K) @ (le_bytes 8 e @ replicate 16 0) @ records rs)"
      unfolding off unfolding mem using G by (simp add: write_mem_def)
    have goc: "upb_Message_GetOrCreateExtension m c msg e = Ok (Some ?off, Some ?i, c')"
      using none 1(1) wr by (simp add: upb_Message_GetOrCreateExtension_def Let_def)
    have l: "layout H U ?K ((e, replicate 16 0) # rs) ?i"
      using 1(2) off G by (simp add: layout_def ext_record_def record_ok_def)
    obtain i' where i': "set_ext_data (Some ?i) (length (H @ U @ ?K @ records [])) v = Ok (Some i')" "layout H U ?K ([] @ (e, v) # rs) i'"
      "mi_size i' = mi_size ?i"
      using set_ext_data_layout [of H U ?K "[]" e "replicate 16 0" rs ?i v] l v by auto
    have "msg_step m c (SetExt e v) msg = Ok (True, Some i', c')"
      using goc i'(1) off by simp
    moreover have "e \<notin> fst ` set rs" using False 1(4) by (simp add: dom_map_of_conv_image_fst)
    then have "message_abs (Some i') U (f(e \<mapsto> v)) (tot + 24)"
      by (intro message_absI [OF i'(2)]) (use i'(3) 1(3,4,6,7) in \<open>auto simp: sizeof_ext_def\<close>)
    ultimately show ?thesis by (rule met)
  next
    case (2 b)
    then show ?thesis using none by (intro refused) (auto simp: upb_Message_GetOrCreateExtension_def)
  qed
qed

lemma map_of_filter_key: "map_of (filter (\<lambda>p. fst p \<noteq> e) rs) = (map_of rs)(e := None)"
  by (induction rs) auto

lemma step_ClearExt:
  assumes abs: "message_abs msg U f tot"
  shows "\<exists>msg'. upb_Message_Clearext msg e = Ok msg' \<and> message_abs msg' U (f(e := None)) tot"
proof (cases msg)
  case None
  then show ?thesis using abs by (auto simp: message_abs_def upb_Message_Clearext_def fun_eq_iff)
next
  case (Some i)
  then obtain H G rs where l: "layout H U G rs i" "distinct (map fst rs)" "f = map_of rs" "unat (mi_size i) \<le> max 128 (4 * tot)"
    "overhead + length U + 24 * length rs \<le> tot" using abs by (auto simp: message_abs_def)
  show ?thesis
  proof (cases "e \<in> fst ` set rs")
    case False
    then have "map_of rs e = None" by (simp add: map_of_eq_None_iff)
    then have "f(e := None) = f" using l(3) by auto
    then show ?thesis using getext_absent [OF l(1) False] abs Some by (simp add: upb_Message_Clearext_def)
  next
    case True
    then obtain r1 d r2 where r: "rs = r1 @ (e, d) # r2" "e \<notin> fst ` set r1" "e \<notin> fst ` set r2" using split_at l(2) by metis
    note z = layout_sizes [OF l(1)]
    have ok: "list_all record_ok r1" "list_all record_ok r2" "record_ok (e, d)" using z(8) r(1) by auto
    have b24: "unat (mi_ext_begin i + u32_of sizeof_ext) = length H + length U + length G + 24"
    proof -
      have "length H + length U + length G + 24 \<le> unat (mi_size i)" using z(4,5) r(1) by simp
      also have "\<dots> < 2 ^ LENGTH(32)" by (rule unsigned_less)
      finally show ?thesis using z(3) by (subst unat_add_lem [THEN iffD1]) (auto simp: sizeof_ext_def)
    qed
    define q where "q = hd (r1 @ [(e, d)])"
    define rs' where "rs' = (if r1 = [] then r2 else tl r1 @ q # r2)"
    have q: "record_ok q" using ok by (cases r1) (auto simp: q_def)
    have base: "read_mem (mi_mem i) (unat (mi_ext_begin i)) sizeof_ext = Ok (ext_record q)"
      using z(3,7) q r(1) by (cases r1) (auto simp: read_mem_def q_def sizeof_ext_def)
    have mem: "mi_mem i = (H @ U @ G @ records r1) @ ext_record (e, d) @ records r2" using z(7) r(1) by simp
    have wr: "write_mem (mi_mem i) (length (H @ U @ G @ records r1)) (ext_record q) = Ok ((H @ U @ G @ records r1) @ ext_record q @ records r2)"
      unfolding mem using q ok(3) by (simp add: write_mem_def)
    let ?i = "i\<lparr>mi_mem := (H @ U @ G @ records r1) @ ext_record q @ records r2, mi_ext_begin := mi_ext_begin i + u32_of sizeof_ext\<rparr>"
    have "upb_Message_Clearext msg e = Ok (Some ?i)"
      using getext_present [OF l(1) [unfolded r(1)] r(2)] base wr Some by (simp add: upb_Message_Clearext_def)
    moreover have "layout H U (G @ ext_record q) rs' ?i"
      using z b24 q ok l(1) unfolding layout_def r(1) by (cases r1) (auto simp: rs'_def q_def)
    moreover have d: "distinct (map fst rs')" and "length rs' \<le> length rs"
      using l(2) unfolding r(1) by (cases r1; auto simp: rs'_def q_def)+
    moreover have "f(e := None) = map_of rs'"
    proof -
      have "set rs' = set (filter (\<lambda>p. fst p \<noteq> e) rs)"
        using r(2,3) l(2) unfolding r(1) by (cases r1) (auto simp: rs'_def q_def image_iff)
      then have "map_of rs' = map_of (filter (\<lambda>p. fst p \<noteq> e) rs)"
        using d l(2) by (subst map_of_inject_set) (simp_all add: distinct_map_filter)
      then show ?thesis using l(3) by (simp add: map_of_filter_key)
    qed
    ultimately show ?thesis using l(4,5) by (intro exI [of _ "Some ?i"]) (auto intro!: message_absI)
  qed
qed

section \<open>Sequences of operations\<close>

fun run_msg :: "storage \<Rightarrow> nat \<Rightarrow> msg_op list \<Rightarrow> msg_internal option \<Rightarrow> (nat \<times> msg_internal option) run" where
  "run_msg m c [] msg = Ok (0, msg)"
| "run_msg m c (a # as) msg =
     bind_outcome (msg_step m c a msg) (\<lambda>(ok, msg, c).
       if ok then bind_outcome (run_msg m c as msg) (\<lambda>(n, msg). Ok (Suc n, msg)) else Ok (0, msg))"

text \<open>What can be read from the message: the unknown bytes, each extension's data and their number.\<close>

definition message_reads :: "msg_internal option \<Rightarrow> bytes \<Rightarrow> (u64 \<rightharpoonup> bytes) \<Rightarrow> bool" where
  "message_reads msg U f \<longleftrightarrow> upb_Message_GetUnknown msg = Ok U \<and> upb_Message_ExtensionCount msg = card (dom f) \<and>
     (\<forall>e. bind_outcome (upb_Message_Getext msg e) (\<lambda>off. case off of None \<Rightarrow> Ok None
        | Some off \<Rightarrow> bind_outcome (ext_data msg off) (\<lambda>v. Ok (Some v))) = Ok (f e))"

lemma ext_data_layout:
  assumes l: "layout H U G (r1 @ (e, d) # r2) i"
  shows "ext_data (Some i) (length (H @ U @ G @ records r1)) = Ok d"
proof -
  note z = layout_sizes [OF l]
  have mem: "mi_mem i = (H @ U @ G @ records r1 @ le_bytes 8 e) @ d @ records r2" using z(7) by (simp add: ext_record_def)
  have "length d = 16" using z(8) by (auto simp: record_ok_def)
  then show ?thesis unfolding ext_data_def read_mem_def option.case mem by simp
qed

lemma message_abs_reads: "message_abs msg U f tot \<Longrightarrow> message_reads msg U f"
proof (cases msg)
  case None
  assume "message_abs msg U f tot"
  then show ?thesis using None
    by (simp add: message_abs_def message_reads_def upb_Message_GetUnknown_def upb_Message_ExtensionCount_def upb_Message_Getexts_def
      upb_Message_Getext_def)
next
  case (Some i)
  assume "message_abs msg U f tot"
  then obtain H G rs where l: "layout H U G rs i" "distinct (map fst rs)" "f = map_of rs" using Some by (auto simp: message_abs_def)
  note z = layout_sizes [OF l(1)]
  have "upb_Message_GetUnknown msg = Ok U"
    using z by (simp add: Some upb_Message_GetUnknown_def read_mem_def overhead_def)
  moreover have "unat (mi_size i - mi_ext_begin i) = 24 * length rs" using z by (simp add: unat_sub word_le_nat_alt)
  then have "upb_Message_ExtensionCount msg = card (dom f)"
    using distinct_card [OF l(2)] l(3)
    by (simp add: Some upb_Message_ExtensionCount_def upb_Message_Getexts_def sizeof_ext_def dom_map_of_conv_image_fst)
  moreover have "bind_outcome (upb_Message_Getext msg e) (\<lambda>off. case off of None \<Rightarrow> Ok None
        | Some off \<Rightarrow> bind_outcome (ext_data msg off) (\<lambda>v. Ok (Some v))) = Ok (f e)" for e
  proof (cases "e \<in> fst ` set rs")
    case False
    then have "map_of rs e = None" by (simp add: map_of_eq_None_iff)
    then show ?thesis using getext_absent [OF l(1) False] l(3) Some by simp
  next
    case True
    then obtain r1 d r2 where r: "rs = r1 @ (e, d) # r2" "e \<notin> fst ` set r1" using split_at l(2) by metis
    have "map_of rs e = Some d" using l(2) r(1) by (simp add: map_of_eq_Some_iff del: map_of_append)
    then show ?thesis
      using getext_present [OF l(1) [unfolded r(1)] r(2)] ext_data_layout [OF l(1) [unfolded r(1)]] l(3) Some by simp
  qed
  ultimately show ?thesis by (simp add: message_reads_def)
qed

lemma msg_step_abs:
  assumes abs: "message_abs msg U f tot" and m: "storage_ok m" and bound: "overhead \<le> tot" "tot + op_cost a \<le> 2 ^ 26" and a: "op_wf a"
  obtains (met) msg' c' U' f' where "msg_step m c a msg = Ok (True, msg', c')" "abs_step a (U, f) = (U', f')" "message_abs msg' U' f' (tot + op_cost a)"
    | (refused) b c' where "m c b = None" "msg_step m c a msg = Ok (False, msg, c')"
proof (cases a)
  case (AddUnknown d)
  then have "tot + length d \<le> 2 ^ 26" using bound by simp
  note st = step_AddUnknown [OF abs m bound(1) this, of c]
  show ?thesis by (rule st) (auto simp: AddUnknown intro: met refused)
next
  case DiscardUnknown
  then show ?thesis using step_Discard [OF abs] by (intro met) auto
next
  case (SetExt e v)
  then have b: "tot + 24 \<le> 2 ^ 26" and v: "length v = 16" using bound a by simp_all
  note st = step_SetExt [OF abs m bound(1) b v, of c e]
  show ?thesis by (rule st) (auto simp: SetExt simp del: msg_step.simps intro: met refused)
next
  case (ClearExt e)
  then show ?thesis using step_ClearExt [OF abs, of e] by (auto intro: met)
qed

text \<open>
  C38: The part of a message outside its layout is a byte string of unknown fields and a finite map of extensions. Any
  sequence of adding and discarding unknown bytes and of setting and clearing extensions, from a new message, whose
  bytes are in all (24 for an extension that is set) at most \<open>2 ^ 26\<close> less the 12 of the overhead, reads back as the same
  sequence on the string and the map: the two never disturb each other, however often the memory they share is
  reallocated, and no byte outside that memory is accessed. When memory is refused, the message is the one before the
  operation that needed it. Sizes that do not fit an \<open>int\<close> break it (\<open>add_unknown_too_long\<close>).
\<close>

theorem message_refines:
  assumes "storage_ok m" "list_all op_wf ops" "overhead + sum_list (map op_cost ops) \<le> 2 ^ 26"
  shows "\<exists>n msg U f. run_msg m c ops None = Ok (n, msg) \<and> n \<le> length ops \<and> (n < length ops \<longrightarrow> (\<exists>c b. m c b = None)) \<and>
    fold abs_step (take n ops) ([], Map.empty) = (U, f) \<and> message_reads msg U f"
proof -
  have "\<exists>n msg' U' f'. run_msg m c ops msg = Ok (n, msg') \<and> n \<le> length ops \<and> (n < length ops \<longrightarrow> (\<exists>c b. m c b = None)) \<and>
      fold abs_step (take n ops) (U, f) = (U', f') \<and> message_reads msg' U' f'"
    if "message_abs msg U f tot" "overhead \<le> tot" "tot + sum_list (map op_cost ops) \<le> 2 ^ 26" "list_all op_wf ops" for msg U f tot c ops
    using that
  proof (induction ops arbitrary: msg U f tot c)
    case Nil
    then show ?case using message_abs_reads by auto
  next
    case (Cons a as)
    then have step: "tot + op_cost a \<le> 2 ^ 26" "op_wf a" by auto
    show ?case
    proof (cases rule: msg_step_abs [OF Cons.prems(1) assms(1) Cons.prems(2) step, of c])
      case (1 msg' c' U' f')
      have "overhead \<le> tot + op_cost a" "tot + op_cost a + sum_list (map op_cost as) \<le> 2 ^ 26" "list_all op_wf as"
        using Cons.prems by auto
      from Cons.IH [OF 1(3) this, of c'] obtain n msg'' U'' f'' where r: "run_msg m c' as msg' = Ok (n, msg'')" "n \<le> length as"
        "n < length as \<longrightarrow> (\<exists>c b. m c b = None)" "fold abs_step (take n as) (U', f') = (U'', f'')" "message_reads msg'' U'' f''"
        by blast
      then show ?thesis using 1(1,2)
        by (intro exI [of _ "Suc n"] exI [of _ msg'']) (simp del: msg_step.simps)
    next
      case (2 b c')
      then show ?thesis using message_abs_reads [OF Cons.prems(1)]
        by (intro exI [of _ 0] exI [of _ msg]) (auto simp del: msg_step.simps)
    qed
  qed
  from this [of None "[]" Map.empty overhead ops c] assms(2,3) show ?thesis by (auto simp: message_abs_def)
qed

lemma message_refines_witness:
  "\<exists>msg. run_msg zero_storage 0 [AddUnknown [8, 1], SetExt 5 (replicate 16 7), AddUnknown [9], SetExt 6 (replicate 16 1), ClearExt 5] None = Ok (5, msg) \<and>
    message_reads msg [8, 1, 9] [6 \<mapsto> replicate 16 1]"
proof -
  define ops where "ops = [AddUnknown [8, 1], SetExt 5 (replicate 16 7), AddUnknown [9], SetExt 6 (replicate 16 1), ClearExt 5]"
  have "storage_ok zero_storage" by (simp add: storage_ok_def zero_storage_def)
  moreover have "list_all op_wf ops" "overhead + sum_list (map op_cost ops) \<le> 2 ^ 26" by (simp_all add: ops_def overhead_def)
  ultimately obtain n msg U f where r: "run_msg zero_storage 0 ops None = Ok (n, msg)" "n \<le> length ops"
    "n < length ops \<longrightarrow> (\<exists>c b. zero_storage c b = None)" "fold abs_step (take n ops) ([], Map.empty) = (U, f)" "message_reads msg U f"
    using message_refines by blast
  then have n: "n = length ops" by (auto simp: zero_storage_def)
  then have "U = [8, 1, 9]" "f = [6 \<mapsto> replicate 16 1]" using r(4) by (auto simp: ops_def)
  with r(1,5) n show ?thesis by (auto simp: ops_def)
qed

text \<open>
  \<open>_upb_Log2CeilingSize\<close> takes an \<open>int\<close>. Unknown fields of \<open>2 ^ 30\<close> bytes shift a bit out of it; of \<open>2 ^ 32\<close> bytes
  only the low half of the size is seen, and they are written behind a block of 128 bytes.
\<close>

lemma add_unknown_too_long:
  "length d = 2 ^ 30 \<Longrightarrow> upb_Message_AddUnknown m c None d = UB"
  "length d = 2 ^ 32 \<Longrightarrow> storage_ok m \<Longrightarrow> m c 128 = Some mem \<Longrightarrow> upb_Message_AddUnknown m c None d = UB"
proof -
  assume "length d = 2 ^ 30"
  moreover have "bit_length 1073741835 = 31" by (simp add: bit_length.simps)
  ultimately show "upb_Message_AddUnknown m c None d = UB"
    by (simp add: upb_Message_AddUnknown_def realloc_internal_def upb_Log2CeilingSize_def upb_Log2Ceiling_def overhead_def)
next
  assume d: "length d = 2 ^ 32" and m: "storage_ok m" "m c 128 = Some mem"
  have "bit_length 11 = 4" by (simp add: bit_length.simps)
  moreover have "length mem = 128" using m by (simp add: storage_ok_def)
  ultimately show "upb_Message_AddUnknown m c None d = UB" using d m(2)
    by (simp add: upb_Message_AddUnknown_def realloc_internal_def upb_Log2CeilingSize_def upb_Log2Ceiling_def overhead_def
      write_mem_def u32_of_def)
qed

end
