(* ===== verification/Upb_Map.thy ===== *)
theory Upb_Map
  imports Upb_Strmap Upb_Message
begin

text \<open>
  Map fields (\<open>upb/map.c\<close>, the map part of \<open>upb/msg_internal.h\<close> and \<open>upb/msg.c\<close>): a table with string keys
  whose keys are the strings or the bytes of the numbers, and whose values are at most 8 bytes or the address
  of a string view made for them. A map is shown to be a finite map from keys to values; what an insertion does to
  an old value when memory is refused is shown at the end.
\<close>

section \<open>The map\<close>

text \<open>
  Sizes are 0 for strings. \<open>mp_views\<close> are the string views made so far, in the arena; an address of a view is its index.
  A message value is the string, or at least as many bytes as the size says.
\<close>

record upb_map =
  mp_key_size :: nat
  mp_val_size :: nat
  mp_table :: "bytes upb_table"
  mp_views :: "bytes list"

fun CTypeo_mapsize :: "ctype \<Rightarrow> nat" where
  "CTypeo_mapsize CType_Bool = 1"
| "CTypeo_mapsize CType_Float = 4"
| "CTypeo_mapsize CType_Int32 = 4"
| "CTypeo_mapsize CType_UInt32 = 4"
| "CTypeo_mapsize CType_Enum = 4"
| "CTypeo_mapsize CType_Message = 8"
| "CTypeo_mapsize CType_Double = 8"
| "CTypeo_mapsize CType_Int64 = 8"
| "CTypeo_mapsize CType_UInt64 = 8"
| "CTypeo_mapsize CType_String = 0"
| "CTypeo_mapsize CType_Bytes = 0"

definition upb_Map_struct :: nat where
  "upb_Map_struct = 40"

text \<open>
  The result of \<open>upb_strtable_init\<close> is not looked at: a refused request leaves the table with its size and no
  entries.
\<close>

definition unallocated :: "nat \<Rightarrow> bytes upb_table" where
  "unallocated size_lg2 =
     \<lparr>tb_count = 0, tb_mask = of_nat (2 ^ size_lg2 - 1), tb_max_count = of_nat (2 ^ size_lg2 * 85 div 100),
      tb_size_lg2 = size_lg2, tb_entries = []\<rparr>"

definition upb_Map_New_sizes :: "arena \<Rightarrow> nat \<Rightarrow> nat \<Rightarrow> nat \<Rightarrow> (upb_map option \<times> nat) run" where
  "upb_Map_New_sizes a c key_size value_size =
     (if \<not> a c upb_Map_struct then Ok (None, c + 1)
      else
        bind_outcome (upb_strtable_init 4 a (c + 1)) (\<lambda>(t, c).
          Ok (Some \<lparr>mp_key_size = key_size, mp_val_size = value_size,
            mp_table = (case t of Some t \<Rightarrow> t | None \<Rightarrow> unallocated 3), mp_views = []\<rparr>, c)))"

definition upb_Map_New :: "arena \<Rightarrow> nat \<Rightarrow> ctype \<Rightarrow> ctype \<Rightarrow> (upb_map option \<times> nat) run" where
  "upb_Map_New a c key_type value_type = upb_Map_New_sizes a c (CTypeo_mapsize key_type) (CTypeo_mapsize value_type)"

definition upb_map_tokey :: "bytes \<Rightarrow> nat \<Rightarrow> bytes run" where
  "upb_map_tokey key n = (if n = 0 then Ok key else read_mem key 0 n)"

definition upb_map_fromkey :: "bytes \<Rightarrow> nat \<Rightarrow> bytes run" where
  "upb_map_fromkey key n = (if n = 0 then Ok key else read_mem key 0 n)"

text \<open>The table value and the views then; \<open>None\<close> when the view is refused its memory.\<close>

definition upb_map_tovalue :: "bytes \<Rightarrow> nat \<Rightarrow> bytes list \<Rightarrow> arena \<Rightarrow> nat \<Rightarrow> ((u64 \<times> bytes list) option \<times> nat) run" where
  "upb_map_tovalue val n views a c =
     (if n = 0 then
        Ok (if a c 16 then (Some (of_nat (length views), views @ [val]), c + 1) else (None, c + 1))
      else bind_outcome (read_mem val 0 n) (\<lambda>bs. Ok (Some (le_word bs, views), c)))"

definition upb_map_fromvalue :: "u64 \<Rightarrow> nat \<Rightarrow> bytes list \<Rightarrow> bytes run" where
  "upb_map_fromvalue val n views =
     (if n = 0 then (if unat val < length views then Ok (views ! unat val) else UB) else Ok (le_bytes n val))"

definition upb_Map_Size :: "upb_map \<Rightarrow> u64" where
  "upb_Map_Size mp = tb_count (mp_table mp)"

text \<open>\<open>val\<close> is what the caller's variable holds before and, in the result, after the call; \<open>None\<close> is a NULL pointer.\<close>

definition upb_Map_Get :: "upb_map \<Rightarrow> bytes \<Rightarrow> bytes option \<Rightarrow> (bool \<times> bytes option) run" where
  "upb_Map_Get mp key val =
     bind_outcome (upb_map_tokey key (mp_key_size mp)) (\<lambda>k.
     bind_outcome (upb_strtable_lookup2 (mp_table mp) k) (\<lambda>tabval.
       case tabval of None \<Rightarrow> Ok (False, val)
       | Some v \<Rightarrow>
           if val = None then Ok (True, None)
           else bind_outcome (upb_map_fromvalue v (mp_val_size mp) (mp_views mp)) (\<lambda>v. Ok (True, Some v))))"

datatype map_insert_status = Inserted | Replaced | OutOfMemory

definition upb_Map_Insert :: "upb_map \<Rightarrow> bytes \<Rightarrow> bytes \<Rightarrow> arena \<Rightarrow> nat \<Rightarrow> (map_insert_status \<times> upb_map \<times> nat) run" where
  "upb_Map_Insert mp key val a c =
     bind_outcome (upb_map_tokey key (mp_key_size mp)) (\<lambda>k.
     bind_outcome (upb_map_tovalue val (mp_val_size mp) (mp_views mp) a c) (\<lambda>(tabval, c).
       case tabval of None \<Rightarrow> Ok (OutOfMemory, mp, c)
       | Some (v, views) \<Rightarrow>
           bind_outcome (upb_strtable_remove2 (mp_table mp) k) (\<lambda>(t, removed).
           bind_outcome (upb_strtable_insert t k v a c) (\<lambda>(ok, t, c).
             Ok (if \<not> ok then OutOfMemory else if removed \<noteq> None then Replaced else Inserted,
               mp\<lparr>mp_table := t, mp_views := views\<rparr>, c)))))"

definition upb_Map_Set :: "upb_map \<Rightarrow> bytes \<Rightarrow> bytes \<Rightarrow> arena \<Rightarrow> nat \<Rightarrow> (bool \<times> upb_map \<times> nat) run" where
  "upb_Map_Set mp key val a c =
     bind_outcome (upb_Map_Insert mp key val a c) (\<lambda>(s, mp, c). Ok (s \<noteq> OutOfMemory, mp, c))"

definition upb_Map_Delete :: "upb_map \<Rightarrow> bytes \<Rightarrow> (bool \<times> upb_map) run" where
  "upb_Map_Delete mp key =
     bind_outcome (upb_map_tokey key (mp_key_size mp)) (\<lambda>k.
     bind_outcome (upb_strtable_remove2 (mp_table mp) k) (\<lambda>(t, removed). Ok (removed \<noteq> None, mp\<lparr>mp_table := t\<rparr>)))"

definition upb_Map_Clear :: "upb_map \<Rightarrow> upb_map run" where
  "upb_Map_Clear mp = bind_outcome (upb_strtable_clear (mp_table mp)) (\<lambda>t. Ok (mp\<lparr>mp_table := t\<rparr>))"

text \<open>The iterator is an index; \<open>kUpb_Map_Begin\<close> is the largest word.\<close>

definition upb_MapIterator_Next :: "upb_map \<Rightarrow> u64 \<Rightarrow> (bool \<times> u64) run" where
  "upb_MapIterator_Next mp iter =
     (let it = \<lparr>si_t = Some 0, si_index = iter\<rparr> in
      bind_outcome (upb_strtable_next (mp_table mp) it) (\<lambda>it.
      bind_outcome (upb_strtable_done (mp_table mp) it) (\<lambda>d. Ok (\<not> d, si_index it))))"

definition upb_MapIterator_Done :: "upb_map \<Rightarrow> u64 \<Rightarrow> bool run" where
  "upb_MapIterator_Done mp iter = upb_strtable_done (mp_table mp) \<lparr>si_t = Some 0, si_index = iter\<rparr>"

definition upb_MapIterator_Key :: "upb_map \<Rightarrow> u64 \<Rightarrow> bytes run" where
  "upb_MapIterator_Key mp iter =
     bind_outcome (upb_strtable_iter_key (mp_table mp) \<lparr>si_t = Some 0, si_index = iter\<rparr>) (\<lambda>k.
       upb_map_fromkey k (mp_key_size mp))"

definition upb_MapIterator_Value :: "upb_map \<Rightarrow> u64 \<Rightarrow> bytes run" where
  "upb_MapIterator_Value mp iter =
     bind_outcome (upb_strtable_iter_value (mp_table mp) \<lparr>si_t = Some 0, si_index = iter\<rparr>) (\<lambda>v.
       upb_map_fromvalue v (mp_val_size mp) (mp_views mp))"

section \<open>The map as a finite map\<close>

text \<open>A key and a value of the map's sizes.\<close>

definition sized :: "nat \<Rightarrow> bytes \<Rightarrow> bool" where
  "sized n bs \<longleftrightarrow> (if n = 0 then short_key bs else length bs = n)"

definition map_value :: "upb_map \<Rightarrow> u64 \<Rightarrow> bytes" where
  "map_value mp v = (if mp_val_size mp = 0 then mp_views mp ! unat v else le_bytes (mp_val_size mp) v)"

definition map_abs :: "upb_map \<Rightarrow> bytes \<rightharpoonup> bytes" where
  "map_abs mp k = map_option (map_value mp) (the_map (mp_table mp) k)"

definition map_wf :: "upb_map \<Rightarrow> bool" where
  "map_wf mp \<longleftrightarrow> str_map_wf (mp_table mp) \<and> mp_key_size mp \<le> 8 \<and> mp_val_size mp \<le> 8 \<and> length (mp_views mp) < 2 ^ 32 \<and>
     (\<forall>k v. the_map (mp_table mp) k = Some v \<longrightarrow> sized (mp_key_size mp) k \<and>
        (mp_val_size mp = 0 \<longrightarrow> unat v < length (mp_views mp)))"

lemma le_bytes_le_word: "length bs \<le> 8 \<Longrightarrow> le_bytes (length bs) (le_word bs) = bs"
proof (rule nth_equalityI)
  fix i assume bs: "length bs \<le> 8" and "i < length (le_bytes (length bs) (le_word bs))"
  then have i: "i < length bs" by simp
  show "le_bytes (length bs) (le_word bs) ! i = bs ! i"
  proof (rule bit_word_eqI)
    fix n :: nat assume n: "n < LENGTH(8)"
    have "(8 * i + n) div 8 = i" "(8 * i + n) mod 8 = n" "8 * i + n < 64" using n i bs by auto
    then show "bit (le_bytes (length bs) (le_word bs) ! i) n = bit (bs ! i) n"
      using i n by (simp add: le_bytes_def bit_simps bit_le_word)
  qed
qed simp

lemma tokey_sized: "sized n key \<Longrightarrow> upb_map_tokey key n = Ok key"
  by (auto simp: upb_map_tokey_def sized_def read_mem_def)

lemma sized_short: "sized n key \<Longrightarrow> n \<le> 8 \<Longrightarrow> short_key key"
  by (auto simp: sized_def short_key_def split: if_splits)

lemma strtable_clear_map:
  assumes "str_map_wf t"
  shows "\<exists>t'. upb_strtable_clear t = Ok t' \<and> str_map_wf t' \<and> the_map t' = Map.empty"
proof -
  let ?t = "t\<lparr>tb_count := 0, tb_entries := replicate (upb_table_size t) zero_ent\<rparr>"
  have shape: "table_shape t" using assms by (simp add: str_map_wf_def str_wf_def table_wf_def)
  then have "upb_strtable_clear t = Ok ?t" by (simp add: upb_strtable_clear_def table_shape_def)
  moreover have "upb_table_size ?t = upb_table_size t" by (simp add: upb_table_size_def)
  then have "table_wf string_hash ?t"
    using shape chained_empty [of "main_pos string_hash ?t" "upb_table_size t"]
    by (auto simp: table_wf_def table_shape_def one_each_def)
  then have "str_map_wf ?t" using assms by (simp add: str_map_wf_def str_wf_def table_map_def)
  ultimately show ?thesis by (auto simp: table_map_def)
qed

lemma map_new:
  "\<exists>mp c'. upb_Map_New enough c kt vt = Ok (Some mp, c') \<and> map_wf mp \<and> map_abs mp = Map.empty \<and>
    mp_key_size mp = CTypeo_mapsize kt \<and> mp_val_size mp = CTypeo_mapsize vt \<and> mp_views mp = []"
proof -
  obtain t c' where t: "upb_strtable_init (of_nat 4) enough (c + 1) = Ok (Some t, c')" "str_map_wf t" "the_map t = Map.empty"
    using strtable_init_map [of 4 "c + 1"] by auto
  have "CTypeo_mapsize kt \<le> 8" "CTypeo_mapsize vt \<le> 8" by (cases kt; simp) (cases vt; simp)
  then show ?thesis
    using t by (auto simp: upb_Map_New_def upb_Map_New_sizes_def enough_def map_wf_def map_abs_def fun_eq_iff)
qed

text \<open>What a lookup leaves in the caller's variable: the value found, or what was there.\<close>

definition got :: "bytes option \<Rightarrow> bytes option \<Rightarrow> bytes option" where
  "got found val = (if found = None \<or> val = None then val else found)"

lemma map_get:
  "map_wf mp \<Longrightarrow> sized (mp_key_size mp) key \<Longrightarrow> upb_Map_Get mp key val = Ok (map_abs mp key \<noteq> None, got (map_abs mp key) val)"
  using strtab.look [of "mp_table mp" key]
  by (cases "the_map (mp_table mp) key")
    (auto simp: upb_Map_Get_def tokey_sized map_wf_def map_abs_def map_value_def upb_map_fromvalue_def got_def)

definition value_ok :: "nat \<Rightarrow> bytes \<Rightarrow> bool" where
  "value_ok n v \<longleftrightarrow> n = 0 \<or> length v = n"

lemma tovalue_result:
  assumes "value_ok n v" "length views < 2 ^ 32"
  shows "\<exists>w views' c'. upb_map_tovalue v n views enough c = Ok (Some (w, views'), c') \<and> length views' \<le> Suc (length views) \<and>
    (n = 0 \<longrightarrow> views' = views @ [v] \<and> unat w = length views) \<and> (n \<noteq> 0 \<longrightarrow> views' = views \<and> w = le_word v)"
  using assms by (auto simp: upb_map_tovalue_def enough_def value_ok_def read_mem_def unat_of_nat)

lemma map_insert:
  assumes wf: "map_wf mp" and key: "sized (mp_key_size mp) key" and val: "value_ok (mp_val_size mp) val"
    and room: "str_room (mp_table mp) (Suc n)" and views: "length (mp_views mp) + 1 < 2 ^ 32"
  obtains mp' c' where "upb_Map_Insert mp key val enough c = Ok (if map_abs mp key = None then Inserted else Replaced, mp', c')"
    "map_wf mp'" "map_abs mp' = (map_abs mp)(key \<mapsto> val)" "mp_key_size mp' = mp_key_size mp" "mp_val_size mp' = mp_val_size mp"
    "str_room (mp_table mp') n" "length (mp_views mp') \<le> Suc (length (mp_views mp))"
proof -
  let ?t = "mp_table mp" and ?n = "mp_val_size mp"
  have t: "str_wf ?t" "tb_size_lg2 ?t \<noteq> 0" and sizes: "mp_key_size mp \<le> 8" "?n \<le> 8"
    and entries: "\<And>k v. the_map ?t k = Some v \<Longrightarrow> sized (mp_key_size mp) k \<and> (?n = 0 \<longrightarrow> unat v < length (mp_views mp))"
    using wf by (auto simp: map_wf_def str_map_wf_def)
  obtain w views' c1 where w: "upb_map_tovalue val ?n (mp_views mp) enough c = Ok (Some (w, views'), c1)"
    "length views' \<le> Suc (length (mp_views mp))" "?n = 0 \<longrightarrow> views' = mp_views mp @ [val] \<and> unat w = length (mp_views mp)"
    "?n \<noteq> 0 \<longrightarrow> views' = mp_views mp \<and> w = le_word val"
    using tovalue_result [OF val, of "mp_views mp" c] views by auto
  obtain t1 where t1: "upb_strtable_remove2 ?t key = Ok (t1, the_map ?t key)" "str_wf t1" "tb_size_lg2 t1 = tb_size_lg2 ?t"
    "the_map t1 = (the_map ?t)(key := None)"
    using strtable_remove [OF t] by metis
  have "card (dom (the_map t1)) \<le> card (dom (the_map ?t))" unfolding t1(4) by (intro card_mono) auto
  then have room1: "str_room t1 (Suc n)" using room by (simp add: str_room_def)
  have "the_map t1 key = None" unfolding t1(4) by simp
  from strtable_insert_map [OF t1(2) this sized_short [OF key sizes(1)] room1, of w c1]
  obtain t2 c2 where t2: "upb_strtable_insert t1 key w enough c1 = Ok (True, t2, c2)" "str_wf t2" "tb_size_lg2 t2 \<noteq> 0" "str_room t2 n"
    "the_map t2 = (the_map t1)(key \<mapsto> w)" .
  have m2: "the_map t2 = (the_map ?t)(key \<mapsto> w)" unfolding t2(5) t1(4) by simp
  let ?mp = "mp\<lparr>mp_table := t2, mp_views := views'\<rparr>"
  have "upb_Map_Insert mp key val enough c = Ok (if map_abs mp key = None then Inserted else Replaced, ?mp, c2)"
    using tokey_sized [OF key] w(1) t1(1) t2(1) by (simp add: upb_Map_Insert_def map_abs_def)
  moreover have old: "map_value ?mp v = map_value mp v" if "the_map ?t k = Some v" for k v
    using w(3,4) entries [OF that] by (auto simp: map_value_def nth_append)
  have new: "map_value ?mp w = val"
    using w(3,4) val le_bytes_le_word [of val] sizes by (auto simp: map_value_def value_ok_def)
  have "map_abs ?mp = (map_abs mp)(key \<mapsto> val)"
  proof (rule ext)
    fix k show "map_abs ?mp k = ((map_abs mp)(key \<mapsto> val)) k"
      using m2 old [of k] new by (cases "the_map ?t k") (auto simp: map_abs_def)
  qed
  moreover have "map_wf ?mp"
    using wf t2(2,3) w(2,3,4) views key entries unfolding map_wf_def str_map_wf_def m2
    by (auto simp: m2 split: if_splits) (fastforce dest: entries)+
  ultimately show ?thesis using t2(4) w(2) by (intro that [of ?mp c2]) auto
qed

lemma map_delete:
  assumes wf: "map_wf mp" and key: "sized (mp_key_size mp) key" and room: "str_room (mp_table mp) n"
  obtains mp' where "upb_Map_Delete mp key = Ok (map_abs mp key \<noteq> None, mp')" "map_wf mp'" "map_abs mp' = (map_abs mp)(key := None)"
    "mp_key_size mp' = mp_key_size mp" "mp_val_size mp' = mp_val_size mp" "mp_views mp' = mp_views mp" "str_room (mp_table mp') n"
proof -
  let ?t = "mp_table mp"
  have "str_map_wf ?t" using wf by (simp add: map_wf_def)
  from strtab.rem [OF this room, of key]
  obtain t1 where t1: "upb_strtable_remove2 ?t key = Ok (t1, the_map ?t key)" "str_map_wf t1" "str_room t1 n" "the_map t1 = (the_map ?t)(key := None)"
    by blast
  let ?mp = "mp\<lparr>mp_table := t1\<rparr>"
  have v: "map_value ?mp = map_value mp" by (rule ext) (simp add: map_value_def)
  have "map_abs ?mp = (map_abs mp)(key := None)" by (rule ext) (simp add: map_abs_def t1(4) v)
  moreover have "upb_Map_Delete mp key = Ok (map_abs mp key \<noteq> None, ?mp)"
    using tokey_sized [OF key] t1(1) by (simp add: upb_Map_Delete_def map_abs_def)
  moreover have "map_wf ?mp" using wf t1(2) by (auto simp: map_wf_def t1(4) split: if_splits)
  ultimately show ?thesis using t1(3) by (intro that [of ?mp]) auto
qed

lemma map_clear:
  assumes "map_wf mp" "str_room (mp_table mp) n"
  obtains mp' where "upb_Map_Clear mp = Ok mp'" "map_wf mp'" "map_abs mp' = Map.empty"
    "mp_key_size mp' = mp_key_size mp" "mp_val_size mp' = mp_val_size mp" "mp_views mp' = mp_views mp" "str_room (mp_table mp') n"
proof -
  have "str_map_wf (mp_table mp)" using assms(1) by (simp add: map_wf_def)
  from strtable_clear_map [OF this]
  obtain t' where t': "upb_strtable_clear (mp_table mp) = Ok t'" "str_map_wf t'" "the_map t' = Map.empty"
    by blast
  have "map_abs (mp\<lparr>mp_table := t'\<rparr>) = Map.empty" by (rule ext) (simp add: map_abs_def t'(3))
  then show ?thesis using assms t'
    by (intro that [of "mp\<lparr>mp_table := t'\<rparr>"]) (auto simp: upb_Map_Clear_def map_wf_def str_room_def)
qed

lemma map_size:
  assumes "map_wf mp"
  shows "upb_Map_Size mp = of_nat (card (dom (map_abs mp)))"
proof -
  have "dom (map_abs mp) = dom (the_map (mp_table mp))" by (auto simp: map_abs_def)
  moreover have wf: "table_wf string_hash (mp_table mp)" using assms by (simp add: map_wf_def str_map_wf_def str_wf_def)
  moreover have "tb_count (mp_table mp) = of_nat (length (pairs (tb_entries (mp_table mp))))"
    using wf unfolding table_wf_def by (elim conjE)
  ultimately show ?thesis unfolding upb_Map_Size_def pairs_count [OF wf] by argo
qed

section \<open>Sequences of operations\<close>

datatype map_op = MapInsert bytes bytes | MapGet bytes "bytes option" | MapDelete bytes | MapClear | MapSize

datatype map_answer = Status map_insert_status | Found bool "bytes option" | Present bool | Count u64 | Done

fun map_step :: "map_op \<Rightarrow> upb_map \<Rightarrow> (map_answer \<times> upb_map) run" where
  "map_step (MapInsert k v) mp = bind_outcome (upb_Map_Insert mp k v enough 0) (\<lambda>(s, mp, _). Ok (Status s, mp))"
| "map_step (MapGet k val) mp = bind_outcome (upb_Map_Get mp k val) (\<lambda>(b, v). Ok (Found b v, mp))"
| "map_step (MapDelete k) mp = bind_outcome (upb_Map_Delete mp k) (\<lambda>(b, mp). Ok (Present b, mp))"
| "map_step MapClear mp = bind_outcome (upb_Map_Clear mp) (\<lambda>mp. Ok (Done, mp))"
| "map_step MapSize mp = Ok (Count (upb_Map_Size mp), mp)"

fun fmap_step :: "map_op \<Rightarrow> (bytes \<rightharpoonup> bytes) \<Rightarrow> map_answer \<times> (bytes \<rightharpoonup> bytes)" where
  "fmap_step (MapInsert k v) f = (Status (if f k = None then Inserted else Replaced), f(k \<mapsto> v))"
| "fmap_step (MapGet k val) f = (Found (f k \<noteq> None) (got (f k) val), f)"
| "fmap_step (MapDelete k) f = (Present (f k \<noteq> None), f(k := None))"
| "fmap_step MapClear f = (Done, Map.empty)"
| "fmap_step MapSize f = (Count (of_nat (card (dom f))), f)"

fun map_op_ok :: "nat \<Rightarrow> nat \<Rightarrow> map_op \<Rightarrow> bool" where
  "map_op_ok ks vs (MapInsert k v) \<longleftrightarrow> sized ks k \<and> value_ok vs v"
| "map_op_ok ks vs (MapGet k val) \<longleftrightarrow> sized ks k"
| "map_op_ok ks vs (MapDelete k) \<longleftrightarrow> sized ks k"
| "map_op_ok ks vs _ \<longleftrightarrow> True"

fun map_run :: "map_op list \<Rightarrow> upb_map \<Rightarrow> (map_answer list \<times> upb_map) run" where
  "map_run [] mp = Ok ([], mp)"
| "map_run (a # as) mp = bind_outcome (map_step a mp) (\<lambda>(r, mp). bind_outcome (map_run as mp) (\<lambda>(rs, mp). Ok (r # rs, mp)))"

fun fmap_run :: "map_op list \<Rightarrow> (bytes \<rightharpoonup> bytes) \<Rightarrow> map_answer list" where
  "fmap_run [] f = []"
| "fmap_run (a # as) f = (case fmap_step a f of (r, f) \<Rightarrow> r # fmap_run as f)"

lemma map_step_result:
  assumes wf: "map_wf mp" and ok: "map_op_ok (mp_key_size mp) (mp_val_size mp) a" and room: "str_room (mp_table mp) (Suc n)"
    and views: "length (mp_views mp) + Suc n < 2 ^ 32"
  obtains r mp' where "map_step a mp = Ok (r, mp')" "fmap_step a (map_abs mp) = (r, map_abs mp')" "map_wf mp'"
    "mp_key_size mp' = mp_key_size mp" "mp_val_size mp' = mp_val_size mp" "str_room (mp_table mp') n" "length (mp_views mp') + n < 2 ^ 32"
proof -
  have room': "str_room (mp_table mp) n" using room strtab.fits_less by blast
  show ?thesis
  proof (cases a)
    case (MapInsert k v)
    then have k: "sized (mp_key_size mp) k" "value_ok (mp_val_size mp) v" using ok by auto
    have "length (mp_views mp) + 1 < 2 ^ 32" using views by simp
    from map_insert [OF wf k room this, of 0] obtain mp' c' where
      ins: "upb_Map_Insert mp k v enough 0 = Ok (if map_abs mp k = None then Inserted else Replaced, mp', c')"
      and mp': "map_wf mp'" "map_abs mp' = (map_abs mp)(k \<mapsto> v)" "mp_key_size mp' = mp_key_size mp"
        "mp_val_size mp' = mp_val_size mp" "str_room (mp_table mp') n"
        "length (mp_views mp') \<le> Suc (length (mp_views mp))" .
    have "map_step a mp = Ok (Status (if map_abs mp k = None then Inserted else Replaced), mp')"
      by (simp add: MapInsert ins)
    then show ?thesis
      by (rule that) (use mp' views in \<open>simp_all add: MapInsert\<close>)
  next
    case (MapGet k val)
    then show ?thesis using map_get [OF wf, of k val] ok room' wf views
      by (intro that [of "Found (map_abs mp k \<noteq> None) (got (map_abs mp k) val)" mp]) auto
  next
    case (MapDelete k)
    then have k: "sized (mp_key_size mp) k" using ok by auto
    from map_delete [OF wf k room'] obtain mp' where "upb_Map_Delete mp k = Ok (map_abs mp k \<noteq> None, mp')" "map_wf mp'"
      "map_abs mp' = (map_abs mp)(k := None)" "mp_key_size mp' = mp_key_size mp" "mp_val_size mp' = mp_val_size mp" "mp_views mp' = mp_views mp"
      "str_room (mp_table mp') n" .
    then show ?thesis using views MapDelete by (intro that [of "Present (map_abs mp k \<noteq> None)" mp']) auto
  next
    case MapClear
    from map_clear [OF wf room'] obtain mp' where "upb_Map_Clear mp = Ok mp'" "map_wf mp'" "map_abs mp' = Map.empty"
      "mp_key_size mp' = mp_key_size mp" "mp_val_size mp' = mp_val_size mp" "mp_views mp' = mp_views mp" "str_room (mp_table mp') n" .
    then show ?thesis using views MapClear by (intro that [of Done mp']) auto
  next
    case MapSize
    then show ?thesis using map_size [OF wf] room' wf views by (intro that [of "Count (upb_Map_Size mp)" mp]) auto
  qed
qed

text \<open>
  C34: As long as no request for memory is refused, a map field is a finite map: any sequence of at most 900000000
  insertions, lookups, deletions, clearings and counts, with keys and values of the map's types, answers as the finite map
  does, whether a key was new or replaced included. A lookup stores the value it finds in the caller's variable, when there is
  one, and leaves the variable as it was when the key is absent (the comment in \<open>map.h\<close> promises a zero value). Strings and
  numbers take different ways through the table, as keys and as values.
\<close>

theorem map_refines:
  assumes "list_all (map_op_ok (CTypeo_mapsize kt) (CTypeo_mapsize vt)) ops" "length ops \<le> 900000000"
  shows "\<exists>mp c' mp'. upb_Map_New enough c kt vt = Ok (Some mp, c') \<and> map_run ops mp = Ok (fmap_run ops Map.empty, mp')"
proof -
  obtain mp c' where mp: "upb_Map_New enough c kt vt = Ok (Some mp, c')" "map_wf mp" "map_abs mp = Map.empty"
    "mp_key_size mp = CTypeo_mapsize kt" "mp_val_size mp = CTypeo_mapsize vt" "mp_views mp = []"
    using map_new by blast
  have "dom (the_map (mp_table mp)) = dom (map_abs mp)" by (auto simp: map_abs_def)
  then have "str_room (mp_table mp) (length ops)" using assms(2) mp(3) by (simp add: str_room_def load_limit_def)
  moreover have "\<exists>mp'. map_run ops mp = Ok (fmap_run ops (map_abs mp), mp')"
    if "map_wf mp" "str_room (mp_table mp) (length ops)" "length (mp_views mp) + length ops < 2 ^ 32"
      "list_all (map_op_ok (mp_key_size mp) (mp_val_size mp)) ops" for mp ops
    using that
  proof (induction ops arbitrary: mp)
    case (Cons a as)
    have p: "map_op_ok (mp_key_size mp) (mp_val_size mp) a" "str_room (mp_table mp) (Suc (length as))"
      "length (mp_views mp) + Suc (length as) < 2 ^ 32" using Cons.prems by auto
    obtain r mp1 where r: "map_step a mp = Ok (r, mp1)" "fmap_step a (map_abs mp) = (r, map_abs mp1)" "map_wf mp1"
      "mp_key_size mp1 = mp_key_size mp" "mp_val_size mp1 = mp_val_size mp" "str_room (mp_table mp1) (length as)"
      "length (mp_views mp1) + length as < 2 ^ 32"
      using map_step_result [OF Cons.prems(1) p] .
    have "list_all (map_op_ok (mp_key_size mp1) (mp_val_size mp1)) as" using Cons.prems(4) r(4,5) by simp
    from Cons.IH [OF r(3,6,7) this] r(1,2) show ?case by auto
  qed simp
  moreover have "length (mp_views mp) + length ops < 2 ^ 32" using mp(6) assms(2) by simp
  moreover have "list_all (map_op_ok (mp_key_size mp) (mp_val_size mp)) ops" using assms(1) mp(4,5) by simp
  ultimately show ?thesis using mp(1-3) by fastforce
qed

lemma map_refines_witness:
  "\<exists>mp c mp'. upb_Map_New enough 0 CType_Int32 CType_String = Ok (Some mp, c) \<and>
    map_run [MapInsert [1, 0, 0, 0] [104], MapInsert [1, 0, 0, 0] [105, 106], MapGet [1, 0, 0, 0] (Some []), MapDelete [2, 0, 0, 0],
      MapClear, MapGet [1, 0, 0, 0] (Some [9])] mp =
    Ok ([Status Inserted, Status Replaced, Found True (Some [105, 106]), Present False, Done, Found False (Some [9])], mp')"
  using map_refines [of CType_Int32 CType_String
    "[MapInsert [1, 0, 0, 0] [104], MapInsert [1, 0, 0, 0] [105, 106], MapGet [1, 0, 0, 0] (Some []), MapDelete [2, 0, 0, 0],
      MapClear, MapGet [1, 0, 0, 0] (Some [9])]" 0]
  by (simp add: sized_def value_ok_def got_def)

section \<open>When memory is refused\<close>

lemma removed_not_full:
  assumes "str_wf t" "str_wf t'" "tb_size_lg2 t' = tb_size_lg2 t" "the_map t k = Some v" "the_map t' = (the_map t)(k := None)"
  shows "\<not> isfull t'"
proof -
  have wf: "table_wf string_hash t" "table_wf string_hash t'" using assms(1,2) by (auto simp: str_wf_def)
  have "card (dom (the_map t')) < card (dom (the_map t))"
    unfolding assms(5) by (rule psubset_card_mono) (use assms(4) in auto)
  also have "\<dots> \<le> load_limit (upb_table_size t)"
    using wf(1) unfolding pairs_count [OF wf(1), symmetric] table_wf_def by (elim conjE)
  finally show ?thesis
    using isfull_iff [OF wf(2)] pairs_count [OF wf(2)] assms(3) by (auto simp: upb_table_size_def)
qed

text \<open>
  C35: A replacement that is refused the memory for the key loses the entry: the old value is taken out before the key is
  copied, so \<open>upb_Map_Insert\<close> says that memory ran out and the map, still well formed, has no value for
  the key any more.
\<close>

theorem map_replace_oom:
  assumes wf: "map_wf mp" and key: "sized (mp_key_size mp) key" and val: "value_ok (mp_val_size mp) val"
    and views: "length (mp_views mp) + 1 < 2 ^ 32" and old: "map_abs mp key = Some old"
    and view: "mp_val_size mp = 0 \<Longrightarrow> a c 16"
    and no_key: "\<not> a (if mp_val_size mp = 0 then c + 1 else c) (length key + 5)"
  shows "\<exists>mp' c'. upb_Map_Insert mp key val a c = Ok (OutOfMemory, mp', c') \<and> map_wf mp' \<and>
    map_abs mp' = (map_abs mp)(key := None)"
proof -
  let ?t = "mp_table mp" and ?n = "mp_val_size mp"
  have t: "str_wf ?t" "tb_size_lg2 ?t \<noteq> 0"
    and entries: "\<And>k v. the_map ?t k = Some v \<Longrightarrow> sized (mp_key_size mp) k \<and> (?n = 0 \<longrightarrow> unat v < length (mp_views mp))"
    using wf by (auto simp: map_wf_def str_map_wf_def)
  obtain w views' c1 where w: "upb_map_tovalue val ?n (mp_views mp) a c = Ok (Some (w, views'), c1)"
    "length views' \<le> Suc (length (mp_views mp))" "\<exists>vs. views' = mp_views mp @ vs" "c1 = (if ?n = 0 then c + 1 else c)"
    using val view by (cases "?n = 0") (auto simp: upb_map_tovalue_def value_ok_def read_mem_def)
  obtain t1 where t1: "upb_strtable_remove2 ?t key = Ok (t1, the_map ?t key)" "str_wf t1" "tb_size_lg2 t1 = tb_size_lg2 ?t"
    "the_map t1 = (the_map ?t)(key := None)"
    using strtable_remove [OF t] by metis
  obtain v where v: "the_map ?t key = Some v" using old by (auto simp: map_abs_def)
  have "\<not> isfull t1" by (rule removed_not_full [OF t(1) t1(2,3) v t1(4)])
  moreover have "\<not> a c1 (length key + 5)" unfolding w(4) by (rule no_key)
  ultimately have "strcopy key a c1 = (None, c1 + 1)" "\<not> isfull t1" by (simp_all add: strcopy_def add.commute)
  then have ins: "upb_strtable_insert t1 key w a c1 = Ok (False, t1, c1 + 1)"
    by (simp add: upb_strtable_insert_def numeral_eq_Suc)
  let ?mp = "mp\<lparr>mp_table := t1, mp_views := views'\<rparr>"
  have "upb_Map_Insert mp key val a c = Ok (OutOfMemory, ?mp, c1 + 1)"
    using tokey_sized [OF key] w(1) t1(1) ins by (simp add: upb_Map_Insert_def)
  moreover have v: "map_value ?mp v = map_value mp v" if "the_map ?t k = Some v" for k v
    using w(3) entries [OF that] by (auto simp: map_value_def nth_append)
  have "map_abs ?mp = (map_abs mp)(key := None)"
  proof (rule ext)
    fix k show "map_abs ?mp k = ((map_abs mp)(key := None)) k"
      using v [of k] by (cases "the_map ?t k") (auto simp: map_abs_def t1(4))
  qed
  moreover have "map_wf ?mp"
    using wf t1(2,3) w(2,3) views entries t(2) unfolding map_wf_def str_map_wf_def t1(4)
    by (auto simp: t1(4) split: if_splits) (fastforce dest: entries)+
  ultimately show ?thesis by blast
qed

lemma map_replace_oom_witness:
  "\<exists>mp0 c0 mp c mp'. upb_Map_New enough 0 CType_Int32 CType_String = Ok (Some mp0, c0) \<and>
    upb_Map_Insert mp0 [1, 0, 0, 0] [104] enough 0 = Ok (Inserted, mp, c) \<and> map_abs mp = [[1, 0, 0, 0] \<mapsto> [104]] \<and>
    (\<exists>c'. upb_Map_Insert mp [1, 0, 0, 0] [105] only_first 0 = Ok (OutOfMemory, mp', c')) \<and> map_abs mp' = Map.empty"
proof -
  obtain mp0 c0 where mp0: "upb_Map_New enough 0 CType_Int32 CType_String = Ok (Some mp0, c0)" "map_wf mp0" "map_abs mp0 = Map.empty"
    "mp_key_size mp0 = 4" "mp_val_size mp0 = 0" "mp_views mp0 = []"
    using map_new [of 0 CType_Int32 CType_String] by auto
  have "dom (the_map (mp_table mp0)) = dom (map_abs mp0)" by (auto simp: map_abs_def)
  then have room: "str_room (mp_table mp0) (Suc 0)" using mp0(3) by (simp add: str_room_def load_limit_def)
  have key: "sized (mp_key_size mp0) [1, 0, 0, 0]" using mp0(4) by (simp add: sized_def)
  have val: "value_ok (mp_val_size mp0) [104]" "length (mp_views mp0) + 1 < 2 ^ 32" using mp0(5,6) by (simp_all add: value_ok_def)
  obtain mp c where mp: "upb_Map_Insert mp0 [1, 0, 0, 0] [104] enough 0 = Ok (Inserted, mp, c)" "map_wf mp"
    "map_abs mp = [[1, 0, 0, 0] \<mapsto> [104]]" "mp_key_size mp = 4" "mp_val_size mp = 0" "length (mp_views mp) \<le> 1"
    by (rule map_insert [OF mp0(2) key val(1) room val(2), of 0]) (use mp0(3-6) in simp_all)
  have "sized (mp_key_size mp) [1, 0, 0, 0]" "value_ok (mp_val_size mp) [105]" "length (mp_views mp) + 1 < 2 ^ 32"
    using mp(4-6) by (simp_all add: sized_def value_ok_def)
  from map_replace_oom [OF mp(2) this, of "[104]" only_first 0] mp mp0(1)
  show ?thesis by (auto simp: only_first_def)
qed

text \<open>A new map whose table is refused its memory is returned all the same; reading it goes through NULL.\<close>

lemma map_new_unchecked:
  "\<exists>mp c. upb_Map_New only_first 0 CType_Int32 CType_Int32 = Ok (Some mp, c) \<and> upb_Map_Get mp [1, 0, 0, 0] None = UB"
proof -
  have "upb_map_tokey [1, 0, 0, 0] (CTypeo_mapsize CType_Int32) = Ok [1, 0, 0, 0]"
    by (simp add: upb_map_tokey_def read_mem_def)
  then show ?thesis using upb_Hash_NoSeed_local [of "[1, 0, 0, 0]" "[]"]
    by (simp add: upb_Map_New_def upb_Map_New_sizes_def only_first_def upb_strtable_init_def upb_Log2Ceiling_def init_def
      bit_length.simps unallocated_def upb_Map_Get_def upb_strtable_lookup2_def lookup_def findentry_def tabent_size_def)
qed

end
