(* ===== verification/Upb_Mapsort.thy ===== *)
theory Upb_Mapsort
  imports Upb_Map "HOL-Library.Multiset"
begin

text \<open>
  Maps in a fixed order (\<open>_upb_mapsorter\<close> of \<open>upb/msg.c\<close> and \<open>upb/msg_internal.h\<close>), as deterministic encoding
  needs it: the entries of a map are copied to a stack of entries and sorted by the key's type. \<open>qsort\<close>
  of the C library is a parameter, of which only what the standard promises is used. What is then read
  is shown to depend on nothing but the finite map that the map stands for.
\<close>

section \<open>The comparisons\<close>

datatype field_type = FieldType_Double | FieldType_Float | FieldType_Int64 | FieldType_UInt64 | FieldType_Int32
  | FieldType_Fixed64 | FieldType_Fixed32 | FieldType_Bool | FieldType_String | FieldType_Group | FieldType_Message
  | FieldType_Bytes | FieldType_UInt32 | FieldType_Enum | FieldType_SFixed32 | FieldType_SFixed64 | FieldType_SInt32
  | FieldType_SInt64

type_synonym entry = "bytes tabent"
type_synonym compar = "entry \<Rightarrow> entry \<Rightarrow> int run"

definition compare_integers :: "int \<Rightarrow> int \<Rightarrow> int" where
  "compare_integers a b = (if a < b then - 1 else if a = b then 0 else 1)"

definition upb_mapsorter_getkeys :: "entry \<Rightarrow> entry \<Rightarrow> nat \<Rightarrow> (bytes \<times> bytes) run" where
  "upb_mapsorter_getkeys a b n =
     (case (ent_key a, ent_key b) of
        (Some ak, Some bk) \<Rightarrow>
          bind_outcome (upb_map_fromkey ak n) (\<lambda>ak. bind_outcome (upb_map_fromkey bk n) (\<lambda>bk. Ok (ak, bk)))
      | _ \<Rightarrow> UB)"

definition i64_of :: "bytes \<Rightarrow> int" where
  "i64_of bs = sint (le_word bs)"

definition u64_of :: "bytes \<Rightarrow> int" where
  "u64_of bs = uint (le_word bs)"

definition i32_of :: "bytes \<Rightarrow> int" where
  "i32_of bs = sint (ucast (le_word bs) :: u32)"

definition u32_key :: "bytes \<Rightarrow> int" where
  "u32_key bs = uint (ucast (le_word bs) :: u32)"

text \<open>An octet that is not 0 or 1 is no \<open>bool\<close>.\<close>

definition bool_of :: "bytes \<Rightarrow> int run" where
  "bool_of bs = (if bs = [0] then Ok 0 else if bs = [1] then Ok 1 else UB)"

definition upb_mapsorter_cmpi64 :: compar where
  "upb_mapsorter_cmpi64 a b =
     bind_outcome (upb_mapsorter_getkeys a b 8) (\<lambda>(a, b). Ok (compare_integers (i64_of a) (i64_of b)))"

definition upb_mapsorter_cmpu64 :: compar where
  "upb_mapsorter_cmpu64 a b =
     bind_outcome (upb_mapsorter_getkeys a b 8) (\<lambda>(a, b). Ok (compare_integers (u64_of a) (u64_of b)))"

definition upb_mapsorter_cmpi32 :: compar where
  "upb_mapsorter_cmpi32 a b =
     bind_outcome (upb_mapsorter_getkeys a b 4) (\<lambda>(a, b). Ok (compare_integers (i32_of a) (i32_of b)))"

definition upb_mapsorter_cmpu32 :: compar where
  "upb_mapsorter_cmpu32 a b =
     bind_outcome (upb_mapsorter_getkeys a b 4) (\<lambda>(a, b). Ok (compare_integers (u32_key a) (u32_key b)))"

definition upb_mapsorter_cmpbool :: compar where
  "upb_mapsorter_cmpbool a b =
     bind_outcome (upb_mapsorter_getkeys a b 1) (\<lambda>(a, b).
     bind_outcome (bool_of a) (\<lambda>a. bind_outcome (bool_of b) (\<lambda>b. Ok (compare_integers a b))))"

text \<open>The sign of \<open>memcmp\<close> is that of the first difference.\<close>

fun memcmp :: "bytes \<Rightarrow> bytes \<Rightarrow> int" where
  "memcmp (a # as) (b # bs) = (if a = b then memcmp as bs else uint a - uint b)"
| "memcmp _ _ = 0"

definition upb_mapsorter_cmpstr :: compar where
  "upb_mapsorter_cmpstr a b =
     bind_outcome (upb_mapsorter_getkeys a b 0) (\<lambda>(a, b).
       let common_size = min (length a) (length b);
           cmp = memcmp (take common_size a) (take common_size b) in
       Ok (if cmp \<noteq> 0 then - cmp else compare_integers (int (length a)) (int (length b))))"

section \<open>The sorter\<close>

text \<open>The entries are the memory of the array, NULL when it is empty; memory never written is \<open>None\<close>.\<close>

record mapsorter =
  ms_entries :: "entry option list"
  ms_size :: int
  ms_cap :: int

record sortedmap =
  sm_start :: int
  sm_pos :: int
  sm_end :: int

definition upb_mapsorter_init :: mapsorter where
  "upb_mapsorter_init = \<lparr>ms_entries = [], ms_size = 0, ms_cap = 0\<rparr>"

fun key_compar :: "field_type \<Rightarrow> compar option" where
  "key_compar FieldType_Int64 = Some upb_mapsorter_cmpi64"
| "key_compar FieldType_SFixed64 = Some upb_mapsorter_cmpi64"
| "key_compar FieldType_SInt64 = Some upb_mapsorter_cmpi64"
| "key_compar FieldType_UInt64 = Some upb_mapsorter_cmpu64"
| "key_compar FieldType_Fixed64 = Some upb_mapsorter_cmpu64"
| "key_compar FieldType_Int32 = Some upb_mapsorter_cmpi32"
| "key_compar FieldType_SInt32 = Some upb_mapsorter_cmpi32"
| "key_compar FieldType_SFixed32 = Some upb_mapsorter_cmpi32"
| "key_compar FieldType_Enum = Some upb_mapsorter_cmpi32"
| "key_compar FieldType_UInt32 = Some upb_mapsorter_cmpu32"
| "key_compar FieldType_Fixed32 = Some upb_mapsorter_cmpu32"
| "key_compar FieldType_Bool = Some upb_mapsorter_cmpbool"
| "key_compar FieldType_String = Some upb_mapsorter_cmpstr"
| "key_compar FieldType_Bytes = Some upb_mapsorter_cmpstr"
| "key_compar _ = None"

fun copy_entries :: "entry list \<Rightarrow> nat \<Rightarrow> entry option list \<Rightarrow> entry option list run" where
  "copy_entries [] dst mem = Ok mem"
| "copy_entries (src # rest) dst mem =
     (if upb_tabent_isempty src then copy_entries rest dst mem
      else if length mem \<le> dst then UB
      else copy_entries rest (dst + 1) (mem[dst := Some src]))"

text \<open>
  \<open>qs\<close> is \<open>qsort\<close> on the elements of the range; \<open>mem\<close> says whether \<open>realloc\<close> finds memory. Sizes are \<open>int\<close>s.
\<close>

type_synonym qsort_fun = "compar \<Rightarrow> entry list \<Rightarrow> entry list run"

definition grow_entries :: "bool \<Rightarrow> mapsorter \<Rightarrow> int \<Rightarrow> (bool \<times> mapsorter) run" where
  "grow_entries mem s stop =
     (if stop > ms_cap s then
        bind_outcome (upb_Log2CeilingSize (of_int stop)) (\<lambda>cap.
          Ok (if mem then (True, s\<lparr>ms_cap := int cap,
              ms_entries := take cap (ms_entries s) @ replicate (cap - length (ms_entries s)) None\<rparr>)
            else (False, s\<lparr>ms_cap := int cap, ms_entries := []\<rparr>)))
      else Ok (True, s))"

definition sort_range :: "qsort_fun \<Rightarrow> compar \<Rightarrow> entry option list \<Rightarrow> nat \<Rightarrow> nat \<Rightarrow> entry option list run" where
  "sort_range qs cmp es start n =
     (if length es < start + n \<or> None \<in> set (take n (drop start es)) then UB
      else
        bind_outcome (qs cmp (map the (take n (drop start es)))) (\<lambda>ys.
          Ok (take start es @ map Some ys @ drop (start + n) es)))"

definition upb_mapsorter_pushmap ::
    "qsort_fun \<Rightarrow> bool \<Rightarrow> mapsorter \<Rightarrow> field_type \<Rightarrow> upb_map \<Rightarrow> (bool \<times> mapsorter \<times> sortedmap) run" where
  "upb_mapsorter_pushmap qs mem s key_type mp =
     (let map_size = sint (ucast (upb_Map_Size mp) :: u32);
          start = ms_size s; stop = start + map_size;
          sm = \<lparr>sm_start = start, sm_pos = start, sm_end = stop\<rparr> in
      if stop \<ge> 2 ^ 31 \<or> stop < - (2 ^ 31) then UB
      else
        bind_outcome (grow_entries mem s stop) (\<lambda>(ok, s).
          if \<not> ok then Ok (False, s, sm)
          else
            bind_outcome (if length (tb_entries (mp_table mp)) < upb_table_size (mp_table mp) then UB
              else copy_entries (take (upb_table_size (mp_table mp)) (tb_entries (mp_table mp))) (nat start) (ms_entries s)) (\<lambda>es.
              case key_compar key_type of None \<Rightarrow> UB
              | Some compar \<Rightarrow>
                  bind_outcome (sort_range qs compar es (nat start) (nat map_size)) (\<lambda>es.
                    Ok (True, s\<lparr>ms_size := stop, ms_entries := es\<rparr>, sm)))))"

definition upb_mapsorter_popmap :: "mapsorter \<Rightarrow> sortedmap \<Rightarrow> mapsorter" where
  "upb_mapsorter_popmap s sm = s\<lparr>ms_size := sm_start sm\<rparr>"

definition upb_sortedmap_next :: "mapsorter \<Rightarrow> upb_map \<Rightarrow> sortedmap \<Rightarrow> ((bytes \<times> bytes) option \<times> sortedmap) run" where
  "upb_sortedmap_next s mp sm =
     (if sm_pos sm = sm_end sm then Ok (None, sm)
      else if sm_pos sm < 0 \<or> sm_pos sm \<ge> int (length (ms_entries s)) then UB
      else
        case ms_entries s ! nat (sm_pos sm) of None \<Rightarrow> UB
        | Some tabent \<Rightarrow>
            case ent_key tabent of None \<Rightarrow> UB
            | Some key \<Rightarrow>
                bind_outcome (upb_map_fromkey key (mp_key_size mp)) (\<lambda>k.
                bind_outcome (upb_map_fromvalue (ent_val tabent) (mp_val_size mp) (mp_views mp)) (\<lambda>v.
                  Ok (Some (k, v), sm\<lparr>sm_pos := sm_pos sm + 1\<rparr>))))"

text \<open>The loop of \<open>encode_map\<close>: what it visits, in order, with the entries it writes left aside.\<close>

fun sorted_entries :: "nat \<Rightarrow> mapsorter \<Rightarrow> upb_map \<Rightarrow> sortedmap \<Rightarrow> (bytes \<times> bytes) list run" where
  "sorted_entries 0 s mp sm = Fail ENDLESS"
| "sorted_entries (Suc fuel) s mp sm =
     bind_outcome (upb_sortedmap_next s mp sm) (\<lambda>(ent, sm).
       case ent of None \<Rightarrow> Ok []
       | Some ent \<Rightarrow> bind_outcome (sorted_entries fuel s mp sm) (\<lambda>rest. Ok (ent # rest)))"

definition encode_map_order :: "qsort_fun \<Rightarrow> bool \<Rightarrow> mapsorter \<Rightarrow> field_type \<Rightarrow> upb_map \<Rightarrow> ((bytes \<times> bytes) list \<times> mapsorter) run" where
  "encode_map_order qs mem s key_type mp =
     bind_outcome (upb_mapsorter_pushmap qs mem s key_type mp) (\<lambda>(_, s, sm).
     bind_outcome (sorted_entries (nat (sm_end sm - sm_start sm) + 1) s mp sm) (\<lambda>ents.
       Ok (ents, upb_mapsorter_popmap s sm)))"

section \<open>The order of the keys\<close>

text \<open>Integers by value; strings from the larger octet down, a prefix before what it begins.\<close>

fun str_before :: "bytes \<Rightarrow> bytes \<Rightarrow> bool" where
  "str_before [] [] \<longleftrightarrow> False"
| "str_before [] (b # bs) \<longleftrightarrow> True"
| "str_before (a # as) [] \<longleftrightarrow> False"
| "str_before (a # as) (b # bs) \<longleftrightarrow> b < a \<or> a = b \<and> str_before as bs"

fun key_bytes :: "field_type \<Rightarrow> nat" where
  "key_bytes kt =
     (if kt \<in> {FieldType_Int64, FieldType_SFixed64, FieldType_SInt64, FieldType_UInt64, FieldType_Fixed64} then 8
      else if kt = FieldType_Bool then 1
      else if kt \<in> {FieldType_String, FieldType_Bytes} then 0 else 4)"

fun key_num :: "field_type \<Rightarrow> bytes \<Rightarrow> int" where
  "key_num kt k =
     (if kt \<in> {FieldType_Int64, FieldType_SFixed64, FieldType_SInt64} then sint (le_word k)
      else if kt \<in> {FieldType_Int32, FieldType_SInt32, FieldType_SFixed32, FieldType_Enum}
        then sint (ucast (le_word k) :: u32)
      else if kt \<in> {FieldType_UInt32, FieldType_Fixed32} then uint (ucast (le_word k) :: u32)
      else uint (le_word k))"

definition key_before :: "field_type \<Rightarrow> bytes \<Rightarrow> bytes \<Rightarrow> bool" where
  "key_before kt a b =
     (if kt \<in> {FieldType_String, FieldType_Bytes} then str_before a b else key_num kt a < key_num kt b)"

text \<open>The types a key can have, and the keys of a type.\<close>

definition key_type_ok :: "field_type \<Rightarrow> bool" where
  "key_type_ok kt \<longleftrightarrow> kt \<notin> {FieldType_Double, FieldType_Float, FieldType_Message, FieldType_Group}"

definition key_ok :: "field_type \<Rightarrow> bytes \<Rightarrow> bool" where
  "key_ok kt k \<longleftrightarrow> sized (key_bytes kt) k \<and> (kt = FieldType_Bool \<longrightarrow> k = [0] \<or> k = [1])"

lemma str_before_irrefl: "\<not> str_before a a"
  by (induction a) auto

lemma str_before_trans: "str_before a b \<Longrightarrow> str_before b c \<Longrightarrow> str_before a c"
  by (induction a b arbitrary: c rule: str_before.induct) (case_tac c; auto)+

lemma str_before_total: "a \<noteq> b \<Longrightarrow> str_before a b \<or> str_before b a"
  by (induction a b rule: str_before.induct) auto

lemma memcmp_before:
  "memcmp (take n a) (take n b) = c \<Longrightarrow> n = min (length a) (length b) \<Longrightarrow>
    (c \<noteq> 0 \<longrightarrow> (- c < 0 \<longleftrightarrow> str_before a b) \<and> a \<noteq> b) \<and>
    (c = 0 \<longrightarrow> (length a < length b \<longleftrightarrow> str_before a b) \<and> (length a = length b \<longleftrightarrow> a = b))"
proof (induction a b arbitrary: n rule: str_before.induct)
  case (4 a as b bs)
  obtain m where m: "n = Suc m" "m = min (length as) (length bs)" using 4(3) by simp
  show ?case
  proof (cases "a = b")
    case True
    then have "memcmp (take m as) (take m bs) = c" using 4(2) m(1) by simp
    from 4(1) [OF this m(2)] show ?thesis using True by simp
  next
    case False
    then have "uint a \<noteq> uint b" using unsigned_word_eqI by blast
    then have c: "c = uint a - uint b" "c \<noteq> 0" using 4(2) m(1) False by auto
    then have "- c < 0 \<longleftrightarrow> b < a" by (simp add: word_less_def)
    then show ?thesis using False c(2) by simp
  qed
qed simp_all

lemma le_word_inj: "length a = length b \<Longrightarrow> length a \<le> 8 \<Longrightarrow> le_word a = le_word b \<Longrightarrow> a = b"
  by (metis le_bytes_le_word)

lemma u32_le_word_inj:
  assumes "length a = 4" "length b = 4" and eq: "(ucast (le_word a) :: u32) = ucast (le_word b)"
  shows "a = b"
proof (rule le_word_inj)
  show "le_word a = le_word b"
  proof (rule bit_word_eqI)
    fix n :: nat assume n: "n < LENGTH(64)"
    show "bit (le_word a) n = bit (le_word b) n"
    proof (cases "n < 32")
      case True
      have "bit (ucast (le_word a) :: u32) n = bit (ucast (le_word b) :: u32) n" unfolding eq ..
      then show ?thesis using True by (simp add: bit_ucast_iff)
    next
      case False
      then have "\<not> n div 8 < 4" by simp
      then show ?thesis unfolding bit_le_word assms(1,2) by blast
    qed
  qed
qed (use assms in simp_all)

lemma bool_key: "kt = FieldType_Bool \<Longrightarrow> key_ok kt a \<Longrightarrow> bool_of a = Ok (key_num kt a)"
  by (auto simp: key_ok_def bool_of_def)

lemma key_num_inj:
  assumes "key_type_ok kt" "kt \<notin> {FieldType_String, FieldType_Bytes}" "key_ok kt a" "key_ok kt b" "key_num kt a = key_num kt b"
  shows "a = b"
proof -
  have len: "length a = key_bytes kt" "length b = key_bytes kt"
    using assms(2-4) by (auto simp: key_ok_def sized_def split: if_splits)
  show ?thesis
  proof (cases "key_bytes kt = 4")
    case True
    then have "(ucast (le_word a) :: u32) = ucast (le_word b)"
      using assms(1,2,5) by (cases kt) (auto simp: key_type_ok_def intro: signed_word_eqI unsigned_word_eqI)
    then show ?thesis using len True by (intro u32_le_word_inj) simp_all
  next
    case False
    then have "le_word a = le_word b"
      using assms(1,2,5) by (cases kt) (auto simp: key_type_ok_def intro: signed_word_eqI unsigned_word_eqI)
    then show ?thesis using len by (intro le_word_inj) simp_all
  qed
qed

lemma key_before_irrefl: "\<not> key_before kt a a"
  by (simp add: key_before_def str_before_irrefl)

lemma key_before_trans: "key_before kt a b \<Longrightarrow> key_before kt b c \<Longrightarrow> key_before kt a c"
  unfolding key_before_def
  by (cases "kt \<in> {FieldType_String, FieldType_Bytes}") (use str_before_trans in \<open>auto simp del: key_num.simps\<close>)

lemma key_upto_trans:
  "key_before kt a b \<or> a = b \<Longrightarrow> key_before kt b c \<or> b = c \<Longrightarrow> key_before kt a c \<or> a = c"
  using key_before_trans by blast

lemma key_before_total:
  "key_type_ok kt \<Longrightarrow> key_ok kt a \<Longrightarrow> key_ok kt b \<Longrightarrow> a \<noteq> b \<Longrightarrow> key_before kt a b \<or> key_before kt b a"
  using key_num_inj [of kt a b] str_before_total [of a b] unfolding key_before_def
  by (cases "kt \<in> {FieldType_String, FieldType_Bytes}") (metis linorder_neqE)+

lemma compare_integers_sign:
  "compare_integers a b < 0 \<longleftrightarrow> a < b" "compare_integers a b = 0 \<longleftrightarrow> a = b"
  by (simp_all add: compare_integers_def)

text \<open>What the comparison for a key type says of two entries.\<close>

definition key_cmp :: "field_type \<Rightarrow> bytes \<Rightarrow> bytes \<Rightarrow> int" where
  "key_cmp kt a b = (if a = b then 0 else if key_before kt a b then - 1 else 1)"

lemma getkeys_sized:
  "ent_key x = Some a \<Longrightarrow> ent_key y = Some b \<Longrightarrow> sized n a \<Longrightarrow> sized n b \<Longrightarrow> upb_mapsorter_getkeys x y n = Ok (a, b)"
  using tokey_sized [of n a] tokey_sized [of n b]
  by (simp add: upb_mapsorter_getkeys_def upb_map_fromkey_def upb_map_tokey_def)

lemma key_compar_result:
  assumes kt: "key_type_ok kt" and x: "ent_key x = Some a" "key_ok kt a" and y: "ent_key y = Some b" "key_ok kt b"
  shows "\<exists>cmp c. key_compar kt = Some cmp \<and> cmp x y = Ok c \<and> (c < 0 \<longleftrightarrow> key_before kt a b) \<and> (c = 0 \<longleftrightarrow> a = b)"
proof (cases "kt \<in> {FieldType_String, FieldType_Bytes}")
  case True
  then have "sized 0 a" "sized 0 b" using x y by (auto simp: key_ok_def)
  then have keys: "upb_mapsorter_getkeys x y 0 = Ok (a, b)" by (intro getkeys_sized x y)
  define n where "n = min (length a) (length b)"
  define c where "c = memcmp (take n a) (take n b)"
  from keys have "upb_mapsorter_cmpstr x y = Ok (if c \<noteq> 0 then - c else compare_integers (int (length a)) (int (length b)))"
    by (simp add: upb_mapsorter_cmpstr_def Let_def c_def n_def)
  moreover have "key_compar kt = Some upb_mapsorter_cmpstr" using True by auto
  moreover have "key_before kt a b \<longleftrightarrow> str_before a b" using True by (simp add: key_before_def)
  ultimately show ?thesis
    using memcmp_before [OF c_def [symmetric] n_def] compare_integers_sign [of "int (length a)" "int (length b)"]
    by (cases "c = 0") auto
next
  case False
  have sized: "sized (key_bytes kt) a" "sized (key_bytes kt) b" using x y by (auto simp: key_ok_def)
  have keys: "upb_mapsorter_getkeys x y (key_bytes kt) = Ok (a, b)" by (intro getkeys_sized x y sized)
  have "\<exists>cmp. key_compar kt = Some cmp \<and> cmp x y = Ok (compare_integers (key_num kt a) (key_num kt b))"
    using kt False keys bool_key [of kt a] bool_key [of kt b] x(2) y(2)
    by (cases kt)
      (simp_all add: key_type_ok_def upb_mapsorter_cmpi64_def upb_mapsorter_cmpu64_def upb_mapsorter_cmpi32_def
        upb_mapsorter_cmpu32_def upb_mapsorter_cmpbool_def i64_of_def u64_of_def i32_of_def u32_key_def)
  moreover have "key_before kt a b \<longleftrightarrow> key_num kt a < key_num kt b" using False unfolding key_before_def by presburger
  moreover have "key_num kt a = key_num kt b \<longleftrightarrow> a = b" using key_num_inj [OF kt False x(2) y(2)] by blast
  ultimately show ?thesis using compare_integers_sign [of "key_num kt a" "key_num kt b"] by blast
qed

lemma sorted_wrt_unique:
  assumes R: "\<And>x. \<not> R x x" "\<And>x y z. R x y \<Longrightarrow> R y z \<Longrightarrow> R x z"
  shows "sorted_wrt R xs \<Longrightarrow> sorted_wrt R ys \<Longrightarrow> set xs = set ys \<Longrightarrow> xs = ys"
proof (induction xs arbitrary: ys)
  case (Cons x xs)
  then obtain y ys' where ys: "ys = y # ys'" by (cases ys) auto
  have "x = y"
  proof (rule ccontr)
    assume ne: "x \<noteq> y"
    then have "x \<in> set ys'" "y \<in> set xs" using Cons.prems(3) ys by auto
    then have "R y x" "R x y" using Cons.prems(1,2) ys by auto
    then show False using R by blast
  qed
  moreover have "x \<notin> set xs" "y \<notin> set ys'" using Cons.prems(1,2) R(1) ys by auto
  then have "set xs = set ys'" using Cons.prems(3) ys \<open>x = y\<close> by auto
  ultimately show ?case using Cons ys by auto
qed simp

section \<open>What \<open>qsort\<close> promises\<close>

definition consistent :: "('a \<Rightarrow> 'a \<Rightarrow> int) \<Rightarrow> 'a set \<Rightarrow> bool" where
  "consistent f A \<longleftrightarrow> (\<forall>x\<in>A. \<forall>y\<in>A. f x y < 0 \<longleftrightarrow> 0 < f y x) \<and>
     (\<forall>x\<in>A. \<forall>y\<in>A. \<forall>z\<in>A. f x y \<le> 0 \<longrightarrow> f y z \<le> 0 \<longrightarrow> f x z \<le> 0)"

definition qsort_ok :: "qsort_fun \<Rightarrow> bool" where
  "qsort_ok qs \<longleftrightarrow> (\<forall>cmp f xs. (\<forall>x\<in>set xs. \<forall>y\<in>set xs. cmp x y = Ok (f x y)) \<longrightarrow> consistent f (set xs) \<longrightarrow>
     (\<exists>ys. qs cmp xs = Ok ys \<and> mset ys = mset xs \<and> sorted_wrt (\<lambda>x y. f x y \<le> 0) ys))"

lemma consistent_trans:
  "consistent f A \<Longrightarrow> x \<in> A \<Longrightarrow> y \<in> A \<Longrightarrow> z \<in> A \<Longrightarrow> f x y \<le> 0 \<Longrightarrow> f y z \<le> 0 \<Longrightarrow> f x z \<le> 0"
  unfolding consistent_def by blast

lemma consistent_flip: "consistent f A \<Longrightarrow> x \<in> A \<Longrightarrow> y \<in> A \<Longrightarrow> f x y < 0 \<longleftrightarrow> 0 < f y x"
  unfolding consistent_def by blast

text \<open>A sort that keeps the promise.\<close>

fun insert_sorted :: "compar \<Rightarrow> entry \<Rightarrow> entry list \<Rightarrow> entry list run" where
  "insert_sorted cmp x [] = Ok [x]"
| "insert_sorted cmp x (y # ys) =
     bind_outcome (cmp x y) (\<lambda>c.
       if c \<le> 0 then Ok (x # y # ys) else bind_outcome (insert_sorted cmp x ys) (\<lambda>zs. Ok (y # zs)))"

fun insertion_sort :: qsort_fun where
  "insertion_sort cmp [] = Ok []"
| "insertion_sort cmp (x # xs) = bind_outcome (insertion_sort cmp xs) (insert_sorted cmp x)"

lemma insert_sorted_result:
  assumes "\<forall>a\<in>insert x (set ys). \<forall>b\<in>insert x (set ys). cmp a b = Ok (f a b)" "consistent f (insert x (set ys))"
    "sorted_wrt (\<lambda>x y. f x y \<le> 0) ys"
  shows "\<exists>zs. insert_sorted cmp x ys = Ok zs \<and> mset zs = add_mset x (mset ys) \<and> sorted_wrt (\<lambda>x y. f x y \<le> 0) zs"
  using assms
proof (induction ys)
  case (Cons y ys)
  have c: "cmp x y = Ok (f x y)" using Cons.prems(1) by simp
  show ?case
  proof (cases "f x y \<le> 0")
    case True
    have "f x z \<le> 0" if "z \<in> set ys" for z
      by (rule consistent_trans [OF Cons.prems(2), of x y z]) (use that True Cons.prems(3) in auto)
    then show ?thesis using True c Cons.prems(3) by simp
  next
    case False
    have "consistent f (insert x (set ys))" using Cons.prems(2) unfolding consistent_def list.set by blast
    moreover have "\<forall>a\<in>insert x (set ys). \<forall>b\<in>insert x (set ys). cmp a b = Ok (f a b)" using Cons.prems(1) by auto
    moreover have "sorted_wrt (\<lambda>x y. f x y \<le> 0) ys" using Cons.prems(3) by simp
    ultimately obtain zs where zs: "insert_sorted cmp x ys = Ok zs" "mset zs = add_mset x (mset ys)"
      "sorted_wrt (\<lambda>x y. f x y \<le> 0) zs" using Cons.IH by blast
    have "f y x \<le> 0" using consistent_flip [OF Cons.prems(2), of y x] False by simp
    moreover have "set zs = insert x (set ys)" using arg_cong [OF zs(2), of set_mset] by simp
    ultimately show ?thesis using zs c False Cons.prems(3) by simp
  qed
qed simp

lemma insertion_sort_ok: "qsort_ok insertion_sort"
  unfolding qsort_ok_def
proof (intro allI impI)
  fix cmp f xs
  show "\<forall>x\<in>set xs. \<forall>y\<in>set xs. cmp x y = Ok (f x y) \<Longrightarrow> consistent f (set xs) \<Longrightarrow>
    \<exists>ys. insertion_sort cmp xs = Ok ys \<and> mset ys = mset xs \<and> sorted_wrt (\<lambda>x y. f x y \<le> 0) ys"
  proof (induction xs)
    case (Cons x xs)
    have "consistent f (set xs)" using Cons.prems(2) unfolding consistent_def list.set by blast
    moreover have "\<forall>a\<in>set xs. \<forall>b\<in>set xs. cmp a b = Ok (f a b)" using Cons.prems(1) unfolding list.set by blast
    ultimately obtain ys where ys: "insertion_sort cmp xs = Ok ys" "mset ys = mset xs" "sorted_wrt (\<lambda>x y. f x y \<le> 0) ys"
      using Cons.IH by blast
    have "set ys = set xs" using ys(2) mset_eq_setD by blast
    with insert_sorted_result [of x ys cmp f] Cons.prems ys show ?case by simp
  qed simp
qed

section \<open>Pushing a map and reading it\<close>

definition sorter_wf :: "mapsorter \<Rightarrow> bool" where
  "sorter_wf s \<longleftrightarrow> 0 \<le> ms_size s \<and> ms_size s \<le> ms_cap s \<and> ms_cap s = int (length (ms_entries s))"

lemma copy_entries_result:
  "dst + length (filter (\<lambda>e. ent_key e \<noteq> None) es) \<le> length mem \<Longrightarrow>
    copy_entries es dst mem = Ok (take dst mem @ map Some (filter (\<lambda>e. ent_key e \<noteq> None) es) @
      drop (dst + length (filter (\<lambda>e. ent_key e \<noteq> None) es)) mem)"
proof (induction es arbitrary: dst mem)
  case (Cons e es)
  show ?case
  proof (cases "ent_key e = None")
    case True
    then show ?thesis using Cons by (simp add: upb_tabent_isempty_def)
  next
    case False
    have len: "dst < length mem" using Cons.prems False by simp
    have "take (Suc dst) (mem[dst := Some e]) = take dst mem @ [Some e]"
      using len by (simp add: take_Suc_conv_app_nth)
    then show ?thesis using Cons.IH [of "Suc dst" "mem[dst := Some e]"] Cons.prems False len
      by (auto simp: upb_tabent_isempty_def)
  qed
qed simp

lemma Log2CeilingSize_int:
  assumes "0 < i" "i \<le> 2 ^ 30"
  shows "\<exists>p. upb_Log2CeilingSize (of_int i) = Ok p \<and> nat i \<le> p"
proof -
  define n where "n = nat i"
  have n: "i = int n" "0 < n" "n \<le> 2 ^ 30" using assms by (auto simp: n_def)
  have u: "unat (of_nat n :: u64) = n" using n(3) by (simp add: unat_of_nat)
  have "\<exists>p. upb_Log2CeilingSize (of_nat n) = Ok p \<and> n \<le> p"
  proof (cases "n = 1")
    case True
    then show ?thesis by (simp add: upb_Log2CeilingSize_def upb_Log2Ceiling_def)
  next
    case False
    then show ?thesis using Log2CeilingSize_bounds [of "of_nat n"] n u by auto
  qed
  then show ?thesis using n(1) by simp
qed

lemma grow_entries_result:
  assumes "sorter_wf s" "ms_size s \<le> stop" "stop \<le> 2 ^ 30" "mem \<or> stop \<le> ms_cap s"
  shows "\<exists>s'. grow_entries mem s stop = Ok (True, s') \<and> sorter_wf s' \<and> ms_size s' = ms_size s \<and> stop \<le> int (length (ms_entries s')) \<and>
    take (nat (ms_size s)) (ms_entries s') = take (nat (ms_size s)) (ms_entries s)"
proof (cases "stop > ms_cap s")
  case True
  then have pos: "0 < stop" using assms(1) by (simp add: sorter_wf_def)
  obtain p where "upb_Log2CeilingSize (of_int stop) = Ok p" "nat stop \<le> p"
    using Log2CeilingSize_int [OF pos assms(3)] by blast
  then show ?thesis using assms(1,2,4) True pos
    by (auto simp: grow_entries_def sorter_wf_def min_def)
next
  case False
  then show ?thesis using assms by (auto simp: grow_entries_def sorter_wf_def)
qed

lemma sorted_entries_result:
  assumes "mp_val_size mp \<le> 8"
  shows "ms_entries s = pre @ map Some zs @ post \<Longrightarrow> sm_pos sm = int (length pre) \<Longrightarrow>
    sm_end sm = int (length pre + length zs) \<Longrightarrow>
    (\<And>e. e \<in> set zs \<Longrightarrow> ent_key e \<noteq> None \<and> sized (mp_key_size mp) (the (ent_key e)) \<and>
      (mp_val_size mp = 0 \<longrightarrow> unat (ent_val e) < length (mp_views mp))) \<Longrightarrow>
    sorted_entries (length zs + 1) s mp sm = Ok (map (\<lambda>e. (the (ent_key e), map_value mp (ent_val e))) zs)"
proof (induction zs arbitrary: pre sm)
  case Nil
  then show ?case by (simp add: upb_sortedmap_next_def)
next
  case (Cons z zs)
  obtain k where k: "ent_key z = Some k" "sized (mp_key_size mp) k" "mp_val_size mp = 0 \<longrightarrow> unat (ent_val z) < length (mp_views mp)"
    using Cons.prems(4) [of z] by auto
  have "ms_entries s ! length pre = Some z" using Cons.prems(1) by simp
  then have "upb_sortedmap_next s mp sm = Ok (Some (k, map_value mp (ent_val z)), sm\<lparr>sm_pos := int (length (pre @ [Some z]))\<rparr>)"
    using Cons.prems(1-3) k tokey_sized [OF k(2)]
    by (simp add: upb_sortedmap_next_def upb_map_fromkey_def upb_map_tokey_def upb_map_fromvalue_def map_value_def)
  moreover have "sorted_entries (length zs + 1) s mp (sm\<lparr>sm_pos := int (length (pre @ [Some z]))\<rparr>) =
    Ok (map (\<lambda>e. (the (ent_key e), map_value mp (ent_val e))) zs)"
    by (rule Cons.IH) (use Cons.prems in auto)
  ultimately show ?case using k(1) by simp
qed

text \<open>What the sorter relies on: a map whose keys are those of the type.\<close>

definition keys_ok :: "field_type \<Rightarrow> upb_map \<Rightarrow> bool" where
  "keys_ok kt mp \<longleftrightarrow> key_type_ok kt \<and> map_wf mp \<and> mp_key_size mp = key_bytes kt \<and> (\<forall>k\<in>dom (map_abs mp). key_ok kt k)"

lemma used_entries:
  assumes "keys_ok kt mp" "e \<in> set (filter (\<lambda>e. ent_key e \<noteq> None) (tb_entries (mp_table mp)))"
  shows "\<exists>k. ent_key e = Some k \<and> key_ok kt k \<and> sized (mp_key_size mp) k \<and>
    (mp_val_size mp = 0 \<longrightarrow> unat (ent_val e) < length (mp_views mp)) \<and> the_map (mp_table mp) k = Some (ent_val e)"
proof -
  have wf: "map_wf mp" "one_each (tb_entries (mp_table mp))"
    using assms(1) by (auto simp: keys_ok_def map_wf_def str_map_wf_def str_wf_def table_wf_def)
  obtain k i where k: "ent_key e = Some k" "i < length (tb_entries (mp_table mp))" "tb_entries (mp_table mp) ! i = e"
    using assms(2) by (auto simp: in_set_conv_nth)
  then have v: "the_map (mp_table mp) k = Some (ent_val e)" using table_map_at [OF wf(2), of i k] by simp
  then have "k \<in> dom (map_abs mp)" by (simp add: map_abs_def dom_def)
  then have "key_ok kt k" using assms(1) by (simp add: keys_ok_def)
  then show ?thesis using k(1) v wf(1) unfolding map_wf_def by blast
qed

lemma qsort_entries:
  assumes qs: "qsort_ok qs" and kt: "key_type_ok kt" and es: "\<forall>e\<in>set es. \<exists>k. ent_key e = Some k \<and> key_ok kt k"
    and distinct: "distinct (map (\<lambda>e. the (ent_key e)) es)"
  obtains cmp ys where "key_compar kt = Some cmp" "qs cmp es = Ok ys" "mset ys = mset es"
    "sorted_wrt (\<lambda>x y. key_before kt (the (ent_key x)) (the (ent_key y))) ys"
proof -
  obtain cmp where cmp: "key_compar kt = Some cmp" using kt by (cases kt) (auto simp: key_type_ok_def)
  define f where "f x y = (case cmp x y of Ok c \<Rightarrow> c | _ \<Rightarrow> 0)" for x y
  have f: "cmp x y = Ok (f x y) \<and> (f x y < 0 \<longleftrightarrow> key_before kt (the (ent_key x)) (the (ent_key y))) \<and>
      (f x y = 0 \<longleftrightarrow> the (ent_key x) = the (ent_key y))" if "x \<in> set es" "y \<in> set es" for x y
  proof -
    obtain a b where a: "ent_key x = Some a" "key_ok kt a" and b: "ent_key y = Some b" "key_ok kt b" using es \<open>x \<in> set es\<close> \<open>y \<in> set es\<close> by blast
    obtain c where "cmp x y = Ok c" "c < 0 \<longleftrightarrow> key_before kt a b" "c = 0 \<longleftrightarrow> a = b"
      using key_compar_result [OF kt a b] cmp by auto
    then show ?thesis using a(1) b(1) by (simp add: f_def)
  qed
  have neg: "f x y \<le> 0 \<longleftrightarrow> key_before kt (the (ent_key x)) (the (ent_key y)) \<or> the (ent_key x) = the (ent_key y)"
    if "x \<in> set es" "y \<in> set es" for x y
    using f [OF that] by linarith
  have "f x y < 0 \<longleftrightarrow> 0 < f y x" if xy: "x \<in> set es" "y \<in> set es" for x y
  proof -
    let ?x = "the (ent_key x)" and ?y = "the (ent_key y)"
    have "key_ok kt ?x" "key_ok kt ?y" using es xy by force+
    then have "?x = ?y \<or> key_before kt ?x ?y \<or> key_before kt ?y ?x" using key_before_total [OF kt] by blast
    moreover have "\<not> (key_before kt ?x ?y \<and> key_before kt ?y ?x)" using key_before_trans key_before_irrefl by blast
    moreover have "?x = ?y \<Longrightarrow> \<not> key_before kt ?x ?y \<and> \<not> key_before kt ?y ?x" using key_before_irrefl [of kt ?y] by simp
    moreover have "f y x = 0 \<longleftrightarrow> ?x = ?y" "f y x < 0 \<longleftrightarrow> key_before kt ?y ?x" using f [OF xy(2,1)] by auto
    moreover have "f x y < 0 \<longleftrightarrow> key_before kt ?x ?y" using f [OF xy] by auto
    moreover have "0 < f y x \<longleftrightarrow> \<not> f y x < 0 \<and> f y x \<noteq> 0" by auto
    ultimately show ?thesis by blast
  qed
  moreover have "f x z \<le> 0" if "x \<in> set es" "y \<in> set es" "z \<in> set es" "f x y \<le> 0" "f y z \<le> 0" for x y z
    unfolding neg [OF that(1,3)]
    by (rule key_upto_trans [OF that(4) [unfolded neg [OF that(1,2)]] that(5) [unfolded neg [OF that(2,3)]]])
  ultimately have "consistent f (set es)" unfolding consistent_def by blast
  then obtain ys where ys: "qs cmp es = Ok ys" "mset ys = mset es" "sorted_wrt (\<lambda>x y. f x y \<le> 0) ys"
    using qs f unfolding qsort_ok_def by blast
  have set: "set ys = set es" using ys(2) mset_eq_setD by blast
  have "mset (map (\<lambda>e. the (ent_key e)) ys) = mset (map (\<lambda>e. the (ent_key e)) es)" using ys(2) by simp
  then have "distinct (map (\<lambda>e. the (ent_key e)) ys)" using distinct mset_eq_imp_distinct_iff by blast
  then have "sorted_wrt (\<lambda>x y. the (ent_key x) \<noteq> the (ent_key y)) ys"
    unfolding distinct_conv_nth sorted_wrt_iff_nth_less by auto
  then have "sorted_wrt (\<lambda>x y. key_before kt (the (ent_key x)) (the (ent_key y))) ys"
    using ys(3) neg unfolding set [symmetric] sorted_wrt_iff_nth_less by (meson nth_mem less_trans)
  then show ?thesis using cmp ys(1,2) that by blast
qed

lemma pushmap_result:
  assumes qs: "qsort_ok qs" and keys: "keys_ok kt mp" and s: "sorter_wf s"
    and room: "ms_size s + int (card (dom (map_abs mp))) \<le> 2 ^ 30"
    and mem: "mem \<or> ms_size s + int (card (dom (map_abs mp))) \<le> ms_cap s"
  obtains s' ys post where
    "upb_mapsorter_pushmap qs mem s kt mp = Ok (True, s', \<lparr>sm_start = ms_size s, sm_pos = ms_size s, sm_end = ms_size s + int (length ys)\<rparr>)"
    "sorter_wf s'" "ms_entries s' = take (nat (ms_size s)) (ms_entries s) @ map Some ys @ post" "ms_size s' = ms_size s + int (length ys)"
    "mset ys = mset (filter (\<lambda>e. ent_key e \<noteq> None) (tb_entries (mp_table mp)))"
    "sorted_wrt (\<lambda>x y. key_before kt (the (ent_key x)) (the (ent_key y))) ys"
proof -
  let ?es = "tb_entries (mp_table mp)" and ?n = "card (dom (map_abs mp))" and ?k = "nat (ms_size s)"
  define us where "us = filter (\<lambda>e. ent_key e \<noteq> None) ?es"
  have wf: "map_wf mp" and kt: "key_type_ok kt" using keys by (auto simp: keys_ok_def)
  have twf: "table_wf string_hash (mp_table mp)" using wf by (simp add: map_wf_def str_map_wf_def str_wf_def)
  have size: "take (upb_table_size (mp_table mp)) ?es = ?es" "\<not> length ?es < upb_table_size (mp_table mp)"
    using twf by (simp_all add: table_wf_def table_shape_def)
  have one: "distinct (map (\<lambda>e. the (ent_key e)) us)"
    using twf by (simp add: table_wf_def one_each_def pairs_def us_def comp_def)
  have "dom (map_abs mp) = dom (the_map (mp_table mp))" by (auto simp: map_abs_def)
  then have len: "length us = ?n" using pairs_count [OF twf] by (simp add: pairs_def us_def)
  have count: "sint (ucast (upb_Map_Size mp) :: u32) = int ?n" unfolding map_size [OF wf]
    by (rule small_int) (use room s in \<open>auto simp: sorter_wf_def\<close>)
  have pos: "0 \<le> ms_size s" using s by (simp add: sorter_wf_def)
  obtain s1 where s1: "grow_entries mem s (ms_size s + int ?n) = Ok (True, s1)" "sorter_wf s1" "ms_size s1 = ms_size s"
    "ms_size s + int ?n \<le> int (length (ms_entries s1))" "take ?k (ms_entries s1) = take ?k (ms_entries s)"
    using grow_entries_result [OF s, of "ms_size s + int ?n" mem] room mem by auto
  have fits: "?k + length us \<le> length (ms_entries s1)" using s1(4) len pos by simp
  obtain cmp ys where ys: "key_compar kt = Some cmp" "qs cmp us = Ok ys" "mset ys = mset us"
    "sorted_wrt (\<lambda>x y. key_before kt (the (ent_key x)) (the (ent_key y))) ys"
    using qsort_entries [OF qs kt _ one] used_entries [OF keys] unfolding us_def by blast
  have leny: "length ys = length us" using ys(3) by (rule mset_eq_length)
  let ?post = "drop (?k + length us) (ms_entries s1)"
  have copy: "copy_entries ?es ?k (ms_entries s1) = Ok (take ?k (ms_entries s) @ map Some us @ ?post)"
    using copy_entries_result [of ?k ?es "ms_entries s1"] fits s1(5) unfolding us_def by simp
  have "?k \<le> length (ms_entries s)" using s by (simp add: sorter_wf_def nat_le_iff)
  then have lk: "length (take ?k (ms_entries s)) = ?k" by simp
  have sort: "sort_range qs cmp (take ?k (ms_entries s) @ map Some us @ ?post) ?k (length us) = Ok (take ?k (ms_entries s) @ map Some ys @ ?post)"
    using lk ys(2) by (auto simp: sort_range_def comp_def)
  let ?s' = "s1\<lparr>ms_size := ms_size s + int ?n, ms_entries := take ?k (ms_entries s) @ map Some ys @ ?post\<rparr>"
  have "length (take ?k (ms_entries s) @ map Some ys @ ?post) = length (ms_entries s1)" using lk leny fits by simp
  then have "sorter_wf ?s'" using s1(2,4) pos unfolding sorter_wf_def by simp
  moreover have "upb_mapsorter_pushmap qs mem s kt mp = Ok (True, ?s', \<lparr>sm_start = ms_size s, sm_pos = ms_size s, sm_end = ms_size s + int (length ys)\<rparr>)"
    using room pos s1(1) copy sort ys(1) leny len unfolding upb_mapsorter_pushmap_def count size(1) Let_def by (simp add: size(2) del: take_all_iff)
  ultimately show ?thesis using that [of ?s' ys ?post] ys(3,4) leny len unfolding us_def by simp
qed

lemma encode_map_order_result:
  assumes qs: "qsort_ok qs" and keys: "keys_ok kt mp" and s: "sorter_wf s"
    and room: "ms_size s + int (card (dom (map_abs mp))) \<le> 2 ^ 30"
    and mem: "mem \<or> ms_size s + int (card (dom (map_abs mp))) \<le> ms_cap s"
  shows "\<exists>ents s'. encode_map_order qs mem s kt mp = Ok (ents, s') \<and> map_of ents = map_abs mp \<and>
    sorted_wrt (key_before kt) (map fst ents) \<and> sorter_wf s' \<and> ms_size s' = ms_size s \<and>
    take (nat (ms_size s)) (ms_entries s') = take (nat (ms_size s)) (ms_entries s)"
proof -
  let ?k = "nat (ms_size s)" and ?us = "filter (\<lambda>e. ent_key e \<noteq> None) (tb_entries (mp_table mp))"
  obtain s' ys post where push:
    "upb_mapsorter_pushmap qs mem s kt mp = Ok (True, s', \<lparr>sm_start = ms_size s, sm_pos = ms_size s, sm_end = ms_size s + int (length ys)\<rparr>)"
    "sorter_wf s'" "ms_entries s' = take ?k (ms_entries s) @ map Some ys @ post" "ms_size s' = ms_size s + int (length ys)"
    "mset ys = mset ?us" "sorted_wrt (\<lambda>x y. key_before kt (the (ent_key x)) (the (ent_key y))) ys"
    using pushmap_result [OF assms] .
  have pos: "0 \<le> ms_size s" "?k \<le> length (ms_entries s)" using s by (simp_all add: sorter_wf_def nat_le_iff)
  have set: "set ys = set ?us" using push(5) mset_eq_setD by blast
  have wf: "map_wf mp" using keys by (simp add: keys_ok_def)
  let ?ents = "map (\<lambda>e. (the (ent_key e), map_value mp (ent_val e))) ys"
  have "sorted_entries (length ys + 1) s' mp \<lparr>sm_start = ms_size s, sm_pos = ms_size s, sm_end = ms_size s + int (length ys)\<rparr> = Ok ?ents"
    by (rule sorted_entries_result [OF _ push(3)])
      (use wf pos used_entries [OF keys] in \<open>force simp: map_wf_def set\<close>)+
  then have "encode_map_order qs mem s kt mp = Ok (?ents, s'\<lparr>ms_size := ms_size s\<rparr>)"
    using push(1) by (simp add: encode_map_order_def upb_mapsorter_popmap_def del: sorted_entries.simps)
  moreover have "sorted_wrt (key_before kt) (map fst ?ents)" using push(6) by (simp add: sorted_wrt_map)
  moreover have "map_of ?ents = map_abs mp"
  proof (rule ext)
    fix k
    have dist: "distinct (map fst ?ents)"
    proof -
      have "mset (map (\<lambda>e. the (ent_key e)) ys) = mset (map (\<lambda>e. the (ent_key e)) ?us)" using push(5) by simp
      moreover have "distinct (map (\<lambda>e. the (ent_key e)) ?us)" using wf
        by (simp add: map_wf_def str_map_wf_def str_wf_def table_wf_def one_each_def pairs_def comp_def)
      ultimately show ?thesis using mset_eq_imp_distinct_iff by (fastforce simp: comp_def)
    qed
    show "map_of ?ents k = map_abs mp k"
    proof (cases "the_map (mp_table mp) k")
      case None
      then have "k \<notin> (\<lambda>e. the (ent_key e)) ` set ys"
        using used_entries [OF keys] unfolding set by fastforce
      then show ?thesis using None by (auto simp: map_abs_def map_of_eq_None_iff)
    next
      case (Some v)
      then have "(k, v) \<in> set (pairs (tb_entries (mp_table mp)))" unfolding table_map_def by (rule map_of_SomeD)
      then obtain e where "e \<in> set ys" "the (ent_key e) = k" "ent_val e = v" by (auto simp: pairs_def set)
      then have "(k, map_value mp v) \<in> set ?ents" by force
      then show ?thesis using dist Some by (simp add: map_abs_def)
    qed
  qed
  moreover have "sorter_wf (s'\<lparr>ms_size := ms_size s\<rparr>)" using push(2,4) pos by (simp add: sorter_wf_def)
  ultimately show ?thesis using push(3) pos by auto
qed

lemma entries_by_key:
  assumes "sorted_wrt (key_before kt) (map fst e)"
  shows "e = map (\<lambda>k. (k, the (map_of e k))) (map fst e)"
proof -
  have "distinct (map fst e)"
    using assms key_before_irrefl unfolding distinct_conv_nth sorted_wrt_iff_nth_less by (metis linorder_neqE_nat)
  then show ?thesis unfolding map_map comp_def by (intro map_idI [symmetric]) auto
qed

text \<open>
  C36: Deterministic encoding is deterministic: two well-formed maps with keys of the given type that stand for the same finite map, whatever was inserted into them
  and deleted from them in what order, whatever their tables' sizes, are visited in the same order with the same values,
  for any two sorts that \<open>qsort\<close> may be and any contents of the sorter, as long as the sorter has or gets memory for the
  entries (at most \<open>2 ^ 30\<close> in all; without, \<open>encode_map_order_unchecked\<close>). That order is strictly ascending for the key's type
  (strings: by descending octets), every entry is visited once, and the sorter's stack is as it was.
\<close>

theorem encode_order_deterministic:
  assumes "qsort_ok qs1" "qsort_ok qs2" "keys_ok kt mp1" "keys_ok kt mp2" "map_abs mp1 = map_abs mp2"
    "sorter_wf s1" "ms_size s1 + int (card (dom (map_abs mp1))) \<le> 2 ^ 30"
    "sorter_wf s2" "ms_size s2 + int (card (dom (map_abs mp2))) \<le> 2 ^ 30"
    "mem1 \<or> ms_size s1 + int (card (dom (map_abs mp1))) \<le> ms_cap s1"
    "mem2 \<or> ms_size s2 + int (card (dom (map_abs mp2))) \<le> ms_cap s2"
  shows "\<exists>ents s1' s2'. encode_map_order qs1 mem1 s1 kt mp1 = Ok (ents, s1') \<and> encode_map_order qs2 mem2 s2 kt mp2 = Ok (ents, s2') \<and>
    map_of ents = map_abs mp1 \<and> sorted_wrt (key_before kt) (map fst ents) \<and>
    ms_size s1' = ms_size s1 \<and> take (nat (ms_size s1)) (ms_entries s1') = take (nat (ms_size s1)) (ms_entries s1)"
proof -
  obtain e1 s1' where e1: "encode_map_order qs1 mem1 s1 kt mp1 = Ok (e1, s1')" "map_of e1 = map_abs mp1"
    "sorted_wrt (key_before kt) (map fst e1)" "ms_size s1' = ms_size s1"
    "take (nat (ms_size s1)) (ms_entries s1') = take (nat (ms_size s1)) (ms_entries s1)"
    using encode_map_order_result [OF assms(1,3,6,7,10)] by blast
  obtain e2 s2' where e2: "encode_map_order qs2 mem2 s2 kt mp2 = Ok (e2, s2')" "map_of e2 = map_abs mp2"
    "sorted_wrt (key_before kt) (map fst e2)"
    using encode_map_order_result [OF assms(2,4,8,9,11)] by blast
  have "set (map fst e1) = set (map fst e2)" using e1(2) e2(2) assms(5) dom_map_of_conv_image_fst by (metis list.set_map)
  then have fst: "map fst e1 = map fst e2"
    using e1(3) e2(3) key_before_irrefl key_before_trans sorted_wrt_unique [of "key_before kt" "map fst e1" "map fst e2"] by blast
  have "e1 = map (\<lambda>k. (k, the (map_abs mp1 k))) (map fst e1)" using entries_by_key [OF e1(3)] e1(2) by simp
  moreover have "e2 = map (\<lambda>k. (k, the (map_abs mp1 k))) (map fst e2)" using entries_by_key [OF e2(3)] e2(2) assms(5) by simp
  ultimately have "e1 = e2" using fst by simp
  then show ?thesis using e1 e2(1) by blast
qed

lemma two_entries:
  assumes "sized 4 k1" "sized 4 k2" "value_ok 4 v1" "value_ok 4 v2" "k1 \<noteq> k2"
  obtains mp0 c0 mp1 c1 mp where "upb_Map_New enough 0 CType_Int32 CType_Int32 = Ok (Some mp0, c0)"
    "upb_Map_Insert mp0 k1 v1 enough 0 = Ok (Inserted, mp1, c1)" "\<exists>c. upb_Map_Insert mp1 k2 v2 enough 0 = Ok (Inserted, mp, c)"
    "map_wf mp" "map_abs mp = [k1 \<mapsto> v1, k2 \<mapsto> v2]" "mp_key_size mp = 4"
proof -
  obtain mp0 c0 where mp0: "upb_Map_New enough 0 CType_Int32 CType_Int32 = Ok (Some mp0, c0)" "map_wf mp0" "map_abs mp0 = Map.empty"
    "mp_key_size mp0 = 4" "mp_val_size mp0 = 4" "mp_views mp0 = []"
    using map_new [of 0 CType_Int32 CType_Int32] by auto
  have "dom (the_map (mp_table mp0)) = dom (map_abs mp0)" by (auto simp: map_abs_def)
  then have room: "str_room (mp_table mp0) (Suc (Suc 0))" using mp0(3) by (simp add: str_room_def load_limit_def)
  have k1: "sized (mp_key_size mp0) k1" "value_ok (mp_val_size mp0) v1" "length (mp_views mp0) + 1 < 2 ^ 32"
    using assms mp0(4-6) by simp_all
  obtain mp1 c1 where mp1: "upb_Map_Insert mp0 k1 v1 enough 0 = Ok (Inserted, mp1, c1)" "map_wf mp1"
    "map_abs mp1 = [k1 \<mapsto> v1]" "mp_key_size mp1 = 4" "mp_val_size mp1 = 4" "str_room (mp_table mp1) (Suc 0)" "length (mp_views mp1) \<le> 1"
    by (rule map_insert [OF mp0(2) k1(1,2) room k1(3), of 0]) (use mp0(3-6) in simp_all)
  have k2: "sized (mp_key_size mp1) k2" "value_ok (mp_val_size mp1) v2" "length (mp_views mp1) + 1 < 2 ^ 32"
    using assms mp1(4,5,7) by simp_all
  obtain mp c where mp: "upb_Map_Insert mp1 k2 v2 enough 0 = Ok (Inserted, mp, c)" "map_wf mp"
    "map_abs mp = [k1 \<mapsto> v1, k2 \<mapsto> v2]" "mp_key_size mp = 4"
    by (rule map_insert [OF mp1(2) k2(1,2) mp1(6) k2(3), of 0]) (use mp1(3-6) assms(5) in simp_all)
  show ?thesis by (rule that [OF mp0(1) mp1(1) _ mp(2-4)]) (use mp(1) in blast)
qed

lemma encode_order_deterministic_witness:
  "\<exists>mp1 mp2 s1' s2'. map_abs mp1 = [[1, 0, 0, 0] \<mapsto> [9, 0, 0, 0], [255, 255, 255, 255] \<mapsto> [7, 0, 0, 0]] \<and>
    encode_map_order insertion_sort True upb_mapsorter_init FieldType_Int32 mp1 =
      Ok ([([255, 255, 255, 255], [7, 0, 0, 0]), ([1, 0, 0, 0], [9, 0, 0, 0])], s1') \<and>
    encode_map_order insertion_sort True upb_mapsorter_init FieldType_Int32 mp2 =
      Ok ([([255, 255, 255, 255], [7, 0, 0, 0]), ([1, 0, 0, 0], [9, 0, 0, 0])], s2')"
proof -
  let ?k1 = "[1, 0, 0, 0] :: bytes" and ?k2 = "[255, 255, 255, 255] :: bytes"
  let ?v1 = "[9, 0, 0, 0] :: bytes" and ?v2 = "[7, 0, 0, 0] :: bytes"
  have ok: "sized 4 ?k1" "sized 4 ?k2" "value_ok 4 ?v1" "value_ok 4 ?v2" "?k1 \<noteq> ?k2" "?k2 \<noteq> ?k1"
    by (simp_all add: sized_def value_ok_def)
  obtain mp1 where mp1: "map_wf mp1" "map_abs mp1 = [?k1 \<mapsto> ?v1, ?k2 \<mapsto> ?v2]" "mp_key_size mp1 = 4"
    using two_entries [OF ok(1-5)] by metis
  obtain mp2 where mp2: "map_wf mp2" "map_abs mp2 = [?k2 \<mapsto> ?v2, ?k1 \<mapsto> ?v1]" "mp_key_size mp2 = 4"
    using two_entries [OF ok(2,1,4,3,6)] by metis
  have same: "map_abs mp1 = map_abs mp2" unfolding mp1(2) mp2(2) by (rule fun_upd_twist) simp
  have dom: "dom (map_abs mp1) = {?k2, ?k1}" unfolding mp1(2) by auto
  have keys: "keys_ok FieldType_Int32 mp1" "keys_ok FieldType_Int32 mp2"
    using mp1(1,3) mp2(1,3) dom same by (simp_all add: keys_ok_def key_type_ok_def key_ok_def sized_def)
  have s: "sorter_wf upb_mapsorter_init" "ms_size upb_mapsorter_init + int (card (dom (map_abs mp1))) \<le> 2 ^ 30"
    "ms_size upb_mapsorter_init + int (card (dom (map_abs mp2))) \<le> 2 ^ 30"
    using dom same by (simp_all add: sorter_wf_def upb_mapsorter_init_def)
  obtain ents s1' s2' where ents: "encode_map_order insertion_sort True upb_mapsorter_init FieldType_Int32 mp1 = Ok (ents, s1')"
    "encode_map_order insertion_sort True upb_mapsorter_init FieldType_Int32 mp2 = Ok (ents, s2')"
    "map_of ents = map_abs mp1" "sorted_wrt (key_before FieldType_Int32) (map fst ents)"
    using encode_order_deterministic [OF insertion_sort_ok insertion_sort_ok keys same s(1,2) s(1,3), of True True] by blast
  have "set (map fst ents) = set [?k2, ?k1]" using dom_map_of_conv_image_fst [of ents] ents(3) dom by simp
  moreover have "sorted_wrt (key_before FieldType_Int32) [?k2, ?k1]" by (simp add: key_before_def)
  ultimately have fst: "map fst ents = [?k2, ?k1]"
    using sorted_wrt_unique [of "key_before FieldType_Int32" "map fst ents" "[?k2, ?k1]"] ents(4) key_before_irrefl key_before_trans
    by blast
  have "ents = [(?k2, ?v2), (?k1, ?v1)]"
    using entries_by_key [OF ents(4)] unfolding fst ents(3) mp1(2) by simp
  then show ?thesis using ents(1,2) mp1(2) by blast
qed

text \<open>The caller does not look at whether the map was pushed: without memory the first entry is read through NULL.\<close>

lemma encode_map_order_unchecked:
  assumes "0 < sint (ucast (upb_Map_Size mp) :: u32)" "sint (ucast (upb_Map_Size mp) :: u32) \<le> 2 ^ 30"
  shows "encode_map_order qs False upb_mapsorter_init kt mp = UB"
proof -
  define n where "n = sint (ucast (upb_Map_Size mp) :: u32)"
  obtain cap where "upb_Log2CeilingSize (of_int n) = Ok cap"
    using Log2CeilingSize_int [of n] assms by (auto simp: n_def)
  then have "upb_mapsorter_pushmap qs False upb_mapsorter_init kt mp =
      Ok (False, \<lparr>ms_entries = [], ms_size = 0, ms_cap = int cap\<rparr>, \<lparr>sm_start = 0, sm_pos = 0, sm_end = n\<rparr>)"
    using assms by (simp add: upb_mapsorter_pushmap_def grow_entries_def upb_mapsorter_init_def Let_def n_def)
  then show ?thesis using assms by (simp add: encode_map_order_def upb_sortedmap_next_def n_def)
qed

end
