(* ===== verification/Spec2Isabelle.thy ===== *)
theory Spec2Isabelle
  imports Asn1_Integer Asn1_Object Asn1_Time Asn1_Strnid Asn1_Strex Asn1_Der Asn1_Parse Upb_Strmap Upb_Intmap
    Upb_Utf8 Upb_Map Upb_Mapsort
begin

text \<open>
  Verification of the C code of the repository: the ASN.1 library of BoringSSL
  (\<open>src/sugar/ios/Pods/BoringSSL-GRPC/src/crypto/asn1\<close>) and the tables and containers of the runtime of upb, the protocol buffer
  library (\<open>src/sugar/ios/Pods/gRPC-Core/third_party/upb/upb\<close>). The application of the repository is written
  in Dart; these two libraries are the C code it brings along with logic of its own. File names below are
  relative to these two directories.

  \<^bold>\<open>The machine.\<close> \<open>Prelude\<close> fixes it: \<open>char\<close> has 8 bits, \<open>int\<close> 32, \<open>long\<close>, \<open>size_t\<close> and pointers 64, in two's
  complement and little-endian order. A byte string is a list of 8-bit words (\<open>bytes\<close>). Unsigned
  arithmetic is word arithmetic; signed arithmetic is on \<open>int\<close> and the code's own comparisons with the limits
  are kept. An operation gives an \<open>outcome\<close>: \<open>Ok\<close> a result, \<open>Fail\<close> with the reason the code pushes on its error
  queue, or \<open>UB\<close>, which stands for a read or write outside a buffer, a NULL that is dereferenced or a signed
  overflow. So every theorem whose conclusion has \<open>Ok\<close> or \<open>Fail\<close> also says that the code stays within its
  memory. \<open>malloc\<close> is a parameter, an \<open>allocator\<close> that answers each request by the number of the
  request (the clock) and its size, with the old contents of the new memory or a refusal; the theorems hold for every
  allocator, those that need the memory say so.

  \<^bold>\<open>ASN.1, strings and numbers.\<close>
  \<^item> \<open>Asn1_Consts\<close>: the constants and error reasons of the public headers, which the repository does not hold.
  \<^item> \<open>Asn1_Header\<close> (\<open>asn1_lib.c\<close>): \<open>ASN1_get_object\<close> with its tag and length parsers on the code's own bounds,
    \<open>ASN1_put_object\<close>, \<open>ASN1_object_size\<close>: round trip, no read outside the input, sizes.
  \<^item> \<open>Asn1_String\<close> (\<open>asn1_lib.c\<close>, \<open>a_octet.c\<close>): the record \<open>asn1_string\<close> (\<open>length\<close>, \<open>type\<close>, \<open>data\<close>, \<open>flags\<close>; NULL is
    \<open>None\<close>), allocation, \<open>ASN1_STRING_set\<close> with its \<open>realloc\<close>, copying. The invariant is \<open>wf_string\<close>.
  \<^item> \<open>Asn1_BitString\<close> (\<open>a_bitstr.c\<close>), \<open>Asn1_Cmp\<close> (comparisons), \<open>Asn1_Integer\<close> (\<open>a_int.c\<close>, \<open>a_enum.c\<close>), \<open>Asn1_Object\<close>
    (\<open>a_bool.c\<close>, \<open>a_object.c\<close>): the content codecs, their values and round trips. Big numbers are a parameter
    with the laws \<open>bn_laws\<close>.
  \<^item> \<open>Asn1_Julian\<close>, \<open>Asn1_Gmtime\<close> (\<open>time_support.c\<close>), \<open>Asn1_Time\<close> (\<open>a_utctm.c\<close>, \<open>a_gentm.c\<close>, \<open>a_time.c\<close>): calendar
    arithmetic against day counting, the parsers and writers of times. The system's \<open>gmtime_r\<close> is a parameter.
  \<^item> \<open>Char_Codec\<close>: the contract of a character encoding (locales \<open>char_codec\<close>, \<open>canonical_codec\<close>), interpreted for
    UTF-8 in \<open>Asn1_Utf8\<close> (\<open>a_utf8.c\<close>) and for Latin-1, UCS-2 and UTF-32 in \<open>Asn1_Mbstring\<close> (\<open>a_mbstr.c\<close>, \<open>a_print.c\<close>).
  \<^item> \<open>Asn1_Strnid\<close> (\<open>a_strnid.c\<close>): the table of limits; \<open>Asn1_Strex\<close> (\<open>a_strex.c\<close>, \<open>asn1_par.c\<close>, \<open>f_int.c\<close>,
    \<open>f_string.c\<close>): printing with escapes. \<open>BIO_write\<close> is a parameter.

  \<^bold>\<open>ASN.1, items.\<close> \<open>Asn1_Item\<close> (\<open>tasn_utl.c\<close>, \<open>a_type.c\<close>) has the items and templates that describe a type as
  datatypes, an environment that names them (an item refers to others by number) and the values they describe as
  trees, a pointer being the value it points to. \<open>Asn1_Alloc\<close> (\<open>tasn_new.c\<close>, \<open>tasn_fre.c\<close>) makes and frees values,
  \<open>Asn1_Encode\<close> (\<open>tasn_enc.c\<close>) and \<open>Asn1_Decode\<close> (\<open>tasn_dec.c\<close>) are the two interpreters of the grammar;
  \<open>Asn1_Typ\<close> has the basic items (\<open>tasn_typ.c\<close>) and the operations through them. The functions that follow items
  to other items take the depth as an argument: the decoder counts the code's own limit
  \<open>ASN1_MAX_CONSTRUCTED_NEST\<close> (30) down, so it is total without a further bound; encoding, allocation and freeing,
  which the code does not limit, get \<open>env_stack\<close>, how deep the recursion may go before the C stack is used up, and are \<open>UB\<close>
  beyond it; the theorems hold for every value of it. \<open>Asn1_Der\<close> proves the encoder (the length pass and the
  writing pass agree, SET OF is in a canonical order), \<open>Asn1_Parse\<close> where the decoder leaves its input
  pointer and header cache.

  \<^bold>\<open>upb, tables.\<close> \<open>Upb_Table\<close> (the first part of \<open>table.c\<close>) is the chained hash table in one array of entries; the \<open>next\<close>
  pointers are indices. \<open>Upb_Chains\<close> states its invariant, \<open>Table_Contract\<close> the contract of a finite map
  (locale \<open>map_impl\<close>) with what its clients rely on, and \<open>Upb_Refine\<close> proves the contract for every
  hash function and comparison (locale \<open>hash_key\<close>, a \<open>sublocale\<close> of the contract). \<open>Upb_Hash\<close> is the hash function, with
  every load checked. \<open>Upb_Strtable\<close> and \<open>Upb_Inttable\<close> are the two tables, \<open>Upb_Strmap\<close> and \<open>Upb_Intmap\<close> interpret
  the locales on them and prove that they are finite maps, through growing, compaction and iteration.
  A walk along a chain gets the number of entries as fuel and fails with \<open>ENDLESS\<close> when it is used up, which is the
  exact condition for a walk that never ends; the theorems show it does not happen. A resize inserts into a new
  table, which may itself grow; 32 levels are enough since a size is at most \<open>2 ^ 31\<close> entries.

  \<^bold>\<open>upb, containers.\<close> What generated accessors and the decoder work on, with the arena as a parameter: an \<open>arena\<close> says which
  request is met, a \<open>storage\<close> also what the memory holds then.
  \<^item> \<open>Upb_Array\<close> (\<open>array.c\<close>, the array part of \<open>msg.c\<close>): an array is its memory, every access checked; \<open>array_refines_list\<close>
    shows that it is a list for every storage, refusals included.
  \<^item> \<open>Upb_Message\<close> (\<open>msg.c\<close>): the block that unknown fields fill from below and extensions from above; \<open>message_refines\<close>
    shows that they are a byte string and a finite map, for at most \<open>2 ^ 26\<close> bytes in all.
  \<^item> \<open>Upb_Map\<close> (\<open>map.c\<close>, the map part of \<open>msg_internal.h\<close>): map fields on string tables; \<open>map_refines\<close> shows that they are
    finite maps when memory is had, \<open>map_replace_oom\<close> what happens when it is not.
  \<^item> \<open>Upb_Mapsort\<close> (the sorter in \<open>msg.c\<close>, used by \<open>encode_map\<close>): the comparisons by key type, the stack of sorted entries; \<open>qsort\<close>
    is a parameter with the promise \<open>qsort_ok\<close>, kept by \<open>insertion_sort\<close>. \<open>encode_order_deterministic\<close>: the order depends on the
    finite map alone.
  \<^item> \<open>Upb_Utf8\<close> (\<open>utf8_range/naive.c\<close>, \<open>internal/decode.h\<close>): the portable validator and the check of string fields, against
    the characters of Unicode. \<open>Upb_Bits\<close> has the bits of words in memory that these theories share.

  The tables hold at most \<open>2 ^ 30 * 85 / 100\<close> keys; the theorems on sequences of operations allow 900000000 of
  them, which stays below that whatever they are.

  \<^bold>\<open>Findings.\<close> \<open>strtable_resize_loses\<close>, \<open>next2_skips_array\<close>, \<open>removeiter_loses_chain\<close>, \<open>remove_without_hash\<close>,
  \<open>remove_from_size_0\<close>, \<open>init_too_small\<close>, \<open>init_overflow\<close>, \<open>map_replace_oom\<close>, \<open>map_new_unchecked\<close>,
  \<open>encode_map_order_unchecked\<close>, \<open>add_unknown_too_long\<close>, \<open>enumerated_set_get\<close>, \<open>julian_adj_overflow\<close>,
  \<open>set_by_nid_outside_mask\<close> and \<open>single_hash_unescaped\<close> prove that the code does not do what its comments or its standard
  say, on concrete or general inputs.

  \<^bold>\<open>Not modelled.\<close> Freeing of plain strings (memory management only), \<open>ASN1_STRING_print_ex_fp\<close> (a \<open>FILE\<close> around
  \<open>print_ex\<close>), locks (operations are sequential; what another thread may have done in between is a
  parameter where it matters). Of upb: the arena, whose answers are parameters here; the decoder and the encoder of
  messages, which follow memory layouts given by generated tables; the extension registry, status messages, descriptors,
  reflection, JSON and text formats, the generated tables and accessors, and the SSE and NEON validators, which are written with
  intrinsics. Everything outside C: gRPC and Firestore (C++), the Firebase pods (Objective-C, Swift), the application (Dart).
\<close>

end
